(* ===== verification/DS_Prelude.thy ===== *)
theory DS_Prelude
  imports Main "HOL-Library.Word"
begin

text \<open>
  What the components share: the names of the machine types, transition systems given by
  an executable move function, their reachable states, the two contracts every concurrent
  component is proved against (an inductive invariant, a forward simulation), the mutual
  exclusion contract of the locks, the FIFO contract of the queues, and generic facts on
  words and lists.
\<close>

unbundle bit_operations_syntax

subsection \<open>Names of types\<close>

type_synonym tid = nat
type_synonym u8 = "8 word"
type_synonym u32 = "32 word"
type_synonym u64 = "64 word"

named_theorems inv_intros \<open>introduction rules for invariants\<close>
named_theorems move_defs \<open>definitions a step of a component unfolds to\<close>

subsection \<open>Transition systems\<close>

text \<open>
  A component with several threads is a state type and a move function: \<open>move e s\<close> is the
  state after the event \<open>e\<close> (which thread moves, and how a choice the code leaves open is
  resolved), \<open>None\<close> when the event cannot happen in \<open>s\<close>. Every move is one atomic access
  of the source, so the interleavings are the sequentially consistent ones.
\<close>

inductive steps_of :: "('e \<Rightarrow> 's \<Rightarrow> 's option) \<Rightarrow> 's \<Rightarrow> 's \<Rightarrow> bool" for move where
  step: "move e s = Some t \<Longrightarrow> steps_of move s t"

inductive_simps steps_of_iff: "steps_of move s t"

inductive reach :: "('s \<Rightarrow> bool) \<Rightarrow> ('e \<Rightarrow> 's \<Rightarrow> 's option) \<Rightarrow> 's \<Rightarrow> bool" for init move where
  start: "init s \<Longrightarrow> reach init move s"
| move: "reach init move s \<Longrightarrow> steps_of move s t \<Longrightarrow> reach init move t"

lemma reach_move: "reach init move s \<Longrightarrow> move e s = Some t \<Longrightarrow> reach init move t"
  by (blast intro: reach.move steps_of.step)

text \<open>Running a schedule: a list of events, \<open>None\<close> if one of them cannot happen.\<close>

fun run :: "('e \<Rightarrow> 's \<Rightarrow> 's option) \<Rightarrow> 'e list \<Rightarrow> 's \<Rightarrow> 's option" where
  "run move [] s = Some s"
| "run move (e # es) s = (case move e s of None \<Rightarrow> None | Some t \<Rightarrow> run move es t)"

lemma reach_run: "reach init move s \<Longrightarrow> run move es s = Some t \<Longrightarrow> reach init move t"
  by (induction es arbitrary: s) (auto split: option.splits dest: reach_move)

lemma run_append:
  "run move (es @ fs) s = (case run move es s of None \<Rightarrow> None | Some t \<Rightarrow> run move fs t)"
  by (induction es arbitrary: s) (auto split: option.splits)

text \<open>A predicate every move keeps is kept by a schedule.\<close>

lemma run_preserves:
  assumes "run move es s = Some t" and "P s"
    and "\<And>e u v. P u \<Longrightarrow> move e u = Some v \<Longrightarrow> P v"
  shows "P t"
  using assms(1,2) by (induction es arbitrary: s) (auto split: option.splits dest: assms(3))

lemma run_reach_start:
  "init s \<Longrightarrow> run move es s = Some t \<Longrightarrow> reach init move t"
  by (blast intro: reach_run reach.start)

text \<open>The same for a schedule of events that are all \<open>ok\<close>.\<close>

lemma run_preserves_on:
  assumes "run move es s = Some t" and "P s" and "list_all ok es"
    and "\<And>e u v. ok e \<Longrightarrow> P u \<Longrightarrow> move e u = Some v \<Longrightarrow> P v"
  shows "P t"
  using assms(1-3) by (induction es arbitrary: s) (auto split: option.splits dest: assms(4))

text \<open>A state that a schedule leads to, described by a predicate a computation decides.\<close>

lemma reach_witness:
  assumes "init s" and "case run move es s of None \<Rightarrow> False | Some t \<Rightarrow> P t"
  shows "\<exists>t. reach init move t \<and> P t"
  using assms by (auto split: option.splits dest: run_reach_start)

text \<open>
  The runs that stay within a bound: a move is taken only if the state it leads to satisfies
  \<open>ok\<close>. A theorem about \<open>reach init (within ok move)\<close> is about every run in which no state has
  left the bound.
\<close>

definition within :: "('s \<Rightarrow> bool) \<Rightarrow> ('e \<Rightarrow> 's \<Rightarrow> 's option) \<Rightarrow> 'e \<Rightarrow> 's \<Rightarrow> 's option" where
  "within ok move e s = (case move e s of None \<Rightarrow> None | Some t \<Rightarrow> if ok t then Some t else None)"

lemma within_Some [simp]: "within ok move e s = Some t \<longleftrightarrow> move e s = Some t \<and> ok t"
  by (auto simp: within_def split: option.splits)

lemma reach_within_mono: "reach init (within P move) s \<Longrightarrow> (\<And>t. P t \<Longrightarrow> Q t) \<Longrightarrow> reach init (within Q move) s"
  by (induction rule: reach.induct) (auto simp: steps_of_iff intro: reach.start reach_move)

text \<open>Every run stays within some bound of a size.\<close>

lemma reach_bounded: "reach init move s \<Longrightarrow> \<exists>n. reach init (within (\<lambda>t. f t \<le> n) move) s" for f :: "'s \<Rightarrow> nat"
proof (induction rule: reach.induct)
  case (start s)
  then show ?case by (blast intro: reach.start)
next
  case (move s t)
  then obtain n e where n: "reach init (within (\<lambda>t. f t \<le> n) move) s" and e: "move e s = Some t"
    by (auto simp: steps_of_iff)
  from n have "reach init (within (\<lambda>u. f u \<le> max n (f t)) move) s"
    by (rule reach_within_mono) simp
  then have "reach init (within (\<lambda>u. f u \<le> max n (f t)) move) t"
    by (rule reach_move [where e = e]) (use e in simp)
  then show ?case by blast
qed

subsection \<open>The contract of an invariant\<close>

locale invariant_system =
  fixes init :: "'s \<Rightarrow> bool"
    and move :: "'e \<Rightarrow> 's \<Rightarrow> 's option"
    and inv :: "'s \<Rightarrow> bool"
  assumes inv_init: "init s \<Longrightarrow> inv s"
    and inv_move: "inv s \<Longrightarrow> move e s = Some t \<Longrightarrow> inv t"
begin

lemma reach_inv: "reach init move s \<Longrightarrow> inv s"
  by (induction rule: reach.induct) (auto simp: steps_of_iff intro: inv_init inv_move)

lemma run_inv: "inv s \<Longrightarrow> run move es s = Some t \<Longrightarrow> inv t"
  by (rule run_preserves [where P = inv]) (auto intro: inv_move)

text \<open>A state function that every move keeps under the invariant is constant on a run.\<close>

lemma run_const:
  assumes "inv s" and "run move es s = Some t"
    and "\<And>e u v. inv u \<Longrightarrow> move e u = Some v \<Longrightarrow> f v = f u"
  shows "f t = f s"
  using assms(1,2)
proof (induction es arbitrary: s)
  case Nil
  then show ?case by simp
next
  case (Cons e es)
  then obtain u where u: "move e s = Some u" and t: "run move es u = Some t"
    by (auto split: option.splits)
  with Cons.prems(1) have "f u = f s" and "inv u" by (auto intro: assms(3) inv_move)
  with t Cons.IH show ?case by simp
qed

end

text \<open>
  A rank that every move lowers, but for the \<open>extra\<close> ones, which may raise it by less than \<open>cost\<close>: it bounds
  the length of a schedule by the number of the extra moves.
\<close>

locale ranked_system = invariant_system init move inv
  for init :: "'s \<Rightarrow> bool" and move :: "'e \<Rightarrow> 's \<Rightarrow> 's option" and inv :: "'s \<Rightarrow> bool" +
  fixes rank :: "'s \<Rightarrow> nat" and extra :: "'e \<Rightarrow> bool" and cost :: nat
  assumes rank_move: "inv s \<Longrightarrow> move e s = Some t \<Longrightarrow> rank t + 1 \<le> rank s + (if extra e then cost else 0)"
begin

lemma run_rank: "inv s \<Longrightarrow> run move es s = Some t \<Longrightarrow> rank t + length es \<le> rank s + cost * length (filter extra es)"
proof (induction es arbitrary: s)
  case (Cons e es)
  then obtain u where u: "move e s = Some u" "run move es u = Some t" by (auto split: option.splits)
  from Cons.IH [OF inv_move [OF Cons.prems(1) u(1)] u(2)] rank_move [OF Cons.prems(1) u(1)]
  show ?case by (auto split: if_splits)
qed simp

end

subsection \<open>The contract of a forward simulation\<close>

text \<open>
  Every concrete move is an abstract move of the state's abstraction, or leaves the
  abstraction as it is. Then the abstraction of a reachable state is reachable.
\<close>

locale simulation = invariant_system init move inv
  for init :: "'s \<Rightarrow> bool" and move :: "'e \<Rightarrow> 's \<Rightarrow> 's option" and inv :: "'s \<Rightarrow> bool" +
  fixes ainit :: "'a \<Rightarrow> bool"
    and amove :: "'f \<Rightarrow> 'a \<Rightarrow> 'a option"
    and abs :: "'s \<Rightarrow> 'a"
  assumes abs_init: "init s \<Longrightarrow> ainit (abs s)"
    and abs_move: "inv s \<Longrightarrow> move e s = Some t \<Longrightarrow> abs t = abs s \<or> (\<exists>f. amove f (abs s) = Some (abs t))"
begin

lemma reach_abs: "reach init move s \<Longrightarrow> reach ainit amove (abs s)"
proof (induction rule: reach.induct)
  case (start s)
  then show ?case by (blast intro: reach.start abs_init)
next
  case (move s t)
  from move.hyps(2) obtain e where e: "move e s = Some t" by (auto simp: steps_of_iff)
  from move.hyps(1) have "inv s" by (rule reach_inv)
  from abs_move [OF this e] move.IH show ?case by (auto intro: reach_move)
qed

text \<open>An abstract schedule for every concrete one.\<close>

lemma run_abs:
  assumes "inv s" and "run move es s = Some t"
  shows "\<exists>fs. run amove fs (abs s) = Some (abs t)"
  using assms
proof (induction es arbitrary: s)
  case Nil
  then have "run amove [] (abs s) = Some (abs t)" by simp
  then show ?case by blast
next
  case (Cons e es)
  then obtain u where u: "move e s = Some u" and t: "run move es u = Some t"
    by (auto split: option.splits)
  from Cons.prems(1) u have "inv u" by (rule inv_move)
  with t Cons.IH obtain fs where fs: "run amove fs (abs u) = Some (abs t)" by blast
  from abs_move [OF Cons.prems(1) u] show ?case
  proof
    assume "abs u = abs s"
    with fs show ?thesis by auto
  next
    assume "\<exists>f. amove f (abs s) = Some (abs u)"
    then obtain f where "amove f (abs s) = Some (abs u)" by blast
    with fs have "run amove (f # fs) (abs s) = Some (abs t)" by simp
    then show ?thesis by blast
  qed
qed

end

subsection \<open>The contract of a lock\<close>

text \<open>
  \<open>holds s t\<close>: thread \<open>t\<close> is past its lock operation and before its unlock operation. What
  a lock promises its clients is one fact about the invariant.
\<close>

locale lock_system = invariant_system init move inv
  for init :: "'s \<Rightarrow> bool" and move :: "'e \<Rightarrow> 's \<Rightarrow> 's option" and inv :: "'s \<Rightarrow> bool" +
  fixes holds :: "'s \<Rightarrow> tid \<Rightarrow> bool"
  assumes inv_exclusive: "inv s \<Longrightarrow> holds s t \<Longrightarrow> holds s u \<Longrightarrow> t = u"
begin

lemma exclusive: "reach init move s \<Longrightarrow> holds s t \<Longrightarrow> holds s u \<Longrightarrow> t = u"
  by (blast dest: reach_inv inv_exclusive)

lemma holders_le_one: "reach init move s \<Longrightarrow> card (Collect (holds s)) \<le> 1"
proof (cases "\<exists>t. holds s t")
  case True
  then obtain t where t: "holds s t" by blast
  assume "reach init move s"
  with t have "Collect (holds s) = {t}" by (auto dest: exclusive)
  then show ?thesis by simp
next
  case False
  then have no: "Collect (holds s) = {}" by auto
  show ?thesis unfolding no by simp
qed

end

text \<open>A flag that is set exactly while one thread owns what it guards.\<close>

definition sole_owner :: "bool \<Rightarrow> (tid \<Rightarrow> bool) \<Rightarrow> bool" where
  "sole_owner flag owns \<longleftrightarrow> (if flag then \<exists>t. \<forall>u. owns u \<longleftrightarrow> u = t else \<forall>u. \<not> owns u)"

lemma sole_owner_unique: "sole_owner flag owns \<Longrightarrow> owns t \<Longrightarrow> owns u \<Longrightarrow> t = u"
  by (auto simp: sole_owner_def split: if_splits)

lemma sole_owner_flag: "sole_owner flag owns \<Longrightarrow> owns t \<Longrightarrow> flag"
  by (auto simp: sole_owner_def split: if_splits)

lemma sole_owner_cong:
  "sole_owner flag owns \<Longrightarrow> (\<And>u. owns' u \<longleftrightarrow> owns u) \<Longrightarrow> sole_owner flag owns'"
  by (simp add: sole_owner_def)

lemma sole_owner_acquire:
  "sole_owner False owns \<Longrightarrow> (\<And>u. owns' u \<longleftrightarrow> owns u \<or> u = t) \<Longrightarrow> sole_owner True owns'"
  by (auto simp: sole_owner_def)

lemma sole_owner_release:
  "sole_owner flag owns \<Longrightarrow> owns t \<Longrightarrow> (\<And>u. owns' u \<longleftrightarrow> owns u \<and> u \<noteq> t) \<Longrightarrow> sole_owner False owns'"
  by (auto simp: sole_owner_def split: if_splits)

subsection \<open>Storage\<close>

text \<open>
  One slot of untyped storage that objects are constructed in by placement new: raw bytes,
  a live object, or an object that has been moved from and still waits for its destructor.
\<close>

datatype 'a cell = Raw | Live 'a | Husk

fun live_value :: "'a cell \<Rightarrow> 'a option" where
  "live_value (Live v) = Some v"
| "live_value _ = None"

lemma live_value_Some [simp]: "live_value c = Some v \<longleftrightarrow> c = Live v"
  by (cases c) auto

text \<open>Two positions of a window of \<open>n\<close> fall into different slots of a ring of \<open>n\<close>.\<close>

lemma mod_window: "p mod n = q mod n \<Longrightarrow> p < q + n \<Longrightarrow> q < p + n \<Longrightarrow> p = q" for p q n :: nat
proof (induction p q rule: linorder_wlog)
  case (le p q)
  then have "n dvd q - p" by (metis mod_eq_dvd_iff_nat)
  with le show ?case by (auto dest: dvd_imp_le)
next
  case (sym p q)
  then show ?case by metis
qed

subsection \<open>Ring buffers\<close>

text \<open>
  The \<open>n\<close> positions from \<open>h\<close> on, each in its slot of a ring of \<open>n\<close> slots: \<open>f p\<close> is what the
  slot of position \<open>p\<close> holds.
\<close>

definition ring_view :: "nat \<Rightarrow> (nat \<Rightarrow> 'c) \<Rightarrow> nat \<Rightarrow> (nat \<Rightarrow> 'c) \<Rightarrow> bool" where
  "ring_view n ring h f \<longleftrightarrow> (\<forall>p. h \<le> p \<longrightarrow> p < h + n \<longrightarrow> ring (p mod n) = f p)"

lemma ring_viewD: "ring_view n ring h f \<Longrightarrow> h \<le> p \<Longrightarrow> p < h + n \<Longrightarrow> ring (p mod n) = f p"
  by (simp add: ring_view_def)

lemma ring_view_cong:
  "ring_view n ring h f \<Longrightarrow> (\<And>p. h \<le> p \<Longrightarrow> p < h + n \<Longrightarrow> f p = g p) \<Longrightarrow> ring_view n ring h g"
  by (simp add: ring_view_def)

lemma ring_view_update:
  assumes "ring_view n ring h f" and "h \<le> p" and "p < h + n"
  shows "ring_view n (ring(p mod n := c)) h (f(p := c))"
  unfolding ring_view_def
proof (intro allI impI)
  fix q assume q: "h \<le> q" "q < h + n"
  show "(ring(p mod n := c)) (q mod n) = (f(p := c)) q"
  proof (cases "q = p")
    case False
    then have "q mod n \<noteq> p mod n" using assms(2,3) q mod_window [of q n p] by auto
    with False q assms(1) show ?thesis by (simp add: ring_viewD)
  qed simp
qed

lemma ring_view_advance:
  assumes "ring_view n ring h f" and "0 < n"
  shows "ring_view n ring (Suc h) (f(h + n := f h))"
  unfolding ring_view_def
proof (intro allI impI)
  fix p assume p: "Suc h \<le> p" "p < Suc h + n"
  show "ring (p mod n) = (f(h + n := f h)) p"
  proof (cases "p = h + n")
    case True
    with assms ring_viewD [OF assms(1), of h] show ?thesis by simp
  next
    case False
    with p assms(1) show ?thesis by (simp add: ring_viewD)
  qed
qed

text \<open>Every slot of the ring is the slot of a position of the window.\<close>

lemma window_position:
  fixes h i n :: nat
  assumes "i < n"
  shows "\<exists>p. h \<le> p \<and> p < h + n \<and> p mod n = i"
proof (cases "h mod n \<le> i")
  case True
  have "h = n * (h div n) + h mod n" by simp
  with True assms show ?thesis by (intro exI [of _ "n * (h div n) + i"] conjI) (linarith, linarith, simp)
next
  case False
  have "h = n * (h div n) + h mod n" "h mod n < n" using assms by simp_all
  with False assms show ?thesis by (intro exI [of _ "n * Suc (h div n) + i"] conjI)
        (subst mult_Suc_right, linarith, subst mult_Suc_right, linarith, simp del: mult_Suc_right)
qed

lemma ring_view_const: "ring_view n ring h (\<lambda>_. c) \<Longrightarrow> i < n \<Longrightarrow> ring i = c"
  using window_position [of i n h] by (auto dest: ring_viewD)

subsection \<open>Words\<close>

lemma unat_inc: "unat x + 1 < 2 ^ LENGTH('a) \<Longrightarrow> unat (x + 1) = unat x + 1" for x :: "'a::len word"
  by (simp add: unat_word_ariths)

lemma unat_one_plus: "Suc (unat x) < 2 ^ LENGTH('a) \<Longrightarrow> unat (1 + x) = Suc (unat x)" for x :: "'a::len word"
  using unat_inc [of x] by (subst add.commute) simp

lemma unat_dec: "x \<noteq> 0 \<Longrightarrow> unat (x - 1) = unat x - 1" for x :: "'a::len word"
  by (rule unat_minus_one)

text \<open>\<open>i & (2^k - 1)\<close> is the remainder modulo \<open>2 ^ k\<close>.\<close>

lemma unat_and_mask: "unat (x AND mask k) = unat x mod 2 ^ k" for x :: "'a::len word"
  by (simp only: take_bit_eq_mask [symmetric] unsigned_take_bit_eq) (simp only: take_bit_eq_mod)

text \<open>The test \<open>w & (w - 1) == 0\<close> accepts the powers of two.\<close>

lemma nat_power_of_two:
  "0 < m \<Longrightarrow> m AND (m - 1) = 0 \<Longrightarrow> \<exists>k. m = 2 ^ k" for m :: nat
proof (induction m rule: less_induct)
  case (less m)
  show ?case
  proof (cases "m = 1")
    case True
    then show ?thesis by (intro exI [of _ 0]) simp
  next
    case False
    have rec: "m AND (m - 1) = of_bool (odd m \<and> odd (m - 1)) + 2 * ((m div 2) AND ((m - 1) div 2))"
      by (rule and_rec)
    show ?thesis
    proof (cases "odd m")
      case True
      then have "(m - 1) div 2 = m div 2" by presburger
      with rec less.prems True False show ?thesis by auto
    next
      case False
      with less.prems have "(m - 1) div 2 = m div 2 - 1" "0 < m div 2" "m div 2 < m" by presburger+
      with less.IH [of "m div 2"] rec less.prems(2) obtain k where "m div 2 = 2 ^ k" by auto
      with False have "m = 2 ^ Suc k" by auto
      then show ?thesis by blast
    qed
  qed
qed

lemma word_power_of_two:
  fixes w :: "'a::len word"
  assumes "w \<noteq> 0" and "w AND (w - 1) = 0"
  shows "\<exists>k < LENGTH('a). unat w = 2 ^ k \<and> w - 1 = mask k"
proof -
  have "unat w AND (unat w - 1) = unat (w AND (w - 1))"
    using assms(1) by (simp add: unsigned_and_eq unat_dec)
  with assms nat_power_of_two [of "unat w"] obtain k where k: "unat w = 2 ^ k"
    by (auto simp: unat_gt_0)
  have "unat w < 2 ^ LENGTH('a)" by (rule unsigned_less)
  with k have "k < LENGTH('a)" by simp
  moreover have "w = of_nat (unat w)" by simp
  with k have "w = 2 ^ k" by (simp only: of_nat_power of_nat_numeral)
  ultimately show ?thesis using k by (auto simp: mask_eq_exp_minus_1)
qed

end
