(* ===== verification/Peterson.thy ===== *)
theory Peterson
  imports DS_Prelude
begin

text \<open>
  \<open>peterson.cpp\<close>: the two entry protocols for processes 0 and 1 over the shared variables
  \<open>turn\<close> and \<open>interested\<close>. Every access of a shared variable is one move; the loop
  conditions read \<open>interested[other]\<close> and then, only if it is true, \<open>turn\<close>.
\<close>

subsection \<open>State\<close>

text \<open>The program points of one process, in the order of the code.\<close>

datatype pet_pc =
    Outside
  | Set_turn \<comment> \<open>classic: \<open>interested\<close> is set, about to give the turn away\<close>
  | Spin_interested \<comment> \<open>about to read \<open>interested[other]\<close>\<close>
  | Spin_turn \<comment> \<open>\<open>interested[other]\<close> was true, about to read \<open>turn\<close>\<close>
  | Take_turn \<comment> \<open>tweaked: the loop has ended, about to take the turn\<close>
  | Critical
  | Leave_turn \<comment> \<open>tweaked: \<open>interested\<close> is cleared, about to give the turn away\<close>

record pet =
  turn :: int
  interested :: "nat \<Rightarrow> int"
  pcs :: "nat \<Rightarrow> pet_pc"

definition other :: "nat \<Rightarrow> nat" where
  "other process = 1 - process"

definition pet_init :: "pet \<Rightarrow> bool" where
  "pet_init s \<longleftrightarrow> s = \<lparr>turn = 0, interested = (\<lambda>_. 0), pcs = (\<lambda>_. Outside)\<rparr>"

definition goto :: "nat \<Rightarrow> pet_pc \<Rightarrow> pet \<Rightarrow> pet" where
  "goto p c s = s\<lparr>pcs := (pcs s)(p := c)\<rparr>"

definition set_interested :: "nat \<Rightarrow> int \<Rightarrow> pet \<Rightarrow> pet" where
  "set_interested p v s = s\<lparr>interested := (interested s)(p := v)\<rparr>"

definition set_turn :: "nat \<Rightarrow> pet \<Rightarrow> pet" where
  "set_turn p s = s\<lparr>turn := int p\<rparr>"

lemmas pet_defs [move_defs] = goto_def set_interested_def set_turn_def other_def

subsection \<open>Peterson's protocol: \<open>enter\<close> and \<open>exit\<close>\<close>

definition enter :: "nat \<Rightarrow> pet \<Rightarrow> pet option" where
  "enter process s =
     (case pcs s process of
        Outside \<Rightarrow> Some (goto process Set_turn (set_interested process 1 s))
      | Set_turn \<Rightarrow> Some (goto process Spin_interested (set_turn (other process) s))
      | Spin_interested \<Rightarrow>
          Some (goto process (if interested s (other process) = 1 then Spin_turn else Critical) s)
      | Spin_turn \<Rightarrow>
          Some (goto process (if turn s = int (other process) then Spin_interested else Critical) s)
      | _ \<Rightarrow> None)"

definition exit_region :: "nat \<Rightarrow> pet \<Rightarrow> pet option" where
  "exit_region process s =
     (case pcs s process of
        Critical \<Rightarrow> Some (goto process Outside (set_interested process 0 s))
      | _ \<Rightarrow> None)"

text \<open>A process outside starts \<open>enter\<close>, one in its critical section starts \<open>exit\<close>.\<close>

definition pet_move :: "nat \<Rightarrow> pet \<Rightarrow> pet option" where
  "pet_move process s =
     (if 2 \<le> process then None
      else if pcs s process = Critical then exit_region process s else enter process s)"

subsection \<open>The tweaked protocol: \<open>enter_region\<close> and \<open>leave_region\<close>\<close>

definition enter_region :: "nat \<Rightarrow> pet \<Rightarrow> pet option" where
  "enter_region process s =
     (case pcs s process of
        Outside \<Rightarrow> Some (goto process Spin_interested (set_interested process 1 s))
      | Spin_interested \<Rightarrow>
          Some (goto process (if interested s (other process) = 1 then Spin_turn else Take_turn) s)
      | Spin_turn \<Rightarrow>
          Some (goto process (if turn s = int (other process) then Spin_interested else Take_turn) s)
      | Take_turn \<Rightarrow> Some (goto process Critical (set_turn process s))
      | _ \<Rightarrow> None)"

definition leave_region :: "nat \<Rightarrow> pet \<Rightarrow> pet option" where
  "leave_region process s =
     (case pcs s process of
        Critical \<Rightarrow> Some (goto process Leave_turn (set_interested process 0 s))
      | Leave_turn \<Rightarrow> Some (goto process Outside (set_turn (other process) s))
      | _ \<Rightarrow> None)"

definition tweak_move :: "nat \<Rightarrow> pet \<Rightarrow> pet option" where
  "tweak_move process s =
     (if 2 \<le> process then None
      else if pcs s process \<in> {Critical, Leave_turn} then leave_region process s
      else enter_region process s)"

subsection \<open>Mutual exclusion of Peterson's protocol\<close>

definition spinning :: "pet_pc \<Rightarrow> bool" where
  "spinning c \<longleftrightarrow> c = Spin_interested \<or> c = Spin_turn"

text \<open>
  For each process: its flag says whether it is inside the protocol, it is at a point of the
  classic protocol; and while it is in its critical section a spinning rival has left the
  turn to it, and the rival is not in its own.
\<close>

definition pet_inv_of :: "pet \<Rightarrow> nat \<Rightarrow> bool" where
  "pet_inv_of s p \<longleftrightarrow>
     interested s p = (if pcs s p = Outside then 0 else 1)
   \<and> pcs s p \<notin> {Take_turn, Leave_turn}
   \<and> (pcs s p = Critical \<longrightarrow> pcs s (other p) \<noteq> Critical
        \<and> (spinning (pcs s (other p)) \<longrightarrow> turn s = int p))"

definition pet_inv :: "pet \<Rightarrow> bool" where
  "pet_inv s \<longleftrightarrow>
     pet_inv_of s 0 \<and> pet_inv_of s 1 \<and> turn s \<in> {0, 1} \<and> (\<forall>p\<ge>2. pcs s p = Outside)"

lemmas pet_inv_defs = pet_inv_def pet_inv_of_def spinning_def other_def

lemma pet_inv_init: "pet_init s \<Longrightarrow> pet_inv s"
  by (auto simp: pet_init_def pet_inv_defs)

lemma other_simps [simp]: "other 0 = 1" "other (Suc 0) = 0"
  by (simp_all add: other_def)

lemma pet_move_cases [consumes 1, case_names Outside Set_turn Rival_in Rival_out Turn_rival Turn_own Exit]:
  assumes "pet_move p s = Some t"
  obtains (Outside) "p < 2" "pcs s p = Outside" "t = goto p Set_turn (set_interested p 1 s)"
  | (Set_turn) "p < 2" "pcs s p = Set_turn" "t = goto p Spin_interested (set_turn (other p) s)"
  | (Rival_in) "p < 2" "pcs s p = Spin_interested" "interested s (other p) = 1" "t = goto p Spin_turn s"
  | (Rival_out) "p < 2" "pcs s p = Spin_interested" "interested s (other p) \<noteq> 1" "t = goto p Critical s"
  | (Turn_rival) "p < 2" "pcs s p = Spin_turn" "turn s = int (other p)" "t = goto p Spin_interested s"
  | (Turn_own) "p < 2" "pcs s p = Spin_turn" "turn s \<noteq> int (other p)" "t = goto p Critical s"
  | (Exit) "p < 2" "pcs s p = Critical" "t = goto p Outside (set_interested p 0 s)"
  using assms
  by (cases "pcs s p"; simp add: pet_move_def enter_def exit_region_def split: if_splits)

lemma two_processes: "p < 2 \<Longrightarrow> p = 0 \<or> p = Suc 0" for p :: nat
  by linarith

lemma pet_inv_move: "pet_inv s \<Longrightarrow> pet_move p s = Some t \<Longrightarrow> pet_inv t"
  by (elim pet_move_cases; drule two_processes; elim disjE; hypsubst;
      simp add: goto_def set_interested_def set_turn_def pet_inv_def pet_inv_of_def;
      auto simp: spinning_def)

interpretation classic: lock_system pet_init pet_move pet_inv "\<lambda>s p. pcs s p = Critical"
proof unfold_locales
  show "pet_init s \<Longrightarrow> pet_inv s" for s by (rule pet_inv_init)
  show "pet_inv s \<Longrightarrow> pet_move p s = Some t \<Longrightarrow> pet_inv t" for s p t by (rule pet_inv_move)
next
  fix s p q
  assume inv: "pet_inv s" and "pcs s p = Critical" "pcs s q = Critical"
  moreover from this have "p < 2" "q < 2" by (force simp: pet_inv_def not_le [symmetric])+
  ultimately show "p = q" by (auto simp: pet_inv_def pet_inv_of_def dest!: two_processes)
qed

subsection \<open>Waiting\<close>

text \<open>How often process \<open>q\<close> enters its critical section along a schedule.\<close>

fun entries :: "nat \<Rightarrow> nat list \<Rightarrow> pet \<Rightarrow> nat" where
  "entries q [] s = 0"
| "entries q (e # es) s =
     (case pet_move e s of
        None \<Rightarrow> 0
      | Some t \<Rightarrow> (if pcs s q \<noteq> Critical \<and> pcs t q = Critical then 1 else 0) + entries q es t)"

text \<open>Process \<open>p\<close> is in its waiting loop in every state the schedule passes.\<close>

fun spins_through :: "nat \<Rightarrow> nat list \<Rightarrow> pet \<Rightarrow> bool" where
  "spins_through p [] s = spinning (pcs s p)"
| "spins_through p (e # es) s =
     (spinning (pcs s p)
      \<and> (case pet_move e s of None \<Rightarrow> False | Some t \<Rightarrow> spins_through p es t))"

text \<open>
  What a process may still enter while its rival spins: once if it is spinning with the turn
  on its side, otherwise never, because it gives the turn away before it spins again.
\<close>

definition allowance :: "nat \<Rightarrow> pet \<Rightarrow> nat" where
  "allowance q s = (if spinning (pcs s q) \<and> turn s = int q then 1 else 0)"

lemma allowance_move:
  "pet_inv s \<Longrightarrow> pet_move e s = Some t \<Longrightarrow> p < 2 \<Longrightarrow> spinning (pcs s p) \<Longrightarrow> spinning (pcs t p) \<Longrightarrow>
   (if pcs s (other p) \<noteq> Critical \<and> pcs t (other p) = Critical then 1 else 0)
     + allowance (other p) t \<le> allowance (other p) s"
  by (elim pet_move_cases; (drule two_processes)+; elim disjE; hypsubst;
      simp add: goto_def set_interested_def set_turn_def pet_inv_def pet_inv_of_def allowance_def;
      auto simp: spinning_def)

lemma entries_le_allowance:
  "pet_inv s \<Longrightarrow> spins_through p es s \<Longrightarrow> p < 2 \<Longrightarrow> entries (other p) es s \<le> allowance (other p) s"
proof (induction es arbitrary: s)
  case Nil
  then show ?case by simp
next
  case (Cons e es)
  then obtain t where t: "pet_move e s = Some t" and "spins_through p es t" "spinning (pcs s p)"
    by (auto split: option.splits)
  moreover from this have "spinning (pcs t p)" by (cases es) auto
  moreover from Cons.prems(1) t have "pet_inv t" by (rule pet_inv_move)
  ultimately show ?case
    using Cons.IH [of t] allowance_move [OF Cons.prems(1) t Cons.prems(3)] Cons.prems(3) t
    by (auto split: if_splits)
qed

text \<open>The three situations of a spinning process whose rival is not in its critical section.\<close>

lemma spinner_gets_in:
  assumes "pet_inv s" and "p < 2" and "spinning (pcs s p)"
    and "pcs s (other p) = Outside \<or> spinning (pcs s (other p)) \<and> turn s = int p"
  shows "\<exists>es t. length es \<le> 2 \<and> run pet_move es s = Some t \<and> pcs t p = Critical"
proof -
  have one: "run pet_move [p] s = Some t \<Longrightarrow> pcs t p = Critical \<Longrightarrow> ?thesis" for t
    by (intro exI [of _ "[p]"] exI [of _ t]) simp
  have two: "run pet_move [p, p] s = Some t \<Longrightarrow> pcs t p = Critical \<Longrightarrow> ?thesis" for t
    by (intro exI [of _ "[p, p]"] exI [of _ t]) simp
  have i: "interested s (other p) = (if pcs s (other p) = Outside then 0 else 1)"
    using assms(1,2) by (auto dest!: two_processes simp: pet_inv_def pet_inv_of_def)
  have o: "other p \<noteq> p" using assms(2) by (auto dest!: two_processes)
  from assms(3) consider "pcs s p = Spin_interested" | "pcs s p = Spin_turn"
    by (auto simp: spinning_def)
  then show ?thesis
  proof cases
    case 1
    show ?thesis
    proof (cases "pcs s (other p) = Outside")
      case True
      with 1 i assms(2) show ?thesis
        by - (rule one, simp add: pet_move_def enter_def goto_def, simp add: goto_def)
    next
      case False
      with 1 i o assms(2,4) show ?thesis
        by - (rule two, simp add: pet_move_def enter_def goto_def, simp add: goto_def)
    qed
  next
    case 2
    show ?thesis
    proof (cases "turn s = int (other p)")
      case True
      with 2 i o assms(2,4) show ?thesis
        by - (rule two, simp add: pet_move_def enter_def goto_def, simp add: goto_def)
    next
      case False
      with 2 assms(2) show ?thesis
        by - (rule one, simp add: pet_move_def enter_def goto_def, simp add: goto_def)
    qed
  qed
qed

lemma rival_moves:
  assumes "pet_inv s" and "p < 2" and "spinning (pcs s p)" and "pcs s (other p) = Set_turn"
  shows "\<exists>t. pet_move (other p) s = Some t \<and> pet_inv t \<and> pcs t p = pcs s p
           \<and> spinning (pcs t (other p)) \<and> turn t = int p"
proof -
  have o: "other p \<noteq> p" "other p < 2" "other (other p) = p"
    using assms(2) by (auto dest!: two_processes)
  then have "pet_move (other p) s = Some (goto (other p) Spin_interested (set_turn p s))"
    using assms(4) by (simp add: pet_move_def enter_def)
  moreover from assms(1) this have "pet_inv (goto (other p) Spin_interested (set_turn p s))"
    by (rule pet_inv_move)
  ultimately show ?thesis using o by (simp add: goto_def set_turn_def spinning_def)
qed

lemma pet_start: "pet_init \<lparr>turn = 0, interested = (\<lambda>_. 0), pcs = (\<lambda>_. Outside)\<rparr>"
  by (simp add: pet_init_def)

lemmas pet_eval = pet_move_def enter_def exit_region_def tweak_move_def enter_region_def
  leave_region_def goto_def set_interested_def set_turn_def spinning_def

subsection \<open>Properties\<close>

text \<open>C14. Peterson's \<open>enter\<close>/\<open>exit\<close> give mutual exclusion: in every reachable state of the two
  processes at most one is between the end of \<open>enter\<close> and the start of \<open>exit\<close>.\<close>

theorem peterson_mutual_exclusion:
  assumes "reach pet_init pet_move s" and "pcs s p = Critical" and "pcs s q = Critical"
  shows "p = q"
  using assms by (rule classic.exclusive)

theorem peterson_mutual_exclusion_witness:
  "\<exists>s. reach pet_init pet_move s \<and> pcs s 0 = Critical \<and> pcs s 1 = Spin_turn \<and> pcs s 1 \<noteq> Critical"
proof -
  have "\<exists>s. reach pet_init pet_move s \<and> (pcs s 0 = Critical \<and> pcs s 1 = Spin_turn)"
    by (rule reach_witness [where es = "[0, 0, 0, 1, 1, 1]"], rule pet_start, simp add: pet_eval)
  then obtain s where s: "reach pet_init pet_move s" "pcs s 0 = Critical" "pcs s 1 = Spin_turn"
    by blast
  have "pcs s 1 \<noteq> Critical"
    using peterson_mutual_exclusion [OF s(1,2), of 1] by auto
  with s show ?thesis by blast
qed

text \<open>C15. Peterson's protocol has bounded waiting: while a process is in its waiting loop, its
  rival enters the critical section at most once, whatever the schedule.\<close>

theorem peterson_bounded_waiting:
  assumes "reach pet_init pet_move s" and "p < 2" and "spins_through p es s"
  shows "entries (other p) es s \<le> 1"
proof -
  have "entries (other p) es s \<le> allowance (other p) s"
    using classic.reach_inv [OF assms(1)] assms(3,2) by (rule entries_le_allowance)
  then show ?thesis by (simp add: allowance_def split: if_splits)
qed

theorem peterson_bounded_waiting_witness:
  "\<exists>s. reach pet_init pet_move s \<and> spins_through 0 [1, 1, 1, 1, 1, 1, 1, 1] s
     \<and> entries (other 0) [1, 1, 1, 1, 1, 1, 1, 1] s = 1
     \<and> entries (other 0) [1, 1, 1, 1, 1, 1, 1, 1] s \<le> 1"
proof -
  let ?es = "[1, 1, 1, 1, 1, 1, 1, 1]"
  have "\<exists>s. reach pet_init pet_move s \<and> (spins_through 0 ?es s \<and> entries (other 0) ?es s = 1)"
    by (rule reach_witness [where es = "[1, 1, 0, 0]"], rule pet_start, simp add: pet_eval)
  then obtain s where s: "reach pet_init pet_move s" "spins_through 0 ?es s" "entries (other 0) ?es s = 1"
    by blast
  from peterson_bounded_waiting [OF s(1) _ s(2)] s show ?thesis by auto
qed

text \<open>Peterson's protocol makes progress: from every reachable state with a waiting process
  and its rival not in the critical section, three moves bring one of the two in.\<close>

theorem peterson_progress:
  assumes "reach pet_init pet_move s" and "p < 2" and "spinning (pcs s p)"
    and "pcs s (other p) \<noteq> Critical"
  shows "\<exists>es t q. length es \<le> 3 \<and> run pet_move es s = Some t \<and> pcs t q = Critical"
proof -
  have inv: "pet_inv s" using assms(1) by (rule classic.reach_inv)
  have o: "other p < 2" "other (other p) = p" using assms(2) by (auto dest!: two_processes)
  have turn: "turn s = int p \<or> turn s = int (other p)"
    using inv assms(2) by (auto simp: pet_inv_def dest!: two_processes)
  have "pcs s (other p) \<notin> {Take_turn, Leave_turn}"
    using inv o(1) by (auto simp: pet_inv_def pet_inv_of_def dest!: two_processes)
  with assms(4) consider "pcs s (other p) = Outside" | "pcs s (other p) = Set_turn"
    | "spinning (pcs s (other p))"
    by (cases "pcs s (other p)") (auto simp: spinning_def)
  then show ?thesis
  proof cases
    case 1
    with spinner_gets_in [OF inv assms(2,3)] obtain es t where
      "length es \<le> 2" "run pet_move es s = Some t" "pcs t p = Critical" by blast
    then show ?thesis by (intro exI [of _ es] exI [of _ t] exI [of _ p]) simp
  next
    case 2
    then obtain t where t: "pet_move (other p) s = Some t" "pet_inv t" "pcs t p = pcs s p"
        "spinning (pcs t (other p))" "turn t = int p"
      using rival_moves [OF inv assms(2,3)] by blast
    with spinner_gets_in [OF t(2) assms(2)] assms(3) obtain es u where
      "length es \<le> 2" "run pet_move es t = Some u" "pcs u p = Critical" by auto
    with t(1) show ?thesis
      by (intro exI [of _ "other p # es"] exI [of _ u] exI [of _ p]) simp
  next
    case 3
    from turn obtain es t q where
      "length es \<le> 2" "run pet_move es s = Some t" "pcs t q = Critical"
      using spinner_gets_in [OF inv assms(2,3)] spinner_gets_in [OF inv o(1) 3] 3 assms(3) o(2)
      by metis
    then show ?thesis by (intro exI [of _ es] exI [of _ t] exI [of _ q]) simp
  qed
qed

theorem peterson_progress_witness:
  "\<exists>s es t q. reach pet_init pet_move s \<and> spinning (pcs s 0) \<and> spinning (pcs s (other 0))
     \<and> length es \<le> 3 \<and> run pet_move es s = Some t \<and> pcs t q = Critical"
proof -
  have "\<exists>s. reach pet_init pet_move s \<and> (spinning (pcs s 0) \<and> spinning (pcs s (other 0)))"
    by (rule reach_witness [where es = "[1, 1, 0, 0]"], rule pet_start, simp add: pet_eval)
  then obtain s where s: "reach pet_init pet_move s" "spinning (pcs s 0)" "spinning (pcs s (other 0))"
    by blast
  then have "pcs s (other 0) \<noteq> Critical" by (auto simp: spinning_def)
  with peterson_progress [OF s(1) _ s(2)] s show ?thesis by fastforce
qed

text \<open>The tweaked protocol does not give mutual exclusion, although the comment above it
  says that correctness is preserved: process 1 passes the loop before process 0 is interested,
  process 0 passes it because the turn is still its own, and both enter.\<close>

theorem tweaked_peterson_not_exclusive:
  "\<exists>s. reach pet_init tweak_move s \<and> pcs s 0 = Critical \<and> pcs s 1 = Critical"
  by (rule reach_witness [where es = "[1, 1, 0, 0, 0, 0, 1]"], rule pet_start, simp add: pet_eval)

end
