(* ===== verification/Locks.thy ===== *)
theory Locks
  imports DS_Prelude
begin

text \<open>
  \<open>concurrent_structures/mutex.cpp\<close>: the three locks of the file. \<open>prat::mutex\<close> blocks
  in \<open>atomic_flag::wait\<close> and is woken by \<open>notify_one\<close>; \<open>fairlock::mutex\<close> is a ticket
  lock on two 32-bit counters; \<open>optimised_spinlock::mutex\<close> has a \<open>lock\<close> and no \<open>unlock\<close>.
\<close>

subsection \<open>\<open>prat::mutex\<close>\<close>

datatype pm_pc =
    PM_idle
  | PM_tas \<comment> \<open>about to execute \<open>lk.test_and_set\<close>\<close>
  | PM_wait \<comment> \<open>in \<open>lk.wait(true)\<close>, about to compare the flag\<close>
  | PM_blocked \<comment> \<open>in \<open>lk.wait(true)\<close>, asleep\<close>
  | PM_held
  | PM_notify \<comment> \<open>in \<open>unlock\<close>, the flag is cleared, about to notify\<close>

text \<open>\<open>pm_waiters\<close> are the threads asleep on the flag.\<close>

record pm =
  pm_lk :: bool
  pm_waiters :: "tid list"
  pm_pcs :: "tid \<Rightarrow> pm_pc"

text \<open>
  Events: a call of \<open>lock\<close>, the moves of a thread inside \<open>lock\<close> and \<open>unlock\<close>, a spurious
  wake-up of \<open>wait\<close>. \<open>Notify_one t i\<close> wakes the \<open>i\<close>-th sleeper, if there is one: which
  one the library picks is open.
\<close>

datatype pm_event =
    PM_call tid | PM_test_and_set tid | PM_compare tid | PM_spurious tid
  | PM_clear tid | PM_notify_one tid nat

definition pm_goto :: "tid \<Rightarrow> pm_pc \<Rightarrow> pm \<Rightarrow> pm" where
  "pm_goto t c s = s\<lparr>pm_pcs := (pm_pcs s)(t := c)\<rparr>"

definition pm_init :: "pm \<Rightarrow> bool" where
  "pm_init s \<longleftrightarrow> s = \<lparr>pm_lk = False, pm_waiters = [], pm_pcs = (\<lambda>_. PM_idle)\<rparr>"

text \<open>\<open>lock\<close>: test and set; if the flag was set, wait until it changes and try again.\<close>

definition pm_lock :: "tid \<Rightarrow> pm \<Rightarrow> pm option" where
  "pm_lock t s =
     (case pm_pcs s t of
        PM_idle \<Rightarrow> Some (pm_goto t PM_tas s)
      | PM_tas \<Rightarrow> Some (pm_goto t (if pm_lk s then PM_wait else PM_held) (s\<lparr>pm_lk := True\<rparr>))
      | PM_wait \<Rightarrow>
          Some (if pm_lk s then pm_goto t PM_blocked (s\<lparr>pm_waiters := pm_waiters s @ [t]\<rparr>)
                else pm_goto t PM_tas s)
      | _ \<Rightarrow> None)"

text \<open>\<open>unlock\<close>: clear the flag, then notify one sleeper.\<close>

definition pm_unlock :: "tid \<Rightarrow> nat \<Rightarrow> pm \<Rightarrow> pm option" where
  "pm_unlock t i s =
     (case pm_pcs s t of
        PM_held \<Rightarrow> Some (pm_goto t PM_notify (s\<lparr>pm_lk := False\<rparr>))
      | PM_notify \<Rightarrow>
          (if pm_waiters s = [] then Some (pm_goto t PM_idle s)
           else if i < length (pm_waiters s) then
             (let u = pm_waiters s ! i in
              Some (pm_goto t PM_idle (pm_goto u PM_wait (s\<lparr>pm_waiters := remove1 u (pm_waiters s)\<rparr>))))
           else None)
      | _ \<Rightarrow> None)"

definition pm_spurious_wakeup :: "tid \<Rightarrow> pm \<Rightarrow> pm option" where
  "pm_spurious_wakeup t s =
     (if pm_pcs s t = PM_blocked
      then Some (pm_goto t PM_wait (s\<lparr>pm_waiters := remove1 t (pm_waiters s)\<rparr>)) else None)"

fun pm_move :: "pm_event \<Rightarrow> pm \<Rightarrow> pm option" where
  "pm_move (PM_call t) s = (if pm_pcs s t = PM_idle then pm_lock t s else None)"
| "pm_move (PM_test_and_set t) s = (if pm_pcs s t = PM_tas then pm_lock t s else None)"
| "pm_move (PM_compare t) s = (if pm_pcs s t = PM_wait then pm_lock t s else None)"
| "pm_move (PM_spurious t) s = pm_spurious_wakeup t s"
| "pm_move (PM_clear t) s = (if pm_pcs s t = PM_held then pm_unlock t 0 s else None)"
| "pm_move (PM_notify_one t i) s = (if pm_pcs s t = PM_notify then pm_unlock t i s else None)"

text \<open>
  The invariant: the flag is set exactly while one thread holds the lock, the sleepers are
  the waiting threads, and a sleeper is never left behind: the lock is held, or a thread is
  awake that will take it or notify.
\<close>

definition pm_awake :: "pm \<Rightarrow> tid \<Rightarrow> bool" where
  "pm_awake s t \<longleftrightarrow> pm_pcs s t \<in> {PM_tas, PM_wait, PM_notify}"

definition pm_inv_flag :: "pm \<Rightarrow> bool" where
  "pm_inv_flag s \<longleftrightarrow> sole_owner (pm_lk s) (\<lambda>u. pm_pcs s u = PM_held)"

definition pm_inv_sleep :: "pm \<Rightarrow> bool" where
  "pm_inv_sleep s \<longleftrightarrow>
     distinct (pm_waiters s) \<and> (\<forall>t. t \<in> set (pm_waiters s) \<longleftrightarrow> pm_pcs s t = PM_blocked)"

definition pm_inv_wake :: "pm \<Rightarrow> bool" where
  "pm_inv_wake s \<longleftrightarrow> pm_waiters s = [] \<or> pm_lk s \<or> (\<exists>t. pm_awake s t)"

definition pm_inv :: "pm \<Rightarrow> bool" where
  "pm_inv s \<longleftrightarrow> pm_inv_flag s \<and> pm_inv_sleep s \<and> pm_inv_wake s"

lemma pm_inv_init: "pm_init s \<Longrightarrow> pm_inv s"
  by (simp add: pm_init_def pm_inv_def pm_inv_flag_def pm_inv_sleep_def pm_inv_wake_def sole_owner_def)

lemma pm_move_cases [consumes 1, case_names Call Taken Acquired Sleep Again Spurious Clear Notify_none Notify]:
  assumes "pm_move e s = Some s'"
  obtains (Call) t where "pm_pcs s t = PM_idle" "s' = pm_goto t PM_tas s"
  | (Taken) t where "pm_pcs s t = PM_tas" "pm_lk s" "s' = pm_goto t PM_wait (s\<lparr>pm_lk := True\<rparr>)"
  | (Acquired) t where "pm_pcs s t = PM_tas" "\<not> pm_lk s" "s' = pm_goto t PM_held (s\<lparr>pm_lk := True\<rparr>)"
  | (Sleep) t where "pm_pcs s t = PM_wait" "pm_lk s"
      "s' = pm_goto t PM_blocked (s\<lparr>pm_waiters := pm_waiters s @ [t]\<rparr>)"
  | (Again) t where "pm_pcs s t = PM_wait" "\<not> pm_lk s" "s' = pm_goto t PM_tas s"
  | (Spurious) t where "pm_pcs s t = PM_blocked"
      "s' = pm_goto t PM_wait (s\<lparr>pm_waiters := remove1 t (pm_waiters s)\<rparr>)"
  | (Clear) t where "pm_pcs s t = PM_held" "s' = pm_goto t PM_notify (s\<lparr>pm_lk := False\<rparr>)"
  | (Notify_none) t where "pm_pcs s t = PM_notify" "pm_waiters s = []" "s' = pm_goto t PM_idle s"
  | (Notify) t u where "pm_pcs s t = PM_notify" "u \<in> set (pm_waiters s)"
      "s' = pm_goto t PM_idle (pm_goto u PM_wait (s\<lparr>pm_waiters := remove1 u (pm_waiters s)\<rparr>))"
  using assms
  by (cases e; simp add: pm_lock_def pm_unlock_def pm_spurious_wakeup_def Let_def split: if_splits;
      metis nth_mem)


lemma pm_inv_flag_move: "pm_inv_flag s \<Longrightarrow> pm_inv_sleep s \<Longrightarrow> pm_move e s = Some s' \<Longrightarrow> pm_inv_flag s'"
  unfolding pm_inv_flag_def
proof (erule pm_move_cases)
  fix t assume own: "sole_owner (pm_lk s) (\<lambda>u. pm_pcs s u = PM_held)"
    and t: "pm_pcs s t = PM_tas" "\<not> pm_lk s" "s' = pm_goto t PM_held (s\<lparr>pm_lk := True\<rparr>)"
  then show "sole_owner (pm_lk s') (\<lambda>u. pm_pcs s' u = PM_held)"
    using sole_owner_acquire [of "\<lambda>u. pm_pcs s u = PM_held" _ t] by (simp add: pm_goto_def)
next
  fix t assume own: "sole_owner (pm_lk s) (\<lambda>u. pm_pcs s u = PM_held)"
    and t: "pm_pcs s t = PM_held" "s' = pm_goto t PM_notify (s\<lparr>pm_lk := False\<rparr>)"
  then show "sole_owner (pm_lk s') (\<lambda>u. pm_pcs s' u = PM_held)"
    by (simp add: pm_goto_def) (erule sole_owner_release [where t = t], auto)
qed (auto simp: pm_goto_def pm_inv_sleep_def intro: sole_owner_cong)

lemma pm_inv_sleep_move: "pm_inv_sleep s \<Longrightarrow> pm_move e s = Some s' \<Longrightarrow> pm_inv_sleep s'"
  by (elim pm_move_cases; force simp: pm_inv_sleep_def pm_goto_def)

lemma pm_inv_wake_move: "pm_inv_wake s \<Longrightarrow> pm_inv_sleep s \<Longrightarrow> pm_move e s = Some s' \<Longrightarrow> pm_inv_wake s'"
  by (elim pm_move_cases; force simp: pm_inv_wake_def pm_inv_sleep_def pm_goto_def pm_awake_def)

lemma pm_inv_move: "pm_inv s \<Longrightarrow> pm_move e s = Some s' \<Longrightarrow> pm_inv s'"
  unfolding pm_inv_def by (blast intro: pm_inv_flag_move pm_inv_sleep_move pm_inv_wake_move)

interpretation prat: lock_system pm_init pm_move pm_inv "\<lambda>s t. pm_pcs s t = PM_held"
proof unfold_locales
  show "pm_inv s \<Longrightarrow> pm_pcs s t = PM_held \<Longrightarrow> pm_pcs s u = PM_held \<Longrightarrow> t = u" for s t u
    by (auto simp: pm_inv_def pm_inv_flag_def dest: sole_owner_unique)
qed (auto intro: pm_inv_init pm_inv_move)

subsection \<open>\<open>fairlock::mutex\<close>\<close>

text \<open>
  \<open>ticket\<close> and \<open>turn\<close> are \<open>std::atomic<int>\<close>: \<open>fetch_add\<close> wraps around in two's
  complement. \<open>FL_spin m\<close> and \<open>FL_held m\<close> carry the local \<open>my_turn\<close>.
\<close>

datatype fl_pc = FL_idle | FL_spin u32 | FL_held u32

record fl =
  fl_ticket :: u32
  fl_turn :: u32
  fl_pcs :: "tid \<Rightarrow> fl_pc"

text \<open>A program with \<open>n\<close> threads: fewer than the counters have values.\<close>

definition fl_init :: "nat \<Rightarrow> fl \<Rightarrow> bool" where
  "fl_init n s \<longleftrightarrow> n < 2 ^ 32 \<and> s = \<lparr>fl_ticket = 0, fl_turn = 0, fl_pcs = (\<lambda>_. FL_idle)\<rparr>"

text \<open>\<open>lock\<close>: take a ticket, then read \<open>turn\<close> until it is the ticket's number.\<close>

definition fl_lock :: "tid \<Rightarrow> fl \<Rightarrow> fl option" where
  "fl_lock t s =
     (case fl_pcs s t of
        FL_idle \<Rightarrow>
          Some (s\<lparr>fl_ticket := fl_ticket s + 1, fl_pcs := (fl_pcs s)(t := FL_spin (fl_ticket s))\<rparr>)
      | FL_spin my_turn \<Rightarrow>
          Some (if my_turn \<noteq> fl_turn s then s else s\<lparr>fl_pcs := (fl_pcs s)(t := FL_held my_turn)\<rparr>)
      | FL_held _ \<Rightarrow> None)"

definition fl_unlock :: "tid \<Rightarrow> fl \<Rightarrow> fl option" where
  "fl_unlock t s =
     (case fl_pcs s t of
        FL_held _ \<Rightarrow> Some (s\<lparr>fl_turn := fl_turn s + 1, fl_pcs := (fl_pcs s)(t := FL_idle)\<rparr>)
      | _ \<Rightarrow> None)"

text \<open>The threads are \<open>0, \<dots>, n - 1\<close>.\<close>

definition fl_move :: "nat \<Rightarrow> tid \<Rightarrow> fl \<Rightarrow> fl option" where
  "fl_move n t s =
     (if n \<le> t then None
      else case fl_pcs s t of FL_held _ \<Rightarrow> fl_unlock t s | _ \<Rightarrow> fl_lock t s)"

fun fl_number :: "fl_pc \<Rightarrow> u32" where
  "fl_number FL_idle = 0"
| "fl_number (FL_spin m) = m"
| "fl_number (FL_held m) = m"

definition fl_active :: "fl \<Rightarrow> tid set" where
  "fl_active s = {t. fl_pcs s t \<noteq> FL_idle}"

text \<open>How many releases are due before the thread's number comes up.\<close>

definition fl_rank :: "fl \<Rightarrow> tid \<Rightarrow> nat" where
  "fl_rank s t = unat (fl_number (fl_pcs s t) - fl_turn s)"

text \<open>
  The invariant: the active threads are as many as the tickets out, their distances from
  \<open>turn\<close> are distinct and smaller than that number, and a holder's distance is 0. The
  distances are computed modulo \<open>2 ^ 32\<close>, so the counters may wrap around.
\<close>

definition fl_inv :: "nat \<Rightarrow> fl \<Rightarrow> bool" where
  "fl_inv n s \<longleftrightarrow>
     n < 2 ^ 32 \<and> fl_active s \<subseteq> {..<n}
   \<and> card (fl_active s) = unat (fl_ticket s - fl_turn s)
   \<and> inj_on (fl_rank s) (fl_active s)
   \<and> (\<forall>t \<in> fl_active s. fl_rank s t < unat (fl_ticket s - fl_turn s))
   \<and> (\<forall>t m. fl_pcs s t = FL_held m \<longrightarrow> m = fl_turn s)"

lemma fl_inv_init: "fl_init n s \<Longrightarrow> fl_inv n s"
  by (simp add: fl_init_def fl_inv_def fl_active_def)

lemma fl_move_cases [consumes 1, case_names Take Spin Enter Release]:
  assumes "fl_move n t s = Some s'"
  obtains (Take) "t < n" "fl_pcs s t = FL_idle"
      "s' = s\<lparr>fl_ticket := fl_ticket s + 1, fl_pcs := (fl_pcs s)(t := FL_spin (fl_ticket s))\<rparr>"
  | (Spin) m where "t < n" "fl_pcs s t = FL_spin m" "m \<noteq> fl_turn s" "s' = s"
  | (Enter) "t < n" "fl_pcs s t = FL_spin (fl_turn s)"
      "s' = s\<lparr>fl_pcs := (fl_pcs s)(t := FL_held (fl_turn s))\<rparr>"
  | (Release) m where "t < n" "fl_pcs s t = FL_held m"
      "s' = s\<lparr>fl_turn := fl_turn s + 1, fl_pcs := (fl_pcs s)(t := FL_idle)\<rparr>"
proof (cases "fl_pcs s t")
  case FL_idle
  with assms show thesis by (intro that(1)) (simp_all add: fl_move_def fl_lock_def split: if_splits)
next
  case (FL_spin m)
  with assms have "t < n" and s': "s' = (if m \<noteq> fl_turn s then s else s\<lparr>fl_pcs := (fl_pcs s)(t := FL_held m)\<rparr>)"
    by (simp_all add: fl_move_def fl_lock_def split: if_splits)
  with FL_spin that(2,3) show thesis by (cases "m = fl_turn s") simp_all
next
  case (FL_held m)
  with assms show thesis by (intro that(4)) (simp_all add: fl_move_def fl_unlock_def split: if_splits)
qed

lemma fl_active_finite: "fl_inv n s \<Longrightarrow> finite (fl_active s)"
  by (auto simp: fl_inv_def intro: finite_subset)

lemma fl_inv_take:
  assumes inv: "fl_inv n s" and t: "t < n" "fl_pcs s t = FL_idle"
  shows "fl_inv n (s\<lparr>fl_ticket := fl_ticket s + 1, fl_pcs := (fl_pcs s)(t := FL_spin (fl_ticket s))\<rparr>)"
    (is "fl_inv n ?s")
proof -
  let ?w = "unat (fl_ticket s - fl_turn s)"
  have act: "fl_active ?s = insert t (fl_active s)" "t \<notin> fl_active s"
    using t by (auto simp: fl_active_def)
  have sub: "fl_active s \<subseteq> {..<n} - {t}" using inv act(2) by (auto simp: fl_inv_def)
  then have "card (fl_active s) \<le> n - 1"
    using card_mono [OF _ sub] t(1) by simp
  then have "?w + 1 < 2 ^ 32" using inv t(1) by (auto simp: fl_inv_def)
  then have w: "unat (fl_ticket ?s - fl_turn ?s) = ?w + 1"
    using unat_inc [of "fl_ticket s - fl_turn s"] by (simp add: add_diff_eq [symmetric] diff_add_eq)
  have rank: "fl_rank ?s t = ?w" "\<And>u. u \<noteq> t \<Longrightarrow> fl_rank ?s u = fl_rank s u"
    by (simp_all add: fl_rank_def)
  have "inj_on (fl_rank ?s) (insert t (fl_active s))"
  proof -
    have "inj_on (fl_rank ?s) (fl_active s)"
      using inv act(2) rank(2) by (metis (no_types, lifting) fl_inv_def inj_on_cong)
    moreover have "fl_rank ?s t \<notin> fl_rank ?s ` fl_active s"
      using inv act(2) rank by (force simp: fl_inv_def)
    ultimately show ?thesis by (simp add: act(2))
  qed
  then show ?thesis
    unfolding fl_inv_def act(1) w
    using inv t act(2) rank fl_active_finite [OF inv] by (simp add: fl_inv_def) (metis less_SucI)
qed

lemma fl_inv_release:
  assumes inv: "fl_inv n s" and t: "fl_pcs s t = FL_held m"
  shows "fl_inv n (s\<lparr>fl_turn := fl_turn s + 1, fl_pcs := (fl_pcs s)(t := FL_idle)\<rparr>)"
    (is "fl_inv n ?s")
proof -
  let ?w = "unat (fl_ticket s - fl_turn s)"
  have act: "fl_active ?s = fl_active s - {t}" "t \<in> fl_active s"
    using t by (auto simp: fl_active_def)
  have m: "fl_rank s t = 0" using inv t by (simp add: fl_inv_def fl_rank_def)
  with inv act(2) have "0 < ?w" by (force simp: fl_inv_def)
  then have "fl_ticket s - fl_turn s \<noteq> 0" by auto
  then have w: "unat (fl_ticket ?s - fl_turn ?s) = ?w - 1"
    using unat_dec [of "fl_ticket s - fl_turn s"] by (simp add: diff_diff_add)
  have pos: "fl_rank s u \<noteq> 0" if "u \<in> fl_active s - {t}" for u
    using that inv act(2) m by (force simp: fl_inv_def inj_on_def)
  have rank: "fl_rank ?s u = fl_rank s u - 1" if "u \<in> fl_active s - {t}" for u
  proof -
    have "fl_number (fl_pcs s u) - fl_turn s \<noteq> 0" using pos [OF that] by (auto simp: fl_rank_def)
    from unat_dec [OF this] that show ?thesis by (simp add: fl_rank_def diff_diff_add)
  qed
  have "inj_on (fl_rank ?s) (fl_active s - {t})"
  proof (rule inj_onI)
    fix u v assume u: "u \<in> fl_active s - {t}" and v: "v \<in> fl_active s - {t}"
      and "fl_rank ?s u = fl_rank ?s v"
    with rank pos [OF u] pos [OF v] have "fl_rank s u = fl_rank s v" by simp
    with u v inv show "u = v" by (auto simp: fl_inv_def inj_on_def)
  qed
  moreover have "fl_rank ?s u < ?w - 1" if "u \<in> fl_active s - {t}" for u
    using that inv rank [OF that] pos [OF that] by (force simp: fl_inv_def)
  moreover have "fl_pcs ?s u \<noteq> FL_held k" for u k
    using pos [of u] inv by (auto simp: fl_inv_def fl_rank_def fl_active_def)
  ultimately show ?thesis
    unfolding fl_inv_def act(1) w
    using inv act(2) fl_active_finite [OF inv] by (auto simp: fl_inv_def)
qed

lemma fl_inv_move: "fl_inv n s \<Longrightarrow> fl_move n t s = Some s' \<Longrightarrow> fl_inv n s'"
proof (erule fl_move_cases)
  assume inv: "fl_inv n s" and t: "t < n" "fl_pcs s t = FL_spin (fl_turn s)"
    and s': "s' = s\<lparr>fl_pcs := (fl_pcs s)(t := FL_held (fl_turn s))\<rparr>"
  have "fl_active s' = fl_active s" "fl_rank s' = fl_rank s"
    using t s' by (auto simp: fl_active_def fl_rank_def fun_eq_iff)
  with inv s' show "fl_inv n s'" by (simp add: fl_inv_def)
qed (auto intro: fl_inv_take fl_inv_release)
lemma fl_holder_rank: "fl_inv n s \<Longrightarrow> fl_pcs s t = FL_held m \<Longrightarrow> t \<in> fl_active s \<and> fl_rank s t = 0"
  by (simp add: fl_inv_def fl_active_def fl_rank_def)

lemma fl_rank_inj:
  "fl_inv n s \<Longrightarrow> t \<in> fl_active s \<Longrightarrow> u \<in> fl_active s \<Longrightarrow> fl_rank s t = fl_rank s u \<Longrightarrow> t = u"
  by (auto simp: fl_inv_def dest: inj_onD)

interpretation fair: lock_system "fl_init n" "fl_move n" "fl_inv n" "\<lambda>s t. \<exists>m. fl_pcs s t = FL_held m"
  for n
proof unfold_locales
  show "fl_inv n s \<Longrightarrow> \<exists>m. fl_pcs s t = FL_held m \<Longrightarrow> \<exists>m. fl_pcs s u = FL_held m \<Longrightarrow> t = u" for s t u
    using fl_holder_rank fl_rank_inj by metis
qed (auto intro: fl_inv_init fl_inv_move)

text \<open>The releases along a schedule, and a thread that waits all the way through.\<close>

fun fl_releases :: "nat \<Rightarrow> tid list \<Rightarrow> fl \<Rightarrow> nat" where
  "fl_releases n [] s = 0"
| "fl_releases n (t # ts) s =
     (case fl_move n t s of
        None \<Rightarrow> 0
      | Some s' \<Rightarrow> (case fl_pcs s t of FL_held _ \<Rightarrow> 1 | _ \<Rightarrow> 0) + fl_releases n ts s')"

fun fl_waits :: "nat \<Rightarrow> tid \<Rightarrow> tid list \<Rightarrow> fl \<Rightarrow> bool" where
  "fl_waits n u [] s = (case fl_pcs s u of FL_spin _ \<Rightarrow> True | _ \<Rightarrow> False)"
| "fl_waits n u (t # ts) s =
     ((case fl_pcs s u of FL_spin _ \<Rightarrow> True | _ \<Rightarrow> False)
      \<and> (case fl_move n t s of None \<Rightarrow> False | Some s' \<Rightarrow> fl_waits n u ts s'))"

lemma fl_rank_move:
  assumes inv: "fl_inv n s" and move: "fl_move n t s = Some s'"
    and u: "fl_pcs s u = FL_spin k" "fl_pcs s' u = FL_spin k'"
  shows "(case fl_pcs s t of FL_held _ \<Rightarrow> 1 | _ \<Rightarrow> 0) + fl_rank s' u = fl_rank s u"
  using move
proof (cases rule: fl_move_cases)
  case (Release m)
  with u have "u \<noteq> t" by auto
  moreover have "u \<in> fl_active s" using u by (simp add: fl_active_def)
  ultimately have "fl_rank s u \<noteq> 0" using fl_holder_rank [OF inv Release(2)] fl_rank_inj [OF inv] by metis
  then have "k - fl_turn s \<noteq> 0" using u by (auto simp: fl_rank_def)
  from unat_dec [OF this] this have "Suc (unat (k - fl_turn s - 1)) = unat (k - fl_turn s)"
    by (metis Suc_pred' bot_nat_0.not_eq_extremum unat_eq_zero)
  with Release u \<open>u \<noteq> t\<close> show ?thesis by (simp add: fl_rank_def diff_diff_add)
qed (use u in \<open>auto simp: fl_rank_def split: if_splits\<close>)

lemma fl_releases_rank:
  "fl_inv n s \<Longrightarrow> fl_waits n u ts s \<Longrightarrow> run (fl_move n) ts s = Some s'
   \<Longrightarrow> fl_releases n ts s + fl_rank s' u = fl_rank s u"
proof (induction ts arbitrary: s)
  case Nil
  then show ?case by simp
next
  case (Cons t ts)
  then obtain v where v: "fl_move n t s = Some v" "fl_waits n u ts v" "run (fl_move n) ts v = Some s'"
    by (auto split: option.splits)
  from Cons.prems(2) obtain k where k: "fl_pcs s u = FL_spin k" by (auto split: fl_pc.splits)
  from v(2) obtain k' where k': "fl_pcs v u = FL_spin k'" by (cases ts) (auto split: fl_pc.splits)
  from Cons.IH [OF fl_inv_move [OF Cons.prems(1) v(1)] v(2,3)] fl_rank_move [OF Cons.prems(1) v(1) k k'] v(1)
  show ?case by simp
qed

subsection \<open>\<open>optimised_spinlock::mutex\<close>\<close>

datatype os_pc =
    OS_idle
  | OS_exchange \<comment> \<open>about to execute \<open>lk_.exchange(true)\<close>\<close>
  | OS_load \<comment> \<open>in the inner loop, about to load \<open>lk_\<close>\<close>
  | OS_held

record os =
  os_lk :: bool
  os_pcs :: "tid \<Rightarrow> os_pc"

definition os_init :: "os \<Rightarrow> bool" where
  "os_init s \<longleftrightarrow> s = \<lparr>os_lk = False, os_pcs = (\<lambda>_. OS_idle)\<rparr>"

definition os_goto :: "tid \<Rightarrow> os_pc \<Rightarrow> os \<Rightarrow> os" where
  "os_goto t c s = s\<lparr>os_pcs := (os_pcs s)(t := c)\<rparr>"

text \<open>\<open>lock\<close> is the only operation of the class: a thread that holds the lock has no move.\<close>

definition os_lock :: "tid \<Rightarrow> os \<Rightarrow> os option" where
  "os_lock t s =
     (case os_pcs s t of
        OS_idle \<Rightarrow> Some (os_goto t OS_exchange s)
      | OS_exchange \<Rightarrow> Some (os_goto t (if os_lk s then OS_load else OS_held) (s\<lparr>os_lk := True\<rparr>))
      | OS_load \<Rightarrow> Some (os_goto t (if os_lk s then OS_load else OS_exchange) s)
      | OS_held \<Rightarrow> None)"

definition os_inv :: "os \<Rightarrow> bool" where
  "os_inv s \<longleftrightarrow> sole_owner (os_lk s) (\<lambda>u. os_pcs s u = OS_held)"

lemma os_inv_init: "os_init s \<Longrightarrow> os_inv s"
  by (simp add: os_init_def os_inv_def sole_owner_def)

lemma os_inv_move:
  assumes "os_inv s" and "os_lock t s = Some s'"
  shows "os_inv s'"
proof (cases "os_pcs s t = OS_exchange \<and> \<not> os_lk s")
  case True
  with assms show ?thesis
    by (auto simp: os_inv_def os_lock_def os_goto_def
        intro!: sole_owner_acquire [of "\<lambda>u. os_pcs s u = OS_held" _ t])
next
  case False
  with assms have "os_lk s' = os_lk s" "\<And>u. os_pcs s' u = OS_held \<longleftrightarrow> os_pcs s u = OS_held"
    by (auto simp: os_lock_def os_goto_def split: os_pc.splits if_splits)
  with assms(1) show ?thesis by (simp add: os_inv_def sole_owner_def)
qed

interpretation optimised: lock_system os_init os_lock os_inv "\<lambda>s t. os_pcs s t = OS_held"
proof unfold_locales
  show "os_inv s \<Longrightarrow> os_pcs s t = OS_held \<Longrightarrow> os_pcs s u = OS_held \<Longrightarrow> t = u" for s t u
    by (auto simp: os_inv_def dest: sole_owner_unique)
qed (auto intro: os_inv_init os_inv_move)

lemma os_held_move: "os_pcs s t = OS_held \<Longrightarrow> os_lock u s = Some s' \<Longrightarrow> os_pcs s' t = OS_held"
  by (auto simp: os_lock_def os_goto_def split: os_pc.splits if_splits)

subsection \<open>\<open>futex_wait\<close>\<close>

text \<open>
  The system call with its number, the operation and the arguments, for a kernel with the state \<open>'k\<close>. The two constants
  come from the headers of the system.
\<close>

type_synonym 'k futex_call = "nat \<Rightarrow> nat \<Rightarrow> nat \<Rightarrow> int \<Rightarrow> nat \<Rightarrow> nat \<Rightarrow> nat \<Rightarrow> 'k \<Rightarrow> int \<times> 'k"

definition futex_wait :: "'k futex_call \<Rightarrow> nat \<Rightarrow> nat \<Rightarrow> nat \<Rightarrow> int \<Rightarrow> 'k \<Rightarrow> int \<times> 'k" where
  "futex_wait syscall SYS_futex FUTEX_WAIT_PRIVATE addr val k = syscall SYS_futex addr FUTEX_WAIT_PRIVATE val 0 0 0 k"

subsection \<open>Properties\<close>

lemma pm_start: "pm_init \<lparr>pm_lk = False, pm_waiters = [], pm_pcs = (\<lambda>_. PM_idle)\<rparr>"
  by (simp add: pm_init_def)

lemma fl_start: "n < 2 ^ 32 \<Longrightarrow> fl_init n \<lparr>fl_ticket = 0, fl_turn = 0, fl_pcs = (\<lambda>_. FL_idle)\<rparr>"
  by (simp add: fl_init_def)

lemma os_start: "os_init \<lparr>os_lk = False, os_pcs = (\<lambda>_. OS_idle)\<rparr>"
  by (simp add: os_init_def)

lemmas pm_eval = pm_lock_def pm_unlock_def pm_spurious_wakeup_def pm_goto_def pm_awake_def Let_def
lemmas fl_eval = fl_move_def fl_lock_def fl_unlock_def fl_rank_def
lemmas os_eval = os_lock_def os_goto_def

lemma run_os_held: "run os_lock ts s = Some s' \<Longrightarrow> os_pcs s t = OS_held \<Longrightarrow> os_pcs s' t = OS_held"
  by (rule run_preserves [where P = "\<lambda>s. os_pcs s t = OS_held"]) (auto intro: os_held_move)

lemma fl_rank_less: "fl_inv n s \<Longrightarrow> t \<in> fl_active s \<Longrightarrow> fl_rank s t < n"
  using card_mono [of "{..<n}" "fl_active s"] by (auto simp: fl_inv_def)

text \<open>\<open>prat::mutex\<close> is mutually exclusive: in every reachable state at most one thread has
  returned from \<open>lock\<close> without having cleared the flag in \<open>unlock\<close>.\<close>

theorem prat_mutex_exclusive:
  assumes "reach pm_init pm_move s" and "pm_pcs s t = PM_held" and "pm_pcs s u = PM_held"
  shows "t = u"
  using assms by (rule prat.exclusive)

theorem prat_mutex_exclusive_witness:
  "\<exists>s. reach pm_init pm_move s \<and> pm_pcs s 0 = PM_held \<and> pm_pcs s 1 = PM_blocked \<and> pm_pcs s 1 \<noteq> PM_held"
proof -
  have "\<exists>s. reach pm_init pm_move s \<and> (pm_pcs s 0 = PM_held \<and> pm_pcs s 1 = PM_blocked)"
    by (rule reach_witness [where es = "[PM_call 0, PM_call 1, PM_test_and_set 0, PM_test_and_set 1, PM_compare 1]"],
        rule pm_start, simp add: pm_eval)
  then obtain s where s: "reach pm_init pm_move s" "pm_pcs s 0 = PM_held" "pm_pcs s 1 = PM_blocked" by blast
  have "pm_pcs s 1 \<noteq> PM_held" using prat_mutex_exclusive [OF s(1,2), of 1] by auto
  with s show ?thesis by blast
qed

text \<open>\<open>prat::mutex\<close> loses no wake-up: whenever a thread sleeps in \<open>wait\<close>, the lock is held
  (so an \<open>unlock\<close> with its notification is still to come) or another thread is awake that is
  about to notify or to take the lock.\<close>

theorem prat_mutex_no_lost_wakeup:
  assumes "reach pm_init pm_move s" and "pm_pcs s t = PM_blocked"
  shows "(\<exists>u. pm_pcs s u = PM_held) \<or> (\<exists>u. pm_awake s u)"
proof -
  have inv: "pm_inv s" using assms(1) by (rule prat.reach_inv)
  with assms(2) have "pm_waiters s \<noteq> []" by (auto simp: pm_inv_def pm_inv_sleep_def)
  with inv show ?thesis by (auto simp: pm_inv_def pm_inv_wake_def pm_inv_flag_def sole_owner_def)
qed

theorem prat_mutex_no_lost_wakeup_witness:
  "\<exists>s. reach pm_init pm_move s \<and> pm_pcs s 1 = PM_blocked \<and> \<not> pm_lk s \<and> pm_pcs s 0 = PM_notify
     \<and> ((\<exists>u. pm_pcs s u = PM_held) \<or> (\<exists>u. pm_awake s u))"
proof -
  have "\<exists>s. reach pm_init pm_move s \<and> (pm_pcs s 1 = PM_blocked \<and> \<not> pm_lk s \<and> pm_pcs s 0 = PM_notify)"
    by (rule reach_witness [where es = "[PM_call 0, PM_call 1, PM_test_and_set 0, PM_test_and_set 1,
          PM_compare 1, PM_clear 0]"], rule pm_start, simp add: pm_eval)
  then obtain s where s: "reach pm_init pm_move s" "pm_pcs s 1 = PM_blocked" "\<not> pm_lk s"
    "pm_pcs s 0 = PM_notify" by blast
  with prat_mutex_no_lost_wakeup [OF s(1,2)] show ?thesis by blast
qed

text \<open>C16. The ticket lock is mutually exclusive for any number of threads below \<open>2 ^ 32\<close> and any
  number of lock operations, the wrap-around of its 32-bit counters included.\<close>

theorem ticket_lock_exclusive:
  assumes "reach (fl_init n) (fl_move n) s" and "fl_pcs s t = FL_held m" and "fl_pcs s u = FL_held k"
  shows "t = u"
  using assms by (blast intro: fair.exclusive)

theorem ticket_lock_exclusive_witness:
  "\<exists>s. reach (fl_init 2) (fl_move 2) s \<and> fl_pcs s 1 = FL_held 1 \<and> fl_pcs s 0 = FL_spin 2
     \<and> (\<forall>k. fl_pcs s 0 \<noteq> FL_held k)"
proof -
  have "\<exists>s. reach (fl_init 2) (fl_move 2) s \<and> (fl_pcs s 1 = FL_held 1 \<and> fl_pcs s 0 = FL_spin 2)"
    by (rule reach_witness [where es = "[0, 1, 0, 1, 0, 0, 1]"], rule fl_start, simp, simp add: fl_eval)
  then obtain s where s: "reach (fl_init 2) (fl_move 2) s" "fl_pcs s 1 = FL_held 1" "fl_pcs s 0 = FL_spin 2"
    by blast
  have "fl_pcs s 0 \<noteq> FL_held k" for k using ticket_lock_exclusive [OF s(1,2), of 0 k] by auto
  with s show ?thesis by blast
qed

text \<open>C17. The ticket lock is fair: while a thread waits, each release brings it exactly one place
  forward and nothing else moves it, so fewer than \<open>n\<close> releases pass before its turn, in the
  order in which the tickets were taken.\<close>

theorem ticket_lock_fair:
  assumes "reach (fl_init n) (fl_move n) s" and "fl_waits n u ts s" and "run (fl_move n) ts s = Some s'"
  shows "fl_releases n ts s + fl_rank s' u = fl_rank s u \<and> fl_rank s u < n"
proof -
  have inv: "fl_inv n s" using assms(1) by (rule fair.reach_inv)
  have "u \<in> fl_active s" using assms(2) by (cases ts) (auto simp: fl_active_def)
  with inv have "fl_rank s u < n" by (rule fl_rank_less)
  with fl_releases_rank [OF inv assms(2,3)] show ?thesis by simp
qed

theorem ticket_lock_fair_witness:
  "\<exists>s s'. reach (fl_init 3) (fl_move 3) s \<and> run (fl_move 3) [2, 0, 1, 1] s = Some s'
     \<and> fl_rank s 2 = 2 \<and> fl_releases 3 [2, 0, 1, 1] s = 2
     \<and> fl_releases 3 [2, 0, 1, 1] s + fl_rank s' 2 = fl_rank s 2 \<and> fl_rank s 2 < 3"
proof -
  let ?P = "\<lambda>s. fl_waits 3 2 [2, 0, 1, 1] s \<and> run (fl_move 3) [2, 0, 1, 1] s \<noteq> None \<and> fl_rank s 2 = 2
     \<and> fl_releases 3 [2, 0, 1, 1] s = 2"
  have "\<exists>s. reach (fl_init 3) (fl_move 3) s \<and> ?P s"
    by (rule reach_witness [where es = "[0, 1, 2, 0]"], rule fl_start, simp, simp add: fl_eval)
  then obtain s s' where s: "reach (fl_init 3) (fl_move 3) s" "fl_waits 3 2 [2, 0, 1, 1] s"
    "run (fl_move 3) [2, 0, 1, 1] s = Some s'" "fl_rank s 2 = 2" "fl_releases 3 [2, 0, 1, 1] s = 2"
    by blast
  from ticket_lock_fair [OF s(1-3)] s show ?thesis by blast
qed

text \<open>\<open>optimised_spinlock::mutex\<close> can be locked once only: the class has no \<open>unlock\<close>, so
  after a thread has returned from \<open>lock\<close> no other thread ever does.\<close>

theorem spinlock_never_released:
  assumes "reach os_init os_lock s" and "os_pcs s t = OS_held" and "run os_lock ts s = Some s'"
  shows "os_pcs s' u = OS_held \<longleftrightarrow> u = t"
proof -
  have "reach os_init os_lock s'" using assms(1,3) by (rule reach_run)
  moreover have "os_pcs s' t = OS_held" using assms(3,2) by (rule run_os_held)
  ultimately show ?thesis by (blast dest: optimised.exclusive)
qed

theorem spinlock_never_released_witness:
  "\<exists>s s'. reach os_init os_lock s \<and> run os_lock [1, 1, 1, 1] s = Some s' \<and> os_pcs s 0 = OS_held
     \<and> os_pcs s' 1 \<noteq> OS_held"
proof -
  have "\<exists>s. reach os_init os_lock s \<and> (os_pcs s 0 = OS_held \<and> run os_lock [1, 1, 1, 1] s \<noteq> None)"
    by (rule reach_witness [where es = "[0, 0]"], rule os_start, simp add: os_eval)
  then obtain s s' where s: "reach os_init os_lock s" "os_pcs s 0 = OS_held" "run os_lock [1, 1, 1, 1] s = Some s'"
    by blast
  have "os_pcs s' 1 \<noteq> OS_held" using spinlock_never_released [OF s, of 1] by simp
  with s show ?thesis by blast
qed

end
