(* ===== verification/Weak_Memory.thy ===== *)
theory Weak_Memory
  imports DS_Prelude
begin

text \<open>
  Atomics with explicit memory orders. The other theories on threads interleave their steps on one memory,
  which is what sequentially consistent accesses give; here a load may return an old value, and only a load
  that acquires what a store has released orders the accesses of two threads.

  Every atomic has its modification order, the list of the messages stored to it. A view tells how far a
  thread has come: the message of each atomic before which it can no longer read, and how many accesses of
  each plain object happen before its next step. A store that releases puts the view of its thread into the
  message, a load that acquires joins the view of the message it reads. A plain access races if it does not
  know of an earlier access of the same object; every two accesses count as conflicting, reads too.

  A store is put at the end of the modification order, and a message can be read only after it was stored. So
  the executions covered are those in which program order, reads-from and modification order together have no
  cycle; the last is no restriction for atomics whose stores are ordered by happens-before or form a chain of
  read-modify-write operations, as all of the models are.
\<close>

subsection \<open>Views and messages\<close>

datatype memory_order = Relaxed | Acquire | Release | Acq_rel

fun acquires :: "memory_order \<Rightarrow> bool" where
  "acquires Acquire = True"
| "acquires Acq_rel = True"
| "acquires _ = False"

fun releases :: "memory_order \<Rightarrow> bool" where
  "releases Release = True"
| "releases Acq_rel = True"
| "releases _ = False"

record ('l, 'c) view =
  seen :: "'l \<Rightarrow> nat"
  known :: "'c \<Rightarrow> nat"

record ('l, 'c, 'v) message =
  msg_value :: 'v
  msg_view :: "('l, 'c) view"

record ('l, 'c, 'v) memory =
  history :: "'l \<Rightarrow> ('l, 'c, 'v) message list"
  accesses :: "'c \<Rightarrow> nat"
  views :: "tid \<Rightarrow> ('l, 'c) view"
  race :: bool

definition no_view :: "('l, 'c) view" where
  "no_view = \<lparr>seen = (\<lambda>_. 0), known = (\<lambda>_. 0)\<rparr>"

definition join :: "('l, 'c) view \<Rightarrow> ('l, 'c) view \<Rightarrow> ('l, 'c) view" where
  "join v w = \<lparr>seen = (\<lambda>l. max (seen v l) (seen w l)), known = (\<lambda>c. max (known v c) (known w c))\<rparr>"

definition see :: "'l \<Rightarrow> nat \<Rightarrow> ('l, 'c) view \<Rightarrow> ('l, 'c) view" where
  "see l i v = v\<lparr>seen := (seen v)(l := max i (seen v l))\<rparr>"

text \<open>The atomics are constructed with \<open>x\<close> before the threads start.\<close>

definition new_memory :: "('l \<Rightarrow> 'v) \<Rightarrow> ('l, 'c, 'v) memory" where
  "new_memory x = \<lparr>history = (\<lambda>l. [\<lparr>msg_value = x l, msg_view = no_view\<rparr>]), accesses = (\<lambda>_. 0),
     views = (\<lambda>_. no_view), race = False\<rparr>"

subsection \<open>Operations\<close>

definition set_view :: "tid \<Rightarrow> ('l, 'c) view \<Rightarrow> ('l, 'c, 'v) memory \<Rightarrow> ('l, 'c, 'v) memory" where
  "set_view t v m = m\<lparr>views := (views m)(t := v)\<rparr>"

text \<open>The view after reading the \<open>i\<close>-th message of \<open>l\<close>.\<close>

definition read_view :: "memory_order \<Rightarrow> tid \<Rightarrow> 'l \<Rightarrow> nat \<Rightarrow> ('l, 'c, 'v) memory \<Rightarrow> ('l, 'c) view" where
  "read_view ord t l i m =
     (let v = see l i (views m t) in if acquires ord then join v (msg_view (history m l ! i)) else v)"

text \<open>A load of the \<open>i\<close>-th message; \<open>None\<close> if the thread cannot read it.\<close>

definition atomic_load :: "memory_order \<Rightarrow> tid \<Rightarrow> 'l \<Rightarrow> nat \<Rightarrow> ('l, 'c, 'v) memory \<Rightarrow> ('v \<times> ('l, 'c, 'v) memory) option" where
  "atomic_load ord t l i m =
     (if seen (views m t) l \<le> i \<and> i < length (history m l)
      then Some (msg_value (history m l ! i), set_view t (read_view ord t l i m) m) else None)"

text \<open>What a write makes visible, besides \<open>w\<close>: the view of the thread if it releases, or only itself.\<close>

definition put_message :: "memory_order \<Rightarrow> tid \<Rightarrow> 'l \<Rightarrow> 'v \<Rightarrow> ('l, 'c) view \<Rightarrow> ('l, 'c) view \<Rightarrow> ('l, 'c, 'v) memory
    \<Rightarrow> ('l, 'c, 'v) memory" where
  "put_message ord t l x w v m =
     (let i = length (history m l); v' = see l i v in
      set_view t v' (m\<lparr>history := (history m)(l := history m l
        @ [\<lparr>msg_value = x, msg_view = join w (if releases ord then v' else see l i no_view)\<rparr>])\<rparr>))"

definition atomic_store :: "memory_order \<Rightarrow> tid \<Rightarrow> 'l \<Rightarrow> 'v \<Rightarrow> ('l, 'c, 'v) memory \<Rightarrow> ('l, 'c, 'v) memory" where
  "atomic_store ord t l x m = put_message ord t l x no_view (views m t) m"

text \<open>
  A read-modify-write: it reads the last message, and passes the view of that message on, since it belongs to
  the release sequence of the message. The result is the value read.
\<close>

definition atomic_update :: "memory_order \<Rightarrow> tid \<Rightarrow> 'l \<Rightarrow> ('v \<Rightarrow> 'v) \<Rightarrow> ('l, 'c, 'v) memory \<Rightarrow> 'v \<times> ('l, 'c, 'v) memory" where
  "atomic_update ord t l f m =
     (let i = length (history m l) - 1; w = history m l ! i in
      (msg_value w, put_message ord t l (f (msg_value w)) (msg_view w) (read_view ord t l i m) m))"

definition plain_access :: "tid \<Rightarrow> 'c \<Rightarrow> ('l, 'c, 'v) memory \<Rightarrow> ('l, 'c, 'v) memory" where
  "plain_access t c m =
     (let v = views m t; k = accesses m c in
      set_view t (v\<lparr>known := (known v)(c := Suc k)\<rparr>)
        (m\<lparr>accesses := (accesses m)(c := Suc k), race := race m \<or> known v c \<noteq> k\<rparr>))"

subsection \<open>Well-formed memories\<close>

text \<open>No view is ahead of the memory.\<close>

definition view_ok :: "('l, 'c, 'v) memory \<Rightarrow> ('l, 'c) view \<Rightarrow> bool" where
  "view_ok m v \<longleftrightarrow> (\<forall>l. seen v l < length (history m l)) \<and> (\<forall>c. known v c \<le> accesses m c)"

definition memory_ok :: "('l, 'c, 'v) memory \<Rightarrow> bool" where
  "memory_ok m \<longleftrightarrow> (\<forall>t. view_ok m (views m t)) \<and> (\<forall>l. \<forall>w \<in> set (history m l). view_ok m (msg_view w))"

text \<open>A view that knows all accesses of an object.\<close>

definition fresh :: "('l, 'c, 'v) memory \<Rightarrow> ('l, 'c) view \<Rightarrow> 'c \<Rightarrow> bool" where
  "fresh m v c \<longleftrightarrow> known v c = accesses m c"

lemma view_simps [simp]:
  "seen no_view l = 0" "known no_view c = 0" "seen (join v w) l = max (seen v l) (seen w l)"
  "known (join v w) c = max (known v c) (known w c)" "known (see l i v) = known v"
  "seen (see l i v) k = (if k = l then max i (seen v l) else seen v k)"
  by (simp_all add: no_view_def join_def see_def)

lemma set_view_simps [simp]:
  "history (set_view t v m) = history m" "accesses (set_view t v m) = accesses m" "race (set_view t v m) = race m"
  "views (set_view t v m) = (views m)(t := v)"
  by (simp_all add: set_view_def)

lemma view_ok_join: "view_ok m v \<Longrightarrow> view_ok m w \<Longrightarrow> view_ok m (join v w)"
  by (simp add: view_ok_def)

lemma view_ok_see: "view_ok m v \<Longrightarrow> i < length (history m l) \<Longrightarrow> view_ok m (see l i v)"
  by (simp add: view_ok_def)

lemma view_ok_no_view: "view_ok m v \<Longrightarrow> view_ok m no_view"
  unfolding view_ok_def by (metis gr_zeroI not_less_zero view_simps(1,2) zero_le)

lemma memory_okD:
  assumes "memory_ok m"
  shows "view_ok m (views m t)" and "i < length (history m l) \<Longrightarrow> view_ok m (msg_view (history m l ! i))"
    and "seen (views m t) l < length (history m l)" and "history m l \<noteq> []"
proof -
  show t: "view_ok m (views m t)" for t using assms by (simp add: memory_ok_def)
  show "view_ok m (msg_view (history m l ! i))" if "i < length (history m l)"
    using assms nth_mem [OF that] by (simp add: memory_ok_def)
  show l: "seen (views m t) l < length (history m l)" using t by (simp add: view_ok_def)
  show "history m l \<noteq> []" using l by auto
qed

lemma memory_okI:
  assumes "\<And>t. view_ok m (views m t)" and "\<And>l w. w \<in> set (history m l) \<Longrightarrow> view_ok m (msg_view w)"
  shows "memory_ok m"
  using assms by (simp add: memory_ok_def)

lemma view_ok_mono:
  assumes "view_ok m v" and "\<And>l. length (history m l) \<le> length (history m' l)" and "\<And>c. accesses m c \<le> accesses m' c"
  shows "view_ok m' v"
  using assms unfolding view_ok_def by (meson le_trans less_le_trans)

lemma new_memory_ok: "memory_ok (new_memory x)"
  by (simp add: memory_ok_def view_ok_def new_memory_def)

lemma read_view_ok: "memory_ok m \<Longrightarrow> i < length (history m l) \<Longrightarrow> view_ok m (read_view ord t l i m)"
  by (simp add: read_view_def Let_def memory_okD view_ok_see view_ok_join)

lemma set_view_ok: "memory_ok m \<Longrightarrow> view_ok m v \<Longrightarrow> memory_ok (set_view t v m)"
  by (auto simp: memory_ok_def view_ok_def)

lemma atomic_load_ok: "memory_ok m \<Longrightarrow> atomic_load ord t l i m = Some (x, m') \<Longrightarrow> memory_ok m'"
  by (auto simp: atomic_load_def intro: set_view_ok read_view_ok split: if_splits)

lemma put_message_simps [simp]:
  "accesses (put_message ord t l x w v m) = accesses m" "race (put_message ord t l x w v m) = race m"
  "views (put_message ord t l x w v m) = (views m)(t := see l (length (history m l)) v)"
  "history (put_message ord t l x w v m) = (history m)(l := history m l @ [\<lparr>msg_value = x,
     msg_view = join w (if releases ord then see l (length (history m l)) v else see l (length (history m l)) no_view)\<rparr>])"
  by (simp_all add: put_message_def Let_def)

lemma put_message_ok:
  assumes "memory_ok m" and "view_ok m v" and "view_ok m w"
  shows "memory_ok (put_message ord t l x w v m)"
proof -
  let ?m = "put_message ord t l x w v m"
  have mono: "view_ok ?m u" if "view_ok m u" for u by (rule view_ok_mono [OF that]) simp_all
  have see: "view_ok ?m (see l (length (history m l)) u)" if "view_ok m u" for u
    by (rule view_ok_see [OF mono [OF that]]) simp
  note new = see [OF assms(2)] see [OF view_ok_no_view [OF assms(2)]] mono [OF assms(3)]
  show ?thesis
  proof (rule memory_okI)
    show "view_ok ?m (views ?m u)" for u
      using new(1) mono [OF memory_okD(1) [OF assms(1)], of u] by simp
    show "view_ok ?m (msg_view z)" if z: "z \<in> set (history ?m k)" for k z
    proof (cases "z \<in> set (history m k)")
      case True
      with assms(1) show ?thesis by (intro mono) (simp add: memory_ok_def)
    next
      case False
      with z have "msg_view z = join w (if releases ord then see l (length (history m l)) v else see l (length (history m l)) no_view)"
        by (simp split: if_splits)
      with new show ?thesis by (simp add: view_ok_join)
    qed
  qed
qed

lemma atomic_store_ok: "memory_ok m \<Longrightarrow> memory_ok (atomic_store ord t l x m)"
  unfolding atomic_store_def by (blast intro: put_message_ok memory_okD(1) view_ok_no_view)

lemma atomic_update_ok: "memory_ok m \<Longrightarrow> memory_ok (snd (atomic_update ord t l f m))"
  using memory_okD(4) [of m l] by (simp add: atomic_update_def Let_def put_message_ok read_view_ok memory_okD(2))

lemma plain_access_simps [simp]:
  "history (plain_access t c m) = history m" "accesses (plain_access t c m) = (accesses m)(c := Suc (accesses m c))"
  "race (plain_access t c m) = (race m \<or> \<not> fresh m (views m t) c)"
  "views (plain_access t c m) = (views m)(t := (views m t)\<lparr>known := (known (views m t))(c := Suc (accesses m c))\<rparr>)"
  by (simp_all add: plain_access_def Let_def fresh_def)

lemma plain_access_ok:
  assumes "memory_ok m"
  shows "memory_ok (plain_access t c m)"
proof (rule memory_okI)
  have mono: "view_ok (plain_access t c m) v" if "view_ok m v" for v by (rule view_ok_mono [OF that]) simp_all
  show "view_ok (plain_access t c m) (views (plain_access t c m) u)" for u
    using memory_okD(1) [OF assms, of u] by (auto simp: view_ok_def le_SucI)
  show "view_ok (plain_access t c m) (msg_view w)" if "w \<in> set (history (plain_access t c m) l)" for l w
    using mono that assms by (auto simp: memory_ok_def)
qed

text \<open>A view keeps what it knows: under a join, and under an access of another object or by its own thread.\<close>

lemma fresh_join1: "view_ok m v \<Longrightarrow> view_ok m w \<Longrightarrow> fresh m v c \<or> fresh m w c \<Longrightarrow> fresh m (join v w) c"
  unfolding fresh_def view_ok_def by (metis max.absorb1 max.absorb2 view_simps(4))

lemma fresh_see [simp]: "fresh m (see l i v) c = fresh m v c"
  by (simp add: fresh_def)

lemma fresh_cong: "accesses m' c = accesses m c \<Longrightarrow> fresh m' v c = fresh m v c"
  by (simp add: fresh_def)

lemma fresh_read_view:
  assumes "memory_ok m" and "i < length (history m l)"
    and "fresh m (views m t) c \<or> acquires ord \<and> fresh m (msg_view (history m l ! i)) c"
  shows "fresh m (read_view ord t l i m) c"
proof (cases "acquires ord")
  case True
  have "view_ok m (see l i (views m t))" "view_ok m (msg_view (history m l ! i))"
    using assms(1,2) by (simp_all add: memory_okD view_ok_see)
  from fresh_join1 [OF this, of c] assms(3) True show ?thesis by (auto simp: read_view_def)
next
  case False
  with assms(3) show ?thesis by (simp add: read_view_def)
qed

lemma fresh_own_access:
  "fresh (plain_access t c m) (views (plain_access t c m) t) d \<longleftrightarrow> d = c \<or> fresh m (views m t) d"
  by (simp add: fresh_def)

subsection \<open>The contract of a program without data races\<close>

locale race_free_system = invariant_system init move inv
  for init :: "'s \<Rightarrow> bool" and move :: "'e \<Rightarrow> 's \<Rightarrow> 's option" and inv :: "'s \<Rightarrow> bool" +
  fixes memory_of :: "'s \<Rightarrow> ('l, 'c, 'v) memory"
  assumes inv_memory: "inv s \<Longrightarrow> memory_ok (memory_of s) \<and> \<not> race (memory_of s)"
begin

lemma no_race: "reach init move s \<Longrightarrow> \<not> race (memory_of s)"
  using reach_inv inv_memory by blast

end

end
