(* ===== verification/Locks_Weak.thy ===== *)
theory Locks_Weak
  imports Locks Weak_Memory
begin

text \<open>
  \<open>prat::mutex\<close> of \<open>concurrent_structures/mutex.cpp\<close> with the memory orders of the code: \<open>test_and_set\<close>
  acquires, \<open>clear\<close> releases, the load of \<open>wait\<close> is relaxed. A thread that holds the lock accesses any of
  the plain objects the program protects with it. Whom a notification wakes is in \<open>Locks\<close>; here a
  thread that sleeps may wake at any time.
\<close>

subsection \<open>The lock\<close>

record 'c wm =
  wm_mem :: "(unit, 'c, bool) memory"
  wm_pcs :: "tid \<Rightarrow> pm_pc"

definition wm_init :: "'c wm \<Rightarrow> bool" where
  "wm_init s \<longleftrightarrow> s = \<lparr>wm_mem = new_memory (\<lambda>_. False), wm_pcs = (\<lambda>_. PM_idle)\<rparr>"

definition wm_goto :: "tid \<Rightarrow> pm_pc \<Rightarrow> (unit, 'c, bool) memory \<Rightarrow> 'c wm \<Rightarrow> 'c wm" where
  "wm_goto t c m s = s\<lparr>wm_mem := m, wm_pcs := (wm_pcs s)(t := c)\<rparr>"

text \<open>\<open>wait\<close> reads the \<open>i\<close>-th message of the flag.\<close>

definition wm_lock :: "tid \<Rightarrow> nat \<Rightarrow> 'c wm \<Rightarrow> 'c wm option" where
  "wm_lock t i s =
     (case wm_pcs s t of
        PM_idle \<Rightarrow> Some (wm_goto t PM_tas (wm_mem s) s)
      | PM_tas \<Rightarrow>
          (case atomic_update Acquire t () (\<lambda>_. True) (wm_mem s) of
             (was_set, m) \<Rightarrow> Some (wm_goto t (if was_set then PM_wait else PM_held) m s))
      | PM_wait \<Rightarrow>
          map_option (\<lambda>(is_set, m). wm_goto t (if is_set then PM_blocked else PM_tas) m s)
            (atomic_load Relaxed t () i (wm_mem s))
      | PM_blocked \<Rightarrow> Some (wm_goto t PM_wait (wm_mem s) s)
      | _ \<Rightarrow> None)"

definition wm_unlock :: "tid \<Rightarrow> 'c wm \<Rightarrow> 'c wm option" where
  "wm_unlock t s =
     (case wm_pcs s t of
        PM_held \<Rightarrow> Some (wm_goto t PM_notify (atomic_store Release t () False (wm_mem s)) s)
      | PM_notify \<Rightarrow> Some (wm_goto t PM_idle (wm_mem s) s)
      | _ \<Rightarrow> None)"

datatype 'c wm_event = WM_lock tid nat | WM_unlock tid | WM_access tid 'c

fun wm_move :: "'c wm_event \<Rightarrow> 'c wm \<Rightarrow> 'c wm option" where
  "wm_move (WM_lock t i) s = wm_lock t i s"
| "wm_move (WM_unlock t) s = wm_unlock t s"
| "wm_move (WM_access t c) s =
     (if wm_pcs s t = PM_held then Some (s\<lparr>wm_mem := plain_access t c (wm_mem s)\<rparr>) else None)"

subsection \<open>The invariant\<close>

text \<open>
  Who holds the lock knows all accesses of the protected objects; while nobody does, the last message of the
  flag, which the next \<open>test_and_set\<close> acquires, knows them.
\<close>

definition last_message :: "(unit, 'c, bool) memory \<Rightarrow> (unit, 'c, bool) message" where
  "last_message m = last (history m ())"

definition wm_inv :: "'c wm \<Rightarrow> bool" where
  "wm_inv s \<longleftrightarrow> memory_ok (wm_mem s) \<and> \<not> race (wm_mem s)
     \<and> sole_owner (msg_value (last_message (wm_mem s))) (\<lambda>t. wm_pcs s t = PM_held)
     \<and> (\<forall>c. (\<not> msg_value (last_message (wm_mem s)) \<longrightarrow> fresh (wm_mem s) (msg_view (last_message (wm_mem s))) c)
         \<and> (\<forall>t. wm_pcs s t = PM_held \<longrightarrow> fresh (wm_mem s) (views (wm_mem s) t) c))"

lemma wm_goto_simps [simp]:
  "wm_mem (wm_goto t c m s) = m" "wm_pcs (wm_goto t c m s) = (wm_pcs s)(t := c)"
  by (simp_all add: wm_goto_def)

lemma last_message_simps [simp]:
  "last_message (set_view t v m) = last_message m" "last_message (plain_access t c m) = last_message m"
  "last_message (put_message ord t () x w v m) = \<lparr>msg_value = x, msg_view = join w
     (if releases ord then see () (length (history m ())) v else see () (length (history m ())) no_view)\<rparr>"
  by (simp_all add: last_message_def)

lemma fresh_simps [simp]:
  "fresh (set_view t v m) = fresh m" "fresh (put_message ord t l x w v m) = fresh m"
  by (simp_all add: fresh_def fun_eq_iff)

lemma wm_inv_init: "wm_init s \<Longrightarrow> wm_inv s"
  by (simp add: wm_init_def wm_inv_def new_memory_ok) (simp add: new_memory_def last_message_def sole_owner_def fresh_def [abs_def])

text \<open>A step of a thread that does not hold the lock, before or after it.\<close>

lemma wm_inv_outside:
  assumes inv: "wm_inv s" and "wm_pcs s t \<noteq> PM_held" and "c \<noteq> PM_held"
    and m: "memory_ok m" "race m = race (wm_mem s)" "accesses m = accesses (wm_mem s)"
      "\<And>u. u \<noteq> t \<Longrightarrow> views m u = views (wm_mem s) u"
    and last: "last_message m = last_message (wm_mem s) \<or> msg_value (last_message m) \<and> msg_value (last_message (wm_mem s))"
  shows "wm_inv (wm_goto t c m s)"
proof -
  have held: "((wm_pcs s)(t := c)) u = PM_held \<longleftrightarrow> wm_pcs s u = PM_held" for u using assms(2,3) by simp
  have fr: "fresh m v = fresh (wm_mem s) v" for v using m(3) by (simp add: fresh_def fun_eq_iff)
  have flag: "msg_value (last_message m) = msg_value (last_message (wm_mem s))" using last by auto
  have "views m u = views (wm_mem s) u" if "wm_pcs s u = PM_held" for u using that assms(2) m(4) by metis
  with inv m(1,2) last flag show ?thesis
    unfolding wm_inv_def wm_goto_simps held fr flag by auto
qed

lemma wm_lock_inv:
  assumes inv: "wm_inv s" and step: "wm_lock t i s = Some s'"
  shows "wm_inv s'"
proof -
  let ?m = "wm_mem s"
  from inv have m: "memory_ok ?m" "\<not> race ?m" by (simp_all add: wm_inv_def)
  show ?thesis
  proof (cases "wm_pcs s t")
    case PM_tas
    let ?i = "length (history ?m ()) - 1" and ?v = "read_view Acquire t () (length (history ?m ()) - 1) ?m"
    let ?m' = "put_message Acquire t () True (msg_view (last_message ?m)) ?v ?m"
    have ne: "history ?m () \<noteq> []" by (rule memory_okD(4) [OF m(1)])
    then have last: "history ?m () ! ?i = last_message ?m" by (simp add: last_message_def last_conv_nth)
    with PM_tas step have s': "s' = wm_goto t (if msg_value (last_message ?m) then PM_wait else PM_held) ?m' s"
      by (simp add: wm_lock_def atomic_update_def Let_def)
    have ok: "memory_ok ?m'" using atomic_update_ok [OF m(1), of Acquire t "()" "\<lambda>_. True"]
      by (simp add: atomic_update_def Let_def last del: One_nat_def)
    show ?thesis
    proof (cases "msg_value (last_message ?m)")
      case True
      with ok PM_tas show ?thesis unfolding s' by (simp, intro wm_inv_outside [OF inv]) simp_all
    next
      case False
      have "fresh ?m ?v c" for c
        by (rule fresh_read_view [OF m(1)]) (use inv False last ne in \<open>auto simp: wm_inv_def\<close>)
      moreover have "\<not> wm_pcs s u = PM_held" for u using inv False by (simp add: wm_inv_def sole_owner_def)
      ultimately show ?thesis using False ok m(2) by (auto simp: s' wm_inv_def sole_owner_def)
    qed
  next
    case PM_wait
    with step obtain x m' where load: "atomic_load Relaxed t () i ?m = Some (x, m')"
      and s': "s' = wm_goto t (if x then PM_blocked else PM_tas) m' s" by (auto simp: wm_lock_def)
    have "memory_ok m'" by (rule atomic_load_ok [OF m(1) load])
    moreover have "m' = set_view t (read_view Relaxed t () i ?m) ?m" using load by (simp add: atomic_load_def split: if_splits)
    ultimately show ?thesis unfolding s' by (intro wm_inv_outside [OF inv]) (use PM_wait in simp_all)
  qed (use step m in \<open>auto simp: wm_lock_def intro: wm_inv_outside [OF inv]\<close>)
qed

lemma wm_unlock_inv:
  assumes inv: "wm_inv s" and step: "wm_unlock t s = Some s'"
  shows "wm_inv s'"
proof (cases "wm_pcs s t")
  case PM_held
  let ?m = "wm_mem s"
  from inv have m: "memory_ok ?m" "\<not> race ?m" and own: "sole_owner (msg_value (last_message ?m)) (\<lambda>t. wm_pcs s t = PM_held)"
    and known: "fresh ?m (views ?m t) c" for c using PM_held by (simp_all add: wm_inv_def)
  from PM_held step have s': "s' = wm_goto t PM_notify (put_message Release t () False no_view (views ?m t) ?m) s"
    by (simp add: wm_unlock_def atomic_store_def)
  have ok: "memory_ok (wm_mem s')" using atomic_store_ok [OF m(1), of Release t "()" False] by (simp add: s' atomic_store_def)
  have "fresh ?m (join no_view (see () n (views ?m t))) c" for c n
    using known [of c] by (simp add: fresh_def)
  moreover have "\<not> ((wm_pcs s)(t := PM_notify)) u = PM_held" for u using sole_owner_unique [OF own] PM_held by auto
  ultimately show ?thesis using ok m(2) by (simp add: s' wm_inv_def sole_owner_def)
qed (use step inv in \<open>auto simp: wm_unlock_def wm_inv_def [of s] intro: wm_inv_outside [OF inv]\<close>)

lemma wm_inv_move:
  assumes inv: "wm_inv s" and move: "wm_move e s = Some s'"
  shows "wm_inv s'"
proof (cases e)
  case (WM_access t c)
  let ?m = "wm_mem s"
  from WM_access move have t: "wm_pcs s t = PM_held" and s': "s' = s\<lparr>wm_mem := plain_access t c ?m\<rparr>" by (auto split: if_splits)
  from inv have m: "memory_ok ?m" "\<not> race ?m" and own: "sole_owner (msg_value (last_message ?m)) (\<lambda>t. wm_pcs s t = PM_held)"
    and known: "fresh ?m (views ?m t) d" for d using t by (simp_all add: wm_inv_def)
  have only: "u = t" if "wm_pcs s u = PM_held" for u using sole_owner_unique [OF own] that t by blast
  have "fresh (plain_access t c ?m) (views (plain_access t c ?m) t) d" for d unfolding fresh_own_access using known by blast
  then have "fresh (plain_access t c ?m) (views (plain_access t c ?m) u) d" if "wm_pcs s u = PM_held" for u d
    unfolding only [OF that] .
  with m own known sole_owner_flag [OF own, of t] t show ?thesis
    unfolding wm_inv_def s' by (simp add: plain_access_ok del: plain_access_simps(4))
qed (use move inv in \<open>auto intro: wm_lock_inv wm_unlock_inv\<close>)

interpretation prat_weak: race_free_system wm_init wm_move wm_inv wm_mem
  by unfold_locales (rule wm_inv_init, assumption, rule wm_inv_move, assumption, assumption, simp add: wm_inv_def)

interpretation prat_weak_lock: lock_system wm_init wm_move wm_inv "\<lambda>s t. wm_pcs s t = PM_held"
  by unfold_locales (auto simp: wm_inv_def dest: sole_owner_unique)

subsection \<open>Property\<close>

text \<open>C12. \<open>prat::mutex\<close> protects: at most one thread holds the lock, and the accesses of any plain objects by
  the threads that hold it never race, with an acquiring \<open>test_and_set\<close>, a releasing \<open>clear\<close> and loads that
  may read old values.\<close>

theorem prat_mutex_protects:
  assumes "reach wm_init wm_move s"
  shows "\<not> race (wm_mem s) \<and> (wm_pcs s t = PM_held \<and> wm_pcs s u = PM_held \<longrightarrow> t = u)"
  using prat_weak.no_race [OF assms] prat_weak_lock.exclusive [OF assms] by blast

theorem prat_mutex_protects_witness:
  "\<exists>s :: nat wm. reach wm_init wm_move s \<and> wm_pcs s 2 = PM_held \<and> accesses (wm_mem s) 7 = 2 \<and> \<not> race (wm_mem s)"
proof -
  have "\<exists>s :: nat wm. reach wm_init wm_move s \<and> (wm_pcs s 2 = PM_held \<and> accesses (wm_mem s) 7 = 2)"
    by (rule reach_witness [where s = "\<lparr>wm_mem = new_memory (\<lambda>_. False), wm_pcs = (\<lambda>_. PM_idle)\<rparr>" and es = "[WM_lock 1 0, WM_lock 1 0,
          WM_access 1 7, WM_unlock 1, WM_lock 2 0, WM_lock 2 0, WM_access 2 7]"],
        simp add: wm_init_def, simp add: wm_lock_def wm_unlock_def wm_goto_def atomic_update_def atomic_store_def
          put_message_def plain_access_def read_view_def set_view_def new_memory_def see_def join_def no_view_def Let_def)
  then obtain s :: "nat wm" where s: "reach wm_init wm_move s" "wm_pcs s 2 = PM_held" "accesses (wm_mem s) 7 = 2" by blast
  with prat_mutex_protects [OF s(1)] show ?thesis by blast
qed

end
