(* ===== verification/Fifo_Spec.thy ===== *)
theory Fifo_Spec
  imports DS_Prelude
begin

text \<open>
  The specification of the queues: a bounded first-in first-out queue that remembers what
  has entered and what has left it. What is in the queue is what has entered and not left.
\<close>

record 'a fifo =
  entered :: "'a list"
  left :: "'a list"

definition contents :: "'a fifo \<Rightarrow> 'a list" where
  "contents q = drop (length (left q)) (entered q)"

definition fifo_init :: "'a fifo \<Rightarrow> bool" where
  "fifo_init q \<longleftrightarrow> q = \<lparr>entered = [], left = []\<rparr>"

datatype 'a fifo_event = Enq 'a | Deq

fun fifo_move :: "nat \<Rightarrow> 'a fifo_event \<Rightarrow> 'a fifo \<Rightarrow> 'a fifo option" where
  "fifo_move cap (Enq v) q =
     (if length (contents q) < cap then Some (q\<lparr>entered := entered q @ [v]\<rparr>) else None)"
| "fifo_move cap Deq q =
     (case contents q of [] \<Rightarrow> None | v # _ \<Rightarrow> Some (q\<lparr>left := left q @ [v]\<rparr>))"

definition fifo_inv :: "nat \<Rightarrow> 'a fifo \<Rightarrow> bool" where
  "fifo_inv cap q \<longleftrightarrow> entered q = left q @ contents q \<and> length (contents q) \<le> cap"

lemma contents_append: "entered q = left q @ vs \<Longrightarrow> contents q = vs"
  by (simp add: contents_def)

lemma fifo_invI: "entered q = left q @ vs \<Longrightarrow> length vs \<le> cap \<Longrightarrow> fifo_inv cap q"
  by (simp add: fifo_inv_def contents_append)

lemma fifo_inv_move:
  assumes inv: "fifo_inv cap q" and "fifo_move cap e q = Some q'"
  shows "fifo_inv cap q'"
proof (cases e)
  case (Enq v)
  with assms have "entered q' = left q' @ contents q @ [v]" "length (contents q) < cap"
    by (auto simp: fifo_inv_def split: if_splits)
  then show ?thesis by (intro fifo_invI) auto
next
  case Deq
  with assms(2) obtain v vs where v: "contents q = v # vs" "q' = q\<lparr>left := left q @ [v]\<rparr>"
    by (auto split: list.splits)
  with inv have "entered q' = left q' @ vs" "length vs \<le> cap" by (auto simp: fifo_inv_def)
  then show ?thesis by (rule fifo_invI)
qed

lemma fifo_inv_init: "fifo_init q \<Longrightarrow> fifo_inv cap q"
  by (simp add: fifo_init_def fifo_inv_def contents_def)

interpretation fifo: invariant_system fifo_init "fifo_move cap" "fifo_inv cap" for cap
  by unfold_locales (rule fifo_inv_init, assumption, rule fifo_inv_move)

subsection \<open>The contract of a queue\<close>

text \<open>
  A queue implementation is a transition system that simulates the specification. Its clients
  rely on two facts: what has left is what entered first, in order, and what is in the queue
  never exceeds the capacity.
\<close>

locale fifo_queue = simulation init move inv fifo_init "fifo_move cap" abs
  for init :: "'s \<Rightarrow> bool" and move :: "'e \<Rightarrow> 's \<Rightarrow> 's option" and inv :: "'s \<Rightarrow> bool"
    and cap :: nat and abs :: "'s \<Rightarrow> 'a fifo"
begin

lemma fifo_order: "reach init move s \<Longrightarrow> entered (abs s) = left (abs s) @ contents (abs s)"
  using fifo.reach_inv [OF reach_abs] by (auto simp: fifo_inv_def)

lemma fifo_bound: "reach init move s \<Longrightarrow> length (contents (abs s)) \<le> cap"
  using fifo.reach_inv [OF reach_abs] by (auto simp: fifo_inv_def)

end

end
