(* ===== verification/Spsc.thy ===== *)
theory Spsc
  imports Fifo_Spec
begin

text \<open>
  \<open>concurrent_structures/spsc_lockfree.cpp\<close>: the ring buffer between one producer thread,
  which calls \<open>push\<close>, and one consumer thread, which calls \<open>pop\<close>. Each load, each store of
  \<open>head_\<close> and \<open>tail_\<close>, each construction, move and destruction of an element is one step.
\<close>

subsection \<open>State\<close>

definition spsc_capacity :: u64 where
  "spsc_capacity = 1024"

text \<open>The program points inside \<open>push\<close> and \<open>pop\<close>, with the local variables that are live there.\<close>

datatype 'a sp_prod =
    P_idle
  | P_tail 'a \<comment> \<open>about to load \<open>tail_\<close>\<close>
  | P_head 'a u64 \<comment> \<open>\<open>tail\<close> is loaded, about to load \<open>head_\<close>\<close>
  | P_construct 'a u64 \<comment> \<open>about to construct in the slot of \<open>tail\<close>\<close>
  | P_store 'a u64 \<comment> \<open>about to store \<open>1 + tail\<close>\<close>

datatype sp_cons =
    C_idle
  | C_head \<comment> \<open>about to load \<open>head_\<close>\<close>
  | C_tail u64 \<comment> \<open>\<open>head\<close> is loaded, about to load \<open>tail_\<close>\<close>
  | C_move u64 \<comment> \<open>about to move the element of the slot of \<open>head\<close> out\<close>
  | C_destroy u64 \<comment> \<open>about to destroy the moved-from element\<close>
  | C_store u64 \<comment> \<open>about to store \<open>1 + head\<close>\<close>
  | C_undefined \<comment> \<open>moved or destroyed an object that is not there\<close>

text \<open>
  The fields of the class, the two threads, the results of the last finished calls
  (\<open>sp_place\<close> is what \<open>pop\<close> constructed in its argument), and two history variables that no
  step reads: the values pushed and the values popped so far.
\<close>

record 'a spsc =
  sp_ring :: "nat \<Rightarrow> 'a cell"
  sp_head :: u64
  sp_tail :: u64
  sp_producer :: "'a sp_prod"
  sp_consumer :: sp_cons
  sp_pushed :: bool
  sp_popped :: bool
  sp_place :: "'a option"
  sp_in :: "'a list"
  sp_out :: "'a list"

definition spsc_init :: "'a spsc \<Rightarrow> bool" where
  "spsc_init s \<longleftrightarrow>
     s = \<lparr>sp_ring = (\<lambda>_. Raw), sp_head = 0, sp_tail = 0, sp_producer = P_idle, sp_consumer = C_idle,
          sp_pushed = False, sp_popped = False, sp_place = None, sp_in = [], sp_out = []\<rparr>"

text \<open>\<open>pos % capacity_\<close>\<close>

definition spsc_slot :: "u64 \<Rightarrow> nat" where
  "spsc_slot pos = unat (pos mod spsc_capacity)"

definition set_slot :: "u64 \<Rightarrow> 'a cell \<Rightarrow> 'a spsc \<Rightarrow> 'a spsc" where
  "set_slot pos c s = s\<lparr>sp_ring := (sp_ring s)(spsc_slot pos := c)\<rparr>"

subsection \<open>Operations\<close>

text \<open>\<open>push\<close>: one step of the producer inside the call.\<close>

definition spsc_push :: "'a spsc \<Rightarrow> 'a spsc option" where
  "spsc_push s =
     (case sp_producer s of
        P_idle \<Rightarrow> None
      | P_tail val \<Rightarrow> Some (s\<lparr>sp_producer := P_head val (sp_tail s)\<rparr>)
      | P_head val tail \<Rightarrow>
          Some (if tail - sp_head s \<noteq> spsc_capacity
                then s\<lparr>sp_producer := P_construct val tail\<rparr>
                else s\<lparr>sp_producer := P_idle, sp_pushed := False\<rparr>)
      | P_construct val tail \<Rightarrow> Some ((set_slot tail (Live val) s)\<lparr>sp_producer := P_store val tail\<rparr>)
      | P_store val tail \<Rightarrow>
          Some (s\<lparr>sp_tail := 1 + tail, sp_producer := P_idle, sp_pushed := True,
                  sp_in := sp_in s @ [val]\<rparr>))"

text \<open>\<open>pop\<close>: one step of the consumer inside the call.\<close>

definition spsc_pop :: "'a spsc \<Rightarrow> 'a spsc option" where
  "spsc_pop s =
     (case sp_consumer s of
        C_idle \<Rightarrow> None
      | C_head \<Rightarrow> Some (s\<lparr>sp_consumer := C_tail (sp_head s)\<rparr>)
      | C_tail head \<Rightarrow>
          Some (if head < sp_tail s
                then s\<lparr>sp_consumer := C_move head\<rparr>
                else s\<lparr>sp_consumer := C_idle, sp_popped := False\<rparr>)
      | C_move head \<Rightarrow>
          Some (case sp_ring s (spsc_slot head) of
                  Live v \<Rightarrow> (set_slot head Husk s)
                    \<lparr>sp_place := Some v, sp_out := sp_out s @ [v], sp_consumer := C_destroy head\<rparr>
                | _ \<Rightarrow> s\<lparr>sp_consumer := C_undefined\<rparr>)
      | C_destroy head \<Rightarrow>
          Some (case sp_ring s (spsc_slot head) of
                  Raw \<Rightarrow> s\<lparr>sp_consumer := C_undefined\<rparr>
                | _ \<Rightarrow> (set_slot head Raw s)\<lparr>sp_consumer := C_store head\<rparr>)
      | C_store head \<Rightarrow> Some (s\<lparr>sp_head := 1 + head, sp_consumer := C_idle, sp_popped := True\<rparr>)
      | C_undefined \<Rightarrow> None)"

datatype 'a sp_event = SP_push 'a | SP_producer | SP_pop | SP_consumer

fun spsc_move :: "'a sp_event \<Rightarrow> 'a spsc \<Rightarrow> 'a spsc option" where
  "spsc_move (SP_push v) s =
     (if sp_producer s = P_idle then Some (s\<lparr>sp_producer := P_tail v\<rparr>) else None)"
| "spsc_move SP_producer s = spsc_push s"
| "spsc_move SP_pop s =
     (if sp_consumer s = C_idle then Some (s\<lparr>sp_consumer := C_head\<rparr>) else None)"
| "spsc_move SP_consumer s = spsc_pop s"

text \<open>The private \<open>full\<close> and \<open>empty\<close>; the destructor is the only one to call them.\<close>

definition sp_full :: "'a spsc \<Rightarrow> bool" where
  "sp_full s \<longleftrightarrow> sp_tail s - sp_head s = spsc_capacity"

definition sp_empty :: "'a spsc \<Rightarrow> bool" where
  "sp_empty s \<longleftrightarrow> sp_tail s = sp_head s"

text \<open>
  The destructor: it runs when both threads are done, and destroys the elements from
  \<open>head_\<close> up to \<open>tail_\<close>; \<open>None\<close> if it destroys an object that is not there.
\<close>

function spsc_destroy :: "'a spsc \<Rightarrow> 'a spsc option" where
  "spsc_destroy s =
     (if sp_empty s then Some s
      else if sp_ring s (spsc_slot (sp_head s)) = Raw then None
      else spsc_destroy ((set_slot (sp_head s) Raw s)\<lparr>sp_head := sp_head s + 1\<rparr>))"
  by pat_completeness auto
termination
proof (relation "measure (\<lambda>s. unat (sp_tail s - sp_head s))")
  fix s :: "'a spsc" assume "\<not> sp_empty s"
  then have "\<not> sp_tail s = sp_head s" by (simp add: sp_empty_def)
  then have "unat (sp_tail s - sp_head s - 1) < unat (sp_tail s - sp_head s)"
    by (simp add: unat_dec unat_gt_0)
  then show "((set_slot (sp_head s) Raw s)\<lparr>sp_head := sp_head s + 1\<rparr>, s)
      \<in> measure (\<lambda>s. unat (sp_tail s - sp_head s))"
    by (simp add: set_slot_def diff_diff_add)
qed simp

declare spsc_destroy.simps [simp del]

lemma spsc_slot_mod: "spsc_slot pos = unat pos mod 1024"
  by (simp add: spsc_slot_def spsc_capacity_def unat_mod)

subsection \<open>The invariant\<close>

text \<open>What the two threads rely on at their program points, given \<open>head_\<close> and \<open>tail_\<close>.\<close>

fun prod_ok :: "'a sp_prod \<Rightarrow> u64 \<Rightarrow> u64 \<Rightarrow> bool" where
  "prod_ok P_idle h t = True"
| "prod_ok (P_tail v) h t = True"
| "prod_ok (P_head v w) h t = (w = t)"
| "prod_ok (P_construct v w) h t = (w = t \<and> unat t < unat h + 1024)"
| "prod_ok (P_store v w) h t = (w = t \<and> unat t < unat h + 1024)"

fun cons_ok :: "sp_cons \<Rightarrow> u64 \<Rightarrow> u64 \<Rightarrow> bool" where
  "cons_ok C_idle h t = True"
| "cons_ok C_head h t = True"
| "cons_ok (C_tail w) h t = (w = h)"
| "cons_ok (C_move w) h t = (w = h \<and> unat h < unat t)"
| "cons_ok (C_destroy w) h t = (w = h \<and> unat h < unat t)"
| "cons_ok (C_store w) h t = (w = h \<and> unat h < unat t)"
| "cons_ok C_undefined h t = False"

text \<open>The consumer has moved the element at \<open>head_\<close> out and not yet advanced \<open>head_\<close>.\<close>

fun cons_mid :: "sp_cons \<Rightarrow> bool" where
  "cons_mid (C_destroy w) = True"
| "cons_mid (C_store w) = True"
| "cons_mid _ = False"

text \<open>The slot at \<open>head_\<close> if it holds \<open>v\<close>, and the slot at \<open>tail_\<close>.\<close>

fun cons_cell :: "sp_cons \<Rightarrow> 'a \<Rightarrow> 'a cell" where
  "cons_cell (C_destroy w) v = Husk"
| "cons_cell (C_store w) v = Raw"
| "cons_cell _ v = Live v"

fun prod_cell :: "'a sp_prod \<Rightarrow> 'a cell" where
  "prod_cell (P_store v w) = Live v"
| "prod_cell _ = Raw"

text \<open>
  The slot of each position \<open>p\<close> of the window \<open>head_ \<le> p < head_ + capacity_\<close>: the \<open>p\<close>-th
  value pushed, or raw storage, up to what the threads have done to the two end slots.
\<close>

definition sp_expect :: "'a cell \<Rightarrow> 'a cell \<Rightarrow> nat \<Rightarrow> nat \<Rightarrow> 'a list \<Rightarrow> nat \<Rightarrow> 'a cell" where
  "sp_expect tail_cell head_cell h t vs p =
     (if p < t then (if p = h then head_cell else Live (vs ! p))
      else if p = t then tail_cell else Raw)"

definition spsc_bound :: "'a spsc \<Rightarrow> bool" where
  "spsc_bound s \<longleftrightarrow> unat (sp_tail s) < 2 ^ 63"

definition spsc_inv :: "'a spsc \<Rightarrow> bool" where
  "spsc_inv s \<longleftrightarrow>
     unat (sp_head s) \<le> unat (sp_tail s) \<and> unat (sp_tail s) \<le> unat (sp_head s) + 1024
   \<and> spsc_bound s
   \<and> length (sp_in s) = unat (sp_tail s)
   \<and> sp_out s = take (unat (sp_head s) + (if cons_mid (sp_consumer s) then 1 else 0)) (sp_in s)
   \<and> prod_ok (sp_producer s) (sp_head s) (sp_tail s)
   \<and> cons_ok (sp_consumer s) (sp_head s) (sp_tail s)
   \<and> ring_view 1024 (sp_ring s) (unat (sp_head s))
       (sp_expect (prod_cell (sp_producer s)) (cons_cell (sp_consumer s) (sp_in s ! unat (sp_head s)))
          (unat (sp_head s)) (unat (sp_tail s)) (sp_in s))"

lemma spsc_inv_init: "spsc_init s \<Longrightarrow> spsc_inv s"
  by (simp add: spsc_init_def spsc_inv_def spsc_bound_def ring_view_def sp_expect_def)

lemma spsc_full:
  assumes "spsc_inv s"
  shows "sp_tail s - sp_head s = spsc_capacity \<longleftrightarrow> unat (sp_tail s) = unat (sp_head s) + 1024"
proof -
  have "sp_head s \<le> sp_tail s" using assms by (simp add: spsc_inv_def word_le_nat_alt)
  then have "unat (sp_tail s - sp_head s) = unat (sp_tail s) - unat (sp_head s)" by (rule unat_sub)
  moreover have "unat spsc_capacity = 1024" by (simp add: spsc_capacity_def)
  ultimately show ?thesis using assms by (auto simp: spsc_inv_def word_unat_eq_iff)
qed


lemma spsc_inv_view:
  "spsc_inv s \<Longrightarrow> ring_view 1024 (sp_ring s) (unat (sp_head s))
     (sp_expect (prod_cell (sp_producer s)) (cons_cell (sp_consumer s) (sp_in s ! unat (sp_head s)))
        (unat (sp_head s)) (unat (sp_tail s)) (sp_in s))"
  by (simp add: spsc_inv_def)

subsubsection \<open>The producer's steps\<close>

lemma sp_push_start: "spsc_inv s \<Longrightarrow> sp_producer s = P_idle \<Longrightarrow> spsc_inv (s\<lparr>sp_producer := P_tail v\<rparr>)"
  by (simp add: spsc_inv_def spsc_bound_def)

lemma sp_push_tail:
  "spsc_inv s \<Longrightarrow> sp_producer s = P_tail v \<Longrightarrow> spsc_inv (s\<lparr>sp_producer := P_head v (sp_tail s)\<rparr>)"
  by (simp add: spsc_inv_def spsc_bound_def)

lemma sp_push_full:
  "spsc_inv s \<Longrightarrow> sp_producer s = P_head v w \<Longrightarrow> spsc_inv (s\<lparr>sp_producer := P_idle, sp_pushed := False\<rparr>)"
  by (simp add: spsc_inv_def spsc_bound_def)

lemma sp_push_head:
  assumes "spsc_inv s" and "sp_producer s = P_head v w" and "w - sp_head s \<noteq> spsc_capacity"
  shows "spsc_inv (s\<lparr>sp_producer := P_construct v w\<rparr>)"
proof -
  from assms have "w = sp_tail s" by (simp add: spsc_inv_def)
  with assms spsc_full [OF assms(1)] show ?thesis by (auto simp: spsc_inv_def spsc_bound_def)
qed

lemma sp_push_construct:
  assumes inv: "spsc_inv s" and at: "sp_producer s = P_construct v w"
  shows "spsc_inv ((set_slot w (Live v) s)\<lparr>sp_producer := P_store v w\<rparr>)"
proof -
  let ?h = "unat (sp_head s)" and ?t = "unat (sp_tail s)"
  let ?c = "cons_cell (sp_consumer s) (sp_in s ! ?h)"
  from inv at have w: "w = sp_tail s" "?h \<le> ?t" "?t < ?h + 1024" by (auto simp: spsc_inv_def)
  from ring_view_update [OF spsc_inv_view [OF inv] w(2,3), of "Live v"]
  have "ring_view 1024 ((sp_ring s)(?t mod 1024 := Live v)) ?h (sp_expect (Live v) ?c ?h ?t (sp_in s))"
    by (rule ring_view_cong) (simp add: sp_expect_def)
  with inv at w show ?thesis by (simp add: spsc_inv_def spsc_bound_def set_slot_def spsc_slot_mod)
qed

lemma sp_push_store:
  assumes inv: "spsc_inv s" and at: "sp_producer s = P_store v w" and b: "unat (1 + w) < 2 ^ 63"
  shows "spsc_inv (s\<lparr>sp_tail := 1 + w, sp_producer := P_idle, sp_pushed := True, sp_in := sp_in s @ [v]\<rparr>)"
proof -
  let ?h = "unat (sp_head s)" and ?t = "unat (sp_tail s)"
  let ?c = "cons_cell (sp_consumer s) (sp_in s ! ?h)" and ?vs = "sp_in s @ [v]"
  from inv at have w: "w = sp_tail s" "?h \<le> ?t" "?t < ?h + 1024" "?t < 2 ^ 63" "length (sp_in s) = ?t"
    and c: "cons_ok (sp_consumer s) (sp_head s) (sp_tail s)"
    by (auto simp: spsc_inv_def spsc_bound_def)
  have t': "unat (1 + w) = Suc ?t" using unat_one_plus [of "sp_tail s"] w by simp
  have c': "cons_ok (sp_consumer s) (sp_head s) (1 + w)" and mid: "cons_mid (sp_consumer s) \<Longrightarrow> ?h < ?t"
    using c t' by (cases "sp_consumer s"; simp)+
  have idle: "cons_cell (sp_consumer s) x = Live x" if "?h = ?t" for x :: 'a
    using that mid by (cases "sp_consumer s") auto
  have "ring_view 1024 (sp_ring s) ?h (sp_expect Raw (cons_cell (sp_consumer s) (?vs ! ?h)) ?h (Suc ?t) ?vs)"
    using spsc_inv_view [OF inv]
    by (rule ring_view_cong) (use at idle w in \<open>auto simp: sp_expect_def nth_append less_Suc_eq\<close>)
  then show ?thesis using inv w t' b c' mid by (auto simp: spsc_inv_def spsc_bound_def)
qed

subsubsection \<open>The consumer's steps\<close>

lemma sp_pop_start: "spsc_inv s \<Longrightarrow> sp_consumer s = C_idle \<Longrightarrow> spsc_inv (s\<lparr>sp_consumer := C_head\<rparr>)"
  by (simp add: spsc_inv_def spsc_bound_def)

lemma sp_pop_head:
  "spsc_inv s \<Longrightarrow> sp_consumer s = C_head \<Longrightarrow> spsc_inv (s\<lparr>sp_consumer := C_tail (sp_head s)\<rparr>)"
  by (simp add: spsc_inv_def spsc_bound_def)

lemma sp_pop_empty:
  "spsc_inv s \<Longrightarrow> sp_consumer s = C_tail w \<Longrightarrow> spsc_inv (s\<lparr>sp_consumer := C_idle, sp_popped := False\<rparr>)"
  by (simp add: spsc_inv_def spsc_bound_def)

lemma sp_pop_tail:
  "spsc_inv s \<Longrightarrow> sp_consumer s = C_tail w \<Longrightarrow> w < sp_tail s \<Longrightarrow> spsc_inv (s\<lparr>sp_consumer := C_move w\<rparr>)"
  by (auto simp: spsc_inv_def spsc_bound_def word_less_nat_alt)

lemma sp_head_cell:
  assumes "spsc_inv s" and "unat (sp_head s) < unat (sp_tail s)"
  shows "sp_ring s (spsc_slot (sp_head s)) = cons_cell (sp_consumer s) (sp_in s ! unat (sp_head s))"
  using ring_viewD [OF spsc_inv_view [OF assms(1)], of "unat (sp_head s)"] assms(2)
  by (simp add: spsc_slot_mod sp_expect_def)

lemma sp_set_head:
  assumes "spsc_inv s" and "unat (sp_head s) < unat (sp_tail s)"
  shows "ring_view 1024 (sp_ring (set_slot (sp_head s) c s)) (unat (sp_head s))
    (sp_expect (prod_cell (sp_producer s)) c (unat (sp_head s)) (unat (sp_tail s)) (sp_in s))"
proof -
  let ?h = "unat (sp_head s)" and ?t = "unat (sp_tail s)"
  let ?f = "sp_expect (prod_cell (sp_producer s)) (cons_cell (sp_consumer s) (sp_in s ! ?h)) ?h ?t (sp_in s)"
  have "ring_view 1024 ((sp_ring s)(?h mod 1024 := c)) ?h (?f(?h := c))"
    by (rule ring_view_update [OF spsc_inv_view [OF assms(1)]]) simp_all
  then have "ring_view 1024 ((sp_ring s)(?h mod 1024 := c)) ?h
      (sp_expect (prod_cell (sp_producer s)) c ?h ?t (sp_in s))"
    by (rule ring_view_cong) (use assms in \<open>auto simp: sp_expect_def\<close>)
  then show ?thesis by (simp add: set_slot_def spsc_slot_mod)
qed

lemma sp_pop_move:
  assumes inv: "spsc_inv s" and at: "sp_consumer s = C_move w" and v: "sp_ring s (spsc_slot w) = Live v"
  shows "spsc_inv ((set_slot w Husk s)
    \<lparr>sp_place := Some v, sp_out := sp_out s @ [v], sp_consumer := C_destroy w\<rparr>)"
proof -
  from inv at have w: "w = sp_head s" "unat (sp_head s) < unat (sp_tail s)" by (auto simp: spsc_inv_def)
  have "v = sp_in s ! unat (sp_head s)" using sp_head_cell [OF inv w(2)] at v w(1) by simp
  with inv at w sp_set_head [OF inv w(2), of Husk] show ?thesis
    by (auto simp: spsc_inv_def spsc_bound_def set_slot_def take_Suc_conv_app_nth)
qed

lemma sp_pop_destroy:
  assumes inv: "spsc_inv s" and at: "sp_consumer s = C_destroy w"
  shows "spsc_inv ((set_slot w Raw s)\<lparr>sp_consumer := C_store w\<rparr>)"
proof -
  from inv at have w: "w = sp_head s" "unat (sp_head s) < unat (sp_tail s)" by (auto simp: spsc_inv_def)
  with inv at sp_set_head [OF inv w(2), of Raw] show ?thesis
    by (auto simp: spsc_inv_def spsc_bound_def set_slot_def)
qed

lemma sp_pop_store:
  assumes inv: "spsc_inv s" and at: "sp_consumer s = C_store w"
  shows "spsc_inv (s\<lparr>sp_head := 1 + w, sp_consumer := C_idle, sp_popped := True\<rparr>)"
proof -
  let ?h = "unat (sp_head s)" and ?t = "unat (sp_tail s)"
  let ?f = "sp_expect (prod_cell (sp_producer s)) Raw ?h ?t (sp_in s)"
  from inv at have w: "w = sp_head s" "?h < ?t" "?t \<le> ?h + 1024" "?t < 2 ^ 63"
    and p: "prod_ok (sp_producer s) (sp_head s) (sp_tail s)" by (auto simp: spsc_inv_def spsc_bound_def)
  have h': "unat (1 + w) = Suc ?h" using unat_one_plus [of "sp_head s"] w by simp
  have p': "prod_ok (sp_producer s) (1 + w) (sp_tail s)"
    and full: "?t = ?h + 1024 \<Longrightarrow> prod_cell (sp_producer s) = Raw"
    using p h' by (cases "sp_producer s"; simp)+
  have "ring_view 1024 (sp_ring s) (Suc ?h) (?f(?h + 1024 := ?f ?h))"
    by (rule ring_view_advance) (use spsc_inv_view [OF inv] at in simp_all)
  then have "ring_view 1024 (sp_ring s) (Suc ?h)
      (sp_expect (prod_cell (sp_producer s)) (Live (sp_in s ! Suc ?h)) (Suc ?h) ?t (sp_in s))"
    by (rule ring_view_cong) (use w full in \<open>auto simp: sp_expect_def\<close>)
  then show ?thesis using inv at w h' p' by (auto simp: spsc_inv_def spsc_bound_def)
qed

subsubsection \<open>Every step\<close>

lemma spsc_move_cases [consumes 1, case_names Push Tail Full Head Construct Publish
    Pop Load_head Empty Load_tail Move Bad_move Destroy Bad_destroy Release]:
  assumes "spsc_move e s = Some s'"
  obtains (Push) v where "sp_producer s = P_idle" "s' = s\<lparr>sp_producer := P_tail v\<rparr>"
  | (Tail) v where "sp_producer s = P_tail v" "s' = s\<lparr>sp_producer := P_head v (sp_tail s)\<rparr>"
  | (Full) v w where "sp_producer s = P_head v w" "w - sp_head s = spsc_capacity"
      "s' = s\<lparr>sp_producer := P_idle, sp_pushed := False\<rparr>"
  | (Head) v w where "sp_producer s = P_head v w" "w - sp_head s \<noteq> spsc_capacity"
      "s' = s\<lparr>sp_producer := P_construct v w\<rparr>"
  | (Construct) v w where "sp_producer s = P_construct v w"
      "s' = (set_slot w (Live v) s)\<lparr>sp_producer := P_store v w\<rparr>"
  | (Publish) v w where "sp_producer s = P_store v w"
      "s' = s\<lparr>sp_tail := 1 + w, sp_producer := P_idle, sp_pushed := True, sp_in := sp_in s @ [v]\<rparr>"
  | (Pop) "sp_consumer s = C_idle" "s' = s\<lparr>sp_consumer := C_head\<rparr>"
  | (Load_head) "sp_consumer s = C_head" "s' = s\<lparr>sp_consumer := C_tail (sp_head s)\<rparr>"
  | (Empty) w where "sp_consumer s = C_tail w" "\<not> w < sp_tail s"
      "s' = s\<lparr>sp_consumer := C_idle, sp_popped := False\<rparr>"
  | (Load_tail) w where "sp_consumer s = C_tail w" "w < sp_tail s" "s' = s\<lparr>sp_consumer := C_move w\<rparr>"
  | (Move) w v where "sp_consumer s = C_move w" "sp_ring s (spsc_slot w) = Live v"
      "s' = (set_slot w Husk s)
         \<lparr>sp_place := Some v, sp_out := sp_out s @ [v], sp_consumer := C_destroy w\<rparr>"
  | (Bad_move) w where "sp_consumer s = C_move w" "\<forall>v. sp_ring s (spsc_slot w) \<noteq> Live v"
      "s' = s\<lparr>sp_consumer := C_undefined\<rparr>"
  | (Destroy) w where "sp_consumer s = C_destroy w" "sp_ring s (spsc_slot w) \<noteq> Raw"
      "s' = (set_slot w Raw s)\<lparr>sp_consumer := C_store w\<rparr>"
  | (Bad_destroy) w where "sp_consumer s = C_destroy w" "sp_ring s (spsc_slot w) = Raw"
      "s' = s\<lparr>sp_consumer := C_undefined\<rparr>"
  | (Release) w where "sp_consumer s = C_store w"
      "s' = s\<lparr>sp_head := 1 + w, sp_consumer := C_idle, sp_popped := True\<rparr>"
proof (cases e)
  case (SP_push v)
  with assms that(1) [of v] show thesis by (auto split: if_splits)
next
  case SP_producer
  with assms that(2,3,4,5,6) show thesis
    by (cases "sp_producer s"; simp add: spsc_push_def split: if_splits)
next
  case SP_pop
  with assms that(7) show thesis by (simp split: if_splits)
next
  case SP_consumer
  then have m: "spsc_pop s = Some s'" using assms by simp
  then show thesis
  proof (cases "sp_consumer s")
    case (C_move w)
    with m that(11,12) show thesis by (cases "sp_ring s (spsc_slot w)"; simp add: spsc_pop_def)
  next
    case (C_destroy w)
    with m that(13,14) show thesis by (cases "sp_ring s (spsc_slot w)"; simp add: spsc_pop_def)
  qed (use m that(8,9,10,15) in \<open>simp_all add: spsc_pop_def split: if_splits\<close>)
qed

lemma spsc_head_live:
  "spsc_inv s \<Longrightarrow> sp_consumer s = C_move w \<Longrightarrow> sp_ring s (spsc_slot w) = Live (sp_in s ! unat (sp_head s))"
  using sp_head_cell [of s] by (auto simp: spsc_inv_def)

lemma spsc_head_husk:
  "spsc_inv s \<Longrightarrow> sp_consumer s = C_destroy w \<Longrightarrow> sp_ring s (spsc_slot w) = Husk"
  using sp_head_cell [of s] by (auto simp: spsc_inv_def)

lemma spsc_inv_move:
  assumes inv: "spsc_inv s" and move: "within spsc_bound spsc_move e s = Some s'"
  shows "spsc_inv s'"
proof -
  from move have "spsc_move e s = Some s'" and ok: "spsc_bound s'" by simp_all
  then show ?thesis
  proof (cases rule: spsc_move_cases)
    case (Publish v w)
    with ok have "unat (1 + w) < 2 ^ 63" by (simp add: spsc_bound_def)
    with Publish inv show ?thesis by (simp add: sp_push_store)
  next
    case (Bad_move w)
    with inv show ?thesis by (simp add: spsc_head_live)
  next
    case (Bad_destroy w)
    with inv show ?thesis by (simp add: spsc_head_husk)
  qed (use inv in \<open>auto intro: sp_push_start sp_push_tail sp_push_full
      sp_push_head sp_push_construct sp_pop_start sp_pop_head sp_pop_empty sp_pop_tail sp_pop_move
      sp_pop_destroy sp_pop_store\<close>)
qed

subsection \<open>Refinement of the bounded queue\<close>

definition spsc_abs :: "'a spsc \<Rightarrow> 'a fifo" where
  "spsc_abs s = \<lparr>entered = sp_in s, left = sp_out s\<rparr>"

lemma spsc_contents:
  "spsc_inv s \<Longrightarrow> contents (spsc_abs s)
     = drop (unat (sp_head s) + (if cons_mid (sp_consumer s) then 1 else 0)) (sp_in s)"
  by (cases "sp_consumer s") (auto simp: spsc_abs_def contents_def spsc_inv_def)

lemma spsc_simulates:
  assumes inv: "spsc_inv s" and move: "within spsc_bound spsc_move e s = Some s'"
  shows "spsc_abs s' = spsc_abs s \<or> (\<exists>f. fifo_move 1024 f (spsc_abs s) = Some (spsc_abs s'))"
proof -
  from move have "spsc_move e s = Some s'" by simp
  then show ?thesis
  proof (cases rule: spsc_move_cases)
    case (Publish v w)
    with inv have "length (contents (spsc_abs s)) < 1024" by (auto simp: spsc_contents spsc_inv_def)
    with Publish have "fifo_move 1024 (Enq v) (spsc_abs s) = Some (spsc_abs s')" by (simp add: spsc_abs_def)
    then show ?thesis by blast
  next
    case (Move w v)
    with inv have h: "unat (sp_head s) < length (sp_in s)" by (auto simp: spsc_inv_def)
    from Move inv have "v = sp_in s ! unat (sp_head s)" using spsc_head_live by fastforce
    with h Move inv have "contents (spsc_abs s) = v # drop (Suc (unat (sp_head s))) (sp_in s)"
      by (simp add: spsc_contents Cons_nth_drop_Suc)
    with Move have "fifo_move 1024 Deq (spsc_abs s) = Some (spsc_abs s')"
      by (simp add: spsc_abs_def set_slot_def)
    then show ?thesis by blast
  qed (simp_all add: spsc_abs_def set_slot_def)
qed

interpretation spsc: fifo_queue spsc_init "within spsc_bound spsc_move" spsc_inv 1024 spsc_abs
  by unfold_locales
    (auto simp: spsc_abs_def spsc_init_def fifo_init_def intro: spsc_inv_init spsc_inv_move
      dest: spsc_simulates)

lemma destroy_all:
  assumes "ring_view 1024 (sp_ring s) (unat (sp_head s))
      (sp_expect Raw (Live (sp_in s ! unat (sp_head s))) (unat (sp_head s)) (unat (sp_tail s)) (sp_in s))"
    and "unat (sp_head s) \<le> unat (sp_tail s)" and "unat (sp_tail s) \<le> unat (sp_head s) + 1024"
    and "unat (sp_tail s) < 2 ^ 63"
  shows "\<exists>s'. spsc_destroy s = Some s' \<and> sp_head s' = sp_tail s \<and> (\<forall>i < 1024. sp_ring s' i = Raw)"
  using assms
proof (induction s rule: spsc_destroy.induct)
  case (1 s)
  let ?h = "unat (sp_head s)" and ?t = "unat (sp_tail s)"
  let ?f = "sp_expect Raw (Live (sp_in s ! ?h)) ?h ?t (sp_in s)"
  show ?case
  proof (cases "sp_tail s = sp_head s")
    case True
    then have "ring_view 1024 (sp_ring s) ?h (\<lambda>_. Raw)"
      using "1.prems"(1) by (elim ring_view_cong) (simp add: sp_expect_def)
    with True show ?thesis by (auto simp: spsc_destroy.simps [of s] sp_empty_def dest: ring_view_const)
  next
    case False
    let ?s = "(set_slot (sp_head s) Raw s)\<lparr>sp_head := sp_head s + 1\<rparr>"
    from False "1.prems"(2) have lt: "?h < ?t" by (metis le_neq_implies_less word_unat_eq_iff)
    have live: "sp_ring s (spsc_slot (sp_head s)) \<noteq> Raw"
      using ring_viewD [OF "1.prems"(1), of ?h] lt by (simp add: spsc_slot_mod sp_expect_def)
    have h': "unat (sp_head s + 1) = Suc ?h" using unat_inc [of "sp_head s"] lt "1.prems"(4) by simp
    let ?g = "?f(?h := Raw)"
    have "ring_view 1024 ((sp_ring s)(?h mod 1024 := Raw)) ?h ?g"
      by (rule ring_view_update [OF "1.prems"(1)]) simp_all
    then have "ring_view 1024 ((sp_ring s)(?h mod 1024 := Raw)) (Suc ?h) (?g(?h + 1024 := ?g ?h))"
      by (rule ring_view_advance) simp
    then have "ring_view 1024 ((sp_ring s)(?h mod 1024 := Raw)) (Suc ?h)
        (sp_expect Raw (Live (sp_in s ! Suc ?h)) (Suc ?h) ?t (sp_in s))"
      by (rule ring_view_cong) (use lt "1.prems"(3) in \<open>auto simp: sp_expect_def\<close>)
    then have "ring_view 1024 (sp_ring ?s) (unat (sp_head ?s))
        (sp_expect Raw (Live (sp_in ?s ! unat (sp_head ?s))) (unat (sp_head ?s)) (unat (sp_tail ?s)) (sp_in ?s))"
      by (simp add: set_slot_def spsc_slot_mod h')
    note view = this
    from False have ne: "\<not> sp_empty s" by (simp add: sp_empty_def)
    from "1.IH" [OF ne live view] lt "1.prems"(3,4) h' live ne show ?thesis
      by (simp add: spsc_destroy.simps [of s] set_slot_def)
  qed
qed

text \<open>While no \<open>pop\<close> is about to finish, \<open>full\<close> and \<open>empty\<close> tell what is in the queue.\<close>

lemma sp_full_empty:
  assumes "spsc_inv s" and "\<not> cons_mid (sp_consumer s)"
  shows "sp_full s \<longleftrightarrow> length (contents (spsc_abs s)) = 1024" and "sp_empty s \<longleftrightarrow> contents (spsc_abs s) = []"
  using assms spsc_full [OF assms(1)]
  by (auto simp: sp_full_def sp_empty_def spsc_contents spsc_inv_def word_unat_eq_iff)

lemma spsc_full_bound:
  "spsc_inv s \<Longrightarrow> sp_producer s = P_head v w \<Longrightarrow> w - sp_head s = spsc_capacity \<Longrightarrow>
     1023 \<le> length (contents (spsc_abs s))"
  using spsc_full [of s] by (auto simp: spsc_contents spsc_inv_def)

lemma spsc_start: "spsc_init \<lparr>sp_ring = (\<lambda>_. Raw), sp_head = 0, sp_tail = 0, sp_producer = P_idle,
    sp_consumer = C_idle, sp_pushed = False, sp_popped = False, sp_place = None, sp_in = [], sp_out = []\<rparr>"
  by (simp add: spsc_init_def)

lemmas spsc_eval = within_def spsc_bound_def spsc_push_def spsc_pop_def set_slot_def spsc_slot_def
  spsc_capacity_def spsc_abs_def contents_def

subsection \<open>Properties\<close>

text \<open>C9. The SPSC queue is first-in first-out and bounded: in every reachable state the values
  popped so far are the first values pushed, in order, and at most 1024 values are in between.\<close>

theorem spsc_first_in_first_out:
  assumes "reach spsc_init (within spsc_bound spsc_move) s"
  shows "\<exists>waiting. sp_in s = sp_out s @ waiting \<and> length waiting \<le> 1024"
  using spsc.fifo_order [OF assms] spsc.fifo_bound [OF assms] by (auto simp: spsc_abs_def)

theorem spsc_first_in_first_out_witness:
  "\<exists>s :: nat spsc. reach spsc_init (within spsc_bound spsc_move) s \<and> sp_in s = [7, 8] \<and> sp_out s = [7]
     \<and> (\<exists>waiting. sp_in s = sp_out s @ waiting \<and> length waiting \<le> 1024)"
proof -
  let ?push = "\<lambda>v :: nat. [SP_push v, SP_producer, SP_producer, SP_producer, SP_producer]"
  let ?pop = "[SP_pop, SP_consumer, SP_consumer, SP_consumer, SP_consumer, SP_consumer] :: nat sp_event list"
  have "\<exists>s :: nat spsc. reach spsc_init (within spsc_bound spsc_move) s \<and> (sp_in s = [7, 8] \<and> sp_out s = [7])"
    by (rule reach_witness [where es = "?push 7 @ ?push 8 @ ?pop"], rule spsc_start, simp add: spsc_eval)
  then obtain s :: "nat spsc" where
    "reach spsc_init (within spsc_bound spsc_move) s" "sp_in s = [7, 8]" "sp_out s = [7]" by blast
  with spsc_first_in_first_out [OF this(1)] show ?thesis by blast
qed

text \<open>The SPSC queue has no undefined behaviour: the consumer never moves from or destroys a
  slot without an object, the producer constructs in raw storage only, and while both are at a
  slot, they are at different ones.\<close>

theorem spsc_no_undefined:
  assumes "reach spsc_init (within spsc_bound spsc_move) s"
  shows "sp_consumer s \<noteq> C_undefined
     \<and> (\<forall>v w. sp_producer s = P_construct v w \<longrightarrow> sp_ring s (spsc_slot w) = Raw
          \<and> (\<forall>h. sp_consumer s = C_move h \<or> sp_consumer s = C_destroy h \<longrightarrow> spsc_slot h \<noteq> spsc_slot w))"
proof -
  have inv: "spsc_inv s" using assms by (rule spsc.reach_inv)
  have raw: "sp_ring s (spsc_slot w) = Raw" if "sp_producer s = P_construct v w" for v w
  proof -
    from inv that have w: "w = sp_tail s" "unat (sp_head s) \<le> unat (sp_tail s)"
      "unat (sp_tail s) < unat (sp_head s) + 1024" by (auto simp: spsc_inv_def)
    from ring_viewD [OF spsc_inv_view [OF inv] w(2,3)] that w(1) show ?thesis
      by (simp add: spsc_slot_mod sp_expect_def)
  qed
  moreover have "spsc_slot h \<noteq> spsc_slot w"
    if "sp_producer s = P_construct v w" "sp_consumer s = C_move h \<or> sp_consumer s = C_destroy h" for v w h
    using raw [OF that(1)] that(2) spsc_head_live [OF inv, of h] spsc_head_husk [OF inv, of h] by auto
  ultimately show ?thesis using inv by (auto simp: spsc_inv_def)
qed

theorem spsc_no_undefined_witness:
  "\<exists>s :: nat spsc. reach spsc_init (within spsc_bound spsc_move) s
     \<and> sp_producer s = P_construct 8 1 \<and> sp_consumer s = C_destroy 0 \<and> spsc_slot 0 \<noteq> spsc_slot 1"
proof -
  let ?push = "\<lambda>v :: nat. [SP_push v, SP_producer, SP_producer, SP_producer, SP_producer]"
  have "\<exists>s :: nat spsc. reach spsc_init (within spsc_bound spsc_move) s
      \<and> (sp_producer s = P_construct 8 1 \<and> sp_consumer s = C_destroy 0)"
    by (rule reach_witness [where es = "?push 7 @ [SP_push 8, SP_producer, SP_producer, SP_pop,
          SP_consumer, SP_consumer, SP_consumer]"], rule spsc_start, simp add: spsc_eval)
  then obtain s :: "nat spsc" where s: "reach spsc_init (within spsc_bound spsc_move) s"
    "sp_producer s = P_construct 8 1" "sp_consumer s = C_destroy 0" by blast
  with spsc_no_undefined [OF s(1)] show ?thesis by blast
qed

text \<open>\<open>push\<close> and \<open>pop\<close> refuse for the right reason: \<open>pop\<close> returns false only when nothing
  is waiting, \<open>push\<close> only when 1024 slots are in use, which is 1024 waiting values or 1023 and one
  that is being popped.\<close>

theorem spsc_refusals:
  assumes "reach spsc_init (within spsc_bound spsc_move) s" and "spsc_move e s = Some s'"
  shows "(sp_consumer s = C_tail h \<and> sp_consumer s' = C_idle \<longrightarrow> \<not> sp_popped s' \<and> sp_out s = sp_in s)
     \<and> (sp_producer s = P_head v w \<and> sp_producer s' = P_idle \<longrightarrow>
          \<not> sp_pushed s' \<and> 1023 \<le> length (contents (spsc_abs s)))"
proof -
  have inv: "spsc_inv s" using assms(1) by (rule spsc.reach_inv)
  from assms(2) show ?thesis
  proof (cases rule: spsc_move_cases)
    case (Empty k)
    with inv have "unat (sp_tail s) = unat (sp_head s)" "k = sp_head s"
      by (auto simp: spsc_inv_def word_less_nat_alt)
    with Empty inv show ?thesis by (auto simp: spsc_inv_def)
  next
    case (Full v w)
    with spsc_full_bound [OF inv] show ?thesis by auto
  qed (auto simp: set_slot_def)
qed

theorem spsc_refusals_witness:
  "\<exists>s s' :: nat spsc. reach spsc_init (within spsc_bound spsc_move) s \<and> spsc_move SP_consumer s = Some s'
     \<and> sp_consumer s = C_tail 1 \<and> sp_consumer s' = C_idle \<and> \<not> sp_popped s' \<and> sp_out s = sp_in s \<and> sp_in s = [7]"
proof -
  let ?es = "[SP_push 7, SP_producer, SP_producer, SP_producer, SP_producer, SP_pop, SP_consumer, SP_consumer,
    SP_consumer, SP_consumer, SP_consumer, SP_pop, SP_consumer] :: nat sp_event list"
  have "\<exists>s :: nat spsc. reach spsc_init (within spsc_bound spsc_move) s
      \<and> (sp_consumer s = C_tail 1 \<and> sp_in s = [7] \<and> spsc_move SP_consumer s \<noteq> None
         \<and> sp_consumer (the (spsc_move SP_consumer s)) = C_idle)"
    by (rule reach_witness [where es = ?es], rule spsc_start, simp add: spsc_eval)
  then obtain s s' :: "nat spsc" where s: "reach spsc_init (within spsc_bound spsc_move) s"
    "spsc_move SP_consumer s = Some s'" "sp_consumer s = C_tail 1" "sp_consumer s' = C_idle" "sp_in s = [7]"
    by auto
  with spsc_refusals [OF s(1,2), of 1] show ?thesis by metis
qed

text \<open>The destructor of the SPSC queue destroys every object that is left and nothing else: run
  when both threads are done, it ends with raw storage in every slot.\<close>

theorem spsc_destructor_frees_all:
  assumes "reach spsc_init (within spsc_bound spsc_move) s"
    and "sp_producer s = P_idle" and "sp_consumer s = C_idle"
  shows "\<exists>s'. spsc_destroy s = Some s' \<and> sp_head s' = sp_tail s \<and> (\<forall>i < 1024. sp_ring s' i = Raw)"
proof -
  have inv: "spsc_inv s" using assms(1) by (rule spsc.reach_inv)
  with spsc_inv_view [OF inv] assms(2,3) show ?thesis
    by (intro destroy_all) (simp_all add: spsc_inv_def spsc_bound_def)
qed

theorem spsc_destructor_frees_all_witness:
  "\<exists>s s' :: nat spsc. reach spsc_init (within spsc_bound spsc_move) s \<and> sp_ring s 0 = Live 7
     \<and> spsc_destroy s = Some s' \<and> sp_ring s' 0 = Raw"
proof -
  let ?es = "[SP_push 7, SP_producer, SP_producer, SP_producer, SP_producer] :: nat sp_event list"
  have "\<exists>s :: nat spsc. reach spsc_init (within spsc_bound spsc_move) s
      \<and> (sp_ring s 0 = Live 7 \<and> sp_producer s = P_idle \<and> sp_consumer s = C_idle)"
    by (rule reach_witness [where es = ?es], rule spsc_start, simp add: spsc_eval)
  then obtain s :: "nat spsc" where s: "reach spsc_init (within spsc_bound spsc_move) s" "sp_ring s 0 = Live 7"
    "sp_producer s = P_idle" "sp_consumer s = C_idle" by blast
  from spsc_destructor_frees_all [OF s(1,3,4)] s(1,2) show ?thesis by force
qed

text \<open>Beyond the bound \<open>pop\<close> goes wrong, though \<open>push\<close>, \<open>full\<close> and \<open>empty\<close> do not: it compares
  \<open>head < tail\<close>, so once \<open>tail_\<close> has wrapped around to 0 and \<open>head_\<close> has not, it refuses
  although the difference of the counters says how many values are waiting.\<close>

theorem spsc_pop_at_wrap_around:
  assumes "sp_consumer s = C_tail (sp_head s)" and "sp_tail s < sp_head s"
  shows "spsc_move SP_consumer s = Some (s\<lparr>sp_consumer := C_idle, sp_popped := False\<rparr>)
     \<and> sp_tail s - sp_head s \<noteq> 0"
  using assms by (auto simp: spsc_pop_def)

theorem spsc_pop_at_wrap_around_witness:
  "\<exists>s :: nat spsc. sp_head s = 18446744073709551615 \<and> sp_tail s = 0 \<and> sp_ring s 1023 = Live 7
     \<and> spsc_move SP_consumer s = Some (s\<lparr>sp_consumer := C_idle, sp_popped := False\<rparr>)
     \<and> sp_tail s - sp_head s = 1"
proof -
  let ?s = "\<lparr>sp_ring = (\<lambda>_. Raw)(1023 := Live 7), sp_head = 18446744073709551615, sp_tail = 0, sp_producer = P_idle,
    sp_consumer = C_tail 18446744073709551615, sp_pushed = True, sp_popped = False, sp_place = None, sp_in = [], sp_out = []\<rparr>
    :: nat spsc"
  have "spsc_move SP_consumer ?s = Some (?s\<lparr>sp_consumer := C_idle, sp_popped := False\<rparr>) \<and> sp_tail ?s - sp_head ?s \<noteq> 0"
    by (rule spsc_pop_at_wrap_around) simp_all
  then show ?thesis by (intro exI [of _ ?s]) simp
qed

end
