(* ===== verification/Spsc_Weak.thy ===== *)
theory Spsc_Weak
  imports Spsc Weak_Memory
begin

text \<open>
  The queue of \<open>concurrent_structures/spsc_lockfree.cpp\<close> with the memory orders of the code: the loads of the
  own counter are relaxed, the load of the other thread's counter acquires, the stores release. The steps are
  those of \<open>Spsc\<close>, on the memory of \<open>Weak_Memory\<close>; the slots of the ring are its plain objects.
\<close>

subsection \<open>State\<close>

datatype sp_counter = Head | Tail

text \<open>Thread 0 is the producer, thread 1 the consumer.\<close>

record 'a wsp =
  w_mem :: "(sp_counter, nat, u64) memory"
  w_ring :: "nat \<Rightarrow> 'a cell"
  w_producer :: "'a sp_prod"
  w_consumer :: sp_cons
  w_pushed :: bool
  w_popped :: bool
  w_place :: "'a option"
  w_in :: "'a list"
  w_out :: "'a list"

definition wsp_new :: "'a wsp" where
  "wsp_new = \<lparr>w_mem = new_memory (\<lambda>_. 0), w_ring = (\<lambda>_. Raw), w_producer = P_idle, w_consumer = C_idle,
     w_pushed = False, w_popped = False, w_place = None, w_in = [], w_out = []\<rparr>"

definition wsp_init :: "'a wsp \<Rightarrow> bool" where
  "wsp_init s \<longleftrightarrow> s = wsp_new"

text \<open>An access of the slot of \<open>pos\<close>, which leaves \<open>c\<close> in it.\<close>

definition access_slot :: "tid \<Rightarrow> u64 \<Rightarrow> 'a cell \<Rightarrow> 'a wsp \<Rightarrow> 'a wsp" where
  "access_slot t pos c s =
     s\<lparr>w_mem := plain_access t (spsc_slot pos) (w_mem s), w_ring := (w_ring s)(spsc_slot pos := c)\<rparr>"

subsection \<open>Operations\<close>

text \<open>A step of \<open>push\<close>; a load reads the \<open>i\<close>-th message.\<close>

definition weak_push :: "nat \<Rightarrow> 'a wsp \<Rightarrow> 'a wsp option" where
  "weak_push i s =
     (case w_producer s of
        P_idle \<Rightarrow> None
      | P_tail val \<Rightarrow>
          map_option (\<lambda>(tail, m). s\<lparr>w_mem := m, w_producer := P_head val tail\<rparr>) (atomic_load Relaxed 0 Tail i (w_mem s))
      | P_head val tail \<Rightarrow>
          map_option (\<lambda>(head, m).
            if tail - head \<noteq> spsc_capacity then s\<lparr>w_mem := m, w_producer := P_construct val tail\<rparr>
            else s\<lparr>w_mem := m, w_producer := P_idle, w_pushed := False\<rparr>) (atomic_load Acquire 0 Head i (w_mem s))
      | P_construct val tail \<Rightarrow> Some ((access_slot 0 tail (Live val) s)\<lparr>w_producer := P_store val tail\<rparr>)
      | P_store val tail \<Rightarrow>
          Some (s\<lparr>w_mem := atomic_store Release 0 Tail (1 + tail) (w_mem s), w_producer := P_idle, w_pushed := True,
                  w_in := w_in s @ [val]\<rparr>))"

definition weak_pop :: "nat \<Rightarrow> 'a wsp \<Rightarrow> 'a wsp option" where
  "weak_pop i s =
     (case w_consumer s of
        C_idle \<Rightarrow> None
      | C_head \<Rightarrow>
          map_option (\<lambda>(head, m). s\<lparr>w_mem := m, w_consumer := C_tail head\<rparr>) (atomic_load Relaxed 1 Head i (w_mem s))
      | C_tail head \<Rightarrow>
          map_option (\<lambda>(tail, m).
            if head < tail then s\<lparr>w_mem := m, w_consumer := C_move head\<rparr>
            else s\<lparr>w_mem := m, w_consumer := C_idle, w_popped := False\<rparr>) (atomic_load Acquire 1 Tail i (w_mem s))
      | C_move head \<Rightarrow>
          Some (case w_ring s (spsc_slot head) of
                  Live v \<Rightarrow> (access_slot 1 head Husk s)
                    \<lparr>w_place := Some v, w_out := w_out s @ [v], w_consumer := C_destroy head\<rparr>
                | _ \<Rightarrow> s\<lparr>w_consumer := C_undefined\<rparr>)
      | C_destroy head \<Rightarrow>
          Some (case w_ring s (spsc_slot head) of
                  Raw \<Rightarrow> s\<lparr>w_consumer := C_undefined\<rparr>
                | _ \<Rightarrow> (access_slot 1 head Raw s)\<lparr>w_consumer := C_store head\<rparr>)
      | C_store head \<Rightarrow>
          Some (s\<lparr>w_mem := atomic_store Release 1 Head (1 + head) (w_mem s), w_consumer := C_idle, w_popped := True\<rparr>)
      | C_undefined \<Rightarrow> None)"

datatype 'a wsp_event = WSP_push 'a | WSP_producer nat | WSP_pop | WSP_consumer nat

fun wsp_move :: "'a wsp_event \<Rightarrow> 'a wsp \<Rightarrow> 'a wsp option" where
  "wsp_move (WSP_push v) s = (if w_producer s = P_idle then Some (s\<lparr>w_producer := P_tail v\<rparr>) else None)"
| "wsp_move (WSP_producer i) s = weak_push i s"
| "wsp_move WSP_pop s = (if w_consumer s = C_idle then Some (s\<lparr>w_consumer := C_head\<rparr>) else None)"
| "wsp_move (WSP_consumer i) s = weak_pop i s"

text \<open>The latest messages are those the steps of \<open>Spsc\<close> read; \<open>sc\<close> is the state with these values only.\<close>

definition latest :: "('l, 'c, 'v) memory \<Rightarrow> 'l \<Rightarrow> nat" where
  "latest m l = length (history m l) - 1"

definition sc :: "'a wsp \<Rightarrow> 'a spsc" where
  "sc s = \<lparr>sp_ring = w_ring s, sp_head = msg_value (last (history (w_mem s) Head)),
     sp_tail = msg_value (last (history (w_mem s) Tail)), sp_producer = w_producer s, sp_consumer = w_consumer s,
     sp_pushed = w_pushed s, sp_popped = w_popped s, sp_place = w_place s, sp_in = w_in s, sp_out = w_out s\<rparr>"

definition wsp_bound :: "'a wsp \<Rightarrow> bool" where
  "wsp_bound s \<longleftrightarrow> spsc_bound (sc s)"

subsection \<open>What the two threads know\<close>

text \<open>The messages of a counter are its values in order, and each view has got as far as its own message.\<close>

definition counts :: "(sp_counter, nat, u64) memory \<Rightarrow> sp_counter \<Rightarrow> bool" where
  "counts m l \<longleftrightarrow> (\<forall>i \<le> latest m l. msg_value (history m l ! i) = of_nat i \<and> seen (msg_view (history m l ! i)) l = i)"

definition fresh_on :: "(sp_counter, nat, u64) memory \<Rightarrow> (sp_counter, nat) view \<Rightarrow> nat \<Rightarrow> nat \<Rightarrow> bool" where
  "fresh_on m v a b \<longleftrightarrow> (\<forall>p. a \<le> p \<longrightarrow> p < b \<longrightarrow> fresh m v (p mod 1024))"

text \<open>
  Positions below \<open>b\<close> have been built in, positions below \<open>k\<close> have been taken out of. The producer knows all
  accesses of the slots from \<open>k\<close> up to the room it has seen; the consumer those of the slots it may take and
  of those it has taken; and so do the messages that pass this on.
\<close>

definition views_ok :: "(sp_counter, nat, u64) memory \<Rightarrow> nat \<Rightarrow> nat \<Rightarrow> bool" where
  "views_ok m b k \<longleftrightarrow> memory_ok m \<and> \<not> race m \<and> counts m Head \<and> counts m Tail
     \<and> seen (views m 0) Tail = latest m Tail \<and> latest m Tail \<le> b \<and> b \<le> seen (views m 0) Head + 1024
     \<and> seen (views m 1) Head = latest m Head \<and> latest m Head \<le> k \<and> k \<le> seen (views m 1) Tail
     \<and> fresh_on m (views m 0) k (seen (views m 0) Head + 1024)
     \<and> fresh_on m (views m 1) (latest m Head) (seen (views m 1) Tail) \<and> fresh_on m (views m 1) b (k + 1024)
     \<and> (\<forall>i \<le> latest m Head. fresh_on m (msg_view (history m Head ! i)) b (i + 1024))
     \<and> (\<forall>j \<le> latest m Tail. fresh_on m (msg_view (history m Tail ! j)) k j)"

lemma views_okD:
  assumes "views_ok m b k"
  shows "memory_ok m" and "\<not> race m" and "counts m Head" and "counts m Tail"
    and "seen (views m 0) Tail = latest m Tail" and "latest m Tail \<le> b" and "b \<le> seen (views m 0) Head + 1024"
    and "seen (views m 1) Head = latest m Head" and "latest m Head \<le> k" and "k \<le> seen (views m 1) Tail"
    and "fresh_on m (views m 0) k (seen (views m 0) Head + 1024)"
    and "fresh_on m (views m 1) (latest m Head) (seen (views m 1) Tail)" and "fresh_on m (views m 1) b (k + 1024)"
    and "i \<le> latest m Head \<Longrightarrow> fresh_on m (msg_view (history m Head ! i)) b (i + 1024)"
    and "j \<le> latest m Tail \<Longrightarrow> fresh_on m (msg_view (history m Tail ! j)) k j"
  using assms by (auto simp: views_ok_def)

lemma latest_length: "memory_ok m \<Longrightarrow> length (history m l) = Suc (latest m l)"
  using memory_okD(4) [of m l] by (simp add: latest_def)

lemma seen_latest: "memory_ok m \<Longrightarrow> seen (views m t) l \<le> latest m l"
  using memory_okD(3) [of m t l] by (simp add: latest_length)

lemma fresh_on_subset: "fresh_on m v a b \<Longrightarrow> a \<le> a' \<Longrightarrow> b' \<le> b \<Longrightarrow> fresh_on m v a' b'"
  by (simp add: fresh_on_def)

lemma fresh_on_read:
  assumes "memory_ok m" and "i \<le> latest m l" and "fresh_on m (views m t) a c" and "b \<le> c"
    and "acquires ord" and "fresh_on m (msg_view (history m l ! i)) b d"
  shows "fresh_on m (read_view ord t l i m) a (max c d)"
  unfolding fresh_on_def
proof (intro allI impI)
  fix p assume "a \<le> p" "p < max c d"
  then consider "a \<le> p" "p < c" | "b \<le> p" "p < d" using assms(4) by (cases "p < c") auto
  then have "fresh m (views m t) (p mod 1024) \<or> fresh m (msg_view (history m l ! i)) (p mod 1024)"
    using assms(3,6) unfolding fresh_on_def by cases blast+
  with assms(1,2,5) show "fresh m (read_view ord t l i m) (p mod 1024)"
    by (intro fresh_read_view) (auto simp: latest_length)
qed

lemma fresh_on_read_own:
  assumes "memory_ok m" and "i \<le> latest m l" and "fresh_on m (views m t) a c"
  shows "fresh_on m (read_view ord t l i m) a c"
  using assms unfolding fresh_on_def by (auto intro!: fresh_read_view simp: latest_length)

lemma fresh_on_other:
  assumes "fresh_on m v a b" and "q < a \<and> b \<le> q + 1024 \<or> b \<le> q \<and> q < a + 1024"
  shows "fresh_on (plain_access t (q mod 1024) m) v a b"
  unfolding fresh_on_def
proof (intro allI impI)
  fix p assume p: "a \<le> p" "p < b"
  have "p mod 1024 \<noteq> q mod 1024" using p assms(2) mod_window [of p 1024 q] by auto
  with assms(1) p show "fresh (plain_access t (q mod 1024) m) v (p mod 1024)"
    by (simp add: fresh_on_def fresh_def)
qed

lemma fresh_on_own: "fresh_on m (views m t) a b \<Longrightarrow> fresh_on (plain_access t c m) (views (plain_access t c m) t) a b"
  unfolding fresh_on_def fresh_own_access by simp

lemma latest_access [simp]: "latest (plain_access t c m) = latest m"
  by (simp add: latest_def fun_eq_iff)

lemma latest_view [simp]: "latest (set_view t v m) = latest m"
  by (simp add: latest_def fun_eq_iff)

lemma view_same [simp]:
  "counts (set_view t v m) = counts m" "counts (plain_access t c m) = counts m" "fresh_on (set_view t v m) = fresh_on m"
  by (simp_all add: counts_def latest_def fresh_on_def fresh_def fun_eq_iff)

text \<open>The loads that acquire.\<close>

lemma views_ok_load_head:
  assumes ok: "views_ok m b k" and i: "seen (views m 0) Head \<le> i" "i \<le> latest m Head"
  shows "views_ok (set_view 0 (read_view Acquire 0 Head i m) m) b k"
    and "seen (read_view Acquire 0 Head i m) Head = i"
proof -
  note d = views_okD [OF ok]
  let ?v = "read_view Acquire 0 Head i m"
  have len: "i < length (history m Head)" using i(2) by (simp add: latest_length [OF d(1)])
  have own: "seen (msg_view (history m Head ! i)) Head = i" using d(3) i(2) by (simp add: counts_def)
  then show head: "seen ?v Head = i" using i(1) by (simp add: read_view_def)
  have "seen (msg_view (history m Head ! i)) Tail \<le> latest m Tail"
    using memory_okD(2) [OF d(1) len] by (simp add: view_ok_def latest_length [OF d(1)] less_Suc_eq_le)
  then have tail: "seen ?v Tail = latest m Tail" using d(5) by (simp add: read_view_def)
  have "fresh_on m ?v k (max (seen (views m 0) Head + 1024) (i + 1024))"
    by (rule fresh_on_read [OF d(1) i(2) d(11) d(7) _ d(14) [OF i(2)]]) simp
  then have "fresh_on m ?v k (i + 1024)" by (rule fresh_on_subset) simp_all
  then show "views_ok (set_view 0 ?v m) b k"
    using d(1-4,6-10,12-15) head tail i len unfolding views_ok_def
    by (simp add: set_view_ok read_view_ok)
qed

lemma views_ok_load_tail:
  assumes ok: "views_ok m b k" and j: "seen (views m 1) Tail \<le> j" "j \<le> latest m Tail"
  shows "views_ok (set_view 1 (read_view Acquire 1 Tail j m) m) b k"
    and "seen (read_view Acquire 1 Tail j m) Tail = j"
proof -
  note d = views_okD [OF ok]
  let ?v = "read_view Acquire 1 Tail j m"
  have len: "j < length (history m Tail)" using j(2) by (simp add: latest_length [OF d(1)])
  have own: "seen (msg_view (history m Tail ! j)) Tail = j" using d(4) j(2) by (simp add: counts_def)
  then show tail: "seen ?v Tail = j" using j(1) by (simp add: read_view_def)
  have "seen (msg_view (history m Tail ! j)) Head \<le> latest m Head"
    using memory_okD(2) [OF d(1) len] by (simp add: view_ok_def latest_length [OF d(1)] less_Suc_eq_le)
  then have head: "seen ?v Head = latest m Head" using d(8) by (simp add: read_view_def)
  have "fresh_on m ?v (latest m Head) (max (seen (views m 1) Tail) j)"
    by (rule fresh_on_read [OF d(1) j(2) d(12) d(10) _ d(15) [OF j(2)]]) simp
  then have "fresh_on m ?v (latest m Head) j" by (rule fresh_on_subset) simp_all
  moreover have "fresh_on m ?v b (k + 1024)" by (rule fresh_on_read_own [OF d(1) j(2) d(13)])
  ultimately show "views_ok (set_view 1 ?v m) b k"
    using d(1-11,14-15) head tail j len unfolding views_ok_def
    by (simp add: set_view_ok read_view_ok)
qed

text \<open>The accesses of the slots: a slot that is built in, and the slot at \<open>head_\<close>.\<close>

lemma views_ok_build:
  assumes ok: "views_ok m (latest m Tail) k" and room: "latest m Tail < seen (views m 0) Head + 1024"
  shows "views_ok (plain_access 0 (latest m Tail mod 1024) m) (Suc (latest m Tail)) k"
proof -
  note d = views_okD [OF ok]
  let ?b = "latest m Tail" and ?m = "plain_access 0 (latest m Tail mod 1024) m"
  have le: "k \<le> ?b" "seen (views m 0) Head \<le> latest m Head" "?b \<le> latest m Head + 1024" "seen (views m 1) Tail \<le> ?b"
    using d(7,10) seen_latest [OF d(1), of 0 Head] seen_latest [OF d(1), of 1 Tail] by linarith+
  have lt: "?b < latest m Head + 1024" using room le(2) by linarith
  have "fresh m (views m 0) (?b mod 1024)" using d(11) le(1) room by (simp add: fresh_on_def)
  then have race: "\<not> race ?m" using d(2) by simp
  have own: "fresh_on ?m (views ?m 0) k (seen (views m 0) Head + 1024)" by (rule fresh_on_own [OF d(11)])
  have cons: "fresh_on ?m (views m 1) (latest m Head) (seen (views m 1) Tail)"
    by (rule fresh_on_other [OF d(12)]) (use le lt in linarith)
  have "fresh_on m (views m 1) (Suc ?b) (k + 1024)" by (rule fresh_on_subset [OF d(13)]) simp_all
  then have taken: "fresh_on ?m (views m 1) (Suc ?b) (k + 1024)" by (rule fresh_on_other) (use le in linarith)
  have heads: "fresh_on ?m (msg_view (history m Head ! i)) (Suc ?b) (i + 1024)" if "i \<le> latest m Head" for i
  proof (rule fresh_on_other)
    show "fresh_on m (msg_view (history m Head ! i)) (Suc ?b) (i + 1024)"
      by (rule fresh_on_subset [OF d(14) [OF that]]) simp_all
  qed (use that d(9) le(1) in linarith)
  have tails: "fresh_on ?m (msg_view (history m Tail ! j)) k j" if "j \<le> ?b" for j
    by (rule fresh_on_other [OF d(15) [OF that]]) (use that d(9) lt in linarith)
  show ?thesis
    using d(1,3-5,8-10) room race own cons taken heads tails unfolding views_ok_def
    by (simp add: plain_access_ok)
qed

lemma views_ok_take:
  assumes ok: "views_ok m b k" and k: "k \<le> Suc (latest m Head)" and more: "latest m Head < seen (views m 1) Tail"
  shows "views_ok (plain_access 1 (latest m Head mod 1024) m) b (Suc (latest m Head))"
proof -
  note d = views_okD [OF ok]
  let ?h = "latest m Head" and ?m = "plain_access 1 (latest m Head mod 1024) m"
  have le: "seen (views m 0) Head \<le> ?h" "seen (views m 1) Tail \<le> latest m Tail" "latest m Tail \<le> b"
    "latest m Tail \<le> ?h + 1024" "?h < b"
    using d(6,7) more seen_latest [OF d(1), of 0 Head] seen_latest [OF d(1), of 1 Tail] by linarith+
  have "fresh m (views m 1) (?h mod 1024)" using d(12) more by (simp add: fresh_on_def)
  then have race: "\<not> race ?m" using d(2) by simp
  have "fresh_on m (views m 0) (Suc ?h) (seen (views m 0) Head + 1024)" by (rule fresh_on_subset [OF d(11) k]) simp
  then have prod: "fresh_on ?m (views m 0) (Suc ?h) (seen (views m 0) Head + 1024)"
    by (rule fresh_on_other) (use le in linarith)
  have own: "fresh_on ?m (views ?m 1) ?h (seen (views m 1) Tail)" by (rule fresh_on_own [OF d(12)])
  have taken: "fresh_on ?m (views ?m 1) b (Suc ?h + 1024)"
    unfolding fresh_on_def
  proof (intro allI impI)
    fix p assume p: "b \<le> p" "p < Suc ?h + 1024"
    show "fresh ?m (views ?m 1) (p mod 1024)"
    proof (cases "p = ?h + 1024")
      case False
      with p d(9) have "p < k + 1024" by linarith
      with p d(13) have "fresh m (views m 1) (p mod 1024)" by (simp add: fresh_on_def)
      then show ?thesis unfolding fresh_own_access by simp
    next
      case True
      show ?thesis unfolding fresh_own_access True by simp
    qed
  qed
  have heads: "fresh_on ?m (msg_view (history m Head ! i)) b (i + 1024)" if "i \<le> ?h" for i
    by (rule fresh_on_other [OF d(14) [OF that]]) (use that le in linarith)
  have tails: "fresh_on ?m (msg_view (history m Tail ! j)) (Suc ?h) j" if j: "j \<le> latest m Tail" for j
  proof (rule fresh_on_other)
    show "fresh_on m (msg_view (history m Tail ! j)) (Suc ?h) j" by (rule fresh_on_subset [OF d(15) [OF j] k]) simp
  qed (use j le in linarith)
  show ?thesis
    using d(1,3-8) more race own prod taken heads tails unfolding views_ok_def
    by (simp add: plain_access_ok)
qed

text \<open>The stores that release.\<close>

lemma latest_store [simp]:
  "latest (atomic_store ord t l x m) l' = (if l' = l then length (history m l) else latest m l')"
  by (simp add: latest_def atomic_store_def)

lemma counts_store:
  assumes "memory_ok m" and "counts m l" and "x = of_nat (Suc (latest m l))" and "releases ord"
  shows "counts (atomic_store ord t l x m) l" and "k \<noteq> l \<Longrightarrow> counts m k \<Longrightarrow> counts (atomic_store ord t l x m) k"
proof -
  note len = latest_length [OF assms(1), of l]
  have "seen (views m t) l \<le> latest m l" by (rule seen_latest [OF assms(1)])
  with assms show "counts (atomic_store ord t l x m) l"
    unfolding counts_def latest_store by (auto simp: atomic_store_def nth_append len le_Suc_eq)
  show "counts (atomic_store ord t l x m) k" if "k \<noteq> l" "counts m k"
    using that by (simp add: counts_def atomic_store_def latest_def)
qed

lemma fresh_on_store [simp]: "fresh_on (atomic_store ord t l x m) v a b = fresh_on m v a b"
  by (simp add: fresh_on_def fresh_def atomic_store_def)

lemma fresh_on_see [simp]: "fresh_on m (see l i v) a b = fresh_on m v a b"
  by (simp add: fresh_on_def)

lemma fresh_on_no_view: "fresh_on m v a b \<Longrightarrow> view_ok m v \<Longrightarrow> fresh_on m (join no_view v) a b"
  unfolding fresh_on_def using fresh_join1 [of m no_view v] view_ok_no_view [of m v] by blast

lemma views_ok_publish:
  assumes ok: "views_ok m (Suc (latest m Tail)) k" and x: "x = of_nat (Suc (latest m Tail))"
  shows "views_ok (atomic_store Release 0 Tail x m) (Suc (latest m Tail)) k"
proof -
  note d = views_okD [OF ok]
  let ?m = "atomic_store Release 0 Tail x m" and ?b = "Suc (latest m Tail)"
  note len = latest_length [OF d(1), of Tail]
  have hist: "history ?m Head = history m Head" "race ?m = race m" "views ?m 1 = views m 1" "views ?m 0 = see Tail ?b (views m 0)"
    by (simp_all add: atomic_store_def len)
  have new: "history ?m Tail ! ?b = \<lparr>msg_value = x, msg_view = join no_view (see Tail ?b (views m 0))\<rparr>"
    by (simp add: atomic_store_def nth_append len)
  have old: "history ?m Tail ! j = history m Tail ! j" if "j \<le> latest m Tail" for j
    using that by (simp add: atomic_store_def nth_append len)
  have vok: "view_ok ?m (see Tail ?b (views m 0))"
    using memory_okD(1) [OF atomic_store_ok [OF d(1)], of Release 0 Tail x 0] unfolding hist(4) .
  have "fresh_on ?m (see Tail ?b (views m 0)) k ?b"
    by (simp, rule fresh_on_subset [OF d(11)]) (use d(7) in simp_all)
  from fresh_on_no_view [OF this vok] old new d(15)
  have tails: "fresh_on ?m (msg_view (history ?m Tail ! j)) k j" if "j \<le> ?b" for j
    using that by (cases "j = ?b") auto
  have "counts ?m Tail" "counts ?m Head" using counts_store [OF d(1,4) x, where ord = Release and t = 0] d(3) by simp_all
  with d hist tails show ?thesis
    unfolding views_ok_def by (simp add: atomic_store_ok len seen_latest)
qed

lemma views_ok_release:
  assumes ok: "views_ok m b (Suc (latest m Head))" and x: "x = of_nat (Suc (latest m Head))"
  shows "views_ok (atomic_store Release 1 Head x m) b (Suc (latest m Head))"
proof -
  note d = views_okD [OF ok]
  let ?m = "atomic_store Release 1 Head x m" and ?k = "Suc (latest m Head)"
  note len = latest_length [OF d(1), of Head]
  have hist: "history ?m Tail = history m Tail" "race ?m = race m" "views ?m 0 = views m 0" "views ?m 1 = see Head ?k (views m 1)"
    by (simp_all add: atomic_store_def len)
  have new: "history ?m Head ! ?k = \<lparr>msg_value = x, msg_view = join no_view (see Head ?k (views m 1))\<rparr>"
    by (simp add: atomic_store_def nth_append len)
  have old: "history ?m Head ! i = history m Head ! i" if "i \<le> latest m Head" for i
    using that by (simp add: atomic_store_def nth_append len)
  have vok: "view_ok ?m (see Head ?k (views m 1))"
    using memory_okD(1) [OF atomic_store_ok [OF d(1)], of Release 1 Head x 1] unfolding hist(4) .
  have "fresh_on ?m (see Head ?k (views m 1)) b (?k + 1024)" using d(13) by simp
  from fresh_on_no_view [OF this vok] old new d(14)
  have heads: "fresh_on ?m (msg_view (history ?m Head ! i)) b (i + 1024)" if "i \<le> ?k" for i
    using that by (cases "i = ?k") auto
  have cons: "fresh_on m (views m 1) ?k (seen (views m 1) Tail)" by (rule fresh_on_subset [OF d(12)]) simp_all
  have "counts ?m Head" "counts ?m Tail" using counts_store [OF d(1,3) x, where ord = Release and t = 1] d(4) by simp_all
  with d hist heads cons show ?thesis
    unfolding views_ok_def by (simp add: atomic_store_ok len seen_latest)
qed

subsection \<open>The invariant\<close>

fun prod_mid :: "'a sp_prod \<Rightarrow> bool" where
  "prod_mid (P_store v w) = True"
| "prod_mid _ = False"

fun prod_saw_room :: "'a sp_prod \<Rightarrow> bool" where
  "prod_saw_room (P_construct v w) = True"
| "prod_saw_room _ = False"

fun cons_saw_value :: "sp_cons \<Rightarrow> bool" where
  "cons_saw_value (C_move w) = True"
| "cons_saw_value (C_destroy w) = True"
| "cons_saw_value _ = False"

definition built :: "'a wsp \<Rightarrow> nat" where
  "built s = latest (w_mem s) Tail + (if prod_mid (w_producer s) then 1 else 0)"

definition taken :: "'a wsp \<Rightarrow> nat" where
  "taken s = latest (w_mem s) Head + (if cons_mid (w_consumer s) then 1 else 0)"

text \<open>
  Read with the latest values, a state satisfies the invariant of \<open>Spsc\<close>: a thread that reads an old value
  only finds less room or fewer values than there are.
\<close>

definition wsp_inv :: "'a wsp \<Rightarrow> bool" where
  "wsp_inv s \<longleftrightarrow> spsc_inv (sc s) \<and> latest (w_mem s) Tail = length (w_in s) \<and> views_ok (w_mem s) (built s) (taken s)
     \<and> (prod_saw_room (w_producer s) \<longrightarrow> latest (w_mem s) Tail < seen (views (w_mem s) 0) Head + 1024)
     \<and> (cons_saw_value (w_consumer s) \<longrightarrow> latest (w_mem s) Head < seen (views (w_mem s) 1) Tail)"

lemma sc_simps [simp]:
  "sp_ring (sc s) = w_ring s" "sp_producer (sc s) = w_producer s" "sp_consumer (sc s) = w_consumer s"
  "sp_pushed (sc s) = w_pushed s" "sp_popped (sc s) = w_popped s" "sp_place (sc s) = w_place s"
  "sp_in (sc s) = w_in s" "sp_out (sc s) = w_out s"
  by (simp_all add: sc_def)

lemma last_value:
  assumes "memory_ok m" and "counts m l"
  shows "msg_value (last (history m l)) = of_nat (latest m l)"
  using assms memory_okD(4) [OF assms(1), of l] by (simp add: counts_def latest_def last_conv_nth)

lemma wsp_counters:
  assumes "wsp_inv s"
  shows "sp_tail (sc s) = of_nat (latest (w_mem s) Tail)" and "sp_head (sc s) = of_nat (latest (w_mem s) Head)"
    and "unat (sp_tail (sc s)) = latest (w_mem s) Tail" and "unat (sp_head (sc s)) = latest (w_mem s) Head"
    and "latest (w_mem s) Head \<le> latest (w_mem s) Tail" and "latest (w_mem s) Tail < 2 ^ 63"
proof -
  from assms have v: "views_ok (w_mem s) (built s) (taken s)" and inv: "spsc_inv (sc s)"
    and len: "latest (w_mem s) Tail = length (w_in s)" by (simp_all add: wsp_inv_def)
  note d = views_okD [OF v]
  show t: "sp_tail (sc s) = of_nat (latest (w_mem s) Tail)" and h: "sp_head (sc s) = of_nat (latest (w_mem s) Head)"
    using last_value d by (simp_all add: sc_def)
  show t': "unat (sp_tail (sc s)) = latest (w_mem s) Tail" using inv len by (simp add: spsc_inv_def)
  show le: "latest (w_mem s) Head \<le> latest (w_mem s) Tail"
    using d(9,10) seen_latest [OF d(1), of 1 Tail] by linarith
  show lt: "latest (w_mem s) Tail < 2 ^ 63" using inv t' by (simp add: spsc_inv_def spsc_bound_def)
  have "unat (of_nat (latest (w_mem s) Head) :: u64) = latest (w_mem s) Head"
    using le lt by (simp add: unat_of_nat)
  then show "unat (sp_head (sc s)) = latest (w_mem s) Head" unfolding h .
qed

lemma wsp_invD:
  assumes "wsp_inv s"
  shows "spsc_inv (sc s)" and "views_ok (w_mem s) (built s) (taken s)" and "latest (w_mem s) Tail = length (w_in s)"
    and "prod_saw_room (w_producer s) \<Longrightarrow> latest (w_mem s) Tail < seen (views (w_mem s) 0) Head + 1024"
    and "cons_saw_value (w_consumer s) \<Longrightarrow> latest (w_mem s) Head < seen (views (w_mem s) 1) Tail"
  using assms by (simp_all add: wsp_inv_def)

text \<open>A thread reads its own counter exactly, and with an old value of the other one it only errs on the safe side.\<close>

lemma own_load:
  assumes "memory_ok m" and "seen (views m t) l = latest m l" and "atomic_load Relaxed t l i m = Some (x, m')"
  shows "x = msg_value (last (history m l))" and "m' = m"
proof -
  have "i = latest m l" using assms latest_length [OF assms(1), of l] by (simp add: atomic_load_def split: if_splits)
  moreover from this assms have "see l i (views m t) = views m t" by (simp add: see_def fun_upd_idem)
  ultimately show "x = msg_value (last (history m l))" "m' = m"
    using assms memory_okD(4) [OF assms(1), of l]
    by (auto simp: atomic_load_def read_view_def set_view_def latest_def last_conv_nth split: if_splits)
qed

lemma load_counts:
  assumes "memory_ok m" and "counts m l" and "atomic_load ord t l i m = Some (x, m')"
  shows "x = of_nat i" and "seen (views m t) l \<le> i" and "i \<le> latest m l" and "m' = set_view t (read_view ord t l i m) m"
  using assms latest_length [OF assms(1), of l] by (auto simp: atomic_load_def counts_def split: if_splits)

lemma old_head_room:
  assumes "i \<le> t" and "t \<le> i + 1024" and "of_nat t - of_nat i \<noteq> spsc_capacity"
  shows "t < i + 1024"
proof (rule ccontr)
  assume "\<not> t < i + 1024"
  with assms(1,2) have "t = i + 1024" by simp
  with assms(3) show False by (simp add: spsc_capacity_def)
qed

lemma old_tail_value:
  assumes "j < 2 ^ 63" and "h < 2 ^ 63" and "(of_nat h :: u64) < of_nat j"
  shows "h < j"
  using assms by (simp add: word_less_nat_alt unat_of_nat)

subsubsection \<open>The steps\<close>

lemma wsp_push_inv:
  assumes inv: "wsp_inv s" and step: "weak_push i s = Some s'" and bound: "wsp_bound s'"
  shows "wsp_inv s'"
proof -
  note d = wsp_invD [OF inv] and n = wsp_counters [OF inv]
  note v = views_okD [OF d(2)]
  let ?m = "w_mem s" and ?t = "latest (w_mem s) Tail"
  show ?thesis
  proof (cases "w_producer s")
    case (P_tail val)
    with step obtain x m where load: "atomic_load Relaxed 0 Tail i ?m = Some (x, m)"
      and s': "s' = s\<lparr>w_mem := m, w_producer := P_head val x\<rparr>" by (auto simp: weak_push_def)
    from own_load [OF v(1,5) load] have x: "x = sp_tail (sc s)" "m = ?m" by (simp_all add: sc_def)
    have "sc s' = (sc s)\<lparr>sp_producer := P_head val (sp_tail (sc s))\<rparr>" by (simp add: s' x sc_def)
    with sp_push_tail [OF d(1)] P_tail have "spsc_inv (sc s')" by simp
    with d P_tail show ?thesis by (simp add: wsp_inv_def s' x built_def taken_def)
  next
    case (P_head val w)
    with step obtain x m where load: "atomic_load Acquire 0 Head i ?m = Some (x, m)"
      and s': "s' = (if w - x \<noteq> spsc_capacity then s\<lparr>w_mem := m, w_producer := P_construct val w\<rparr>
        else s\<lparr>w_mem := m, w_producer := P_idle, w_pushed := False\<rparr>)" by (auto simp: weak_push_def)
    note l = load_counts [OF v(1,3) load]
    note ok = views_ok_load_head [OF d(2) l(2,3)]
    have sc': "sc (s\<lparr>w_mem := m, w_producer := c, w_pushed := z\<rparr>) = (sc s)\<lparr>sp_producer := c, sp_pushed := z\<rparr>" for c z
      by (simp add: l(4) sc_def)
    have sc2: "sc (s\<lparr>w_mem := m, w_producer := c\<rparr>) = (sc s)\<lparr>sp_producer := c\<rparr>" for c by (simp add: l(4) sc_def)
    have w: "w = of_nat ?t" using d(1) P_head n(1) by (simp add: spsc_inv_def)
    show ?thesis
    proof (cases "w - x = spsc_capacity")
      case True
      with sp_push_full [OF d(1)] P_head have "spsc_inv (sc s')" by (simp add: s' sc')
      with True d ok P_head show ?thesis by (simp add: wsp_inv_def s' l(4) built_def taken_def)
    next
      case False
      have "?t \<le> i + 1024" using v(6,7) l(2) by linarith
      with False l(1,3) w n(5) old_head_room [of i ?t] have room: "?t < i + 1024" by simp
      have "w - sp_head (sc s) \<noteq> spsc_capacity"
        using spsc_full [OF d(1)] n(1,3,4) w room l(3) by simp
      with sp_push_head [OF d(1)] P_head False have "spsc_inv (sc s')" by (simp add: s' sc2)
      with False d ok room P_head show ?thesis by (simp add: wsp_inv_def s' l(4) built_def taken_def)
    qed
  next
    case (P_construct val w)
    with step have s': "s' = (access_slot 0 w (Live val) s)\<lparr>w_producer := P_store val w\<rparr>" by (simp add: weak_push_def)
    have w: "w = sp_tail (sc s)" using d(1) P_construct by (simp add: spsc_inv_def)
    then have slot: "spsc_slot w = ?t mod 1024" using n(3) by (simp add: spsc_slot_mod)
    have b: "built s = ?t" and room: "?t < seen (views ?m 0) Head + 1024" using P_construct d(4) by (simp_all add: built_def)
    have "sc s' = (set_slot w (Live val) (sc s))\<lparr>sp_producer := P_store val w\<rparr>"
      by (simp add: s' access_slot_def sc_def set_slot_def)
    with sp_push_construct [OF d(1)] P_construct have "spsc_inv (sc s')" by simp
    with d(3,5) P_construct views_ok_build [OF d(2) [unfolded b] room] show ?thesis
      by (simp add: wsp_inv_def s' access_slot_def slot built_def taken_def)
  next
    case (P_store val w)
    with step have s': "s' = s\<lparr>w_mem := atomic_store Release 0 Tail (1 + w) ?m, w_producer := P_idle, w_pushed := True,
      w_in := w_in s @ [val]\<rparr>" by (simp add: weak_push_def)
    have w: "w = sp_tail (sc s)" using d(1) P_store by (simp add: spsc_inv_def)
    then have x: "1 + w = of_nat (Suc ?t)" using n(1) by simp
    have b: "built s = Suc ?t" using P_store by (simp add: built_def)
    have sc': "sc s' = (sc s)\<lparr>sp_tail := 1 + w, sp_producer := P_idle, sp_pushed := True, sp_in := sp_in (sc s) @ [val]\<rparr>"
      by (simp add: s' sc_def atomic_store_def)
    with bound have "unat (1 + w) < 2 ^ 63" by (simp add: wsp_bound_def spsc_bound_def)
    with sp_push_store [OF d(1)] P_store have "spsc_inv (sc s')" by (simp add: sc')
    moreover have "views_ok (w_mem s') (built s') (taken s')"
      using views_ok_publish [OF d(2) [unfolded b] x] latest_length [OF v(1), of Tail]
      by (simp add: s' built_def taken_def)
    moreover have "seen (views (w_mem s') 1) = seen (views ?m 1)" by (simp add: s' atomic_store_def)
    ultimately show ?thesis using d(3,5) latest_length [OF v(1), of Tail] by (simp add: wsp_inv_def s')
  qed (use step in \<open>simp add: weak_push_def\<close>)
qed

lemma wsp_pop_inv:
  assumes inv: "wsp_inv s" and step: "weak_pop i s = Some s'"
  shows "wsp_inv s'"
proof -
  note d = wsp_invD [OF inv] and n = wsp_counters [OF inv]
  note v = views_okD [OF d(2)]
  let ?m = "w_mem s" and ?h = "latest (w_mem s) Head"
  show ?thesis
  proof (cases "w_consumer s")
    case C_head
    with step obtain x m where load: "atomic_load Relaxed 1 Head i ?m = Some (x, m)"
      and s': "s' = s\<lparr>w_mem := m, w_consumer := C_tail x\<rparr>" by (auto simp: weak_pop_def)
    from own_load [OF v(1,8) load] have x: "x = sp_head (sc s)" "m = ?m" by (simp_all add: sc_def)
    have "sc s' = (sc s)\<lparr>sp_consumer := C_tail (sp_head (sc s))\<rparr>" by (simp add: s' x sc_def)
    with sp_pop_head [OF d(1)] C_head have "spsc_inv (sc s')" by simp
    with d C_head show ?thesis by (simp add: wsp_inv_def s' x built_def taken_def)
  next
    case (C_tail w)
    with step obtain x m where load: "atomic_load Acquire 1 Tail i ?m = Some (x, m)"
      and s': "s' = (if w < x then s\<lparr>w_mem := m, w_consumer := C_move w\<rparr>
        else s\<lparr>w_mem := m, w_consumer := C_idle, w_popped := False\<rparr>)" by (auto simp: weak_pop_def)
    note l = load_counts [OF v(1,4) load]
    note ok = views_ok_load_tail [OF d(2) l(2,3)]
    have sc': "sc (s\<lparr>w_mem := m, w_consumer := c, w_popped := z\<rparr>) = (sc s)\<lparr>sp_consumer := c, sp_popped := z\<rparr>" for c z
      by (simp add: l(4) sc_def)
    have sc2: "sc (s\<lparr>w_mem := m, w_consumer := c\<rparr>) = (sc s)\<lparr>sp_consumer := c\<rparr>" for c by (simp add: l(4) sc_def)
    have w: "w = of_nat ?h" using d(1) C_tail n(2) by (simp add: spsc_inv_def)
    show ?thesis
    proof (cases "w < x")
      case False
      with sp_pop_empty [OF d(1)] C_tail have "spsc_inv (sc s')" by (simp add: s' sc')
      with False d ok C_tail show ?thesis by (simp add: wsp_inv_def s' l(4) built_def taken_def)
    next
      case True
      have "i < 2 ^ 63" "?h < 2 ^ 63" using n(5,6) l(3) by linarith+
      with True w l(1) old_tail_value have more: "?h < i" by simp
      then have "w < sp_tail (sc s)" using n(3,4) l(3) w n(2) by (simp add: word_less_nat_alt)
      with sp_pop_tail [OF d(1)] C_tail True have "spsc_inv (sc s')" by (simp add: s' sc2)
      with True d ok more C_tail show ?thesis by (simp add: wsp_inv_def s' l(4) built_def taken_def)
    qed
  next
    case (C_move w)
    from d(1) C_move have live: "w_ring s (spsc_slot w) = Live (w_in s ! unat (sp_head (sc s)))"
      using spsc_head_live [of "sc s" w] by simp
    with C_move step have s': "s' = (access_slot 1 w Husk s)\<lparr>w_place := Some (w_in s ! unat (sp_head (sc s))),
        w_out := w_out s @ [w_in s ! unat (sp_head (sc s))], w_consumer := C_destroy w\<rparr>" by (simp add: weak_pop_def)
    have w: "w = sp_head (sc s)" using d(1) C_move by (simp add: spsc_inv_def)
    then have slot: "spsc_slot w = ?h mod 1024" using n(4) by (simp add: spsc_slot_mod)
    have k: "taken s \<le> Suc ?h" and more: "?h < seen (views ?m 1) Tail" using C_move d(5) by (simp_all add: taken_def)
    have "sc s' = (set_slot w Husk (sc s))\<lparr>sp_place := Some (w_in s ! unat (sp_head (sc s))),
        sp_out := sp_out (sc s) @ [w_in s ! unat (sp_head (sc s))], sp_consumer := C_destroy w\<rparr>"
      by (simp add: s' access_slot_def sc_def set_slot_def)
    with sp_pop_move [OF d(1)] C_move live have "spsc_inv (sc s')" by simp
    with d(3,4) more C_move views_ok_take [OF d(2) k more] show ?thesis
      by (simp add: wsp_inv_def s' access_slot_def slot built_def taken_def)
  next
    case (C_destroy w)
    from d(1) C_destroy have husk: "w_ring s (spsc_slot w) = Husk" using spsc_head_husk [of "sc s" w] by simp
    with C_destroy step have s': "s' = (access_slot 1 w Raw s)\<lparr>w_consumer := C_store w\<rparr>" by (simp add: weak_pop_def)
    have w: "w = sp_head (sc s)" using d(1) C_destroy by (simp add: spsc_inv_def)
    then have slot: "spsc_slot w = ?h mod 1024" using n(4) by (simp add: spsc_slot_mod)
    have k: "taken s \<le> Suc ?h" and more: "?h < seen (views ?m 1) Tail" using C_destroy d(5) by (simp_all add: taken_def)
    have "sc s' = (set_slot w Raw (sc s))\<lparr>sp_consumer := C_store w\<rparr>"
      by (simp add: s' access_slot_def sc_def set_slot_def)
    with sp_pop_destroy [OF d(1)] C_destroy have "spsc_inv (sc s')" by simp
    with d(3,4) C_destroy views_ok_take [OF d(2) k more] show ?thesis
      by (simp add: wsp_inv_def s' access_slot_def slot built_def taken_def)
  next
    case (C_store w)
    with step have s': "s' = s\<lparr>w_mem := atomic_store Release 1 Head (1 + w) ?m, w_consumer := C_idle, w_popped := True\<rparr>"
      by (simp add: weak_pop_def)
    have w: "w = sp_head (sc s)" using d(1) C_store by (simp add: spsc_inv_def)
    then have x: "1 + w = of_nat (Suc ?h)" using n(2) by simp
    have k: "taken s = Suc ?h" using C_store by (simp add: taken_def)
    have "sc s' = (sc s)\<lparr>sp_head := 1 + w, sp_consumer := C_idle, sp_popped := True\<rparr>"
      by (simp add: s' sc_def atomic_store_def)
    with sp_pop_store [OF d(1)] C_store have "spsc_inv (sc s')" by simp
    moreover have "views_ok (w_mem s') (built s') (taken s')"
      using views_ok_release [OF d(2) [unfolded k] x] latest_length [OF v(1), of Head]
      by (simp add: s' built_def taken_def)
    moreover have "seen (views (w_mem s') 0) = seen (views ?m 0)" by (simp add: s' atomic_store_def)
    ultimately show ?thesis using d(3,4) by (simp add: wsp_inv_def s')
  qed (use step in \<open>simp_all add: weak_pop_def\<close>)
qed

lemma wsp_inv_init: "wsp_init s \<Longrightarrow> wsp_inv s"
proof -
  assume "wsp_init s"
  then have s: "s = wsp_new" by (simp add: wsp_init_def)
  have "spsc_inv (sc s)" by (rule spsc_inv_init) (simp add: s wsp_new_def spsc_init_def sc_def new_memory_def)
  moreover have "latest (w_mem s) l = 0" "views (w_mem s) t = no_view" "history (w_mem s) l = [\<lparr>msg_value = 0, msg_view = no_view\<rparr>]" for l t
    by (simp_all add: s wsp_new_def latest_def new_memory_def)
  moreover have "fresh_on (w_mem s) no_view a b" for a b
    by (simp add: s wsp_new_def new_memory_def fresh_on_def fresh_def)
  moreover have "memory_ok (w_mem s)" "\<not> race (w_mem s)" by (simp_all add: s wsp_new_def new_memory_ok) (simp add: new_memory_def)
  ultimately show ?thesis
    by (simp add: wsp_inv_def views_ok_def counts_def built_def taken_def) (simp add: s wsp_new_def)
qed

lemma wsp_inv_move:
  assumes inv: "wsp_inv s" and "within wsp_bound wsp_move e s = Some s'"
  shows "wsp_inv s'"
proof -
  from assms(2) have move: "wsp_move e s = Some s'" and bound: "wsp_bound s'" by simp_all
  note d = wsp_invD [OF inv]
  show ?thesis
  proof (cases e)
    case (WSP_push v)
    with move have p: "w_producer s = P_idle" and s': "s' = s\<lparr>w_producer := P_tail v\<rparr>" by (auto split: if_splits)
    have "sc s' = (sc s)\<lparr>sp_producer := P_tail v\<rparr>" by (simp add: s' sc_def)
    with sp_push_start [OF d(1), of v] p have "spsc_inv (sc s')" by simp
    with d p show ?thesis by (simp add: wsp_inv_def s' built_def taken_def)
  next
    case (WSP_producer i)
    with move bound show ?thesis by (intro wsp_push_inv [OF inv]) simp_all
  next
    case WSP_pop
    with move have p: "w_consumer s = C_idle" and s': "s' = s\<lparr>w_consumer := C_head\<rparr>" by (auto split: if_splits)
    have "sc s' = (sc s)\<lparr>sp_consumer := C_head\<rparr>" by (simp add: s' sc_def)
    with sp_pop_start [OF d(1)] p have "spsc_inv (sc s')" by simp
    with d p show ?thesis by (simp add: wsp_inv_def s' built_def taken_def)
  next
    case (WSP_consumer i)
    with move show ?thesis by (intro wsp_pop_inv [OF inv]) simp_all
  qed
qed

interpretation spsc_weak: race_free_system wsp_init "within wsp_bound wsp_move" wsp_inv w_mem
  by unfold_locales (rule wsp_inv_init, assumption, rule wsp_inv_move, assumption, assumption, simp add: wsp_inv_def views_ok_def)

text \<open>The steps that enter and take a value are those of \<open>Spsc\<close>; the others do not show in the abstract queue.\<close>

lemma wsp_simulates:
  assumes inv: "wsp_inv s" and "within wsp_bound wsp_move e s = Some s'"
  shows "spsc_abs (sc s') = spsc_abs (sc s) \<or> (\<exists>f. fifo_move 1024 f (spsc_abs (sc s)) = Some (spsc_abs (sc s')))"
proof -
  from assms(2) have move: "wsp_move e s = Some s'" and bound: "wsp_bound s'" by simp_all
  note d = wsp_invD [OF inv]
  have sim: ?thesis if "spsc_move f (sc s) = Some (sc s')" for f
    by (rule spsc_simulates [OF d(1), of f]) (use that bound in \<open>simp add: wsp_bound_def\<close>)
  consider (Store) i val w where "e = WSP_producer i" "w_producer s = P_store val w"
    | (Move) i w where "e = WSP_consumer i" "w_consumer s = C_move w"
    | (Other) "w_in s' = w_in s" "w_out s' = w_out s"
  proof (cases e)
    case (WSP_producer i)
    with move that(1,3) show thesis
      by (cases "w_producer s") (auto simp: weak_push_def access_slot_def split: if_splits)
  next
    case (WSP_consumer i)
    with move that(2,3) show thesis
      by (cases "w_consumer s") (auto simp: weak_pop_def access_slot_def split: if_splits cell.splits)
  qed (use move that(3) in \<open>auto split: if_splits\<close>)
  then show ?thesis
  proof cases
    case (Store i val w)
    with move have "spsc_move SP_producer (sc s) = Some (sc s')"
      by (auto simp: weak_push_def spsc_push_def sc_def atomic_store_def)
    then show ?thesis by (rule sim)
  next
    case (Move i w)
    with d(1) have live: "w_ring s (spsc_slot w) = Live (w_in s ! unat (sp_head (sc s)))"
      using spsc_head_live [of "sc s" w] by simp
    with Move move have "spsc_move SP_consumer (sc s) = Some (sc s')"
      by (auto simp: weak_pop_def spsc_pop_def sc_def access_slot_def set_slot_def)
    then show ?thesis by (rule sim)
  qed (simp add: spsc_abs_def)
qed

interpretation spsc_weak_fifo: fifo_queue wsp_init "within wsp_bound wsp_move" wsp_inv 1024 "\<lambda>s. spsc_abs (sc s)"
  by unfold_locales
    (auto simp: spsc_abs_def wsp_init_def wsp_new_def fifo_init_def intro: wsp_inv_init wsp_inv_move dest: wsp_simulates)

lemmas wsp_eval = within_def wsp_bound_def spsc_bound_def sc_def weak_push_def weak_pop_def access_slot_def spsc_slot_def
  spsc_capacity_def atomic_load_def atomic_store_def put_message_def plain_access_def read_view_def set_view_def new_memory_def
  wsp_new_def see_def join_def no_view_def

subsection \<open>Property\<close>

text \<open>C4. The acquiring loads and releasing stores of the SPSC queue are enough: although a thread may read an
  old value of the other's counter, no access of a slot races with an earlier one, no object is moved or
  destroyed that is not there, and the values popped are the first ones pushed, in order, at most 1024 behind.\<close>

theorem spsc_release_acquire:
  assumes "reach wsp_init (within wsp_bound wsp_move) s"
  shows "\<not> race (w_mem s) \<and> w_consumer s \<noteq> C_undefined \<and> (\<exists>waiting. w_in s = w_out s @ waiting \<and> length waiting \<le> 1024)"
proof -
  have "spsc_inv (sc s)" using wsp_invD(1) [OF spsc_weak.reach_inv [OF assms]] .
  then have "w_consumer s \<noteq> C_undefined" by (auto simp: spsc_inv_def)
  with spsc_weak.no_race [OF assms] spsc_weak_fifo.fifo_order [OF assms] spsc_weak_fifo.fifo_bound [OF assms]
  show ?thesis by (auto simp: spsc_abs_def)
qed

theorem spsc_release_acquire_witness:
  "\<exists>s :: nat wsp. reach wsp_init (within wsp_bound wsp_move) s \<and> w_out s = [7] \<and> \<not> race (w_mem s)"
proof -
  have "\<exists>s :: nat wsp. reach wsp_init (within wsp_bound wsp_move) s \<and> w_out s = [7]"
    by (rule reach_witness [where s = wsp_new and es = "[WSP_push 7, WSP_producer 0, WSP_producer 0, WSP_producer 0, WSP_producer 0,
          WSP_pop, WSP_consumer 0, WSP_consumer 1, WSP_consumer 0]"],
        simp add: wsp_init_def, simp add: wsp_eval Let_def)
  then obtain s :: "nat wsp" where s: "reach wsp_init (within wsp_bound wsp_move) s" "w_out s = [7]" by blast
  with spsc_release_acquire [OF s(1)] show ?thesis by blast
qed

end
