(* ===== verification/Mpmc_Lockfree.thy ===== *)
theory Mpmc_Lockfree
  imports Fifo_Spec
begin

text \<open>
  \<open>concurrent_structures/mpmc_lockfree.cpp\<close>: Vyukov's bounded queue for any number of
  producers and consumers. Each load, store and compare-exchange of an atomic and each access
  of a cell's data is one step of one thread.
\<close>

subsection \<open>State\<close>

text \<open>A cell; its data is \<open>None\<close> until a producer has written it.\<close>

record 'a cell_t =
  sequence :: u64
  data :: "'a option"

text \<open>The program points of a thread, with the local variables that are live there.\<close>

datatype 'a mq_pc =
    MQ_idle
  | E_load 'a \<comment> \<open>about to load \<open>enqueue_pos_\<close> (before or inside the loop)\<close>
  | E_seq 'a u64 \<comment> \<open>about to load the cell's sequence and compare it\<close>
  | E_cas 'a u64 \<comment> \<open>the difference was 0, about to execute the compare-exchange\<close>
  | E_write 'a u64 \<comment> \<open>the position is claimed, about to write the data\<close>
  | E_publish u64 \<comment> \<open>about to store \<open>pos + 1\<close> into the sequence\<close>
  | E_done bool
  | D_load
  | D_seq u64
  | D_cas u64
  | D_read u64 \<comment> \<open>the position is claimed, about to read the data\<close>
  | D_publish 'a u64 \<comment> \<open>about to store \<open>pos + buffer_mask_ + 1\<close>\<close>
  | D_done "'a option"
  | MQ_undefined \<comment> \<open>a signed difference overflowed, or indeterminate data was read\<close>

text \<open>
  The class's fields and the threads. \<open>mq_log\<close> is a history variable that no step reads: the
  values in the order in which their positions were claimed.
\<close>

record 'a mq =
  mq_buffer :: "nat \<Rightarrow> 'a cell_t"
  mq_mask :: u64
  mq_enq :: u64
  mq_deq :: u64
  mq_pcs :: "tid \<Rightarrow> 'a mq_pc"
  mq_log :: "'a list"

definition mq_goto :: "tid \<Rightarrow> 'a mq_pc \<Rightarrow> 'a mq \<Rightarrow> 'a mq" where
  "mq_goto t c s = s\<lparr>mq_pcs := (mq_pcs s)(t := c)\<rparr>"

text \<open>\<open>&buffer_[pos & buffer_mask_]\<close>\<close>

definition mq_index :: "'a mq \<Rightarrow> u64 \<Rightarrow> nat" where
  "mq_index s pos = unat (pos AND mq_mask s)"

definition mq_cell :: "'a mq \<Rightarrow> u64 \<Rightarrow> 'a cell_t" where
  "mq_cell s pos = mq_buffer s (mq_index s pos)"

definition mq_set_cell :: "u64 \<Rightarrow> 'a cell_t \<Rightarrow> 'a mq \<Rightarrow> 'a mq" where
  "mq_set_cell pos c s = s\<lparr>mq_buffer := (mq_buffer s)(mq_index s pos := c)\<rparr>"

text \<open>The constructor; \<open>None\<close> if its assertion fails.\<close>

definition mq_new :: "u64 \<Rightarrow> 'a mq option" where
  "mq_new buffer_size =
     (if buffer_size \<ge> 2 \<and> buffer_size AND (buffer_size - 1) = 0
      then Some \<lparr>mq_buffer = (\<lambda>i. \<lparr>sequence = of_nat i, data = None\<rparr>), mq_mask = buffer_size - 1,
                 mq_enq = 0, mq_deq = 0, mq_pcs = (\<lambda>_. MQ_idle), mq_log = []\<rparr>
      else None)"

text \<open>
  \<open>static_cast<std::intptr_t>(a) - static_cast<std::intptr_t>(b)\<close>; \<open>None\<close> if it overflows,
  which is undefined.
\<close>

definition mq_dif :: "u64 \<Rightarrow> u64 \<Rightarrow> int option" where
  "mq_dif a b =
     (let d = sint a - sint b in if - (2 ^ 63) \<le> d \<and> d < 2 ^ 63 then Some d else None)"

subsection \<open>Operations\<close>

text \<open>
  One step of a thread inside \<open>enqueue\<close>. \<open>compare_exchange_weak\<close> succeeds if the position is
  still \<open>pos\<close> and it does not fail spuriously (\<open>weak\<close>); when it fails, \<open>pos\<close> becomes the
  current value and the loop continues.
\<close>

definition mq_enqueue :: "tid \<Rightarrow> bool \<Rightarrow> 'a mq \<Rightarrow> 'a mq option" where
  "mq_enqueue t weak s =
     (case mq_pcs s t of
        E_load v \<Rightarrow> Some (mq_goto t (E_seq v (mq_enq s)) s)
      | E_seq v pos \<Rightarrow>
          Some (case mq_dif (sequence (mq_cell s pos)) pos of
                  None \<Rightarrow> mq_goto t MQ_undefined s
                | Some dif \<Rightarrow>
                    if dif = 0 then mq_goto t (E_cas v pos) s
                    else if dif < 0 then mq_goto t (E_done False) s
                    else mq_goto t (E_load v) s)
      | E_cas v pos \<Rightarrow>
          Some (if mq_enq s = pos \<and> \<not> weak
                then mq_goto t (E_write v pos) (s\<lparr>mq_enq := pos + 1, mq_log := mq_log s @ [v]\<rparr>)
                else mq_goto t (E_seq v (mq_enq s)) s)
      | E_write v pos \<Rightarrow>
          Some (mq_goto t (E_publish pos) (mq_set_cell pos ((mq_cell s pos)\<lparr>data := Some v\<rparr>) s))
      | E_publish pos \<Rightarrow>
          Some (mq_goto t (E_done True) (mq_set_cell pos ((mq_cell s pos)\<lparr>sequence := pos + 1\<rparr>) s))
      | _ \<Rightarrow> None)"

text \<open>One step of a thread inside \<open>dequeue\<close>; the result is the value and true, or false.\<close>

definition mq_dequeue :: "tid \<Rightarrow> bool \<Rightarrow> 'a mq \<Rightarrow> 'a mq option" where
  "mq_dequeue t weak s =
     (case mq_pcs s t of
        D_load \<Rightarrow> Some (mq_goto t (D_seq (mq_deq s)) s)
      | D_seq pos \<Rightarrow>
          Some (case mq_dif (sequence (mq_cell s pos)) (pos + 1) of
                  None \<Rightarrow> mq_goto t MQ_undefined s
                | Some dif \<Rightarrow>
                    if dif = 0 then mq_goto t (D_cas pos) s
                    else if dif < 0 then mq_goto t (D_done None) s
                    else mq_goto t D_load s)
      | D_cas pos \<Rightarrow>
          Some (if mq_deq s = pos \<and> \<not> weak
                then mq_goto t (D_read pos) (s\<lparr>mq_deq := pos + 1\<rparr>)
                else mq_goto t (D_seq (mq_deq s)) s)
      | D_read pos \<Rightarrow>
          Some (case data (mq_cell s pos) of
                  None \<Rightarrow> mq_goto t MQ_undefined s
                | Some v \<Rightarrow> mq_goto t (D_publish v pos) s)
      | D_publish v pos \<Rightarrow>
          Some (mq_goto t (D_done (Some v))
                  (mq_set_cell pos ((mq_cell s pos)\<lparr>sequence := pos + mq_mask s + 1\<rparr>) s))
      | _ \<Rightarrow> None)"

text \<open>A thread that is not inside a call may start one.\<close>

fun mq_quiet :: "'a mq_pc \<Rightarrow> bool" where
  "mq_quiet MQ_idle = True"
| "mq_quiet (E_done b) = True"
| "mq_quiet (D_done r) = True"
| "mq_quiet _ = False"

datatype 'a mq_event = MQ_enqueue tid 'a | MQ_dequeue tid | MQ_producer tid bool | MQ_consumer tid bool

fun mq_move :: "'a mq_event \<Rightarrow> 'a mq \<Rightarrow> 'a mq option" where
  "mq_move (MQ_enqueue t v) s = (if mq_quiet (mq_pcs s t) then Some (mq_goto t (E_load v) s) else None)"
| "mq_move (MQ_dequeue t) s = (if mq_quiet (mq_pcs s t) then Some (mq_goto t D_load s) else None)"
| "mq_move (MQ_producer t weak) s = mq_enqueue t weak s"
| "mq_move (MQ_consumer t weak) s = mq_dequeue t weak s"

text \<open>
  The bound under which the counters do not reach \<open>2 ^ 63\<close>, where the signed differences of
  the code would overflow.
\<close>

definition mq_bound :: "'a mq \<Rightarrow> bool" where
  "mq_bound s \<longleftrightarrow> unat (mq_enq s) + unat (mq_mask s) + 1 < 2 ^ 63"

definition mq_init :: "u64 \<Rightarrow> 'a mq \<Rightarrow> bool" where
  "mq_init n s \<longleftrightarrow> mq_new n = Some s \<and> mq_bound s"

subsection \<open>The invariant\<close>

text \<open>
  The invariant over natural numbers: \<open>n\<close> is the capacity, \<open>e\<close> and \<open>d\<close> the two positions,
  \<open>sq\<close> and \<open>dt\<close> the sequence and the data of each slot, \<open>vs\<close> the values claimed so far.
\<close>

text \<open>The position a thread has claimed and not yet handed on: as a producer or as a consumer.\<close>

fun mq_claim :: "'a mq_pc \<Rightarrow> (bool \<times> nat) option" where
  "mq_claim (E_write v pos) = Some (True, unat pos)"
| "mq_claim (E_publish pos) = Some (True, unat pos)"
| "mq_claim (D_read pos) = Some (False, unat pos)"
| "mq_claim (D_publish v pos) = Some (False, unat pos)"
| "mq_claim _ = None"

text \<open>Position \<open>p\<close> is claimed by a producer and not published; by a consumer and not released.\<close>

definition mq_writing :: "nat \<Rightarrow> nat \<Rightarrow> nat \<Rightarrow> (nat \<Rightarrow> nat) \<Rightarrow> nat \<Rightarrow> bool" where
  "mq_writing n e d sq p \<longleftrightarrow> d \<le> p \<and> p < e \<and> e \<le> p + n \<and> sq (p mod n) = p"

definition mq_reading ::
  "nat \<Rightarrow> nat \<Rightarrow> nat \<Rightarrow> (nat \<Rightarrow> nat) \<Rightarrow> (nat \<Rightarrow> 'a option) \<Rightarrow> 'a list \<Rightarrow> nat \<Rightarrow> bool" where
  "mq_reading n e d sq dt vs p \<longleftrightarrow>
     p < d \<and> e \<le> p + n \<and> sq (p mod n) = p + 1 \<and> dt (p mod n) = Some (vs ! p)"

fun mq_pc_ok ::
  "nat \<Rightarrow> nat \<Rightarrow> nat \<Rightarrow> (nat \<Rightarrow> nat) \<Rightarrow> (nat \<Rightarrow> 'a option) \<Rightarrow> 'a list \<Rightarrow> 'a mq_pc \<Rightarrow> bool" where
  "mq_pc_ok n e d sq dt vs (E_seq v pos) = (unat pos \<le> e)"
| "mq_pc_ok n e d sq dt vs (E_cas v pos) =
     (unat pos \<le> e \<and> (unat pos = e \<longrightarrow> sq (e mod n) = e))"
| "mq_pc_ok n e d sq dt vs (E_write v pos) = (mq_writing n e d sq (unat pos) \<and> vs ! unat pos = v)"
| "mq_pc_ok n e d sq dt vs (E_publish pos) =
     (mq_writing n e d sq (unat pos) \<and> dt (unat pos mod n) = Some (vs ! unat pos))"
| "mq_pc_ok n e d sq dt vs (D_seq pos) = (unat pos \<le> d)"
| "mq_pc_ok n e d sq dt vs (D_cas pos) =
     (unat pos \<le> d \<and> (unat pos = d \<longrightarrow> sq (d mod n) = d + 1))"
| "mq_pc_ok n e d sq dt vs (D_read pos) = mq_reading n e d sq dt vs (unat pos)"
| "mq_pc_ok n e d sq dt vs (D_publish v pos) =
     (mq_reading n e d sq dt vs (unat pos) \<and> v = vs ! unat pos)"
| "mq_pc_ok n e d sq dt vs MQ_undefined = False"
| "mq_pc_ok n e d sq dt vs _ = True"

text \<open>
  The slot whose next producer position is \<open>p\<close>: free for it, or still on the lap before, where
  its position \<open>p - n\<close> is being written, is full, or is being read.
\<close>

definition mq_slot_ok ::
  "nat \<Rightarrow> nat \<Rightarrow> (nat \<Rightarrow> nat) \<Rightarrow> (nat \<Rightarrow> 'a option) \<Rightarrow> 'a list \<Rightarrow> (tid \<Rightarrow> 'a mq_pc) \<Rightarrow> nat \<Rightarrow> bool" where
  "mq_slot_ok n d sq dt vs P p \<longleftrightarrow>
     sq (p mod n) = p \<and> p < d + n
   \<or> n \<le> p \<and> d + n \<le> p \<and> sq (p mod n) = p - n \<and> (\<exists>t. mq_claim (P t) = Some (True, p - n))
   \<or> n \<le> p \<and> sq (p mod n) = p - n + 1 \<and> dt (p mod n) = Some (vs ! (p - n))
     \<and> (p < d + n \<longrightarrow> (\<exists>t. mq_claim (P t) = Some (False, p - n)))"

definition mq_inv_nat ::
  "nat \<Rightarrow> nat \<Rightarrow> nat \<Rightarrow> (nat \<Rightarrow> nat) \<Rightarrow> (nat \<Rightarrow> 'a option) \<Rightarrow> 'a list \<Rightarrow> (tid \<Rightarrow> 'a mq_pc) \<Rightarrow> bool" where
  "mq_inv_nat n e d sq dt vs P \<longleftrightarrow>
     2 \<le> n \<and> d \<le> e \<and> length vs = e
   \<and> (\<forall>p. e \<le> p \<longrightarrow> p < e + n \<longrightarrow> mq_slot_ok n d sq dt vs P p)
   \<and> (\<forall>t. mq_pc_ok n e d sq dt vs (P t))
   \<and> (\<forall>t u x. mq_claim (P t) = Some x \<longrightarrow> mq_claim (P u) = Some x \<longrightarrow> t = u)"

lemma mq_inv_natD:
  assumes "mq_inv_nat n e d sq dt vs P"
  shows "2 \<le> n" "d \<le> e" "length vs = e"
    "\<And>p. e \<le> p \<Longrightarrow> p < e + n \<Longrightarrow> mq_slot_ok n d sq dt vs P p"
    "\<And>t. mq_pc_ok n e d sq dt vs (P t)"
    "\<And>t u x. mq_claim (P t) = Some x \<Longrightarrow> mq_claim (P u) = Some x \<Longrightarrow> t = u"
  using assms by (auto simp: mq_inv_nat_def)

text \<open>A step that only moves the thread on, without claiming or handing on a position.\<close>

lemma mq_local:
  assumes inv: "mq_inv_nat n e d sq dt vs P" and c: "mq_pc_ok n e d sq dt vs c"
    and same: "mq_claim c = mq_claim (P t)"
  shows "mq_inv_nat n e d sq dt vs (P(t := c))"
proof -
  have claims: "mq_claim ((P(t := c)) u) = mq_claim (P u)" for u using same by simp
  have "mq_slot_ok n d sq dt vs (P(t := c)) p \<longleftrightarrow> mq_slot_ok n d sq dt vs P p" for p
    unfolding mq_slot_ok_def claims ..
  with inv c show ?thesis unfolding mq_inv_nat_def claims by simp
qed

lemma mq_claim_less:
  assumes "mq_inv_nat n e d sq dt vs P" and "mq_claim (P t) = Some (b, p)"
  shows "p < e" "\<not> b \<Longrightarrow> p < d" "b \<Longrightarrow> d \<le> p" "e \<le> p + n"
    "sq (p mod n) = (if b then p else p + 1)"
proof -
  have "p < e \<and> (\<not> b \<longrightarrow> p < d) \<and> (b \<longrightarrow> d \<le> p) \<and> e \<le> p + n \<and> sq (p mod n) = (if b then p else p + 1)"
    using mq_inv_natD(2) [OF assms(1)] mq_inv_natD(5) [OF assms(1), of t] assms(2)
    by (cases "P t") (auto simp: mq_writing_def mq_reading_def)
  then show "p < e" "\<not> b \<Longrightarrow> p < d" "b \<Longrightarrow> d \<le> p" "e \<le> p + n"
    "sq (p mod n) = (if b then p else p + 1)" by blast+
qed

text \<open>Two threads with claims are at different slots.\<close>

lemma mq_claim_slots:
  assumes inv: "mq_inv_nat n e d sq dt vs P" and "mq_claim (P t) = Some (b, p)" "mq_claim (P u) = Some (c, q)"
    and "p mod n = q mod n"
  shows "b = c \<and> p = q"
proof -
  note p = mq_claim_less [OF inv assms(2)] and q = mq_claim_less [OF inv assms(3)]
  from p(1,4) q(1,4) have "p = q" by (intro mod_window [OF assms(4)]) linarith+
  with p q show ?thesis by (auto split: if_splits)
qed

text \<open>A thread takes on the claim \<open>x\<close> that nobody has.\<close>

lemma mq_claims_add:
  assumes "\<And>u. mq_claim (P u) \<noteq> Some x" and "mq_claim c = Some x" and "mq_claim (P t) = None"
    and "\<And>t u x. mq_claim (P t) = Some x \<Longrightarrow> mq_claim (P u) = Some x \<Longrightarrow> t = u"
  shows "\<forall>u w y. mq_claim ((P(t := c)) u) = Some y \<longrightarrow> mq_claim ((P(t := c)) w) = Some y \<longrightarrow> u = w"
    and "(\<exists>u. mq_claim ((P(t := c)) u) = Some y) \<longleftrightarrow> y = x \<or> (\<exists>u. mq_claim (P u) = Some y)"
  using assms by (auto, metis option.distinct(1))

text \<open>A thread gives up its claim \<open>x\<close>.\<close>

lemma mq_claims_remove:
  assumes "mq_claim (P t) = Some x" and "mq_claim c = None"
    and "\<And>t u x. mq_claim (P t) = Some x \<Longrightarrow> mq_claim (P u) = Some x \<Longrightarrow> t = u"
  shows "\<forall>u w y. mq_claim ((P(t := c)) u) = Some y \<longrightarrow> mq_claim ((P(t := c)) w) = Some y \<longrightarrow> u = w"
    and "(\<exists>u. mq_claim ((P(t := c)) u) = Some y) \<longleftrightarrow> y \<noteq> x \<and> (\<exists>u. mq_claim (P u) = Some y)"
proof -
  show "\<forall>u w y. mq_claim ((P(t := c)) u) = Some y \<longrightarrow> mq_claim ((P(t := c)) w) = Some y \<longrightarrow> u = w"
    using assms by auto
  have "mq_claim (P u) = Some y \<and> y \<noteq> x \<longleftrightarrow> mq_claim ((P(t := c)) u) = Some y" for u
    using assms(1,2) assms(3) [of u x t] by (cases "u = t") auto
  then show "(\<exists>u. mq_claim ((P(t := c)) u) = Some y) \<longleftrightarrow> y \<noteq> x \<and> (\<exists>u. mq_claim (P u) = Some y)"
    by blast
qed

lemma mq_claim_enq:
  assumes inv: "mq_inv_nat n e d sq dt vs P" and at: "mq_claim (P t) = None" and free: "sq (e mod n) = e"
    and pos: "unat pos = e"
  shows "mq_inv_nat n (e + 1) d sq dt (vs @ [v]) (P(t := E_write v pos))"
proof -
  note I = mq_inv_natD [OF inv]
  have "e < d + n" using I(4) [of e] free I(1) by (auto simp: mq_slot_ok_def)
  have lap: "e + 1 \<le> p + n" if "e \<le> p + n" "sq (p mod n) = p \<or> sq (p mod n) = p + 1" "p < e" for p
  proof (rule ccontr)
    assume "\<not> e + 1 \<le> p + n"
    with that(1) have "e = p + n" by simp
    with free that(2) I(1) show False by auto
  qed
  have wr: "mq_writing n (e + 1) d sq p" if "mq_writing n e d sq p" for p
    using that lap [of p] by (auto simp: mq_writing_def)
  have rd: "mq_reading n (e + 1) d sq dt (vs @ [v]) p" if "mq_reading n e d sq dt vs p" for p
    using that lap [of p] I(2,3) by (auto simp: mq_reading_def nth_append)
  have pcs: "mq_pc_ok n (e + 1) d sq dt (vs @ [v]) (P u)" for u
    using I(5) [of u] wr rd I(3) by (cases "P u") (auto simp: nth_append mq_writing_def mq_reading_def)
  have own: "mq_pc_ok n (e + 1) d sq dt (vs @ [v]) (E_write v pos)"
    using I(1,2,3) free pos \<open>e < d + n\<close> by (simp add: mq_writing_def nth_append)
  have fresh: "mq_claim (P u) \<noteq> Some (True, e)" for u
    using mq_claim_less(1) [OF inv] by (metis less_irrefl)
  have mine: "mq_claim (E_write v pos) = Some (True, e)" using pos by simp
  have claims: "\<forall>u w y. mq_claim ((P(t := E_write v pos)) u) = Some y \<longrightarrow>
      mq_claim ((P(t := E_write v pos)) w) = Some y \<longrightarrow> u = w"
    by (rule mq_claims_add [where P = P, OF fresh mine at]) (rule I(6))
  have ex: "(\<exists>u. mq_claim ((P(t := E_write v pos)) u) = Some y) \<longleftrightarrow>
      y = (True, e) \<or> (\<exists>u. mq_claim (P u) = Some y)" for y
    by (rule mq_claims_add [where P = P, OF fresh mine at]) (rule I(6))
  have slots: "mq_slot_ok n d sq dt (vs @ [v]) (P(t := E_write v pos)) p" if p: "e + 1 \<le> p" "p < e + 1 + n" for p
  proof (cases "p = e + n")
    case True
    have "\<exists>u. mq_claim ((P(t := E_write v pos)) u) = Some (True, e)" unfolding ex by simp
    with True free I(1,2) show ?thesis by (simp add: mq_slot_ok_def del: fun_upd_apply)
  next
    case False
    with p have "mq_slot_ok n d sq dt vs P p" "n \<le> p \<longrightarrow> p - n < e" by (auto intro: I(4))
    then show ?thesis unfolding mq_slot_ok_def ex using I(3) by (auto simp: nth_append)
  qed
  have "d \<le> e + 1" "length (vs @ [v]) = e + 1" using I(2,3) by simp_all
  moreover have "mq_pc_ok n (e + 1) d sq dt (vs @ [v]) ((P(t := E_write v pos)) u)" for u
    using pcs own by simp
  ultimately show ?thesis using I(1) slots claims unfolding mq_inv_nat_def by blast
qed

text \<open>The claiming producer writes the data of its slot.\<close>

lemma mq_write:
  assumes inv: "mq_inv_nat n e d sq dt vs P" and at: "P t = E_write v pos"
  shows "mq_inv_nat n e d sq (dt(unat pos mod n := Some v)) vs (P(t := E_publish pos))"
proof -
  note I = mq_inv_natD [OF inv]
  have c: "mq_claim (P t) = Some (True, unat pos)" using at by simp
  have w: "mq_writing n e d sq (unat pos)" "vs ! unat pos = v" using I(5) [of t] at by auto
  have other: "\<not> mq_reading n e d sq dt vs p" if "p mod n = unat pos mod n" for p
    using that w(1) I(1,2) mod_window [of p n "unat pos"] by (auto simp: mq_writing_def mq_reading_def)
  have wr: "p = unat pos" if "mq_writing n e d sq p" "p mod n = unat pos mod n" for p
    using that w(1) by (auto simp: mq_writing_def)
  have pcs: "mq_pc_ok n e d sq (dt(unat pos mod n := Some v)) vs (P u)" for u
    using I(5) [of u] other w wr by (cases "P u") (auto simp: mq_reading_def dest!: wr)
  have slots: "mq_slot_ok n d sq (dt(unat pos mod n := Some v)) vs P p" if "e \<le> p" "p < e + n" for p
  proof (cases "p mod n = unat pos mod n")
    case True
    have "p mod n = (unat pos + n) mod n" using True by simp
    then have "p = unat pos + n"
      by (rule mod_window) (use w(1) that in \<open>auto simp: mq_writing_def\<close>)
    with I(4) [OF that] I(1) w show ?thesis by (auto simp: mq_slot_ok_def mq_writing_def)
  next
    case False
    with I(4) [OF that] show ?thesis by (auto simp: mq_slot_ok_def)
  qed
  have "mq_inv_nat n e d sq (dt(unat pos mod n := Some v)) vs P"
    using I pcs slots unfolding mq_inv_nat_def by blast
  then show ?thesis by (rule mq_local) (use at w in auto)
qed

text \<open>The claiming producer publishes: the slot's sequence becomes \<open>pos + 1\<close>.\<close>

lemma mq_publish:
  assumes inv: "mq_inv_nat n e d sq dt vs P" and at: "P t = E_publish pos"
  shows "mq_inv_nat n e d (sq(unat pos mod n := unat pos + 1)) dt vs (P(t := E_done True))"
proof -
  let ?p = "unat pos"
  let ?sq = "sq(?p mod n := ?p + 1)"
  note I = mq_inv_natD [OF inv]
  have c: "mq_claim (P t) = Some (True, ?p)" using at by simp
  have w: "mq_writing n e d sq ?p" "dt (?p mod n) = Some (vs ! ?p)" using I(5) [of t] at by auto
  have gone: "mq_claim (E_done True) = None" by simp
  have claims: "\<forall>u w y. mq_claim ((P(t := E_done True)) u) = Some y \<longrightarrow>
      mq_claim ((P(t := E_done True)) w) = Some y \<longrightarrow> u = w"
    by (rule mq_claims_remove [where P = P, OF c gone]) (rule I(6))
  have ex: "(\<exists>u. mq_claim ((P(t := E_done True)) u) = Some y) \<longleftrightarrow>
      y \<noteq> (True, ?p) \<and> (\<exists>u. mq_claim (P u) = Some y)" for y
    by (rule mq_claims_remove [where P = P, OF c gone]) (rule I(6))
  have wr: "mq_writing n e d ?sq p" if "mq_writing n e d sq p" "p \<noteq> ?p" for p
    using that w(1) mod_window [of p n ?p] by (auto simp: mq_writing_def)
  have rd: "mq_reading n e d ?sq dt vs p" if "mq_reading n e d sq dt vs p" for p
    using that w(1) mod_window [of p n ?p] I(2) by (auto simp: mq_writing_def mq_reading_def)
  have pcs: "mq_pc_ok n e d ?sq dt vs ((P(t := E_done True)) u)" for u
  proof (cases "u = t")
    case False
    have other: "P u \<noteq> E_write v w" "P u \<noteq> E_publish w" if "unat w = ?p" for v w
      using False that c I(6) [of u "(True, ?p)" t] by auto
    have seqs: "?sq (q mod n) = q" if "sq (q mod n) = q" "q = e" for q
      using that w(1) by (auto simp: mq_writing_def)
    have seqs': "?sq (q mod n) = q + 1" if "sq (q mod n) = q + 1" "q = d" for q
      using that w(1) mod_window [of q n ?p] I(1,2) by (auto simp: mq_writing_def)
    show ?thesis
      using I(5) [of u] False other wr rd seqs seqs' by (cases "P u") auto
  qed simp
  have slots: "mq_slot_ok n d ?sq dt vs (P(t := E_done True)) p" if "e \<le> p" "p < e + n" for p
  proof (cases "p mod n = ?p mod n")
    case True
    then have "p mod n = (?p + n) mod n" by simp
    then have "p = ?p + n"
      by (rule mod_window) (use w(1) that in \<open>auto simp: mq_writing_def\<close>)
    with I(1) w show ?thesis by (auto simp: mq_slot_ok_def mq_writing_def)
  next
    case False
    then have "n \<le> p \<Longrightarrow> p - n \<noteq> ?p" by (metis le_mod_geq)
    with False I(4) [OF that] show ?thesis unfolding mq_slot_ok_def ex by auto
  qed
  from I pcs slots claims show ?thesis unfolding mq_inv_nat_def by blast
qed

text \<open>A consumer claims the position \<open>d\<close>.\<close>

lemma mq_claim_deq:
  assumes inv: "mq_inv_nat n e d sq dt vs P" and at: "mq_claim (P t) = None" and full: "sq (d mod n) = d + 1"
    and pos: "unat pos = d"
  shows "d < e" and "mq_inv_nat n e (d + 1) sq dt vs (P(t := D_read pos))"
proof -
  note I = mq_inv_natD [OF inv]
  from I(1) have "0 < n" by simp
  then obtain q where q: "e \<le> q" "q < e + n" "q mod n = d mod n"
    using window_position [of "d mod n" n e] by auto
  have "d + n = q \<and> dt (d mod n) = Some (vs ! d)"
  proof -
    have step: "(d + 1) mod n \<noteq> d mod n" using mod_window [of "d + 1" n d] I(1) by auto
    then have "(d + 1 + n) mod n \<noteq> d mod n" by (metis mod_add_self2)
    with step q(3) have "q \<noteq> d + 1" "q \<noteq> d + 1 + n" by auto
    with I(4) [OF q(1,2)] q(3) full show ?thesis by (auto simp: mq_slot_ok_def)
  qed
  then have en: "e \<le> d + n" "d + n < e + n" and dt: "dt (d mod n) = Some (vs ! d)" using q by auto
  then show "d < e" by simp
  have mine: "mq_claim (D_read pos) = Some (False, d)" using pos by simp
  have fresh: "mq_claim (P u) \<noteq> Some (False, d)" for u
    using mq_claim_less(2) [OF inv, of u False d] by auto
  have claims: "\<forall>u w y. mq_claim ((P(t := D_read pos)) u) = Some y \<longrightarrow>
      mq_claim ((P(t := D_read pos)) w) = Some y \<longrightarrow> u = w"
    by (rule mq_claims_add [where P = P, OF fresh mine at]) (rule I(6))
  have ex: "(\<exists>u. mq_claim ((P(t := D_read pos)) u) = Some y) \<longleftrightarrow>
      y = (False, d) \<or> (\<exists>u. mq_claim (P u) = Some y)" for y
    by (rule mq_claims_add [where P = P, OF fresh mine at]) (rule I(6))
  have wr: "mq_writing n e (d + 1) sq p" if "mq_writing n e d sq p" for p
    using that full by (cases "p = d") (auto simp: mq_writing_def)
  have rd: "mq_reading n e (d + 1) sq dt vs p" if "mq_reading n e d sq dt vs p" for p
    using that by (auto simp: mq_reading_def)
  have pcs: "mq_pc_ok n e (d + 1) sq dt vs ((P(t := D_read pos)) u)" for u
    using I(5) [of u] wr rd full dt en pos by (cases "P u") (auto simp: mq_reading_def)
  have slots: "mq_slot_ok n (d + 1) sq dt vs (P(t := D_read pos)) p" if "e \<le> p" "p < e + n" for p
  proof (cases "p = d + n")
    case True
    with full dt ex [of "(False, d)"] show ?thesis by (simp add: mq_slot_ok_def del: fun_upd_apply)
  next
    case False
    with I(4) [OF that] show ?thesis unfolding mq_slot_ok_def ex by auto
  qed
  have "d + 1 \<le> e" using en by simp
  with I pcs slots claims show "mq_inv_nat n e (d + 1) sq dt vs (P(t := D_read pos))"
    unfolding mq_inv_nat_def by blast
qed

text \<open>The claiming consumer hands the slot back: its sequence becomes \<open>pos + capacity\<close>.\<close>

lemma mq_handback:
  assumes inv: "mq_inv_nat n e d sq dt vs P" and at: "P t = D_publish v pos"
  shows "mq_inv_nat n e d (sq(unat pos mod n := unat pos + n)) dt vs (P(t := D_done (Some v)))"
proof -
  let ?p = "unat pos"
  let ?sq = "sq(?p mod n := ?p + n)"
  note I = mq_inv_natD [OF inv]
  have c: "mq_claim (P t) = Some (False, ?p)" using at by simp
  have r: "mq_reading n e d sq dt vs ?p" using I(5) [of t] at by auto
  have gone: "mq_claim (D_done (Some v)) = None" by simp
  have claims: "\<forall>u w y. mq_claim ((P(t := D_done (Some v))) u) = Some y \<longrightarrow>
      mq_claim ((P(t := D_done (Some v))) w) = Some y \<longrightarrow> u = w"
    by (rule mq_claims_remove [where P = P, OF c gone]) (rule I(6))
  have ex: "(\<exists>u. mq_claim ((P(t := D_done (Some v))) u) = Some y) \<longleftrightarrow>
      y \<noteq> (False, ?p) \<and> (\<exists>u. mq_claim (P u) = Some y)" for y
    by (rule mq_claims_remove [where P = P, OF c gone]) (rule I(6))
  have wr: "mq_writing n e d ?sq p" if "mq_writing n e d sq p" for p
    using that r mod_window [of p n ?p] I(2) by (auto simp: mq_writing_def mq_reading_def)
  have rd: "mq_reading n e d ?sq dt vs p" if "mq_reading n e d sq dt vs p" "p \<noteq> ?p" for p
    using that r mod_window [of p n ?p] I(2) by (auto simp: mq_reading_def)
  have ecas: "?sq (e mod n) = e" if "sq (e mod n) = e"
  proof (cases "e mod n = ?p mod n")
    case True
    then have "e mod n = (?p + n) mod n" by simp
    then have "e = ?p + n"
      by (rule mod_window) (use r I(1,2) True mod_window [of e n ?p] in \<open>auto simp: mq_reading_def\<close>)
    then show ?thesis by simp
  qed (use that in simp)
  have dcas: "?sq (d mod n) = d + 1" if "sq (d mod n) = d + 1"
    using that r by (auto simp: mq_reading_def)
  have pcs: "mq_pc_ok n e d ?sq dt vs ((P(t := D_done (Some v))) u)" for u
  proof (cases "u = t")
    case False
    have other: "P u \<noteq> D_read w" "P u \<noteq> D_publish v' w" if "unat w = ?p" for v' w
      using False that c I(6) [of u "(False, ?p)" t] by auto
    show ?thesis
      using I(5) [of u] False other wr rd ecas dcas by (cases "P u") auto
  qed simp
  have slots: "mq_slot_ok n d ?sq dt vs (P(t := D_done (Some v))) p" if "e \<le> p" "p < e + n" for p
  proof (cases "p mod n = ?p mod n")
    case True
    then have "p mod n = (?p + n) mod n" by simp
    then have "p = ?p + n"
      by (rule mod_window) (use r that I(2) in \<open>auto simp: mq_reading_def\<close>)
    with r show ?thesis by (auto simp: mq_slot_ok_def mq_reading_def)
  next
    case False
    then have "n \<le> p \<Longrightarrow> p - n \<noteq> ?p" by (metis le_mod_geq)
    with False I(4) [OF that] show ?thesis unfolding mq_slot_ok_def ex by auto
  qed
  from I pcs slots claims show ?thesis unfolding mq_inv_nat_def by blast
qed

text \<open>The sequences and the data as numbers and options, and the invariant of a queue of capacity \<open>n\<close>.\<close>

definition mq_seqs :: "'a mq \<Rightarrow> nat \<Rightarrow> nat" where
  "mq_seqs s i = unat (sequence (mq_buffer s i))"

definition mq_datas :: "'a mq \<Rightarrow> nat \<Rightarrow> 'a option" where
  "mq_datas s i = data (mq_buffer s i)"

definition mq_inv :: "nat \<Rightarrow> 'a mq \<Rightarrow> bool" where
  "mq_inv n s \<longleftrightarrow> (\<exists>k. n = 2 ^ k \<and> mq_mask s = mask k) \<and> unat (mq_mask s) + 1 = n \<and> unat (mq_enq s) + n < 2 ^ 63
     \<and> mq_inv_nat n (unat (mq_enq s)) (unat (mq_deq s)) (mq_seqs s) (mq_datas s) (mq_log s) (mq_pcs s)"

lemma mq_inv_index: "mq_inv n s \<Longrightarrow> mq_index s pos = unat pos mod n"
  by (auto simp: mq_inv_def mq_index_def unat_and_mask)

lemma mq_inv_mask: "mq_inv n s \<Longrightarrow> unat (mq_mask s) + 1 = n"
  by (simp add: mq_inv_def)

lemma mq_seq_less:
  assumes "mq_inv_nat n e d sq dt vs P" and "i < n"
  shows "sq i < e + n"
proof -
  obtain p where p: "e \<le> p" "p < e + n" "p mod n = i" using window_position [OF assms(2)] by auto
  have "sq (p mod n) \<le> p" using mq_inv_natD(4) [OF assms(1) p(1,2)] mq_inv_natD(1) [OF assms(1)]
    unfolding mq_slot_ok_def by (elim disjE conjE) simp_all
  with p show ?thesis by simp
qed

lemma sint_small: "unat w < 2 ^ 63 \<Longrightarrow> sint w = int (unat w)" for w :: u64
proof -
  assume "unat w < 2 ^ 63"
  then have "int (unat w) < int (2 ^ 63)" by (simp only: of_nat_less_iff)
  then have "uint w < 2 ^ 63" by simp
  moreover have "- (2 ^ 63) \<le> uint w" by (rule order_trans [OF _ uint_ge_0]) simp
  ultimately have "signed_take_bit 63 (uint w) = uint w" by (intro signed_take_bit_int_eq_self)
  then show ?thesis by (simp add: sint_uint)
qed

lemma mq_dif_small:
  "unat a < 2 ^ 63 \<Longrightarrow> unat b < 2 ^ 63 \<Longrightarrow> mq_dif a b = Some (int (unat a) - int (unat b))"
proof -
  assume "unat a < 2 ^ 63" "unat b < 2 ^ 63"
  then have "int (unat a) < int (2 ^ 63)" "int (unat b) < int (2 ^ 63)" by (simp_all only: of_nat_less_iff)
  then have "uint a < 2 ^ 63" "uint b < 2 ^ 63" by simp_all
  then have "- (2 ^ 63) \<le> uint a - uint b" "uint a - uint b < 2 ^ 63"
    using uint_ge_0 [of a] uint_ge_0 [of b] by linarith+
  moreover have "sint a = uint a" "sint b = uint b"
    using \<open>unat a < 2 ^ 63\<close> \<open>unat b < 2 ^ 63\<close> sint_small by simp_all
  ultimately show ?thesis by (simp add: mq_dif_def Let_def)
qed

lemma mq_dif_compare:
  assumes "unat a < 2 ^ 63" and "unat b < 2 ^ 63"
  shows "\<exists>d. mq_dif a b = Some d \<and> (d = 0 \<longleftrightarrow> unat a = unat b) \<and> (d < 0 \<longleftrightarrow> unat a < unat b)"
  unfolding mq_dif_small [OF assms] by (intro exI conjI, rule refl) linarith+

lemma mq_inv_seq:
  assumes "mq_inv n s"
  shows "unat (sequence (mq_cell s pos)) = mq_seqs s (unat pos mod n)"
    and "data (mq_cell s pos) = mq_datas s (unat pos mod n)"
    and "unat (sequence (mq_cell s pos)) < 2 ^ 63"
proof -
  show 1: "unat (sequence (mq_cell s pos)) = mq_seqs s (unat pos mod n)"
    and "data (mq_cell s pos) = mq_datas s (unat pos mod n)"
    using mq_inv_index [OF assms] by (simp_all add: mq_cell_def mq_seqs_def mq_datas_def)
  have "mq_seqs s (unat pos mod n) < unat (mq_enq s) + n"
    using assms by (intro mq_seq_less) (auto simp: mq_inv_def)
  with assms 1 show "unat (sequence (mq_cell s pos)) < 2 ^ 63" by (auto simp: mq_inv_def)
qed

lemma mq_goto_simps [simp]:
  "mq_mask (mq_goto t c s) = mq_mask s" "mq_enq (mq_goto t c s) = mq_enq s" "mq_deq (mq_goto t c s) = mq_deq s"
  "mq_log (mq_goto t c s) = mq_log s" "mq_pcs (mq_goto t c s) = (mq_pcs s)(t := c)"
  "mq_seqs (mq_goto t c s) = mq_seqs s" "mq_datas (mq_goto t c s) = mq_datas s"
  "mq_buffer (mq_goto t c s) = mq_buffer s"
  by (auto simp: mq_goto_def mq_seqs_def mq_datas_def)

lemma mq_set_cell_simps [simp]:
  "mq_mask (mq_set_cell pos c s) = mq_mask s" "mq_enq (mq_set_cell pos c s) = mq_enq s"
  "mq_deq (mq_set_cell pos c s) = mq_deq s" "mq_log (mq_set_cell pos c s) = mq_log s"
  "mq_pcs (mq_set_cell pos c s) = mq_pcs s"
  by (auto simp: mq_set_cell_def)

lemma mq_claimed_simps [simp]:
  "mq_seqs (s\<lparr>mq_enq := w, mq_log := vs\<rparr>) = mq_seqs s" "mq_datas (s\<lparr>mq_enq := w, mq_log := vs\<rparr>) = mq_datas s"
  "mq_seqs (s\<lparr>mq_deq := w\<rparr>) = mq_seqs s" "mq_datas (s\<lparr>mq_deq := w\<rparr>) = mq_datas s"
  by (auto simp: mq_seqs_def mq_datas_def)

lemma mq_inv_local:
  assumes "mq_inv n s" and "mq_claim c = mq_claim (mq_pcs s t)"
    and "mq_pc_ok n (unat (mq_enq s)) (unat (mq_deq s)) (mq_seqs s) (mq_datas s) (mq_log s) c"
  shows "mq_inv n (mq_goto t c s)"
  using assms mq_local [of n "unat (mq_enq s)" "unat (mq_deq s)" "mq_seqs s" "mq_datas s" "mq_log s" "mq_pcs s" c t]
  by (simp add: mq_inv_def)

lemma mq_inv_set_cell:
  assumes "mq_inv n s"
  shows "mq_seqs (mq_set_cell pos c s) = (mq_seqs s)(unat pos mod n := unat (sequence c))"
    and "mq_datas (mq_set_cell pos c s) = (mq_datas s)(unat pos mod n := data c)"
  using mq_inv_index [OF assms] by (auto simp: mq_set_cell_def mq_seqs_def mq_datas_def)

text \<open>The invariant for a state whose components have moved as in one of the lemmas above.\<close>

lemma mq_inv_update:
  assumes "mq_inv n s" and "mq_mask s' = mq_mask s" and "unat (mq_enq s') + n < 2 ^ 63"
    and "mq_inv_nat n (unat (mq_enq s')) (unat (mq_deq s')) (mq_seqs s') (mq_datas s') (mq_log s') (mq_pcs s')"
  shows "mq_inv n s'"
  using assms by (auto simp: mq_inv_def)

lemma mq_inv_producer:
  assumes inv: "mq_inv n s" and step: "mq_enqueue t weak s = Some s'" and ok: "mq_bound s'"
  shows "mq_inv n s'"
proof -
  let ?e = "unat (mq_enq s)" and ?d = "unat (mq_deq s)"
  have nat: "mq_inv_nat n ?e ?d (mq_seqs s) (mq_datas s) (mq_log s) (mq_pcs s)" using inv by (simp add: mq_inv_def)
  note I = mq_inv_natD [OF nat] and loc = mq_inv_local [OF inv] and cell = mq_inv_set_cell [OF inv]
  have small: "?e + n < 2 ^ 63" using inv by (simp add: mq_inv_def)
  have mask: "mq_mask s' = mq_mask s"
    using step by (auto simp: mq_enqueue_def split: mq_pc.splits option.splits if_splits)
  show ?thesis
  proof (cases "mq_pcs s t")
    case (E_load v)
    with step show ?thesis by (auto simp: mq_enqueue_def intro!: loc)
  next
    case (E_seq v pos)
    have p: "unat pos < 2 ^ 63" "unat pos \<le> ?e" using I(5) [of t] E_seq small by auto
    obtain d where d: "mq_dif (sequence (mq_cell s pos)) pos = Some d"
      "d = 0 \<longleftrightarrow> mq_seqs s (unat pos mod n) = unat pos"
      using mq_dif_compare [OF mq_inv_seq(3) [OF inv, of pos] p(1)] mq_inv_seq(1) [OF inv, of pos] by auto
    with E_seq step p show ?thesis by (auto simp: mq_enqueue_def intro!: loc split: if_splits)
  next
    case (E_cas v pos)
    show ?thesis
    proof (cases "mq_enq s = pos \<and> \<not> weak")
      case True
      have e': "unat (pos + 1) = ?e + 1" using True small unat_inc [of pos] by simp
      have "mq_inv_nat n (?e + 1) ?d (mq_seqs s) (mq_datas s) (mq_log s @ [v]) ((mq_pcs s)(t := E_write v pos))"
        using I(5) [of t] E_cas True by (intro mq_claim_enq [OF nat]) auto
      with True E_cas step e' ok mq_inv_mask [OF inv] show ?thesis
        by (intro mq_inv_update [OF inv mask])
          (auto simp: mq_enqueue_def mq_bound_def)
    next
      case False
      with E_cas step show ?thesis by (auto simp: mq_enqueue_def intro!: loc)
    qed
  next
    case (E_write v pos)
    with step have "s' = mq_goto t (E_publish pos) (mq_set_cell pos ((mq_cell s pos)\<lparr>data := Some v\<rparr>) s)"
      by (simp add: mq_enqueue_def)
    with mq_write [OF nat E_write] small cell [of pos "(mq_cell s pos)\<lparr>data := Some v\<rparr>"] mq_inv_seq(1) [OF inv, of pos]
    show ?thesis
      by (intro mq_inv_update [OF inv mask]) auto
  next
    case (E_publish pos)
    have "unat pos < ?e" using I(5) [of t] E_publish by (simp add: mq_writing_def)
    with small have "unat (pos + 1) = unat pos + 1" by (intro unat_inc) simp
    with mq_publish [OF nat E_publish] small step E_publish show ?thesis
      by (intro mq_inv_update [OF inv mask])
       (auto simp: mq_enqueue_def cell mq_inv_seq(2) [OF inv])
  qed (use step in \<open>simp_all add: mq_enqueue_def\<close>)
qed

lemma mq_inv_consumer:
  assumes inv: "mq_inv n s" and step: "mq_dequeue t weak s = Some s'"
  shows "mq_inv n s'"
proof -
  let ?e = "unat (mq_enq s)" and ?d = "unat (mq_deq s)"
  have nat: "mq_inv_nat n ?e ?d (mq_seqs s) (mq_datas s) (mq_log s) (mq_pcs s)" using inv by (simp add: mq_inv_def)
  note I = mq_inv_natD [OF nat] and loc = mq_inv_local [OF inv] and cell = mq_inv_set_cell [OF inv]
  have small: "?e + n < 2 ^ 63" using inv by (simp add: mq_inv_def)
  have mask: "mq_mask s' = mq_mask s"
    using step by (auto simp: mq_dequeue_def split: mq_pc.splits option.splits if_splits)
  show ?thesis
  proof (cases "mq_pcs s t")
    case D_load
    with step show ?thesis by (auto simp: mq_dequeue_def intro!: loc)
  next
    case (D_seq pos)
    have p: "unat pos \<le> ?d" "unat pos + 1 < 2 ^ 63" using I(1,2) I(5) [of t] D_seq small by auto
    then have p': "unat (pos + 1) = unat pos + 1" by (intro unat_inc) simp
    obtain d where d: "mq_dif (sequence (mq_cell s pos)) (pos + 1) = Some d"
      "d = 0 \<longleftrightarrow> mq_seqs s (unat pos mod n) = unat pos + 1"
      using mq_dif_compare [OF mq_inv_seq(3) [OF inv, of pos], of "pos + 1"] p p' mq_inv_seq(1) [OF inv, of pos] by auto
    with D_seq step p show ?thesis by (auto simp: mq_dequeue_def intro!: loc split: if_splits)
  next
    case (D_cas pos)
    show ?thesis
    proof (cases "mq_deq s = pos \<and> \<not> weak")
      case True
      have free: "mq_claim (mq_pcs s t) = None" "mq_seqs s (?d mod n) = ?d + 1" "unat pos = ?d"
        using I(5) [of t] D_cas True by auto
      note claim = mq_claim_deq [OF nat free]
      have "unat (pos + 1) = ?d + 1" using claim(1) small unat_inc [of pos] free(3) by simp
      with True D_cas step claim(2) small show ?thesis
        by (intro mq_inv_update [OF inv mask]) (auto simp: mq_dequeue_def)
    next
      case False
      with D_cas step show ?thesis by (auto simp: mq_dequeue_def intro!: loc)
    qed
  next
    case (D_read pos)
    with I(5) [of t] have "mq_reading n ?e ?d (mq_seqs s) (mq_datas s) (mq_log s) (unat pos)" by simp
    moreover from this have "data (mq_cell s pos) = Some (mq_log s ! unat pos)"
      by (simp add: mq_inv_seq(2) [OF inv] mq_reading_def)
    ultimately show ?thesis using D_read step by (auto simp: mq_dequeue_def intro!: loc)
  next
    case (D_publish v pos)
    have "unat pos < ?d" using I(5) [of t] D_publish by (simp add: mq_reading_def)
    moreover have "unat (pos + mq_mask s + 1) = unat (pos + mq_mask s) + 1" if "unat (pos + mq_mask s) < 2 ^ 63"
      using that by (intro unat_inc) simp
    moreover have "unat (pos + mq_mask s) = unat pos + unat (mq_mask s)"
      using calculation(1) small I(2) mq_inv_mask [OF inv] by (intro unat_add_lem [THEN iffD1]) simp
    ultimately have "unat (pos + mq_mask s + 1) = unat pos + n" using small I(2) mq_inv_mask [OF inv] by simp
    with mq_handback [OF nat D_publish] small step D_publish show ?thesis
      by (intro mq_inv_update [OF inv mask])
       (auto simp: mq_dequeue_def cell mq_inv_seq(2) [OF inv])
  qed (use step in \<open>simp_all add: mq_dequeue_def\<close>)
qed

lemma mq_inv_step:
  assumes "mq_inv n s" and "within mq_bound mq_move ev s = Some s'"
  shows "mq_inv n s'"
proof (cases ev)
  case (MQ_enqueue t v)
  with assms show ?thesis by (cases "mq_pcs s t") (auto intro!: mq_inv_local)
next
  case (MQ_dequeue t)
  with assms show ?thesis by (cases "mq_pcs s t") (auto intro!: mq_inv_local)
qed (use assms in \<open>auto intro: mq_inv_producer mq_inv_consumer\<close>)

lemma mq_inv_start:
  assumes "mq_init n s"
  shows "mq_inv (unat n) s"
proof -
  from assms have n: "2 \<le> n" "n AND (n - 1) = 0"
    and s: "s = \<lparr>mq_buffer = (\<lambda>i. \<lparr>sequence = of_nat i, data = None\<rparr>), mq_mask = n - 1,
                 mq_enq = 0, mq_deq = 0, mq_pcs = (\<lambda>_. MQ_idle), mq_log = []\<rparr>" and b: "mq_bound s"
    by (auto simp: mq_init_def mq_new_def split: if_splits)
  have 2: "2 \<le> unat n" using n(1) by (simp add: word_le_nat_alt)
  then have "n \<noteq> 0" by auto
  with n(2) obtain k where k: "unat n = 2 ^ k" "n - 1 = mask k" using word_power_of_two by blast
  have m: "unat (n - 1) + 1 = unat n" using unat_dec [OF \<open>n \<noteq> 0\<close>] 2 by simp
  with b s have small: "unat n < 2 ^ 63" by (simp add: mq_bound_def)
  have "unat (of_nat p :: u64) = p" if "p < unat n" for p
    using that small by (simp add: unat_of_nat)
  then have "mq_inv_nat (unat n) 0 0 (mq_seqs s) (mq_datas s) [] (\<lambda>_. MQ_idle)"
    using 2 by (auto simp: mq_inv_nat_def mq_slot_ok_def s mq_seqs_def)
  with k m small show ?thesis by (auto simp: mq_inv_def s)
qed

subsection \<open>Refinement of the bounded queue\<close>

definition mq_abs :: "'a mq \<Rightarrow> 'a fifo" where
  "mq_abs s = \<lparr>entered = mq_log s, left = take (unat (mq_deq s)) (mq_log s)\<rparr>"

lemma mq_contents: "contents (mq_abs s) = drop (unat (mq_deq s)) (mq_log s)"
  by (auto simp: mq_abs_def contents_def min_def not_le)

lemma mq_simulates:
  assumes inv: "mq_inv n s" and move: "within mq_bound mq_move ev s = Some s'"
  shows "mq_abs s' = mq_abs s \<or> (\<exists>f. fifo_move n f (mq_abs s) = Some (mq_abs s'))"
proof -
  let ?e = "unat (mq_enq s)" and ?d = "unat (mq_deq s)"
  from move have step: "mq_move ev s = Some s'" by simp
  have nat: "mq_inv_nat n ?e ?d (mq_seqs s) (mq_datas s) (mq_log s) (mq_pcs s)" using inv by (simp add: mq_inv_def)
  note I = mq_inv_natD [OF nat]
  have small: "?e + n < 2 ^ 63" using inv by (simp add: mq_inv_def)
  consider (stay) "mq_log s' = mq_log s" "mq_deq s' = mq_deq s"
    | (enq) t v pos where "mq_pcs s t = E_cas v pos" "mq_enq s = pos" "mq_log s' = mq_log s @ [v]" "mq_deq s' = mq_deq s"
    | (deq) t pos where "mq_pcs s t = D_cas pos" "mq_deq s = pos" "mq_log s' = mq_log s" "mq_deq s' = pos + 1"
    using step by (cases ev) (auto simp: mq_enqueue_def mq_dequeue_def split: mq_pc.splits option.splits if_splits)
  then show ?thesis
  proof cases
    case stay
    then show ?thesis by (simp add: mq_abs_def)
  next
    case (enq t v pos)
    then have "?e < ?d + n" using I(5) [of t] I(4) [of ?e] I(1) by (auto simp: mq_slot_ok_def)
    with enq I(1-3) have "fifo_move n (Enq v) (mq_abs s) = Some (mq_abs s')"
      by (simp add: mq_contents) (simp add: mq_abs_def)
    then show ?thesis by blast
  next
    case (deq t pos)
    then have free: "mq_claim (mq_pcs s t) = None" "mq_seqs s (?d mod n) = ?d + 1" "unat pos = ?d"
      using I(5) [of t] by auto
    from mq_claim_deq(1) [OF nat free] I(3) have d: "?d < length (mq_log s)" by simp
    with I(3) small have "unat (pos + 1) = ?d + 1" using unat_inc [of pos] free(3) by simp
    moreover have "contents (mq_abs s) = mq_log s ! ?d # drop (Suc ?d) (mq_log s)"
      using d by (simp add: mq_contents Cons_nth_drop_Suc)
    ultimately have "fifo_move n Deq (mq_abs s) = Some (mq_abs s')"
      using d deq(3,4) by (simp add: mq_abs_def take_Suc_conv_app_nth)
    then show ?thesis by blast
  qed
qed

lemma mq_abs_start: "mq_init n s \<Longrightarrow> fifo_init (mq_abs s)"
  by (auto simp: mq_abs_def mq_init_def mq_new_def fifo_init_def split: if_splits)

interpretation mpmc: fifo_queue "mq_init n" "within mq_bound mq_move" "mq_inv (unat n)" "unat n" mq_abs for n
  by unfold_locales
    (auto simp: mq_abs_start intro: mq_inv_start mq_inv_step dest: mq_simulates)

lemma mq_inv_nat: "mq_inv n s \<Longrightarrow>
    mq_inv_nat n (unat (mq_enq s)) (unat (mq_deq s)) (mq_seqs s) (mq_datas s) (mq_log s) (mq_pcs s)"
  by (simp add: mq_inv_def)

text \<open>The position whose slot a thread looks at, on the lap that comes next.\<close>

lemma mq_next_lap:
  assumes "mq_inv n s"
  obtains q where "unat (mq_enq s) \<le> q" "q < unat (mq_enq s) + n" "q mod n = unat pos mod n"
    "mq_slot_ok n (unat (mq_deq s)) (mq_seqs s) (mq_datas s) (mq_log s) (mq_pcs s) q"
proof -
  note nat = mq_inv_nat [OF assms]
  have "unat pos mod n < n" using mq_inv_natD(1) [OF nat] by simp
  from window_position [OF this] mq_inv_natD(4) [OF nat] that show ?thesis by blast
qed

lemma mod_below:
  fixes p q n :: nat
  assumes "p mod n = q mod n" and "p < q"
  shows "p + n \<le> q"
proof (rule ccontr)
  assume "\<not> p + n \<le> q"
  with assms have "p = q" by (intro mod_window [OF assms(1)]) simp_all
  with assms(2) show False by simp
qed

lemma mq_enqueue_refused:
  assumes inv: "mq_inv n s" and at: "mq_pcs s t = E_seq v pos"
    and low: "mq_seqs s (unat pos mod n) < unat pos" and room: "unat (mq_enq s) \<le> unat (mq_deq s) + n"
  shows "unat pos = unat (mq_enq s)"
    and "unat (mq_enq s) = unat (mq_deq s) + n \<or> (\<exists>u. mq_claim (mq_pcs s u) = Some (False, unat (mq_enq s) - n))"
proof -
  let ?e = "unat (mq_enq s)"
  note I = mq_inv_natD [OF mq_inv_nat [OF inv]]
  obtain q where q: "?e \<le> q" "q < ?e + n" "q mod n = unat pos mod n"
    "mq_slot_ok n (unat (mq_deq s)) (mq_seqs s) (mq_datas s) (mq_log s) (mq_pcs s) q"
    using mq_next_lap [OF inv] by blast
  have pos: "unat pos \<le> ?e" using I(5) [of t] at by simp
  have qpos: "q = unat pos"
  proof (rule ccontr)
    assume "q \<noteq> unat pos"
    with pos q(1) have "unat pos + n \<le> q" by (intro mod_below) (simp_all add: q(3))
    with q(3,4) low show False by (auto simp: mq_slot_ok_def)
  qed
  with pos q(1) show e: "unat pos = ?e" by simp
  with q(4) qpos low I(1) room show "?e = unat (mq_deq s) + n \<or> (\<exists>u. mq_claim (mq_pcs s u) = Some (False, ?e - n))"
    by (auto simp: mq_slot_ok_def)
qed

lemma mq_dequeue_refused:
  assumes inv: "mq_inv n s" and at: "mq_pcs s t = D_seq pos"
    and low: "mq_seqs s (unat pos mod n) \<le> unat pos"
  shows "unat pos = unat (mq_deq s)"
    and "unat (mq_enq s) = unat (mq_deq s) \<or> (\<exists>u. mq_claim (mq_pcs s u) = Some (True, unat (mq_deq s)))"
proof -
  let ?e = "unat (mq_enq s)" and ?d = "unat (mq_deq s)"
  note I = mq_inv_natD [OF mq_inv_nat [OF inv]]
  obtain q where q: "?e \<le> q" "q < ?e + n" "q mod n = unat pos mod n"
    "mq_slot_ok n ?d (mq_seqs s) (mq_datas s) (mq_log s) (mq_pcs s) q"
    using mq_next_lap [OF inv] by blast
  have pos: "unat pos \<le> ?d" using I(5) [of t] at by simp
  show d: "unat pos = ?d"
  proof (rule ccontr)
    assume "unat pos \<noteq> ?d"
    with pos q(1) I(2) have far: "unat pos < ?d" "unat pos + n \<le> q"
      using mod_below [of "unat pos" n q] q(3) by simp_all
    then show False using q(3,4) low I(1) by (auto simp: mq_slot_ok_def)
  qed
  show "?e = ?d \<or> (\<exists>u. mq_claim (mq_pcs s u) = Some (True, ?d))"
  proof (cases "q = unat pos")
    case True
    with q(1) d I(2) show ?thesis by simp
  next
    case False
    with pos q(1) I(2) have "unat pos + n \<le> q" using mod_below [of "unat pos" n q] q(3) by simp
    with q(3,4) low d have "q = ?d + n" by (auto simp: mq_slot_ok_def)
    with q(3,4) low I(1) d show ?thesis by (auto simp: mq_slot_ok_def)
  qed
qed

lemma mq_reach_room:
  assumes "reach (mq_init n) (within mq_bound mq_move) s"
  shows "unat (mq_enq s) \<le> unat (mq_deq s) + unat n"
  using mpmc.fifo_bound [OF assms] mq_inv_natD(3) [OF mq_inv_nat [OF mpmc.reach_inv [OF assms]]]
  by (simp add: mq_contents)

lemma mq_start: "n AND (n - 1) = 0 \<Longrightarrow> 2 \<le> n \<Longrightarrow> n < 9223372036854775808 \<Longrightarrow>
  mq_init n \<lparr>mq_buffer = (\<lambda>i. \<lparr>sequence = of_nat i, data = None\<rparr>), mq_mask = n - 1,
                 mq_enq = 0, mq_deq = 0, mq_pcs = (\<lambda>_. MQ_idle), mq_log = []\<rparr>"
proof -
  assume a: "n AND (n - 1) = 0" "2 \<le> n" "n < 9223372036854775808"
  then have "n \<noteq> 0" by (auto simp: word_le_nat_alt)
  have "unat n < 9223372036854775808" using a(3) by (simp add: word_less_nat_alt)
  moreover have "0 < unat n" using \<open>n \<noteq> 0\<close> by (simp add: unat_gt_0)
  ultimately show ?thesis using a unat_dec [OF \<open>n \<noteq> 0\<close>] by (simp add: mq_init_def mq_new_def mq_bound_def)
qed

lemmas mq_eval = within_def mq_bound_def mq_enqueue_def mq_dequeue_def mq_goto_def mq_set_cell_def mq_cell_def
  mq_index_def mq_dif_def Let_def


subsection \<open>Properties\<close>

text \<open>C2. The MPMC queue is a bounded first-in first-out queue for any number of threads: positions
  are claimed one by one, at most the capacity of them are claimed by producers and not by
  consumers, and what the consumer of a position delivers is the value of the producer of that position.\<close>

theorem mpmc_first_in_first_out:
  assumes "reach (mq_init n) (within mq_bound mq_move) s"
  shows "unat (mq_enq s) = length (mq_log s) \<and> unat (mq_deq s) \<le> unat (mq_enq s)
     \<and> unat (mq_enq s) \<le> unat (mq_deq s) + unat n
     \<and> (\<forall>t v pos. mq_pcs s t = D_publish v pos \<longrightarrow> unat pos < unat (mq_deq s) \<and> v = mq_log s ! unat pos)"
proof -
  note I = mq_inv_natD [OF mq_inv_nat [OF mpmc.reach_inv [OF assms]]]
  have "unat pos < unat (mq_deq s) \<and> v = mq_log s ! unat pos" if "mq_pcs s t = D_publish v pos" for t v pos
    using I(5) [of t] that by (simp add: mq_reading_def)
  with I(2,3) mq_reach_room [OF assms] show ?thesis by simp
qed

theorem mpmc_first_in_first_out_witness:
  "\<exists>s :: nat mq. reach (mq_init 2) (within mq_bound mq_move) s \<and> mq_pcs s 2 = D_publish 7 0
     \<and> mq_log s = [7, 8] \<and> unat (mq_enq s) = 2 \<and> (7 :: nat) = mq_log s ! 0"
proof -
  let ?enq = "\<lambda>t (v :: nat). [MQ_enqueue t v, MQ_producer t False, MQ_producer t False, MQ_producer t False, MQ_producer t False, MQ_producer t False]"
  have "\<exists>s :: nat mq. reach (mq_init 2) (within mq_bound mq_move) s
      \<and> (mq_pcs s 2 = D_publish 7 0 \<and> mq_log s = [7, 8])"
    by (rule reach_witness [where es = "?enq 0 7 @ ?enq 1 8 @ [MQ_dequeue 2, MQ_consumer 2 False, MQ_consumer 2 False, MQ_consumer 2 False, MQ_consumer 2 False]"],
        rule mq_start, simp, simp, simp, simp add: mq_eval)
  then obtain s :: "nat mq" where s: "reach (mq_init 2) (within mq_bound mq_move) s"
    "mq_pcs s 2 = D_publish 7 0" "mq_log s = [7, 8]" by blast
  with mpmc_first_in_first_out [OF s(1)] show ?thesis by force
qed

text \<open>No data race in the MPMC queue: two threads that are between their compare-exchange and
  the store that hands their cell on are never at the same cell, so the unsynchronised accesses to
  the cell's data never overlap; and no thread reaches undefined behaviour (a signed difference that
  overflows, data read before it was written).\<close>

theorem mpmc_no_data_race:
  assumes "reach (mq_init n) (within mq_bound mq_move) s"
  shows "mq_pcs s r \<noteq> MQ_undefined
     \<and> (mq_claim (mq_pcs s t) = Some (b, unat pos) \<and> mq_claim (mq_pcs s u) = Some (c, unat pos') \<and> t \<noteq> u
         \<longrightarrow> mq_index s pos \<noteq> mq_index s pos')"
proof -
  have inv: "mq_inv (unat n) s" using assms by (rule mpmc.reach_inv)
  note I = mq_inv_natD [OF mq_inv_nat [OF inv]]
  have "t = u" if "mq_claim (mq_pcs s t) = Some (b, unat pos)" "mq_claim (mq_pcs s u) = Some (c, unat pos')"
    "mq_index s pos = mq_index s pos'"
    using mq_claim_slots [OF mq_inv_nat [OF inv] that(1,2)] that I(6) [of t _ u]
    by (simp add: mq_inv_index [OF inv])
  with I(5) [of r] show ?thesis by auto
qed

theorem mpmc_no_data_race_witness:
  "\<exists>s :: nat mq. reach (mq_init 2) (within mq_bound mq_move) s
     \<and> mq_pcs s 0 = E_write 7 0 \<and> mq_pcs s 1 = E_write 8 1 \<and> mq_index s 0 \<noteq> mq_index s 1"
proof -
  let ?claim = "\<lambda>t (v :: nat). [MQ_enqueue t v, MQ_producer t False, MQ_producer t False, MQ_producer t False]"
  have "\<exists>s :: nat mq. reach (mq_init 2) (within mq_bound mq_move) s
      \<and> (mq_pcs s 0 = E_write 7 0 \<and> mq_pcs s 1 = E_write 8 1)"
    by (rule reach_witness [where es = "?claim 0 7 @ ?claim 1 8"],
        rule mq_start, simp, simp, simp, simp add: mq_eval)
  then obtain s :: "nat mq" where s: "reach (mq_init 2) (within mq_bound mq_move) s"
    "mq_pcs s 0 = E_write 7 0" "mq_pcs s 1 = E_write 8 1" by blast
  with mpmc_no_data_race [OF s(1), of 0 0 True 0 1 True 1] show ?thesis by (intro exI [of _ s]) simp
qed

text \<open>The MPMC operations refuse for the right reason. \<open>enqueue\<close> returns false only if the
  queue holds as many values as it has cells, or the cell is still being read by the consumer of
  the lap before; \<open>dequeue\<close> only if no value is claimed that is not delivered, or the producer of
  the next position has not published it yet.\<close>

theorem mpmc_refusals:
  assumes "reach (mq_init n) (within mq_bound mq_move) s" and "mq_move e s = Some s'"
  shows "(mq_pcs s t = E_seq v pos \<and> mq_pcs s' t = E_done False \<longrightarrow> pos = mq_enq s
       \<and> (length (contents (mq_abs s)) = unat n
          \<or> (\<exists>u. mq_claim (mq_pcs s u) = Some (False, unat (mq_enq s) - unat n))))
     \<and> (mq_pcs s t = D_seq pos \<and> mq_pcs s' t = D_done None \<longrightarrow> pos = mq_deq s
       \<and> (contents (mq_abs s) = [] \<or> (\<exists>u. mq_claim (mq_pcs s u) = Some (True, unat (mq_deq s)))))"
proof -
  have inv: "mq_inv (unat n) s" using assms(1) by (rule mpmc.reach_inv)
  note I = mq_inv_natD [OF mq_inv_nat [OF inv]]
  have small: "unat (mq_enq s) + unat n < 2 ^ 63" using inv by (simp add: mq_inv_def)
  have refuse_enq: "mq_seqs s (unat pos mod unat n) < unat pos" if at: "mq_pcs s t = E_seq v pos" "mq_pcs s' t = E_done False"
  proof -
    from at assms(2) obtain d where d: "mq_dif (sequence (mq_cell s pos)) pos = Some d" "d < 0"
      by (cases e) (auto simp: mq_enqueue_def mq_dequeue_def split: option.splits if_splits mq_pc.splits)
    have "unat pos < 2 ^ 63" using I(5) [of t] at small by simp
    with mq_dif_compare [OF mq_inv_seq(3) [OF inv, of pos], of pos] d mq_inv_seq(1) [OF inv, of pos] show ?thesis by auto
  qed
  have refuse_deq: "mq_seqs s (unat pos mod unat n) \<le> unat pos" if at: "mq_pcs s t = D_seq pos" "mq_pcs s' t = D_done None"
  proof -
    from at assms(2) obtain d where d: "mq_dif (sequence (mq_cell s pos)) (pos + 1) = Some d" "d < 0"
      by (cases e) (auto simp: mq_enqueue_def mq_dequeue_def split: option.splits if_splits mq_pc.splits)
    have "unat pos + 1 < 2 ^ 63" using I(1,2) I(5) [of t] at small by simp
    then have "unat (pos + 1) = unat pos + 1" "unat (pos + 1) < 2 ^ 63" using unat_inc [of pos] by simp_all
    with mq_dif_compare [OF mq_inv_seq(3) [OF inv, of pos], of "pos + 1"] d mq_inv_seq(1) [OF inv, of pos]
    show ?thesis by auto
  qed
  show ?thesis
    using mq_enqueue_refused [OF inv _ refuse_enq mq_reach_room [OF assms(1)]] mq_dequeue_refused [OF inv _ refuse_deq]
      I(2,3) by (auto simp: mq_contents word_unat_eq_iff)
qed

text \<open>The comments of the code say that a negative difference means \<open>queue is empty\<close>. It does
  not: a consumer can be refused after an \<open>enqueue\<close> has returned true and before any other
  \<open>dequeue\<close> started, because the producer of an earlier position is not done.\<close>

theorem mpmc_dequeue_refused_after_enqueue:
  "\<exists>s :: nat mq. reach (mq_init 2) (within mq_bound mq_move) s
     \<and> mq_pcs s 1 = E_done True \<and> mq_log s = [7, 8] \<and> mq_deq s = 0 \<and> mq_pcs s 2 = D_done None"
  by (rule reach_witness [where es = "[MQ_enqueue 0 7, MQ_producer 0 False, MQ_producer 0 False, MQ_producer 0 False,
        MQ_enqueue 1 8, MQ_producer 1 False, MQ_producer 1 False, MQ_producer 1 False, MQ_producer 1 False,
        MQ_producer 1 False, MQ_dequeue 2, MQ_consumer 2 False, MQ_consumer 2 False]"],
      rule mq_start, simp, simp, simp, simp add: mq_eval)

text \<open>The constructor of the MPMC queue accepts exactly the sizes that are powers of two and at
  least 2, and then masking a position is the remainder by the size.\<close>

theorem mpmc_constructor:
  "case mq_new n :: 'a mq option of
     None \<Rightarrow> \<not> (\<exists>k. 0 < k \<and> unat n = 2 ^ k)
   | Some s \<Rightarrow> (\<exists>k. 0 < k \<and> unat n = 2 ^ k) \<and> mq_index s pos = unat pos mod unat n"
proof -
  have pow: "\<exists>k. 0 < k \<and> unat n = 2 ^ k \<and> n - 1 = mask k" if "2 \<le> n" "n AND (n - 1) = 0"
  proof -
    have "2 \<le> unat n" using that(1) by (simp add: word_le_nat_alt)
    moreover from this have "n \<noteq> 0" by auto
    with that(2) obtain k where "unat n = 2 ^ k" "n - 1 = mask k" using word_power_of_two by blast
    ultimately show ?thesis by (intro exI [of _ k]) (cases k, auto)
  qed
  have "2 \<le> n \<and> n AND (n - 1) = 0" if k: "0 < k" "unat n = 2 ^ k" for k
  proof -
    have "n = of_nat (unat n)" by simp
    with k(2) have "n = 2 ^ k" by (simp only: of_nat_power of_nat_numeral)
    moreover have "k < 64"
    proof -
      have "unat n < 2 ^ 64" using unsigned_less [of n] by simp
      with k(2) have "(2 :: nat) ^ k < 2 ^ 64" by simp
      then show ?thesis by (rule power_less_imp_less_exp [rotated]) simp
    qed
    moreover have "n AND mask k = 0" using unat_and_mask [of n k] k(2) by (simp flip: unat_eq_0)
    moreover have "2 \<le> unat n" using k by (cases k) auto
    ultimately show ?thesis by (simp add: mask_eq_exp_minus_1 word_le_nat_alt)
  qed
  with pow show ?thesis
    by (auto simp: mq_new_def mq_index_def unat_and_mask split: if_splits)
qed

theorem mpmc_refusals_witness:
  "\<exists>s s' :: nat mq. reach (mq_init 2) (within mq_bound mq_move) s \<and> mq_move (MQ_consumer 2 False) s = Some s'
     \<and> mq_pcs s 2 = D_seq 0 \<and> mq_pcs s' 2 = D_done None \<and> mq_log s = [] \<and> contents (mq_abs s) = []"
proof -
  have "\<exists>s :: nat mq. reach (mq_init 2) (within mq_bound mq_move) s
      \<and> (mq_pcs s 2 = D_seq 0 \<and> mq_log s = [] \<and> mq_pcs s 0 = MQ_idle \<and> (\<forall>u. mq_claim (mq_pcs s u) = None)
         \<and> mq_move (MQ_consumer 2 False) s \<noteq> None \<and> mq_pcs (the (mq_move (MQ_consumer 2 False) s)) 2 = D_done None)"
    by (rule reach_witness [where es = "[MQ_dequeue 2, MQ_consumer 2 False]"],
        rule mq_start, simp, simp, simp, simp add: mq_eval)
  then obtain s s' :: "nat mq" where s: "reach (mq_init 2) (within mq_bound mq_move) s"
    "mq_move (MQ_consumer 2 False) s = Some s'" "mq_pcs s 2 = D_seq 0" "mq_pcs s' 2 = D_done None"
    "mq_log s = []" "\<forall>u. mq_claim (mq_pcs s u) = None" by auto
  with mpmc_refusals [OF s(1,2), of 2 _ 0] show ?thesis by (intro exI [of _ s] exI [of _ s']) simp
qed


lemma mq_solo_enqueue:
  assumes "reach (mq_init n) (within mq_bound mq_move) s"
    and "\<forall>u. mq_claim (mq_pcs s u) = None" and "mq_quiet (mq_pcs s t)"
    and "length (contents (mq_abs s)) < unat n"
  shows "\<exists>s'. run mq_move [MQ_enqueue t v, MQ_producer t False, MQ_producer t False, MQ_producer t False,
      MQ_producer t False, MQ_producer t False] s = Some s'
     \<and> mq_pcs s' t = E_done True \<and> mq_log s' = mq_log s @ [v] \<and> mq_deq s' = mq_deq s"
proof -
  have inv: "mq_inv (unat n) s" using assms(1) by (rule mpmc.reach_inv)
  note I = mq_inv_natD [OF mq_inv_nat [OF inv]]
  let ?e = "unat (mq_enq s)"
  have small: "?e + unat n < 2 ^ 63" using inv by (simp add: mq_inv_def)
  have "mq_slot_ok (unat n) (unat (mq_deq s)) (mq_seqs s) (mq_datas s) (mq_log s) (mq_pcs s) ?e"
    using I(1) by (intro I(4)) simp_all
  with assms(2,4) I(2,3) have "mq_seqs s (?e mod unat n) = ?e" by (auto simp: mq_slot_ok_def mq_contents)
  with small mq_dif_compare [OF mq_inv_seq(3) [OF inv, of "mq_enq s"], of "mq_enq s"] mq_inv_seq(1) [OF inv, of "mq_enq s"]
  have "mq_dif (sequence (mq_cell s (mq_enq s))) (mq_enq s) = Some 0" by auto
  then show ?thesis using assms(3) by (simp add: mq_enqueue_def mq_cell_def mq_index_def)
qed

lemma mq_solo_dequeue:
  assumes "reach (mq_init n) (within mq_bound mq_move) s"
    and "\<forall>u. mq_claim (mq_pcs s u) = None" and "mq_quiet (mq_pcs s t)"
    and "contents (mq_abs s) = v # vs"
  shows "\<exists>s'. run mq_move [MQ_dequeue t, MQ_consumer t False, MQ_consumer t False, MQ_consumer t False,
      MQ_consumer t False, MQ_consumer t False] s = Some s'
     \<and> mq_pcs s' t = D_done (Some v) \<and> mq_log s' = mq_log s \<and> mq_deq s' = mq_deq s + 1"
proof -
  have inv: "mq_inv (unat n) s" using assms(1) by (rule mpmc.reach_inv)
  note I = mq_inv_natD [OF mq_inv_nat [OF inv]]
  let ?e = "unat (mq_enq s)" and ?d = "unat (mq_deq s)"
  have small: "?e + unat n < 2 ^ 63" using inv by (simp add: mq_inv_def)
  from assms(4) have v: "?d < length (mq_log s)" "mq_log s ! ?d = v"
    by (simp_all add: mq_contents) (metis drop_all list.distinct(1) not_le, metis nth_via_drop)
  obtain q where q: "?e \<le> q" "q < ?e + unat n" "q mod unat n = ?d mod unat n"
    "mq_slot_ok (unat n) ?d (mq_seqs s) (mq_datas s) (mq_log s) (mq_pcs s) q"
    using mq_next_lap [OF inv] by blast
  have "?d + unat n \<le> q" using v q(1) I(3) by (intro mod_below) (simp_all add: q(3))
  moreover have "q < ?d + unat n + unat n" using q(2) mq_reach_room [OF assms(1)] by simp
  ultimately have "q = ?d + unat n" using q(3) mod_window [of q "unat n" "?d + unat n"] v(1) I(1) by simp
  with q(3,4) assms(2) v(2) have full: "mq_seqs s (?d mod unat n) = ?d + 1" "mq_datas s (?d mod unat n) = Some v"
    by (auto simp: mq_slot_ok_def)
  have p: "unat (mq_deq s + 1) = ?d + 1" "unat (mq_deq s + 1) < 2 ^ 63"
    using small v(1) I(3) unat_inc [of "mq_deq s"] by simp_all
  from mq_dif_compare [OF mq_inv_seq(3) [OF inv, of "mq_deq s"] p(2)] full(1) p(1) mq_inv_seq(1) [OF inv, of "mq_deq s"]
  have "mq_dif (sequence (mq_cell s (mq_deq s))) (mq_deq s + 1) = Some 0" by auto
  moreover have "data (mq_cell s (mq_deq s)) = Some v" using full(2) mq_inv_seq(2) [OF inv] by simp
  ultimately show ?thesis using assms(3) by (simp add: mq_dequeue_def mq_cell_def mq_index_def)
qed

text \<open>Run alone (no thread has a claimed position), the MPMC operations succeed in one pass of
  their loop, whatever their arguments: \<open>enqueue\<close> returns true and appends the value if the queue
  is not full, and \<open>dequeue\<close> returns true and delivers the oldest value if it is not empty.\<close>

theorem mpmc_solo:
  assumes "reach (mq_init n) (within mq_bound mq_move) s"
    and "\<forall>u. mq_claim (mq_pcs s u) = None" and "mq_quiet (mq_pcs s t)"
  shows "(length (contents (mq_abs s)) < unat n \<longrightarrow>
       (\<exists>s'. run mq_move [MQ_enqueue t v, MQ_producer t False, MQ_producer t False, MQ_producer t False,
          MQ_producer t False, MQ_producer t False] s = Some s'
        \<and> mq_pcs s' t = E_done True \<and> mq_log s' = mq_log s @ [v] \<and> mq_deq s' = mq_deq s))
     \<and> (contents (mq_abs s) = w # ws \<longrightarrow>
       (\<exists>s'. run mq_move [MQ_dequeue t, MQ_consumer t False, MQ_consumer t False, MQ_consumer t False,
          MQ_consumer t False, MQ_consumer t False] s = Some s'
        \<and> mq_pcs s' t = D_done (Some w) \<and> mq_log s' = mq_log s \<and> mq_deq s' = mq_deq s + 1))"
  using mq_solo_enqueue [OF assms] mq_solo_dequeue [OF assms] by blast

theorem mpmc_solo_witness:
  "\<exists>s s' :: nat mq. reach (mq_init 2) (within mq_bound mq_move) s \<and> mq_log s = [7]
     \<and> run mq_move [MQ_dequeue 5, MQ_consumer 5 False, MQ_consumer 5 False, MQ_consumer 5 False,
          MQ_consumer 5 False, MQ_consumer 5 False] s = Some s'
     \<and> mq_pcs s' 5 = D_done (Some 7) \<and> mq_deq s' = 1"
proof -
  have "\<exists>s :: nat mq. reach (mq_init 2) (within mq_bound mq_move) s
      \<and> ((\<forall>u. mq_claim (mq_pcs s u) = None) \<and> mq_quiet (mq_pcs s 5) \<and> contents (mq_abs s) = [7] \<and> mq_log s = [7]
         \<and> mq_deq s = 0)"
    by (rule reach_witness [where es = "[MQ_enqueue 0 7, MQ_producer 0 False, MQ_producer 0 False, MQ_producer 0 False,
        MQ_producer 0 False, MQ_producer 0 False]"],
        rule mq_start, simp, simp, simp, simp add: mq_eval mq_contents)
  then obtain s :: "nat mq" where s: "reach (mq_init 2) (within mq_bound mq_move) s"
    "\<forall>u. mq_claim (mq_pcs s u) = None" "mq_quiet (mq_pcs s 5)" "contents (mq_abs s) = 7 # []" "mq_log s = [7]" "mq_deq s = 0"
    by blast
  with mpmc_solo [OF s(1,2,3), THEN conjunct2, rule_format, OF s(4)] show ?thesis by (metis add_0)
qed

end
