(* ===== verification/Mpmc_Weak.thy ===== *)
theory Mpmc_Weak
  imports Mpmc_Lockfree Weak_Memory
begin

text \<open>
  The queue of \<open>concurrent_structures/mpmc_lockfree.cpp\<close> with the memory orders of the code: the two positions
  are loaded and exchanged relaxed, the sequence of a cell is loaded with acquire and stored with release. The
  steps are those of \<open>Mpmc_Lockfree\<close>, on the memory of \<open>Weak_Memory\<close>; the plain objects are the data of the cells.
\<close>

subsection \<open>State\<close>

datatype mq_loc = E_pos | D_pos | Seq nat

record 'a wq =
  wq_mem :: "(mq_loc, nat, u64) memory"
  wq_data :: "nat \<Rightarrow> 'a option"
  wq_mask :: u64
  wq_pcs :: "tid \<Rightarrow> 'a mq_pc"
  wq_log :: "'a list"

definition wq_goto :: "tid \<Rightarrow> 'a mq_pc \<Rightarrow> (mq_loc, nat, u64) memory \<Rightarrow> 'a wq \<Rightarrow> 'a wq" where
  "wq_goto t c m s = s\<lparr>wq_mem := m, wq_pcs := (wq_pcs s)(t := c)\<rparr>"

definition wq_index :: "'a wq \<Rightarrow> u64 \<Rightarrow> nat" where
  "wq_index s pos = unat (pos AND wq_mask s)"

text \<open>The constructor: its relaxed stores happen before the threads start.\<close>

definition wq_new :: "u64 \<Rightarrow> 'a wq option" where
  "wq_new buffer_size =
     (if buffer_size \<ge> 2 \<and> buffer_size AND (buffer_size - 1) = 0
      then Some \<lparr>wq_mem = new_memory (\<lambda>l. case l of Seq i \<Rightarrow> of_nat i | _ \<Rightarrow> 0), wq_data = (\<lambda>_. None),
                 wq_mask = buffer_size - 1, wq_pcs = (\<lambda>_. MQ_idle), wq_log = []\<rparr>
      else None)"

definition last_value :: "(mq_loc, nat, u64) memory \<Rightarrow> mq_loc \<Rightarrow> u64" where
  "last_value m l = msg_value (last (history m l))"

subsection \<open>Operations\<close>

text \<open>
  A load reads the \<open>i\<close>-th message. \<open>compare_exchange_weak\<close> succeeds if the last message is \<open>pos\<close> and it does not
  fail spuriously; when it fails, it is a relaxed load.
\<close>

definition weak_enqueue :: "tid \<Rightarrow> nat \<Rightarrow> bool \<Rightarrow> 'a wq \<Rightarrow> 'a wq option" where
  "weak_enqueue t i weak s =
     (case wq_pcs s t of
        E_load v \<Rightarrow> map_option (\<lambda>(pos, m). wq_goto t (E_seq v pos) m s) (atomic_load Relaxed t E_pos i (wq_mem s))
      | E_seq v pos \<Rightarrow>
          map_option (\<lambda>(seq, m).
            wq_goto t (case mq_dif seq pos of
                         None \<Rightarrow> MQ_undefined
                       | Some dif \<Rightarrow> if dif = 0 then E_cas v pos else if dif < 0 then E_done False else E_load v) m s)
            (atomic_load Acquire t (Seq (wq_index s pos)) i (wq_mem s))
      | E_cas v pos \<Rightarrow>
          (if last_value (wq_mem s) E_pos = pos \<and> \<not> weak
           then Some (wq_goto t (E_write v pos) (snd (atomic_update Relaxed t E_pos (\<lambda>_. pos + 1) (wq_mem s)))
                  (s\<lparr>wq_log := wq_log s @ [v]\<rparr>))
           else map_option (\<lambda>(pos', m). wq_goto t (E_seq v pos') m s) (atomic_load Relaxed t E_pos i (wq_mem s)))
      | E_write v pos \<Rightarrow>
          Some (wq_goto t (E_publish pos) (plain_access t (wq_index s pos) (wq_mem s))
                  (s\<lparr>wq_data := (wq_data s)(wq_index s pos := Some v)\<rparr>))
      | E_publish pos \<Rightarrow>
          Some (wq_goto t (E_done True) (atomic_store Release t (Seq (wq_index s pos)) (pos + 1) (wq_mem s)) s)
      | _ \<Rightarrow> None)"

definition weak_dequeue :: "tid \<Rightarrow> nat \<Rightarrow> bool \<Rightarrow> 'a wq \<Rightarrow> 'a wq option" where
  "weak_dequeue t i weak s =
     (case wq_pcs s t of
        D_load \<Rightarrow> map_option (\<lambda>(pos, m). wq_goto t (D_seq pos) m s) (atomic_load Relaxed t D_pos i (wq_mem s))
      | D_seq pos \<Rightarrow>
          map_option (\<lambda>(seq, m).
            wq_goto t (case mq_dif seq (pos + 1) of
                         None \<Rightarrow> MQ_undefined
                       | Some dif \<Rightarrow> if dif = 0 then D_cas pos else if dif < 0 then D_done None else D_load) m s)
            (atomic_load Acquire t (Seq (wq_index s pos)) i (wq_mem s))
      | D_cas pos \<Rightarrow>
          (if last_value (wq_mem s) D_pos = pos \<and> \<not> weak
           then Some (wq_goto t (D_read pos) (snd (atomic_update Relaxed t D_pos (\<lambda>_. pos + 1) (wq_mem s))) s)
           else map_option (\<lambda>(pos', m). wq_goto t (D_seq pos') m s) (atomic_load Relaxed t D_pos i (wq_mem s)))
      | D_read pos \<Rightarrow>
          Some (wq_goto t (case wq_data s (wq_index s pos) of None \<Rightarrow> MQ_undefined | Some v \<Rightarrow> D_publish v pos)
                  (plain_access t (wq_index s pos) (wq_mem s)) s)
      | D_publish v pos \<Rightarrow>
          Some (wq_goto t (D_done (Some v))
                  (atomic_store Release t (Seq (wq_index s pos)) (pos + wq_mask s + 1) (wq_mem s)) s)
      | _ \<Rightarrow> None)"

datatype 'a wq_event = WQ_enqueue tid 'a | WQ_dequeue tid | WQ_producer tid nat bool | WQ_consumer tid nat bool

fun wq_move :: "'a wq_event \<Rightarrow> 'a wq \<Rightarrow> 'a wq option" where
  "wq_move (WQ_enqueue t v) s = (if mq_quiet (wq_pcs s t) then Some (wq_goto t (E_load v) (wq_mem s) s) else None)"
| "wq_move (WQ_dequeue t) s = (if mq_quiet (wq_pcs s t) then Some (wq_goto t D_load (wq_mem s) s) else None)"
| "wq_move (WQ_producer t i weak) s = weak_enqueue t i weak s"
| "wq_move (WQ_consumer t i weak) s = weak_dequeue t i weak s"

text \<open>The state of \<open>Mpmc_Lockfree\<close> with the latest values.\<close>

definition mq_of :: "'a wq \<Rightarrow> 'a mq" where
  "mq_of s = \<lparr>mq_buffer = (\<lambda>i. \<lparr>sequence = last_value (wq_mem s) (Seq i), data = wq_data s i\<rparr>), mq_mask = wq_mask s,
     mq_enq = last_value (wq_mem s) E_pos, mq_deq = last_value (wq_mem s) D_pos, mq_pcs = wq_pcs s, mq_log = wq_log s\<rparr>"

definition wq_bound :: "'a wq \<Rightarrow> bool" where
  "wq_bound s \<longleftrightarrow> mq_bound (mq_of s)"

definition wq_init :: "u64 \<Rightarrow> 'a wq \<Rightarrow> bool" where
  "wq_init n s \<longleftrightarrow> wq_new n = Some s \<and> wq_bound s"

subsection \<open>What the threads know\<close>

text \<open>The position whose cell a thread will be allowed to access, or accesses; and that of the cell it has accessed.\<close>

fun mq_uses :: "nat \<Rightarrow> nat \<Rightarrow> 'a mq_pc \<Rightarrow> nat option" where
  "mq_uses e d (E_cas v pos) = (if unat pos = e then Some e else None)"
| "mq_uses e d (E_write v pos) = Some (unat pos)"
| "mq_uses e d (E_publish pos) = Some (unat pos)"
| "mq_uses e d (D_cas pos) = (if unat pos = d then Some d else None)"
| "mq_uses e d (D_read pos) = Some (unat pos)"
| "mq_uses e d (D_publish v pos) = Some (unat pos)"
| "mq_uses e d _ = None"

fun mq_touched :: "'a mq_pc \<Rightarrow> nat option" where
  "mq_touched (E_publish pos) = Some (unat pos)"
| "mq_touched (D_publish v pos) = Some (unat pos)"
| "mq_touched _ = None"

text \<open>The values of every atomic rise, so the last message is the only one with its value.\<close>

definition rising :: "(mq_loc, nat, u64) memory \<Rightarrow> bool" where
  "rising m \<longleftrightarrow> (\<forall>l i. i < length (history m l) - 1 \<longrightarrow> unat (msg_value (history m l ! i)) < unat (last_value m l))"

definition wq_known :: "nat \<Rightarrow> nat \<Rightarrow> nat \<Rightarrow> (mq_loc, nat, u64) memory \<Rightarrow> (tid \<Rightarrow> 'a mq_pc) \<Rightarrow> bool" where
  "wq_known n e d m P \<longleftrightarrow> (\<forall>t p. mq_uses e d (P t) = Some p \<longrightarrow> fresh m (views m t) (p mod n))
     \<and> (\<forall>i < n. fresh m (msg_view (last (history m (Seq i)))) i \<or> (\<exists>t p. mq_touched (P t) = Some p \<and> p mod n = i))"

definition wq_inv :: "nat \<Rightarrow> 'a wq \<Rightarrow> bool" where
  "wq_inv n s \<longleftrightarrow> mq_inv n (mq_of s) \<and> memory_ok (wq_mem s) \<and> \<not> race (wq_mem s) \<and> rising (wq_mem s)
     \<and> wq_known n (unat (last_value (wq_mem s) E_pos)) (unat (last_value (wq_mem s) D_pos)) (wq_mem s) (wq_pcs s)"

text \<open>A cell that is free for the next position, or full for it, is not the cell of a claim.\<close>

lemma mq_free_cell:
  assumes inv: "mq_inv_nat n e d sq dt vs P" and claim: "mq_claim (P u) = Some (b, p)"
  shows "sq (e mod n) = e \<Longrightarrow> p mod n \<noteq> e mod n" and "sq (d mod n) = d + 1 \<Longrightarrow> p mod n \<noteq> d mod n"
proof -
  note c = mq_claim_less [OF inv claim] and I = mq_inv_natD [OF inv]
  have next_cell: "(p + 1) mod n \<noteq> p mod n" using mod_window [of "p + 1" n p] I(1) by auto
  show "p mod n \<noteq> e mod n" if "sq (e mod n) = e"
  proof
    assume eq: "p mod n = e mod n"
    with that c(1,5) have "e = p + 1" by (auto split: if_splits)
    with eq next_cell show False by simp
  qed
  show "p mod n \<noteq> d mod n" if sq: "sq (d mod n) = d + 1"
  proof
    assume eq: "p mod n = d mod n"
    show False
    proof (cases b)
      case True
      with eq sq c(5) have "p = d + 1" by simp
      moreover have "(d + 1) mod n \<noteq> d mod n" using mod_window [of "d + 1" n d] I(1) by auto
      ultimately show False using eq by simp
    next
      case False
      with eq sq c(2,5) show False by simp
    qed
  qed
qed

lemma mq_touched_claim: "mq_touched c = Some p \<Longrightarrow> \<exists>b. mq_claim c = Some (b, p)"
  by (cases c) auto

text \<open>Another thread uses another cell than that of a claim.\<close>

lemma mq_uses_other:
  assumes inv: "mq_inv_nat n e d sq dt vs P" and claim: "mq_claim (P t) = Some (b, p)" and "u \<noteq> t"
    and uses: "mq_uses e d (P u) = Some q"
  shows "q mod n \<noteq> p mod n"
proof -
  note I = mq_inv_natD [OF inv]
  show ?thesis
  proof (cases "mq_claim (P u)")
    case (Some x)
    with uses obtain c where c: "mq_claim (P u) = Some (c, q)" by (cases "P u") auto
    show ?thesis
    proof
      assume "q mod n = p mod n"
      with mq_claim_slots [OF inv claim c] have "mq_claim (P u) = mq_claim (P t)" using claim c by simp
      with I(6) [of u "(b, p)" t] claim \<open>u \<noteq> t\<close> show False by simp
    qed
  next
    case None
    with uses I(5) [of u] consider "q = e" "sq (e mod n) = e" | "q = d" "sq (d mod n) = d + 1"
      by (cases "P u") (auto split: if_splits)
    then show ?thesis using mq_free_cell [OF inv claim] by cases metis+
  qed
qed

lemma wq_knownD:
  assumes "wq_known n e d m P"
  shows "mq_uses e d (P t) = Some p \<Longrightarrow> fresh m (views m t) (p mod n)"
    and "i < n \<Longrightarrow> fresh m (msg_view (last (history m (Seq i)))) i \<or> (\<exists>t p. mq_touched (P t) = Some p \<and> p mod n = i)"
  using assms unfolding wq_known_def by blast+

text \<open>A step that reads: only the view of the thread changes.\<close>

lemma wq_known_read:
  assumes k: "wq_known n e d m P" and "accesses m' = accesses m" and "\<And>i. history m' (Seq i) = history m (Seq i)"
    and views: "\<And>u. u \<noteq> t \<Longrightarrow> views m' u = views m u" and "mq_touched c = mq_touched (P t)"
    and uses: "\<And>p. mq_uses e' d' c = Some p \<Longrightarrow> fresh m' (views m' t) (p mod n)"
    and other: "\<And>u p. u \<noteq> t \<Longrightarrow> mq_uses e' d' (P u) = Some p \<Longrightarrow> mq_uses e d (P u) = Some p"
  shows "wq_known n e' d' m' (P(t := c))"
proof -
  have fr: "fresh m' v = fresh m v" for v using assms(2) by (simp add: fresh_def fun_eq_iff)
  have touched: "mq_touched ((P(t := c)) u) = mq_touched (P u)" for u using assms(5) by simp
  have "fresh m' (views m' u) (p mod n)" if "mq_uses e' d' ((P(t := c)) u) = Some p" for u p
    using that uses other [of u p] wq_knownD(1) [OF k, of u p] views [of u] by (cases "u = t") (auto simp: fr)
  with wq_knownD(2) [OF k] show ?thesis unfolding wq_known_def touched assms(3) fr by blast
qed

text \<open>An access of the cell of a claim.\<close>

lemma wq_known_access:
  assumes inv: "mq_inv_nat n e d sq dt vs P" and k: "wq_known n e d m P" and claim: "mq_claim (P t) = Some (b, p)"
    and uses: "mq_uses e d (P t) = Some p" and before: "mq_touched (P t) = None"
    and c: "mq_uses e d c = Some p" "mq_touched c = Some p"
  shows "wq_known n e d (plain_access t (p mod n) m) (P(t := c))" and "fresh m (views m t) (p mod n)"
proof -
  let ?m = "plain_access t (p mod n) m"
  show own: "fresh m (views m t) (p mod n)" by (rule wq_knownD(1) [OF k uses])
  have fr: "fresh ?m v i = fresh m v i" if "i \<noteq> p mod n" for v i using that by (simp add: fresh_def)
  have users: "fresh ?m (views ?m u) (q mod n)" if q: "mq_uses e d ((P(t := c)) u) = Some q" for u q
  proof (cases "u = t")
    case True
    with q c(1) show ?thesis by (simp add: fresh_def)
  next
    case False
    with q have "mq_uses e d (P u) = Some q" by simp
    from mq_uses_other [OF inv claim False this] wq_knownD(1) [OF k this] False show ?thesis by (simp add: fresh_def)
  qed
  have "fresh ?m (msg_view (last (history ?m (Seq i)))) i \<or> (\<exists>u q. mq_touched ((P(t := c)) u) = Some q \<and> q mod n = i)"
    if i: "i < n" for i
  proof (cases "i = p mod n")
    case True
    with c(2) show ?thesis by (intro disjI2 exI [of _ t] exI [of _ p]) simp
  next
    case False
    from wq_knownD(2) [OF k i] show ?thesis
    proof
      assume "\<exists>u q. mq_touched (P u) = Some q \<and> q mod n = i"
      then obtain u q where u: "mq_touched (P u) = Some q" "q mod n = i" by blast
      with before have "u \<noteq> t" by auto
      with u show ?thesis by (intro disjI2 exI [of _ u] exI [of _ q]) simp
    qed (simp add: fr [OF False])
  qed
  with users show "wq_known n e d ?m (P(t := c))" unfolding wq_known_def by blast
qed

text \<open>The store that hands the cell of a claim on.\<close>

lemma wq_known_store:
  assumes k: "wq_known n e d m P" and m: "memory_ok m" and uses: "mq_uses e d (P t) = Some p"
    and touched: "mq_touched (P t) = Some p" and c: "mq_uses e d c = None" "mq_touched c = None"
  shows "wq_known n e d (atomic_store Release t (Seq (p mod n)) x m) (P(t := c))"
proof -
  let ?m = "atomic_store Release t (Seq (p mod n)) x m"
  have fr: "fresh ?m v = fresh m v" for v by (simp add: fresh_def atomic_store_def fun_eq_iff)
  have "fresh ?m (views ?m u) (q mod n)" if q: "mq_uses e d ((P(t := c)) u) = Some q" for u q
  proof (cases "u = t")
    case False
    with q wq_knownD(1) [OF k, of u q] show ?thesis unfolding fr by (simp add: atomic_store_def)
  qed (use q c(1) in simp)
  moreover have "fresh ?m (msg_view (last (history ?m (Seq i)))) i \<or> (\<exists>u q. mq_touched ((P(t := c)) u) = Some q \<and> q mod n = i)"
    if i: "i < n" for i
  proof (cases "i = p mod n")
    case True
    have "fresh m (views m t) i" unfolding True by (rule wq_knownD(1) [OF k uses])
    then have "fresh m (join no_view (see (Seq i) j (views m t))) i" for j by (simp add: fresh_def)
    with True show ?thesis unfolding fr by (intro disjI1) (simp add: atomic_store_def)
  next
    case False
    from wq_knownD(2) [OF k i] show ?thesis
    proof
      assume "\<exists>u q. mq_touched (P u) = Some q \<and> q mod n = i"
      then obtain u q where u: "mq_touched (P u) = Some q" "q mod n = i" by blast
      with touched False have "u \<noteq> t" by auto
      with u show ?thesis by (intro disjI2 exI [of _ u] exI [of _ q]) simp
    qed (use False in \<open>simp add: fr, simp add: atomic_store_def\<close>)
  qed
  ultimately show ?thesis unfolding wq_known_def by blast
qed

subsection \<open>The steps\<close>

lemma mq_of_simps [simp]:
  "mq_enq (mq_of s) = last_value (wq_mem s) E_pos" "mq_deq (mq_of s) = last_value (wq_mem s) D_pos"
  "mq_mask (mq_of s) = wq_mask s" "mq_pcs (mq_of s) = wq_pcs s" "mq_log (mq_of s) = wq_log s"
  "mq_seqs (mq_of s) i = unat (last_value (wq_mem s) (Seq i))" "mq_datas (mq_of s) = wq_data s"
  "mq_index (mq_of s) pos = wq_index s pos"
  by (simp_all add: mq_of_def mq_seqs_def mq_datas_def mq_index_def wq_index_def fun_eq_iff)

lemma wq_goto_simps [simp]:
  "wq_mem (wq_goto t c m s) = m" "wq_pcs (wq_goto t c m s) = (wq_pcs s)(t := c)" "wq_mask (wq_goto t c m s) = wq_mask s"
  "wq_data (wq_goto t c m s) = wq_data s" "wq_log (wq_goto t c m s) = wq_log s"
  by (simp_all add: wq_goto_def)

lemma last_value_simps [simp]:
  "last_value (set_view t v m) = last_value m" "last_value (plain_access t c m) = last_value m"
  "last_value (put_message ord t l x w v m) l' = (if l' = l then x else last_value m l')"
  by (simp_all add: last_value_def fun_eq_iff)

text \<open>\<open>wq_room\<close> bounds the positions that are claimed by producers only.\<close>

definition wq_room :: "nat \<Rightarrow> 'a wq \<Rightarrow> bool" where
  "wq_room n s \<longleftrightarrow> unat (last_value (wq_mem s) E_pos) \<le> unat (last_value (wq_mem s) D_pos) + n"

lemma wq_invD:
  assumes "wq_inv n s"
  shows "mq_inv n (mq_of s)" and "memory_ok (wq_mem s)" and "\<not> race (wq_mem s)" and "rising (wq_mem s)"
    and "wq_known n (unat (last_value (wq_mem s) E_pos)) (unat (last_value (wq_mem s) D_pos)) (wq_mem s) (wq_pcs s)"
    and "mq_inv_nat n (unat (last_value (wq_mem s) E_pos)) (unat (last_value (wq_mem s) D_pos))
      (\<lambda>i. unat (last_value (wq_mem s) (Seq i))) (wq_data s) (wq_log s) (wq_pcs s)"
    and "unat (last_value (wq_mem s) E_pos) + n < 2 ^ 63" and "wq_index s pos = unat pos mod n"
proof -
  show mq: "mq_inv n (mq_of s)" using assms by (simp add: wq_inv_def)
  show "memory_ok (wq_mem s)" "\<not> race (wq_mem s)" "rising (wq_mem s)"
    "wq_known n (unat (last_value (wq_mem s) E_pos)) (unat (last_value (wq_mem s) D_pos)) (wq_mem s) (wq_pcs s)"
    using assms by (simp_all add: wq_inv_def)
  have "mq_seqs (mq_of s) = (\<lambda>i. unat (last_value (wq_mem s) (Seq i)))" by (simp add: fun_eq_iff)
  with mq_inv_nat [OF mq] show "mq_inv_nat n (unat (last_value (wq_mem s) E_pos)) (unat (last_value (wq_mem s) D_pos))
      (\<lambda>i. unat (last_value (wq_mem s) (Seq i))) (wq_data s) (wq_log s) (wq_pcs s)" by simp
  show "unat (last_value (wq_mem s) E_pos) + n < 2 ^ 63" using mq by (simp add: mq_inv_def)
  show "wq_index s pos = unat pos mod n" using mq_inv_index [OF mq, of pos] by simp
qed

lemma rising_load:
  assumes "rising m" and "memory_ok m" and "atomic_load ord t l i m = Some (x, m')"
  shows "unat x \<le> unat (last_value m l)" and "unat x = unat (last_value m l) \<Longrightarrow> history m l ! i = last (history m l)"
    and "i < length (history m l)" and "m' = set_view t (read_view ord t l i m) m"
proof -
  from assms(3) show i: "i < length (history m l)" and "m' = set_view t (read_view ord t l i m) m"
    by (simp_all add: atomic_load_def split: if_splits)
  from assms(3) have x: "x = msg_value (history m l ! i)" by (simp add: atomic_load_def split: if_splits)
  have "(i = length (history m l) - 1 \<and> history m l ! i = last (history m l)) \<or> unat x < unat (last_value m l)"
  proof (cases "i = length (history m l) - 1")
    case True
    then show ?thesis using last_conv_nth [OF memory_okD(4) [OF assms(2), of l]] by simp
  next
    case False
    with i assms(1) x show ?thesis by (simp add: rising_def)
  qed
  with x show "unat x \<le> unat (last_value m l)" "unat x = unat (last_value m l) \<Longrightarrow> history m l ! i = last (history m l)"
    by (auto simp: last_value_def)
qed

lemma rising_put:
  assumes "rising m" and "memory_ok m" and "unat (last_value m l) < unat x"
  shows "rising (put_message ord t l x w v m)"
  unfolding rising_def
proof (intro allI impI)
  fix k i let ?m = "put_message ord t l x w v m"
  assume i: "i < length (history ?m k) - 1"
  show "unat (msg_value (history ?m k ! i)) < unat (last_value ?m k)"
  proof (cases "k = l")
    case True
    with i have lt: "i < length (history m l)" by simp
    then have "unat (msg_value (history m l ! i)) \<le> unat (last_value m l)"
    proof (cases "i = length (history m l) - 1")
      case True
      then show ?thesis using last_conv_nth [OF memory_okD(4) [OF assms(2), of l]] by (simp add: last_value_def)
    next
      case False
      with lt assms(1) show ?thesis by (simp add: rising_def less_imp_le)
    qed
    with True lt assms(3) show ?thesis by (simp add: nth_append)
  next
    case False
    with i assms(1) show ?thesis by (simp add: rising_def)
  qed
qed

lemma mq_of_read: "mq_of (wq_goto t c (set_view u v (wq_mem s)) s) = mq_goto t c (mq_of s)"
  by (simp add: mq_of_def mq_goto_def wq_goto_def)

text \<open>A load that brings the thread to \<open>c\<close>.\<close>

lemma wq_inv_load:
  assumes inv: "wq_inv n s" and load: "atomic_load ord t l i (wq_mem s) = Some (x, m')"
    and claim: "mq_claim c = mq_claim (wq_pcs s t)" and touched: "mq_touched c = mq_touched (wq_pcs s t)"
    and ok: "mq_pc_ok n (unat (last_value (wq_mem s) E_pos)) (unat (last_value (wq_mem s) D_pos))
      (\<lambda>i. unat (last_value (wq_mem s) (Seq i))) (wq_data s) (wq_log s) c"
    and uses: "\<And>p. mq_uses (unat (last_value (wq_mem s) E_pos)) (unat (last_value (wq_mem s) D_pos)) c = Some p \<Longrightarrow>
      fresh (wq_mem s) (read_view ord t l i (wq_mem s)) (p mod n)"
  shows "wq_inv n (wq_goto t c m' s)"
proof -
  note d = wq_invD [OF inv]
  note r = rising_load [OF d(4,2) load]
  have "mq_seqs (mq_of s) = (\<lambda>i. unat (last_value (wq_mem s) (Seq i)))" by (simp add: fun_eq_iff)
  with mq_inv_local [OF d(1), of c t] claim ok have "mq_inv n (mq_of (wq_goto t c m' s))" by (simp add: r(4) mq_of_read)
  moreover have "rising m'" using d(4) by (simp add: r(4) rising_def)
  moreover have "wq_known n (unat (last_value m' E_pos)) (unat (last_value m' D_pos)) m' ((wq_pcs s)(t := c))"
    unfolding r(4)
    by (rule wq_known_read [OF d(5)]) (use touched uses in \<open>simp_all add: fresh_def\<close>)
  ultimately show ?thesis using d(3) atomic_load_ok [OF d(2) load] by (simp add: wq_inv_def r(4))
qed

text \<open>The sequence of a cell against the positions: an acquired sequence that fits is the latest one.\<close>

lemma mq_seq_enq:
  assumes "mq_inv_nat n e d sq dt vs P"
  shows "sq (e mod n) \<le> e"
  using mq_inv_natD(1) [OF assms] mq_inv_natD(4) [OF assms, of e] by (auto simp: mq_slot_ok_def)

lemma mq_seq_deq:
  assumes inv: "mq_inv_nat n e d sq dt vs P" and room: "e \<le> d + n"
  shows "sq (d mod n) \<le> d + 1"
proof -
  note I = mq_inv_natD [OF inv]
  from I(1) have "d mod n < n" by simp
  from window_position [OF this, of e] obtain q where q: "e \<le> q" "q < e + n" "q mod n = d mod n" by blast
  have "q = d \<or> q = d + n"
  proof (cases "q = d")
    case False
    with q(1) I(2) have "d + n \<le> q" by (intro mod_below) (simp_all add: q(3))
    moreover have "q mod n = (d + n) mod n" using q(3) by simp
    then have "q = d + n" by (rule mod_window) (use q(2) room calculation in linarith)+
    ultimately show ?thesis by simp
  qed simp
  with I(4) [OF q(1,2)] q(3) I(1) show ?thesis by (auto simp: mq_slot_ok_def)
qed

lemma wq_known_free:
  assumes inv: "mq_inv_nat n e d sq dt vs P" and k: "wq_known n e d m P" and i: "i < n"
    and free: "i = e mod n \<and> sq i = e \<or> i = d mod n \<and> sq i = d + 1"
  shows "fresh m (msg_view (last (history m (Seq i)))) i"
proof -
  have "p mod n \<noteq> i" if "mq_touched (P u) = Some p" for u p
  proof -
    from mq_touched_claim [OF that] obtain b where claim: "mq_claim (P u) = Some (b, p)" by blast
    from mq_free_cell [OF inv claim] free show ?thesis by auto
  qed
  with wq_knownD(2) [OF k i] show ?thesis by blast
qed

text \<open>A step in which the latest values change as in a step of \<open>Mpmc_Lockfree\<close>.\<close>

lemma wq_invI:
  assumes "mq_inv n (mq_of s)" and "memory_ok (wq_mem s)" and "\<not> race (wq_mem s)" and "rising (wq_mem s)"
    and "wq_known n (unat (last_value (wq_mem s) E_pos)) (unat (last_value (wq_mem s) D_pos)) (wq_mem s) (wq_pcs s)"
  shows "wq_inv n s"
  using assms by (simp add: wq_inv_def)

lemma rising_access: "rising m \<Longrightarrow> rising (plain_access t c m)"
  by (simp add: rising_def)

text \<open>The compare-exchange that succeeds.\<close>

lemma relaxed_update:
  assumes "memory_ok m"
  shows "memory_ok (snd (atomic_update Relaxed t l f m))"
    and "accesses (snd (atomic_update Relaxed t l f m)) = accesses m" and "race (snd (atomic_update Relaxed t l f m)) = race m"
    and "k \<noteq> l \<Longrightarrow> history (snd (atomic_update Relaxed t l f m)) k = history m k"
    and "u \<noteq> t \<Longrightarrow> views (snd (atomic_update Relaxed t l f m)) u = views m u"
    and "known (views (snd (atomic_update Relaxed t l f m)) t) = known (views m t)"
  using atomic_update_ok [OF assms, of Relaxed t l f]
  by (simp_all add: atomic_update_def Let_def read_view_def)

lemma update_last [simp]:
  "last_value (snd (atomic_update ord t l (\<lambda>_. x) m)) l' = (if l' = l then x else last_value m l')"
  by (simp add: atomic_update_def Let_def)

lemma update_rising:
  "rising m \<Longrightarrow> memory_ok m \<Longrightarrow> unat (last_value m l) < unat x \<Longrightarrow> rising (snd (atomic_update ord t l (\<lambda>_. x) m))"
  by (simp add: atomic_update_def Let_def rising_put)

lemma wq_inv_cas_enq:
  assumes inv: "wq_inv n s" and at: "wq_pcs s t = E_cas v pos" and last: "last_value (wq_mem s) E_pos = pos"
    and s': "s' = wq_goto t (E_write v pos) (snd (atomic_update Relaxed t E_pos (\<lambda>_. pos + 1) (wq_mem s)))
      (s\<lparr>wq_log := wq_log s @ [v]\<rparr>)" and bound: "wq_bound s'"
  shows "wq_inv n s'"
proof -
  note d = wq_invD [OF inv]
  note I = mq_inv_natD [OF d(6)] and u = relaxed_update [OF d(2)]
  let ?m = "wq_mem s" and ?m' = "snd (atomic_update Relaxed t E_pos (\<lambda>_. pos + 1) (wq_mem s))"
  have "mq_of s' = mq_goto t (E_write v pos) ((mq_of s)\<lparr>mq_enq := pos + 1, mq_log := mq_log (mq_of s) @ [v]\<rparr>)"
    by (simp add: s' mq_of_def mq_goto_def wq_goto_def)
  then have "mq_enqueue t False (mq_of s) = Some (mq_of s')" using at last by (simp add: mq_enqueue_def)
  then have mq: "mq_inv n (mq_of s')" by (rule mq_inv_producer [OF d(1)]) (use bound in \<open>simp add: wq_bound_def\<close>)
  have e': "unat (pos + 1) = unat pos + 1" using d(7) last by (intro unat_inc) simp
  have known: "wq_known n (unat (last_value ?m' E_pos)) (unat (last_value ?m' D_pos)) ?m' ((wq_pcs s)(t := E_write v pos))"
  proof (rule wq_known_read [OF d(5)])
    show "accesses ?m' = accesses ?m" "\<And>i. history ?m' (Seq i) = history ?m (Seq i)" "\<And>u. u \<noteq> t \<Longrightarrow> views ?m' u = views ?m u"
      using u by simp_all
    show "mq_touched (E_write v pos) = mq_touched (wq_pcs s t)" using at by simp
    show "fresh ?m' (views ?m' t) (p mod n)"
      if "mq_uses (unat (last_value ?m' E_pos)) (unat (last_value ?m' D_pos)) (E_write v pos) = Some p" for p
      using that wq_knownD(1) [OF d(5), of t p] at last u(2,6) by (simp add: fresh_def)
    show "mq_uses (unat (last_value ?m E_pos)) (unat (last_value ?m D_pos)) (wq_pcs s w) = Some p"
      if "mq_uses (unat (last_value ?m' E_pos)) (unat (last_value ?m' D_pos)) (wq_pcs s w) = Some p" for w p
      using that I(5) [of w] e' last by (cases "wq_pcs s w") (auto split: if_splits)
  qed
  have "rising ?m'" by (rule update_rising [OF d(4,2)]) (simp add: e' last)
  with mq u(1,3) d(3) known show ?thesis by (intro wq_invI) (simp_all add: s')
qed

lemma wq_inv_cas_deq:
  assumes inv: "wq_inv n s" and at: "wq_pcs s t = D_cas pos" and last: "last_value (wq_mem s) D_pos = pos"
    and s': "s' = wq_goto t (D_read pos) (snd (atomic_update Relaxed t D_pos (\<lambda>_. pos + 1) (wq_mem s))) s"
  shows "wq_inv n s'"
proof -
  note d = wq_invD [OF inv]
  note I = mq_inv_natD [OF d(6)] and u = relaxed_update [OF d(2)]
  let ?m = "wq_mem s" and ?m' = "snd (atomic_update Relaxed t D_pos (\<lambda>_. pos + 1) (wq_mem s))"
  have "mq_of s' = mq_goto t (D_read pos) ((mq_of s)\<lparr>mq_deq := pos + 1\<rparr>)"
    by (simp add: s' mq_of_def mq_goto_def wq_goto_def)
  then have "mq_dequeue t False (mq_of s) = Some (mq_of s')" using at last by (simp add: mq_dequeue_def)
  then have mq: "mq_inv n (mq_of s')" by (rule mq_inv_consumer [OF d(1)])
  have e': "unat (pos + 1) = unat pos + 1" using d(7) I(2) last by (intro unat_inc) simp
  have known: "wq_known n (unat (last_value ?m' E_pos)) (unat (last_value ?m' D_pos)) ?m' ((wq_pcs s)(t := D_read pos))"
  proof (rule wq_known_read [OF d(5)])
    show "accesses ?m' = accesses ?m" "\<And>i. history ?m' (Seq i) = history ?m (Seq i)" "\<And>u. u \<noteq> t \<Longrightarrow> views ?m' u = views ?m u"
      using u by simp_all
    show "mq_touched (D_read pos) = mq_touched (wq_pcs s t)" using at by simp
    show "fresh ?m' (views ?m' t) (p mod n)"
      if "mq_uses (unat (last_value ?m' E_pos)) (unat (last_value ?m' D_pos)) (D_read pos) = Some p" for p
      using that wq_knownD(1) [OF d(5), of t p] at last u(2,6) by (simp add: fresh_def)
    show "mq_uses (unat (last_value ?m E_pos)) (unat (last_value ?m D_pos)) (wq_pcs s w) = Some p"
      if "mq_uses (unat (last_value ?m' E_pos)) (unat (last_value ?m' D_pos)) (wq_pcs s w) = Some p" for w p
      using that I(5) [of w] e' last by (cases "wq_pcs s w") (auto split: if_splits)
  qed
  have "rising ?m'" by (rule update_rising [OF d(4,2)]) (simp add: e' last)
  with mq u(1,3) d(3) known show ?thesis by (intro wq_invI) (simp_all add: s')
qed

text \<open>The access of the cell and the store behind it, for producers and consumers.\<close>

lemma wq_inv_access:
  assumes inv: "wq_inv n s" and at: "mq_claim (wq_pcs s t) = Some (b, unat pos)" "mq_touched (wq_pcs s t) = None"
    and c: "mq_claim c = Some (b, unat pos)" "mq_touched c = Some (unat pos)"
    and s': "wq_mem s' = plain_access t (wq_index s pos) (wq_mem s)" "wq_pcs s' = (wq_pcs s)(t := c)"
    and mq: "mq_inv n (mq_of s')"
  shows "wq_inv n s'"
proof -
  note d = wq_invD [OF inv]
  have uses: "mq_uses e k c' = Some (unat pos)" if "mq_claim c' = Some (b, unat pos)" for e k and c' :: "'a mq_pc"
    using that by (cases c') auto
  note acc = wq_known_access [OF d(6,5) at(1) uses [OF at(1)] at(2) uses [OF c(1)] c(2)]
  show ?thesis
    by (rule wq_invI) (use mq acc d in \<open>simp_all add: s' plain_access_ok rising_access\<close>)
qed

lemma wq_inv_store:
  assumes inv: "wq_inv n s" and at: "mq_touched (wq_pcs s t) = Some (unat pos)"
    and c: "mq_touched c = None" "mq_claim c = None" "\<And>e d. mq_uses e d c = None"
    and s': "s' = wq_goto t c (atomic_store Release t (Seq (wq_index s pos)) x (wq_mem s)) s"
    and more: "unat (last_value (wq_mem s) (Seq (unat pos mod n))) < unat x"
    and mq: "mq_inv n (mq_of s')"
  shows "wq_inv n s'"
proof -
  note d = wq_invD [OF inv]
  have uses: "mq_uses e k (wq_pcs s t) = Some (unat pos)" for e k using at by (cases "wq_pcs s t") auto
  note st = wq_known_store [OF d(5,2) uses at c(3,1)]
  let ?m = "atomic_store Release t (Seq (unat pos mod n)) x (wq_mem s)"
  have "last_value ?m E_pos = last_value (wq_mem s) E_pos" "last_value ?m D_pos = last_value (wq_mem s) D_pos"
    "race ?m = race (wq_mem s)" by (simp_all add: atomic_store_def)
  moreover have "rising ?m" unfolding atomic_store_def by (rule rising_put [OF d(4,2) more])
  ultimately show ?thesis
    by (intro wq_invI) (use mq st d in \<open>simp_all add: s' atomic_store_ok\<close>)
qed

lemma wq_inv_producer:
  assumes inv: "wq_inv n s" and step: "weak_enqueue t i weak s = Some s'" and bound: "wq_bound s'"
  shows "wq_inv n s'"
proof -
  note d = wq_invD [OF inv]
  note I = mq_inv_natD [OF d(6)]
  let ?m = "wq_mem s" and ?e = "unat (last_value (wq_mem s) E_pos)"
  show ?thesis
  proof (cases "wq_pcs s t")
    case (E_load v)
    with step obtain x m' where load: "atomic_load Relaxed t E_pos i ?m = Some (x, m')"
      and s': "s' = wq_goto t (E_seq v x) m' s" by (auto simp: weak_enqueue_def)
    show ?thesis unfolding s'
      by (rule wq_inv_load [OF inv load]) (use E_load rising_load(1) [OF d(4,2) load] in simp_all)
  next
    case (E_seq v pos)
    have pos: "unat pos \<le> ?e" "unat pos < 2 ^ 63" using I(5) [of t] E_seq d(7) by simp_all
    let ?i = "unat pos mod n"
    from E_seq step d(8) [of pos] obtain x m' where load: "atomic_load Acquire t (Seq ?i) i ?m = Some (x, m')"
      and s': "s' = wq_goto t (case mq_dif x pos of None \<Rightarrow> MQ_undefined
        | Some dif \<Rightarrow> if dif = 0 then E_cas v pos else if dif < 0 then E_done False else E_load v) m' s"
      by (auto simp: weak_enqueue_def)
    note r = rising_load [OF d(4,2) load]
    have "unat (last_value ?m (Seq ?i)) < 2 ^ 63" using mq_inv_seq(1,3) [OF d(1), of pos] by simp
    with r(1) have "unat x < 2 ^ 63" by simp
    from mq_dif_compare [OF this pos(2)] obtain dif where dif: "mq_dif x pos = Some dif" "dif = 0 \<longleftrightarrow> unat x = unat pos" by blast
    have cas: "unat (last_value ?m (Seq (?e mod n))) = ?e \<and> fresh ?m (read_view Acquire t (Seq ?i) i ?m) (?e mod n)"
      if "unat x = unat pos" "unat pos = ?e"
    proof -
      have sq: "unat (last_value ?m (Seq ?i)) = ?e" using mq_seq_enq [OF d(6)] r(1) that by simp
      have "fresh ?m (msg_view (last (history ?m (Seq ?i)))) ?i"
        by (rule wq_known_free [OF d(6,5)]) (use that(2) sq I(1) in simp_all)
      then have "fresh ?m (read_view Acquire t (Seq ?i) i ?m) ?i"
        by (intro fresh_read_view [OF d(2) r(3)]) (use r(2) sq that in simp)
      with sq that(2) show ?thesis by simp
    qed
    show ?thesis unfolding s'
      by (rule wq_inv_load [OF inv load]) (use E_seq pos(1) dif cas in \<open>auto split: if_splits\<close>)
  next
    case (E_cas v pos)
    show ?thesis
    proof (cases "last_value ?m E_pos = pos \<and> \<not> weak")
      case True
      with E_cas step bound show ?thesis by (intro wq_inv_cas_enq [OF inv E_cas]) (simp_all add: weak_enqueue_def)
    next
      case False
      with E_cas step obtain x m' where load: "atomic_load Relaxed t E_pos i ?m = Some (x, m')"
        and s': "s' = wq_goto t (E_seq v x) m' s" by (auto simp: weak_enqueue_def split: if_splits)
      show ?thesis unfolding s'
        by (rule wq_inv_load [OF inv load]) (use E_cas rising_load(1) [OF d(4,2) load] in simp_all)
    qed
  next
    case (E_write v pos)
    with step have s': "s' = wq_goto t (E_publish pos) (plain_access t (wq_index s pos) ?m)
      (s\<lparr>wq_data := (wq_data s)(wq_index s pos := Some v)\<rparr>)" by (simp add: weak_enqueue_def)
    have "mq_of s' = mq_goto t (E_publish pos) (mq_set_cell pos ((mq_cell (mq_of s) pos)\<lparr>data := Some v\<rparr>) (mq_of s))"
      by (simp add: s' mq_of_def mq_goto_def wq_goto_def mq_set_cell_def mq_cell_def mq_index_def wq_index_def fun_eq_iff)
    then have "mq_enqueue t False (mq_of s) = Some (mq_of s')" using E_write by (simp add: mq_enqueue_def)
    then have "mq_inv n (mq_of s')" by (rule mq_inv_producer [OF d(1)]) (use bound in \<open>simp add: wq_bound_def\<close>)
    then show ?thesis
      by (intro wq_inv_access [OF inv, where b = True and pos = pos and c = "E_publish pos"]) (use E_write in \<open>simp_all add: s'\<close>)
  next
    case (E_publish pos)
    with step have s': "s' = wq_goto t (E_done True) (atomic_store Release t (Seq (wq_index s pos)) (pos + 1) ?m) s"
      by (simp add: weak_enqueue_def)
    have w: "unat pos < ?e" "unat (last_value ?m (Seq (unat pos mod n))) = unat pos"
      using I(5) [of t] E_publish by (simp_all add: mq_writing_def)
    then have more: "unat (last_value ?m (Seq (unat pos mod n))) < unat (pos + 1)" using d(7) unat_inc [of pos] by simp
    have "mq_of s' = mq_goto t (E_done True) (mq_set_cell pos ((mq_cell (mq_of s) pos)\<lparr>sequence := pos + 1\<rparr>) (mq_of s))"
      by (simp add: s' mq_of_def mq_goto_def wq_goto_def mq_set_cell_def mq_cell_def mq_index_def wq_index_def atomic_store_def fun_eq_iff)
    then have "mq_enqueue t False (mq_of s) = Some (mq_of s')" using E_publish by (simp add: mq_enqueue_def)
    then have "mq_inv n (mq_of s')" by (rule mq_inv_producer [OF d(1)]) (use bound in \<open>simp add: wq_bound_def\<close>)
    then show ?thesis
      by (intro wq_inv_store [OF inv, where pos = pos and c = "E_done True" and x = "pos + 1"]) (use E_publish more in \<open>simp_all add: s'\<close>)
  qed (use step in \<open>simp_all add: weak_enqueue_def\<close>)
qed

lemma wq_inv_consumer:
  assumes inv: "wq_inv n s" and room: "wq_room n s" and step: "weak_dequeue t i weak s = Some s'"
  shows "wq_inv n s'"
proof -
  note d = wq_invD [OF inv]
  note I = mq_inv_natD [OF d(6)]
  let ?m = "wq_mem s" and ?e = "unat (last_value (wq_mem s) E_pos)" and ?d = "unat (last_value (wq_mem s) D_pos)"
  show ?thesis
  proof (cases "wq_pcs s t")
    case D_load
    with step obtain x m' where load: "atomic_load Relaxed t D_pos i ?m = Some (x, m')"
      and s': "s' = wq_goto t (D_seq x) m' s" by (auto simp: weak_dequeue_def)
    show ?thesis unfolding s'
      by (rule wq_inv_load [OF inv load]) (use D_load rising_load(1) [OF d(4,2) load] in simp_all)
  next
    case (D_seq pos)
    have pos: "unat pos \<le> ?d" "unat pos + 1 < 2 ^ 63" using I(1,2) I(5) [of t] D_seq d(7) by simp_all
    then have p': "unat (pos + 1) = unat pos + 1" by (intro unat_inc) simp
    let ?i = "unat pos mod n"
    from D_seq step d(8) [of pos] obtain x m' where load: "atomic_load Acquire t (Seq ?i) i ?m = Some (x, m')"
      and s': "s' = wq_goto t (case mq_dif x (pos + 1) of None \<Rightarrow> MQ_undefined
        | Some dif \<Rightarrow> if dif = 0 then D_cas pos else if dif < 0 then D_done None else D_load) m' s"
      by (auto simp: weak_dequeue_def)
    note r = rising_load [OF d(4,2) load]
    have "unat (last_value ?m (Seq ?i)) < 2 ^ 63" using mq_inv_seq(1,3) [OF d(1), of pos] by simp
    with r(1) have "unat x < 2 ^ 63" by simp
    from mq_dif_compare [OF this, of "pos + 1"] p' pos(2)
    obtain dif where dif: "mq_dif x (pos + 1) = Some dif" "dif = 0 \<longleftrightarrow> unat x = unat pos + 1" by auto
    have cas: "unat (last_value ?m (Seq (?d mod n))) = ?d + 1 \<and> fresh ?m (read_view Acquire t (Seq ?i) i ?m) (?d mod n)"
      if "unat x = unat pos + 1" "unat pos = ?d"
    proof -
      have sq: "unat (last_value ?m (Seq ?i)) = ?d + 1"
        using mq_seq_deq [OF d(6)] room r(1) that by (simp add: wq_room_def)
      have "fresh ?m (msg_view (last (history ?m (Seq ?i)))) ?i"
        by (rule wq_known_free [OF d(6,5)]) (use that(2) sq I(1) in simp_all)
      then have "fresh ?m (read_view Acquire t (Seq ?i) i ?m) ?i"
        by (intro fresh_read_view [OF d(2) r(3)]) (use r(2) sq that in simp)
      with sq that(2) show ?thesis by simp
    qed
    show ?thesis unfolding s'
      by (rule wq_inv_load [OF inv load]) (use D_seq pos(1) dif cas in \<open>auto split: if_splits\<close>)
  next
    case (D_cas pos)
    show ?thesis
    proof (cases "last_value ?m D_pos = pos \<and> \<not> weak")
      case True
      with D_cas step show ?thesis by (intro wq_inv_cas_deq [OF inv D_cas]) (simp_all add: weak_dequeue_def)
    next
      case False
      with D_cas step obtain x m' where load: "atomic_load Relaxed t D_pos i ?m = Some (x, m')"
        and s': "s' = wq_goto t (D_seq x) m' s" by (auto simp: weak_dequeue_def split: if_splits)
      show ?thesis unfolding s'
        by (rule wq_inv_load [OF inv load]) (use D_cas rising_load(1) [OF d(4,2) load] in simp_all)
    qed
  next
    case (D_read pos)
    have "wq_data s (unat pos mod n) = Some (wq_log s ! unat pos)" using I(5) [of t] D_read by (simp add: mq_reading_def)
    with D_read step d(8) [of pos] obtain v where v: "wq_data s (wq_index s pos) = Some v"
      and s': "s' = wq_goto t (D_publish v pos) (plain_access t (wq_index s pos) ?m) s" by (auto simp: weak_dequeue_def)
    have "mq_of s' = mq_goto t (D_publish v pos) (mq_of s)" by (simp add: s' mq_of_def mq_goto_def wq_goto_def)
    then have "mq_dequeue t False (mq_of s) = Some (mq_of s')"
      using D_read v by (simp add: mq_dequeue_def mq_cell_def) (simp add: mq_of_def)
    then have "mq_inv n (mq_of s')" by (rule mq_inv_consumer [OF d(1)])
    then show ?thesis
      by (intro wq_inv_access [OF inv, where b = False and pos = pos and c = "D_publish v pos"]) (use D_read in \<open>simp_all add: s'\<close>)
  next
    case (D_publish v pos)
    with step have s': "s' = wq_goto t (D_done (Some v)) (atomic_store Release t (Seq (wq_index s pos)) (pos + wq_mask s + 1) ?m) s"
      by (simp add: weak_dequeue_def)
    have w: "unat pos < ?d" "unat (last_value ?m (Seq (unat pos mod n))) = unat pos + 1"
      using I(5) [of t] D_publish by (simp_all add: mq_reading_def)
    have "mq_of s' = mq_goto t (D_done (Some v))
        (mq_set_cell pos ((mq_cell (mq_of s) pos)\<lparr>sequence := pos + mq_mask (mq_of s) + 1\<rparr>) (mq_of s))"
      by (simp add: s' mq_of_def mq_goto_def wq_goto_def mq_set_cell_def mq_cell_def mq_index_def wq_index_def atomic_store_def fun_eq_iff)
    then have st: "mq_dequeue t False (mq_of s) = Some (mq_of s')" using D_publish by (simp add: mq_dequeue_def)
    have n: "unat (wq_mask s) + 1 = n" using mq_inv_mask [OF d(1)] by simp
    have "unat (pos + wq_mask s) = unat pos + unat (wq_mask s)"
      using w(1) d(7) I(2) n by (intro unat_add_lem [THEN iffD1]) simp
    then have "unat (pos + wq_mask s + 1) = unat pos + n" using w(1) d(7) I(2) n unat_inc [of "pos + wq_mask s"] by simp
    then have more: "unat (last_value ?m (Seq (unat pos mod n))) < unat (pos + wq_mask s + 1)" using w(2) I(1) by simp
    from mq_inv_consumer [OF d(1) st] show ?thesis
      by (intro wq_inv_store [OF inv, where pos = pos and c = "D_done (Some v)" and x = "pos + wq_mask s + 1"])
        (use D_publish more in \<open>simp_all add: s'\<close>)
  qed (use step in \<open>simp_all add: weak_dequeue_def\<close>)
qed

text \<open>Only the two compare-exchanges change the positions.\<close>

lemma wq_move_cases [consumes 1, case_names Stay Enq Deq]:
  assumes "wq_move ev s = Some s'"
  obtains (Stay) "wq_log s' = wq_log s" "last_value (wq_mem s') E_pos = last_value (wq_mem s) E_pos"
      "last_value (wq_mem s') D_pos = last_value (wq_mem s) D_pos"
  | (Enq) t v pos where "wq_pcs s t = E_cas v pos" "last_value (wq_mem s) E_pos = pos"
      "mq_enqueue t False (mq_of s) = Some (mq_of s')" "last_value (wq_mem s') E_pos = pos + 1"
      "last_value (wq_mem s') D_pos = last_value (wq_mem s) D_pos"
  | (Deq) t pos where "wq_pcs s t = D_cas pos" "last_value (wq_mem s) D_pos = pos"
      "mq_dequeue t False (mq_of s) = Some (mq_of s')" "last_value (wq_mem s') E_pos = last_value (wq_mem s) E_pos"
      "last_value (wq_mem s') D_pos = pos + 1"
proof -
  have load: "last_value m' = last_value m" if "atomic_load ord t l i m = Some (x, m')" for ord t l i m x m'
    using that by (auto simp: atomic_load_def split: if_splits)
  have store: "last_value (atomic_store ord t (Seq i) x m) E_pos = last_value m E_pos"
    "last_value (atomic_store ord t (Seq i) x m) D_pos = last_value m D_pos" for ord t i x m by (simp_all add: atomic_store_def)
  show thesis
  proof (cases ev)
    case (WQ_producer t i weak)
    with assms have step: "weak_enqueue t i weak s = Some s'" by simp
    show thesis
    proof (cases "wq_pcs s t")
      case (E_cas v pos)
      show thesis
      proof (cases "last_value (wq_mem s) E_pos = pos \<and> \<not> weak")
        case True
        with step E_cas have "s' = wq_goto t (E_write v pos) (snd (atomic_update Relaxed t E_pos (\<lambda>_. pos + 1) (wq_mem s)))
          (s\<lparr>wq_log := wq_log s @ [v]\<rparr>)" by (simp add: weak_enqueue_def)
        with True E_cas show thesis
          by (intro that(2) [of t v pos]) (simp_all add: mq_enqueue_def, simp add: mq_of_def mq_goto_def wq_goto_def)
      qed (use step E_cas load that(1) in \<open>auto simp: weak_enqueue_def split: if_splits\<close>)
    qed (use step load store that(1) in \<open>auto simp: weak_enqueue_def\<close>)
  next
    case (WQ_consumer t i weak)
    with assms have step: "weak_dequeue t i weak s = Some s'" by simp
    show thesis
    proof (cases "wq_pcs s t")
      case (D_cas pos)
      show thesis
      proof (cases "last_value (wq_mem s) D_pos = pos \<and> \<not> weak")
        case True
        with step D_cas have "s' = wq_goto t (D_read pos) (snd (atomic_update Relaxed t D_pos (\<lambda>_. pos + 1) (wq_mem s))) s"
          by (simp add: weak_dequeue_def)
        with True D_cas show thesis
          by (intro that(3) [of t pos]) (simp_all add: mq_dequeue_def, simp add: mq_of_def mq_goto_def wq_goto_def)
      qed (use step D_cas load that(1) in \<open>auto simp: weak_dequeue_def split: if_splits\<close>)
    qed (use step load store that(1) in \<open>auto simp: weak_dequeue_def\<close>)
  qed (use assms that(1) in \<open>auto split: if_splits\<close>)
qed

definition wq_sys :: "nat \<Rightarrow> 'a wq \<Rightarrow> bool" where
  "wq_sys n s \<longleftrightarrow> wq_inv n s \<and> wq_room n s"

lemma wq_inv_call:
  assumes inv: "wq_inv n s" and quiet: "mq_quiet (wq_pcs s t)" and c: "c = E_load v \<or> c = D_load"
  shows "wq_inv n (wq_goto t c (wq_mem s) s)"
proof -
  note d = wq_invD [OF inv]
  have same: "mq_claim c = mq_claim (wq_pcs s t)" "mq_touched c = mq_touched (wq_pcs s t)"
    using quiet c by (cases "wq_pcs s t"; auto)+
  have "mq_of (wq_goto t c (wq_mem s) s) = mq_goto t c (mq_of s)" by (simp add: mq_of_def mq_goto_def wq_goto_def)
  moreover have "mq_inv n (mq_goto t c (mq_of s))" by (rule mq_inv_local [OF d(1)]) (use same c in auto)
  moreover have "wq_known n (unat (last_value (wq_mem s) E_pos)) (unat (last_value (wq_mem s) D_pos)) (wq_mem s) ((wq_pcs s)(t := c))"
    by (rule wq_known_read [OF d(5)]) (use same c in auto)
  ultimately show ?thesis using d by (intro wq_invI) simp_all
qed

lemma wq_sys_move:
  assumes sys: "wq_sys n s" and "within wq_bound wq_move ev s = Some s'"
  shows "wq_sys n s'"
proof -
  from sys have inv: "wq_inv n s" and room: "wq_room n s" by (simp_all add: wq_sys_def)
  from assms(2) have move: "wq_move ev s = Some s'" and bound: "wq_bound s'" by simp_all
  note d = wq_invD [OF inv]
  note I = mq_inv_natD [OF d(6)]
  have "wq_inv n s'"
    using move bound room by (cases ev) (auto intro: wq_inv_producer [OF inv] wq_inv_consumer [OF inv] wq_inv_call [OF inv] split: if_splits)
  moreover from move have "wq_room n s'"
  proof (cases rule: wq_move_cases)
    case Stay
    with room show ?thesis by (simp add: wq_room_def)
  next
    case (Enq t v pos)
    let ?e = "unat (last_value (wq_mem s) E_pos)"
    have "?e < unat (last_value (wq_mem s) D_pos) + n"
      using I(5) [of t] I(4) [of ?e] I(1) Enq(1,2) by (auto simp: mq_slot_ok_def)
    moreover have "unat (pos + 1) = unat pos + 1" using d(7) Enq(2) by (intro unat_inc) simp
    ultimately show ?thesis using Enq by (simp add: wq_room_def)
  next
    case (Deq t pos)
    have "unat (pos + 1) = unat pos + 1" using d(7) I(2) Deq(2) by (intro unat_inc) simp
    with Deq room show ?thesis by (simp add: wq_room_def)
  qed
  ultimately show ?thesis by (simp add: wq_sys_def)
qed

lemma wq_init_mq:
  assumes "wq_init n s"
  shows "mq_init n (mq_of s)"
proof -
  from assms have n: "2 \<le> n" "n AND (n - 1) = 0" and bound: "wq_bound s"
    and s: "s = \<lparr>wq_mem = new_memory (\<lambda>l. case l of Seq i \<Rightarrow> of_nat i | _ \<Rightarrow> 0), wq_data = (\<lambda>_. None),
      wq_mask = n - 1, wq_pcs = (\<lambda>_. MQ_idle), wq_log = []\<rparr>"
    by (auto simp: wq_init_def wq_new_def split: if_splits)
  from n bound show ?thesis
    by (simp add: mq_init_def mq_new_def wq_bound_def) (simp add: s mq_of_def last_value_def new_memory_def)
qed

lemma wq_sys_start:
  assumes "wq_init n s"
  shows "wq_sys (unat n) s"
proof -
  from assms have s: "s = \<lparr>wq_mem = new_memory (\<lambda>l. case l of Seq i \<Rightarrow> of_nat i | _ \<Rightarrow> 0), wq_data = (\<lambda>_. None),
      wq_mask = n - 1, wq_pcs = (\<lambda>_. MQ_idle), wq_log = []\<rparr>"
    by (auto simp: wq_init_def wq_new_def split: if_splits)
  have "mq_inv (unat n) (mq_of s)" by (rule mq_inv_start [OF wq_init_mq [OF assms]])
  moreover have "rising (wq_mem s)" by (simp add: s rising_def new_memory_def)
  moreover have "wq_known k e d (wq_mem s) (wq_pcs s)" for k e d
    by (simp add: s wq_known_def fresh_def new_memory_def)
  moreover have "last_value (wq_mem s) E_pos = 0" "last_value (wq_mem s) D_pos = 0" "\<not> race (wq_mem s)"
    by (simp_all add: s last_value_def new_memory_def)
  moreover have "memory_ok (wq_mem s)" by (simp add: s new_memory_ok)
  ultimately show ?thesis by (simp add: wq_sys_def wq_inv_def wq_room_def)
qed

lemma wq_simulates:
  assumes sys: "wq_sys n s" and move: "within wq_bound wq_move ev s = Some s'"
  shows "mq_abs (mq_of s') = mq_abs (mq_of s) \<or> (\<exists>f. fifo_move n f (mq_abs (mq_of s)) = Some (mq_abs (mq_of s')))"
proof -
  from sys have inv: "mq_inv n (mq_of s)" by (simp add: wq_sys_def wq_inv_def)
  from move have bound: "mq_bound (mq_of s')" and "wq_move ev s = Some s'" by (simp_all add: wq_bound_def)
  from this(2) show ?thesis
  proof (cases rule: wq_move_cases)
    case Stay
    then show ?thesis by (simp add: mq_abs_def)
  next
    case (Enq t v pos)
    show ?thesis by (rule mq_simulates [OF inv, of "MQ_producer t False"]) (use Enq bound in simp)
  next
    case (Deq t pos)
    show ?thesis by (rule mq_simulates [OF inv, of "MQ_consumer t False"]) (use Deq bound in simp)
  qed
qed

interpretation mpmc_weak: race_free_system "wq_init n" "within wq_bound wq_move" "wq_sys (unat n)" wq_mem for n
  by unfold_locales
    (rule wq_sys_start, assumption, rule wq_sys_move, assumption, assumption, simp add: wq_sys_def wq_inv_def)

interpretation mpmc_weak_fifo: fifo_queue "wq_init n" "within wq_bound wq_move" "wq_sys (unat n)" "unat n" "\<lambda>s. mq_abs (mq_of s)" for n
proof unfold_locales
  show "fifo_init (mq_abs (mq_of s))" if "wq_init n s" for s :: "'a wq" by (rule mq_abs_start [OF wq_init_mq [OF that]])
qed (rule wq_simulates)

lemmas wq_eval = within_def wq_bound_def mq_bound_def mq_of_def last_value_def weak_enqueue_def weak_dequeue_def wq_goto_def
  wq_index_def mq_dif_def atomic_load_def atomic_store_def atomic_update_def put_message_def plain_access_def read_view_def
  set_view_def new_memory_def see_def join_def no_view_def Let_def

subsection \<open>Property\<close>

text \<open>C3. The memory orders of the MPMC queue are enough, for any number of threads: although positions and
  sequences are read late, no access of the data of a cell races with an earlier one, no thread reaches undefined
  behaviour, at most the capacity of the positions are claimed by producers only, and the consumer of a position
  delivers the value of its producer.\<close>

theorem mpmc_release_acquire:
  assumes "reach (wq_init n) (within wq_bound wq_move) s"
  shows "\<not> race (wq_mem s) \<and> wq_pcs s t \<noteq> MQ_undefined
     \<and> length (wq_log s) \<le> unat (last_value (wq_mem s) D_pos) + unat n
     \<and> (wq_pcs s t = D_publish v pos \<longrightarrow> unat pos < unat (last_value (wq_mem s) D_pos) \<and> v = wq_log s ! unat pos)"
proof -
  from mpmc_weak.reach_inv [OF assms] have inv: "wq_inv (unat n) s" and room: "wq_room (unat n) s"
    by (simp_all add: wq_sys_def)
  note I = mq_inv_natD [OF wq_invD(6) [OF inv]]
  from mpmc_weak.no_race [OF assms] I(3) I(5) [of t] room show ?thesis
    by (auto simp: wq_room_def mq_reading_def)
qed

theorem mpmc_release_acquire_witness:
  "\<exists>s :: nat wq. reach (wq_init 2) (within wq_bound wq_move) s \<and> wq_pcs s 2 = D_publish 7 0 \<and> wq_log s = [7]
     \<and> \<not> race (wq_mem s) \<and> (7 :: nat) = wq_log s ! unat (0 :: u64)"
proof -
  have "\<exists>s :: nat wq. reach (wq_init 2) (within wq_bound wq_move) s \<and> (wq_pcs s 2 = D_publish 7 0 \<and> wq_log s = [7])"
    by (rule reach_witness [where s = "the (wq_new 2)" and es = "[WQ_enqueue 0 7, WQ_producer 0 0 False, WQ_producer 0 0 False,
          WQ_producer 0 0 False, WQ_producer 0 0 False, WQ_producer 0 0 False, WQ_dequeue 2, WQ_consumer 2 0 False,
          WQ_consumer 2 1 False, WQ_consumer 2 0 False, WQ_consumer 2 0 False]"],
        simp add: wq_init_def wq_new_def wq_eval, simp add: wq_new_def wq_eval)
  then obtain s :: "nat wq" where s: "reach (wq_init 2) (within wq_bound wq_move) s" "wq_pcs s 2 = D_publish 7 0" "wq_log s = [7]"
    by blast
  with mpmc_release_acquire [OF s(1), of 2 7 0] show ?thesis by blast
qed

end
