(* ===== verification/Mpmc_Lock.thy ===== *)
theory Mpmc_Lock
  imports Fifo_Spec
begin

text \<open>
  \<open>concurrent_structures/mpmc_lock.cpp\<close>: the queue on a mutex and two condition variables.
  The fields are only touched between the acquisition and the release of \<open>m_\<close>, so a step is
  what a thread does between two points at which it holds the mutex: acquire it, run the body of
  the operation up to the end of its scope or into \<open>wait\<close>, release it. The counters wrap
  around; no bound on the number of operations is assumed.
\<close>

subsection \<open>State\<close>

definition MAXSIZE :: u64 where
  "MAXSIZE = push_bit 10 1"

text \<open>What a call ends with; \<open>ML_bad_alloc\<close> is \<open>make_shared\<close> throwing.\<close>

datatype 'a ml_result =
  ML_unit | ML_filled_buffer | ML_ptr 'a | ML_nullptr | ML_bad_alloc

datatype 'a ml_pc =
    ML_idle
  | TP_lock 'a | TP_body 'a \<comment> \<open>\<open>try_produce\<close>: about to lock; holding the mutex\<close>
  | P_lock 'a | P_body 'a | P_sleep 'a \<comment> \<open>\<open>produce\<close>; asleep on \<open>full_check_\<close>\<close>
  | C_lock | C_body | C_sleep \<comment> \<open>\<open>consume\<close>; asleep on \<open>empty_check_\<close>\<close>
  | TC_lock | TC_body \<comment> \<open>\<open>try_consume\<close>\<close>
  | ML_unlock "'a ml_result" \<comment> \<open>at the end of the scope, about to release the mutex\<close>
  | ML_returned "'a ml_result"

text \<open>
  The fields and the threads. A condition variable is the list of the threads asleep on it.
  \<open>ml_log\<close> and \<open>ml_taken\<close> are history variables that no step reads.
\<close>

record 'a ml =
  ml_buffer :: "nat \<Rightarrow> 'a option"
  ml_in :: u64
  ml_out :: u64
  ml_m :: "tid option"
  ml_empty_check :: "tid list"
  ml_full_check :: "tid list"
  ml_pcs :: "tid \<Rightarrow> 'a ml_pc"
  ml_log :: "'a list"
  ml_taken :: "'a list"

definition ml_new :: "'a ml" where
  "ml_new = \<lparr>ml_buffer = (\<lambda>_. None), ml_in = 0, ml_out = 0, ml_m = None, ml_empty_check = [],
     ml_full_check = [], ml_pcs = (\<lambda>_. ML_idle), ml_log = [], ml_taken = []\<rparr>"

definition ml_init :: "'a ml \<Rightarrow> bool" where
  "ml_init s \<longleftrightarrow> s = ml_new"

definition ml_goto :: "tid \<Rightarrow> 'a ml_pc \<Rightarrow> 'a ml \<Rightarrow> 'a ml" where
  "ml_goto t c s = s\<lparr>ml_pcs := (ml_pcs s)(t := c)\<rparr>"

definition ml_mask :: "u64 \<Rightarrow> nat" where
  "ml_mask index = unat (index AND (MAXSIZE - 1))"

definition ml_empty :: "'a ml \<Rightarrow> bool" where
  "ml_empty s \<longleftrightarrow> ml_out s = ml_in s"

definition ml_size :: "'a ml \<Rightarrow> u64" where
  "ml_size s = ml_out s - ml_in s"

definition ml_full :: "'a ml \<Rightarrow> bool" where
  "ml_full s \<longleftrightarrow> ml_size s = MAXSIZE"

subsection \<open>The mutex and the condition variables\<close>

definition ml_acquire :: "tid \<Rightarrow> 'a ml_pc \<Rightarrow> 'a ml \<Rightarrow> 'a ml option" where
  "ml_acquire t c s = (if ml_m s = None then Some (ml_goto t c (s\<lparr>ml_m := Some t\<rparr>)) else None)"

text \<open>
  \<open>notify_one\<close> wakes the \<open>i\<close>-th sleeper, if there is one: which one is open. A woken thread has
  to acquire the mutex and to evaluate the predicate again.
\<close>

fun ml_awake :: "'a ml_pc \<Rightarrow> 'a ml_pc" where
  "ml_awake (P_sleep v) = P_lock v"
| "ml_awake C_sleep = C_lock"
| "ml_awake c = c"

definition notify_empty :: "nat \<Rightarrow> 'a ml \<Rightarrow> 'a ml option" where
  "notify_empty i s =
     (if ml_empty_check s = [] then Some s
      else if i < length (ml_empty_check s)
      then (let u = ml_empty_check s ! i in
            Some (ml_goto u (ml_awake (ml_pcs s u)) (s\<lparr>ml_empty_check := remove1 u (ml_empty_check s)\<rparr>)))
      else None)"

definition notify_full :: "nat \<Rightarrow> 'a ml \<Rightarrow> 'a ml option" where
  "notify_full i s =
     (if ml_full_check s = [] then Some s
      else if i < length (ml_full_check s)
      then (let u = ml_full_check s ! i in
            Some (ml_goto u (ml_awake (ml_pcs s u)) (s\<lparr>ml_full_check := remove1 u (ml_full_check s)\<rparr>)))
      else None)"

subsection \<open>Operations\<close>

text \<open>\<open>buffer_[mask(out_++)] = std::move(obj)\<close>\<close>

definition ml_put :: "'a \<Rightarrow> 'a ml \<Rightarrow> 'a ml" where
  "ml_put v s = s\<lparr>ml_buffer := (ml_buffer s)(ml_mask (ml_out s) := Some v), ml_out := ml_out s + 1,
     ml_log := ml_log s @ [v]\<rparr>"

text \<open>\<open>make_shared<T>(buffer_[mask(in_)]); in_++\<close>; the object read may be indeterminate.\<close>

definition ml_take :: "'a ml \<Rightarrow> ('a \<times> 'a ml) option" where
  "ml_take s =
     (case ml_buffer s (ml_mask (ml_in s)) of
        None \<Rightarrow> None
      | Some v \<Rightarrow> Some (v, s\<lparr>ml_in := ml_in s + 1, ml_taken := ml_taken s @ [v]\<rparr>))"

definition try_produce :: "tid \<Rightarrow> nat \<Rightarrow> 'a ml \<Rightarrow> 'a ml option" where
  "try_produce t i s =
     (case ml_pcs s t of
        TP_lock v \<Rightarrow> ml_acquire t (TP_body v) s
      | TP_body v \<Rightarrow>
          (if ml_full s then Some (ml_goto t (ML_unlock ML_filled_buffer) s)
           else notify_empty i (ml_goto t (ML_unlock ML_unit) (ml_put v s)))
      | _ \<Rightarrow> None)"

definition produce :: "tid \<Rightarrow> nat \<Rightarrow> 'a ml \<Rightarrow> 'a ml option" where
  "produce t i s =
     (case ml_pcs s t of
        P_lock v \<Rightarrow> ml_acquire t (P_body v) s
      | P_body v \<Rightarrow>
          (if ml_full s
           then Some (ml_goto t (P_sleep v) (s\<lparr>ml_m := None, ml_full_check := ml_full_check s @ [t]\<rparr>))
           else notify_empty i (ml_goto t (ML_unlock ML_unit) (ml_put v s)))
      | _ \<Rightarrow> None)"

definition consume :: "tid \<Rightarrow> nat \<Rightarrow> bool \<Rightarrow> 'a ml \<Rightarrow> 'a ml option" where
  "consume t i alloc s =
     (case ml_pcs s t of
        C_lock \<Rightarrow> ml_acquire t C_body s
      | C_body \<Rightarrow>
          (if ml_empty s
           then Some (ml_goto t C_sleep (s\<lparr>ml_m := None, ml_empty_check := ml_empty_check s @ [t]\<rparr>))
           else if \<not> alloc then Some (ml_goto t (ML_unlock ML_bad_alloc) s)
           else (case ml_take s of
                   None \<Rightarrow> None
                 | Some (v, s') \<Rightarrow> notify_full i (ml_goto t (ML_unlock (ML_ptr v)) s')))
      | _ \<Rightarrow> None)"

definition try_consume :: "tid \<Rightarrow> bool \<Rightarrow> 'a ml \<Rightarrow> 'a ml option" where
  "try_consume t alloc s =
     (case ml_pcs s t of
        TC_lock \<Rightarrow> ml_acquire t TC_body s
      | TC_body \<Rightarrow>
          (if ml_empty s then Some (ml_goto t (ML_unlock ML_nullptr) s)
           else if \<not> alloc then Some (ml_goto t (ML_unlock ML_bad_alloc) s)
           else (case ml_take s of
                   None \<Rightarrow> None
                 | Some (v, s') \<Rightarrow> Some (ml_goto t (ML_unlock (ML_ptr v)) s')))
      | _ \<Rightarrow> None)"

text \<open>The destructor of the lock at the end of every operation.\<close>

definition ml_release :: "tid \<Rightarrow> 'a ml \<Rightarrow> 'a ml option" where
  "ml_release t s =
     (case ml_pcs s t of
        ML_unlock r \<Rightarrow> Some (ml_goto t (ML_returned r) (s\<lparr>ml_m := None\<rparr>))
      | _ \<Rightarrow> None)"

text \<open>A spurious wake-up of a sleeper.\<close>

definition ml_spurious_wakeup :: "tid \<Rightarrow> 'a ml \<Rightarrow> 'a ml option" where
  "ml_spurious_wakeup t s =
     (if t \<in> set (ml_empty_check s)
      then Some (ml_goto t (ml_awake (ml_pcs s t)) (s\<lparr>ml_empty_check := remove1 t (ml_empty_check s)\<rparr>))
      else if t \<in> set (ml_full_check s)
      then Some (ml_goto t (ml_awake (ml_pcs s t)) (s\<lparr>ml_full_check := remove1 t (ml_full_check s)\<rparr>))
      else None)"

fun ml_quiet :: "'a ml_pc \<Rightarrow> bool" where
  "ml_quiet ML_idle = True"
| "ml_quiet (ML_returned r) = True"
| "ml_quiet _ = False"

datatype 'a ml_event =
    ML_call tid "'a ml_pc" | ML_try_produce tid nat | ML_produce tid nat | ML_consume tid nat bool
  | ML_try_consume tid bool | ML_release tid | ML_spurious tid

text \<open>A call puts an idle thread at the first point of an operation.\<close>

fun ml_entry :: "'a ml_pc \<Rightarrow> bool" where
  "ml_entry (TP_lock v) = True"
| "ml_entry (P_lock v) = True"
| "ml_entry C_lock = True"
| "ml_entry TC_lock = True"
| "ml_entry _ = False"

fun ml_move :: "'a ml_event \<Rightarrow> 'a ml \<Rightarrow> 'a ml option" where
  "ml_move (ML_call t c) s = (if ml_quiet (ml_pcs s t) \<and> ml_entry c then Some (ml_goto t c s) else None)"
| "ml_move (ML_try_produce t i) s = try_produce t i s"
| "ml_move (ML_produce t i) s = produce t i s"
| "ml_move (ML_consume t i alloc) s = consume t i alloc s"
| "ml_move (ML_try_consume t alloc) s = try_consume t alloc s"
| "ml_move (ML_release t) s = ml_release t s"
| "ml_move (ML_spurious t) s = ml_spurious_wakeup t s"

subsection \<open>The invariant\<close>

fun ml_holds :: "'a ml_pc \<Rightarrow> bool" where
  "ml_holds (TP_body v) = True"
| "ml_holds (P_body v) = True"
| "ml_holds C_body = True"
| "ml_holds TC_body = True"
| "ml_holds (ML_unlock r) = True"
| "ml_holds _ = False"

text \<open>
  The invariant: the owner of the mutex is the one thread inside a body, the sleepers are the
  threads asleep, and the counters modulo \<open>2 ^ 64\<close> count the values put and taken, of which
  at most 1024 wait in their slots.
\<close>

definition ml_inv_lock :: "tid option \<Rightarrow> (tid \<Rightarrow> 'a ml_pc) \<Rightarrow> bool" where
  "ml_inv_lock m P \<longleftrightarrow> (\<forall>t. ml_holds (P t) \<longleftrightarrow> m = Some t)"

definition ml_inv_sleep :: "tid list \<Rightarrow> tid list \<Rightarrow> (tid \<Rightarrow> 'a ml_pc) \<Rightarrow> bool" where
  "ml_inv_sleep es fs P \<longleftrightarrow> distinct es \<and> distinct fs
     \<and> (\<forall>t. t \<in> set es \<longleftrightarrow> P t = C_sleep) \<and> (\<forall>t. t \<in> set fs \<longleftrightarrow> (\<exists>v. P t = P_sleep v))"

definition ml_inv_ring :: "(nat \<Rightarrow> 'a option) \<Rightarrow> u64 \<Rightarrow> u64 \<Rightarrow> 'a list \<Rightarrow> 'a list \<Rightarrow> bool" where
  "ml_inv_ring b i out vs ws \<longleftrightarrow> i = of_nat (length ws) \<and> out = of_nat (length vs)
     \<and> ws = take (length ws) vs \<and> length vs \<le> length ws + 1024
     \<and> (\<forall>p. length ws \<le> p \<longrightarrow> p < length vs \<longrightarrow> b (p mod 1024) = Some (vs ! p))"

definition ml_inv :: "'a ml \<Rightarrow> bool" where
  "ml_inv s \<longleftrightarrow> ml_inv_lock (ml_m s) (ml_pcs s)
     \<and> ml_inv_sleep (ml_empty_check s) (ml_full_check s) (ml_pcs s)
     \<and> ml_inv_ring (ml_buffer s) (ml_in s) (ml_out s) (ml_log s) (ml_taken s)"

lemma MAXSIZE_eq: "MAXSIZE = 1024"
  by (simp add: MAXSIZE_def push_bit_eq_mult)

lemma ml_mask_of_nat: "ml_mask (of_nat p) = p mod 1024"
proof -
  have "(1023 :: u64) = mask 10" by (simp add: mask_eq_exp_minus_1)
  then have "unat ((of_nat p :: u64) AND 1023) = unat (of_nat p :: u64) mod 2 ^ 10"
    using unat_and_mask [of "of_nat p :: u64" 10] by simp
  also have "\<dots> = (p mod 2 ^ 64) mod 1024" by (simp add: unat_of_nat)
  also have "\<dots> = p mod 1024" by (simp add: mod_mod_cancel)
  finally show ?thesis by (simp add: ml_mask_def MAXSIZE_eq)
qed

lemma ml_size_length:
  assumes "ml_inv_ring b i out vs ws"
  shows "unat (out - i) = length vs - length ws" and "length ws \<le> length vs"
proof -
  from assms have le: "length ws \<le> length vs" "length vs \<le> length ws + 1024"
    and w: "i = of_nat (length ws)" "out = of_nat (length vs)"
    by (auto simp: ml_inv_ring_def dest: arg_cong [where f = length])
  from le(1) show "length ws \<le> length vs" .
  from w le(1) have "out - i = of_nat (length vs - length ws)" by (simp add: of_nat_diff)
  moreover have "length vs - length ws < 2 ^ 64" using le(2) by simp
  ultimately show "unat (out - i) = length vs - length ws" by (simp add: unat_of_nat)
qed

lemma ml_ring_empty: "ml_inv_ring b i out vs ws \<Longrightarrow> out = i \<longleftrightarrow> length vs = length ws"
  using ml_size_length [of b i out vs ws] unat_eq_0 [of "out - i"] by auto

lemma ml_ring_full: "ml_inv_ring b i out vs ws \<Longrightarrow> out - i = MAXSIZE \<longleftrightarrow> length vs = length ws + 1024"
  using ml_size_length [of b i out vs ws] by (auto simp: MAXSIZE_eq word_unat_eq_iff)

lemma ml_ring_put:
  assumes "ml_inv_ring b i out vs ws" and "out - i \<noteq> MAXSIZE"
  shows "ml_inv_ring (b(ml_mask out := Some v)) i (out + 1) (vs @ [v]) ws"
proof -
  from assms have room: "length vs < length ws + 1024"
    using ml_ring_full [OF assms(1)] by (auto simp: ml_inv_ring_def)
  have m: "ml_mask out = length vs mod 1024" using assms(1) by (simp add: ml_inv_ring_def ml_mask_of_nat)
  have "ml_inv_ring (b(length vs mod 1024 := Some v)) i (out + 1) (vs @ [v]) ws"
  proof -
    have "p mod 1024 \<noteq> length vs mod 1024" if "length ws \<le> p" "p < length vs" for p
      using that room mod_window [of p 1024 "length vs"] by auto
    with assms(1) room ml_size_length(2) [OF assms(1)] show ?thesis
      by (auto simp: ml_inv_ring_def nth_append less_Suc_eq)
  qed
  then show ?thesis by (simp only: m)
qed

lemma ml_ring_take:
  assumes "ml_inv_ring b i out vs ws" and "out \<noteq> i"
  shows "b (ml_mask i) = Some (vs ! length ws)" and "length ws < length vs"
    and "ml_inv_ring b (i + 1) out vs (ws @ [vs ! length ws])"
proof -
  from assms show lt: "length ws < length vs"
    using ml_ring_empty [OF assms(1)] ml_size_length(2) [OF assms(1)] by simp
  with assms(1) show "b (ml_mask i) = Some (vs ! length ws)"
    by (auto simp: ml_inv_ring_def ml_mask_of_nat)
  from assms(1) lt show "ml_inv_ring b (i + 1) out vs (ws @ [vs ! length ws])"
    by (auto simp: ml_inv_ring_def take_Suc_conv_app_nth)
qed

lemma ml_lock_acquire: "ml_inv_lock None P \<Longrightarrow> ml_holds c \<Longrightarrow> ml_inv_lock (Some t) (P(t := c))"
  by (simp add: ml_inv_lock_def)

lemma ml_lock_release: "ml_inv_lock m P \<Longrightarrow> ml_holds (P t) \<Longrightarrow> \<not> ml_holds c \<Longrightarrow> ml_inv_lock None (P(t := c))"
  by (auto simp: ml_inv_lock_def)

lemma ml_lock_keep: "ml_inv_lock m P \<Longrightarrow> ml_holds c = ml_holds (P t) \<Longrightarrow> ml_inv_lock m (P(t := c))"
  by (auto simp: ml_inv_lock_def)

fun ml_asleep :: "'a ml_pc \<Rightarrow> bool" where
  "ml_asleep (P_sleep v) = True"
| "ml_asleep C_sleep = True"
| "ml_asleep _ = False"

lemma ml_sleep_keep:
  assumes "ml_inv_sleep es fs P" and "\<not> ml_asleep (P t)" and "\<not> ml_asleep c"
  shows "ml_inv_sleep es fs (P(t := c))"
proof -
  have "P t \<noteq> C_sleep" "P t \<noteq> P_sleep v" "c \<noteq> C_sleep" "c \<noteq> P_sleep v" for v using assms(2,3) by auto
  with assms(1) show ?thesis by (auto simp: ml_inv_sleep_def)
qed

lemma ml_sleep_empty: "ml_inv_sleep es fs P \<Longrightarrow> \<not> ml_asleep (P t) \<Longrightarrow> ml_inv_sleep (es @ [t]) fs (P(t := C_sleep))"
  by (auto simp: ml_inv_sleep_def)

lemma ml_sleep_full: "ml_inv_sleep es fs P \<Longrightarrow> \<not> ml_asleep (P t) \<Longrightarrow> ml_inv_sleep es (fs @ [t]) (P(t := P_sleep v))"
  by (auto simp: ml_inv_sleep_def)

lemma ml_wake_empty:
  assumes "ml_inv_sleep es fs P" and "u \<in> set es"
  shows "P u = C_sleep" and "ml_inv_sleep (remove1 u es) fs (P(u := C_lock))"
  using assms by (auto simp: ml_inv_sleep_def)

lemma ml_wake_full:
  assumes "ml_inv_sleep es fs P" and "u \<in> set fs"
  shows "\<exists>v. P u = P_sleep v \<and> ml_inv_sleep es (remove1 u fs) (P(u := P_lock v))"
proof -
  obtain v where "P u = P_sleep v" using assms by (auto simp: ml_inv_sleep_def)
  moreover from this have "u \<notin> set es" using assms by (auto simp: ml_inv_sleep_def)
  ultimately show ?thesis using assms by (auto simp: ml_inv_sleep_def)
qed

lemma ml_goto_simps [simp]:
  "ml_buffer (ml_goto t c s) = ml_buffer s" "ml_in (ml_goto t c s) = ml_in s" "ml_out (ml_goto t c s) = ml_out s"
  "ml_m (ml_goto t c s) = ml_m s" "ml_empty_check (ml_goto t c s) = ml_empty_check s"
  "ml_full_check (ml_goto t c s) = ml_full_check s" "ml_pcs (ml_goto t c s) = (ml_pcs s)(t := c)"
  "ml_log (ml_goto t c s) = ml_log s" "ml_taken (ml_goto t c s) = ml_taken s"
  by (simp_all add: ml_goto_def)

text \<open>What one thread does to another when it notifies.\<close>

lemma ml_wake_empty_inv:
  assumes "ml_inv s" and "u \<in> set (ml_empty_check s)"
  shows "ml_inv (ml_goto u (ml_awake (ml_pcs s u)) (s\<lparr>ml_empty_check := remove1 u (ml_empty_check s)\<rparr>))"
  using assms ml_wake_empty [of "ml_empty_check s" "ml_full_check s" "ml_pcs s" u]
  by (auto simp: ml_inv_def intro!: ml_lock_keep)

lemma ml_wake_full_inv:
  assumes "ml_inv s" and "u \<in> set (ml_full_check s)"
  shows "ml_inv (ml_goto u (ml_awake (ml_pcs s u)) (s\<lparr>ml_full_check := remove1 u (ml_full_check s)\<rparr>))"
  using assms ml_wake_full [of "ml_empty_check s" "ml_full_check s" "ml_pcs s" u]
  by (auto simp: ml_inv_def intro!: ml_lock_keep)

lemma notify_empty_inv: "ml_inv s \<Longrightarrow> notify_empty i s = Some s' \<Longrightarrow> ml_inv s'"
  by (auto simp: notify_empty_def Let_def split: if_splits intro!: ml_wake_empty_inv)

lemma notify_full_inv: "ml_inv s \<Longrightarrow> notify_full i s = Some s' \<Longrightarrow> ml_inv s'"
  by (auto simp: notify_full_def Let_def split: if_splits intro!: ml_wake_full_inv)

fun ml_alloc_fails :: "'a ml_event \<Rightarrow> bool" where
  "ml_alloc_fails (ML_consume t i alloc) = (\<not> alloc)"
| "ml_alloc_fails (ML_try_consume t alloc) = (\<not> alloc)"
| "ml_alloc_fails _ = False"

text \<open>Every move is a change of one thread's point, with or without a notification after it.\<close>

lemma ml_move_cases [consumes 1, case_names Call Acquire Throw Null Fail Put Take Try_take Sleep_full
    Sleep_empty Release Wake_empty Wake_full]:
  assumes "ml_move e s = Some s'"
  obtains (Call) t c where "ml_quiet (ml_pcs s t)" "ml_entry c" "s' = ml_goto t c s"
  | (Acquire) t c where "ml_m s = None" "ml_holds c" "\<not> ml_asleep (ml_pcs s t)" "\<not> ml_asleep c" "s' = ml_goto t c (s\<lparr>ml_m := Some t\<rparr>)"
    "c = C_body \<longleftrightarrow> ml_pcs s t = C_lock" "ml_pcs s t \<noteq> C_body" "c \<noteq> ML_unlock ML_bad_alloc"
  | (Throw) t v where "ml_pcs s t = TP_body v" "ml_full s" "s' = ml_goto t (ML_unlock ML_filled_buffer) s"
  | (Null) t where "ml_pcs s t = TC_body" "ml_empty s" "s' = ml_goto t (ML_unlock ML_nullptr) s"
  | (Fail) t where "ml_alloc_fails e" "ml_pcs s t = C_body \<or> ml_pcs s t = TC_body" "\<not> ml_empty s"
      "s' = ml_goto t (ML_unlock ML_bad_alloc) s"
  | (Put) t v i where "ml_pcs s t = TP_body v \<or> ml_pcs s t = P_body v" "\<not> ml_full s"
      "notify_empty i (ml_goto t (ML_unlock ML_unit) (ml_put v s)) = Some s'"
  | (Take) t v i s1 where "ml_pcs s t = C_body" "\<not> ml_empty s" "ml_take s = Some (v, s1)"
      "notify_full i (ml_goto t (ML_unlock (ML_ptr v)) s1) = Some s'"
  | (Try_take) t v s1 where "ml_pcs s t = TC_body" "\<not> ml_empty s" "ml_take s = Some (v, s1)"
      "s' = ml_goto t (ML_unlock (ML_ptr v)) s1"
  | (Sleep_full) t v where "ml_pcs s t = P_body v" "ml_full s"
      "s' = ml_goto t (P_sleep v) (s\<lparr>ml_m := None, ml_full_check := ml_full_check s @ [t]\<rparr>)"
  | (Sleep_empty) t where "ml_pcs s t = C_body" "ml_empty s"
      "s' = ml_goto t C_sleep (s\<lparr>ml_m := None, ml_empty_check := ml_empty_check s @ [t]\<rparr>)"
  | (Release) t r where "ml_pcs s t = ML_unlock r" "s' = ml_goto t (ML_returned r) (s\<lparr>ml_m := None\<rparr>)"
  | (Wake_empty) t where "t \<in> set (ml_empty_check s)"
      "s' = ml_goto t (ml_awake (ml_pcs s t)) (s\<lparr>ml_empty_check := remove1 t (ml_empty_check s)\<rparr>)"
  | (Wake_full) t where "t \<in> set (ml_full_check s)"
      "s' = ml_goto t (ml_awake (ml_pcs s t)) (s\<lparr>ml_full_check := remove1 t (ml_full_check s)\<rparr>)"
proof -
  have acquire: thesis if "ml_acquire t c s = Some s'" "ml_holds c" "\<not> ml_asleep (ml_pcs s t)" "\<not> ml_asleep c"
    "c = C_body \<longleftrightarrow> ml_pcs s t = C_lock" "ml_pcs s t \<noteq> C_body" "c \<noteq> ML_unlock ML_bad_alloc" for t c
    using that Acquire [of c t] by (simp add: ml_acquire_def split: if_splits)
  show thesis
  proof (cases e)
    case (ML_call t c)
    with assms that(1) show ?thesis by (simp split: if_splits)
  next
    case (ML_try_produce t i)
    with assms show ?thesis
      by (cases "ml_pcs s t") (auto simp: try_produce_def split: if_splits intro: acquire that(3,6))
  next
    case (ML_produce t i)
    with assms show ?thesis
      by (cases "ml_pcs s t") (auto simp: produce_def split: if_splits intro: acquire that(6,9))
  next
    case (ML_consume t i alloc)
    with assms show ?thesis
      by (cases "ml_pcs s t") (auto simp add: consume_def split: if_splits option.splits intro: acquire that(5,7,10))
  next
    case (ML_try_consume t alloc)
    with assms show ?thesis
      by (cases "ml_pcs s t") (auto simp add: try_consume_def split: if_splits option.splits intro: acquire that(4,5,8))
  next
    case (ML_release t)
    with assms that(11) show ?thesis by (cases "ml_pcs s t") (simp_all add: ml_release_def)
  next
    case (ML_spurious t)
    with assms that(12,13) show ?thesis by (simp add: ml_spurious_wakeup_def split: if_splits)
  qed
qed

lemma ml_put_inv:
  assumes "ml_inv s" and "ml_pcs s t = TP_body v \<or> ml_pcs s t = P_body v" and "\<not> ml_full s"
  shows "ml_inv (ml_goto t (ML_unlock ML_unit) (ml_put v s))"
  using assms by (auto simp: ml_inv_def ml_put_def ml_full_def ml_size_def
      intro: ml_lock_keep ml_sleep_keep ml_ring_put)

lemma ml_take_eq:
  assumes "ml_inv s" and "\<not> ml_empty s"
  shows "ml_take s = Some (ml_log s ! length (ml_taken s), s\<lparr>ml_in := ml_in s + 1,
     ml_taken := ml_taken s @ [ml_log s ! length (ml_taken s)]\<rparr>)"
  using assms ml_ring_take(1) [of "ml_buffer s" "ml_in s" "ml_out s" "ml_log s" "ml_taken s"]
  by (auto simp: ml_inv_def ml_take_def ml_empty_def)

lemma ml_take_inv:
  assumes "ml_inv s" and "ml_pcs s t = C_body \<or> ml_pcs s t = TC_body" and "\<not> ml_empty s" "ml_take s = Some (v, s1)"
  shows "ml_inv (ml_goto t (ML_unlock (ML_ptr v)) s1)"
  using assms ml_take_eq [OF assms(1,3)]
  by (auto simp: ml_inv_def ml_empty_def intro: ml_lock_keep ml_sleep_keep ml_ring_take)

lemma ml_inv_move:
  assumes inv: "ml_inv s" and "ml_move e s = Some s'"
  shows "ml_inv s'"
  using assms(2)
proof (cases rule: ml_move_cases)
  case (Call t c)
  then have "\<not> ml_holds c" "\<not> ml_asleep c" by (cases c; simp)+
  moreover from Call have "\<not> ml_holds (ml_pcs s t)" "\<not> ml_asleep (ml_pcs s t)" by (cases "ml_pcs s t"; simp)+
  ultimately show ?thesis using Call inv by (auto simp: ml_inv_def intro: ml_lock_keep ml_sleep_keep)
next
  case (Acquire t c)
  with inv show ?thesis by (auto simp: ml_inv_def intro: ml_lock_acquire ml_sleep_keep)
next
  case (Put t v i)
  with inv show ?thesis by (blast intro: notify_empty_inv ml_put_inv)
next
  case (Take t v i s1)
  with inv show ?thesis by (blast intro: notify_full_inv ml_take_inv)
next
  case (Try_take t v s1)
  with inv show ?thesis by (blast intro: ml_take_inv)
next
  case (Sleep_full t v)
  with inv show ?thesis by (auto simp: ml_inv_def intro: ml_lock_release ml_sleep_full)
next
  case (Sleep_empty t)
  with inv show ?thesis by (auto simp: ml_inv_def intro: ml_lock_release ml_sleep_empty)
next
  case (Release t r)
  with inv show ?thesis by (auto simp: ml_inv_def intro: ml_lock_release ml_sleep_keep)
next
  case (Wake_empty t)
  with inv show ?thesis by (simp only: ml_wake_empty_inv)
next
  case (Wake_full t)
  with inv show ?thesis by (simp only: ml_wake_full_inv)
qed (use inv in \<open>auto simp: ml_inv_def intro: ml_lock_keep ml_sleep_keep\<close>)

subsection \<open>Refinement of the bounded queue, mutual exclusion\<close>

definition ml_abs :: "'a ml \<Rightarrow> 'a fifo" where
  "ml_abs s = \<lparr>entered = ml_log s, left = ml_taken s\<rparr>"

lemma ml_contents: "contents (ml_abs s) = drop (length (ml_taken s)) (ml_log s)"
  by (simp add: ml_abs_def contents_def)

lemma notify_keeps:
  "notify_empty i s = Some s' \<Longrightarrow> ml_log s' = ml_log s \<and> ml_taken s' = ml_taken s \<and> ml_m s' = ml_m s
     \<and> ml_full_check s' = ml_full_check s"
  "notify_full i s = Some s' \<Longrightarrow> ml_log s' = ml_log s \<and> ml_taken s' = ml_taken s \<and> ml_m s' = ml_m s
     \<and> ml_empty_check s' = ml_empty_check s"
  by (auto simp: notify_empty_def notify_full_def Let_def split: if_splits)

lemma ml_counts:
  assumes "ml_inv s"
  shows "length (ml_taken s) \<le> length (ml_log s)" "ml_empty s \<longleftrightarrow> length (ml_log s) = length (ml_taken s)"
    "ml_full s \<longleftrightarrow> length (ml_log s) = length (ml_taken s) + 1024" "length (ml_log s) \<le> length (ml_taken s) + 1024"
    "unat (ml_size s) = length (ml_log s) - length (ml_taken s)"
proof -
  from assms have ring: "ml_inv_ring (ml_buffer s) (ml_in s) (ml_out s) (ml_log s) (ml_taken s)" by (simp add: ml_inv_def)
  from ml_size_length [OF ring] ml_ring_empty [OF ring] ml_ring_full [OF ring] ring
  show "length (ml_taken s) \<le> length (ml_log s)" "ml_empty s \<longleftrightarrow> length (ml_log s) = length (ml_taken s)"
    "ml_full s \<longleftrightarrow> length (ml_log s) = length (ml_taken s) + 1024" "length (ml_log s) \<le> length (ml_taken s) + 1024"
    "unat (ml_size s) = length (ml_log s) - length (ml_taken s)"
    by (simp_all add: ml_empty_def ml_full_def ml_size_def ml_inv_ring_def)
qed

lemma ml_take_fifo:
  assumes "ml_inv s" and "\<not> ml_empty s"
  shows "fifo_move 1024 Deq (ml_abs s) = Some \<lparr>entered = ml_log s, left = ml_taken s @ [ml_log s ! length (ml_taken s)]\<rparr>"
proof -
  have "length (ml_taken s) < length (ml_log s)" using ml_counts [OF assms(1)] assms(2) by simp
  then have "contents (ml_abs s) = ml_log s ! length (ml_taken s) # drop (Suc (length (ml_taken s))) (ml_log s)"
    by (simp add: ml_contents Cons_nth_drop_Suc)
  then show ?thesis by (simp add: ml_abs_def)
qed

lemma ml_simulates:
  assumes inv: "ml_inv s" and "ml_move e s = Some s'"
  shows "ml_abs s' = ml_abs s \<or> (\<exists>f. fifo_move 1024 f (ml_abs s) = Some (ml_abs s'))"
  using assms(2)
proof (cases rule: ml_move_cases)
  case (Put t v i)
  have "length (ml_log s) < length (ml_taken s) + 1024" using ml_counts [OF inv] Put(2) by auto
  moreover have "ml_log s' = ml_log s @ [v]" "ml_taken s' = ml_taken s"
    using notify_keeps(1) [OF Put(3)] by (simp_all add: ml_put_def)
  ultimately have "fifo_move 1024 (Enq v) (ml_abs s) = Some (ml_abs s')"
    by (simp add: ml_contents) (simp add: ml_abs_def)
  then show ?thesis by blast
next
  case (Take t v i s1)
  have "ml_log s' = ml_log s" "ml_taken s' = ml_taken s @ [ml_log s ! length (ml_taken s)]"
    using notify_keeps(2) [OF Take(4)] Take(3) ml_take_eq [OF inv Take(2)] by auto
  with ml_take_fifo [OF inv Take(2)] show ?thesis by (intro disjI2 exI [of _ Deq]) (simp add: ml_abs_def)
next
  case (Try_take t v s1)
  have "ml_log s' = ml_log s" "ml_taken s' = ml_taken s @ [ml_log s ! length (ml_taken s)]"
    using Try_take(3,4) ml_take_eq [OF inv Try_take(2)] by auto
  with ml_take_fifo [OF inv Try_take(2)] show ?thesis by (intro disjI2 exI [of _ Deq]) (simp add: ml_abs_def)
qed (simp_all add: ml_abs_def)

lemma ml_inv_start: "ml_init s \<Longrightarrow> ml_inv s"
  by (simp add: ml_init_def ml_new_def ml_inv_def ml_inv_lock_def ml_inv_sleep_def ml_inv_ring_def)

interpretation mlock: fifo_queue ml_init ml_move ml_inv 1024 ml_abs
  by unfold_locales
    (auto intro: ml_inv_start ml_inv_move dest: ml_simulates simp: ml_abs_def ml_init_def ml_new_def fifo_init_def)

interpretation mlock_mutex: lock_system ml_init ml_move ml_inv "\<lambda>s t. ml_holds (ml_pcs s t)"
  by unfold_locales (simp add: ml_inv_def ml_inv_lock_def)

subsection \<open>No consumer is left behind\<close>

text \<open>The threads that will look at the queue again before they leave \<open>consume\<close>.\<close>

definition ml_consuming :: "(tid \<Rightarrow> 'a ml_pc) \<Rightarrow> tid set" where
  "ml_consuming P = {t. P t = C_lock \<or> P t = C_body}"

definition ml_served :: "'a ml \<Rightarrow> bool" where
  "ml_served s \<longleftrightarrow> ml_inv s \<and> finite {t. ml_pcs s t \<noteq> ML_idle}
     \<and> (ml_empty_check s = [] \<or> length (ml_log s) \<le> length (ml_taken s) + card (ml_consuming (ml_pcs s)))"

text \<open>The moves in which every \<open>make_shared\<close> finds memory.\<close>

definition ml_alloc_move :: "'a ml_event \<Rightarrow> 'a ml \<Rightarrow> 'a ml option" where
  "ml_alloc_move e s = (if ml_alloc_fails e then None else ml_move e s)"

lemma ml_consuming_upd:
  "ml_consuming (P(t := c)) = (if c = C_lock \<or> c = C_body then insert t (ml_consuming P) else ml_consuming P - {t})"
  by (auto simp: ml_consuming_def)

lemma ml_consuming_finite: "finite {t. P t \<noteq> ML_idle} \<Longrightarrow> finite (ml_consuming P)"
  by (rule finite_subset [rotated]) (auto simp: ml_consuming_def)

lemma finite_upd: "finite {t. P t \<noteq> c} \<Longrightarrow> finite {t. (P(u := d)) t \<noteq> c}"
  by (rule finite_subset [of _ "insert u {t. P t \<noteq> c}"]) auto

lemma ml_move_finite: "ml_move e s = Some s' \<Longrightarrow> finite {t. ml_pcs s t \<noteq> ML_idle} \<Longrightarrow> finite {t. ml_pcs s' t \<noteq> ML_idle}"
  by (erule ml_move_cases) (auto simp: notify_empty_def notify_full_def ml_take_def ml_put_def Let_def simp del: fun_upd_apply
      intro!: finite_upd split: if_splits option.splits)

text \<open>Waking a consumer makes one more thread look at the queue.\<close>

lemma notify_empty_serves:
  assumes "ml_inv s" and "notify_empty i s = Some s'" and "finite (ml_consuming (ml_pcs s))"
    and "ml_empty_check s = [] \<or> length (ml_log s) \<le> Suc (length (ml_taken s) + card (ml_consuming (ml_pcs s)))"
  shows "ml_empty_check s' = [] \<or> length (ml_log s') \<le> length (ml_taken s') + card (ml_consuming (ml_pcs s'))"
proof (cases "ml_empty_check s = []")
  case True
  with assms(2) show ?thesis by (simp add: notify_empty_def)
next
  case False
  let ?u = "ml_empty_check s ! i"
  from False assms(2) have u: "?u \<in> set (ml_empty_check s)" and s': "s' = ml_goto ?u (ml_awake (ml_pcs s ?u))
      (s\<lparr>ml_empty_check := remove1 ?u (ml_empty_check s)\<rparr>)"
    by (auto simp: notify_empty_def Let_def split: if_splits)
  from assms(1) u have "ml_pcs s ?u = C_sleep" by (auto simp: ml_inv_def ml_inv_sleep_def)
  moreover from this have "?u \<notin> ml_consuming (ml_pcs s)" by (simp add: ml_consuming_def)
  ultimately show ?thesis using assms(3,4) False s' by (simp add: ml_consuming_upd)
qed

lemma notify_full_consuming:
  assumes "ml_inv s" and "notify_full i s = Some s'"
  shows "ml_consuming (ml_pcs s') = ml_consuming (ml_pcs s)"
proof (cases "ml_full_check s = []")
  case True
  with assms(2) show ?thesis by (simp add: notify_full_def)
next
  case False
  let ?u = "ml_full_check s ! i"
  from False assms(2) have u: "?u \<in> set (ml_full_check s)" and s': "s' = ml_goto ?u (ml_awake (ml_pcs s ?u))
      (s\<lparr>ml_full_check := remove1 ?u (ml_full_check s)\<rparr>)"
    by (auto simp: notify_full_def Let_def split: if_splits)
  from assms(1) u obtain v where "ml_pcs s ?u = P_sleep v" by (auto simp: ml_inv_def ml_inv_sleep_def)
  with s' show ?thesis by (auto simp: ml_consuming_def)
qed

lemma ml_served_start: "ml_init s \<Longrightarrow> ml_served s"
  by (simp add: ml_served_def ml_inv_start) (simp add: ml_init_def ml_new_def)

lemma ml_served_move:
  assumes "ml_served s" and "ml_alloc_move e s = Some s'"
  shows "ml_served s'"
proof -
  from assms(2) have alloc: "\<not> ml_alloc_fails e" and step: "ml_move e s = Some s'"
    by (auto simp: ml_alloc_move_def split: if_splits)
  from assms(1) have inv: "ml_inv s" and fin: "finite {t. ml_pcs s t \<noteq> ML_idle}"
    and ok: "ml_empty_check s = [] \<or> length (ml_log s) \<le> length (ml_taken s) + card (ml_consuming (ml_pcs s))"
    by (auto simp: ml_served_def)
  note finC = ml_consuming_finite [OF fin]
  have same: "ml_consuming ((ml_pcs s)(t := c)) = ml_consuming (ml_pcs s)"
    if "c \<noteq> C_lock" "c \<noteq> C_body" "t \<notin> ml_consuming (ml_pcs s)" for t c
    using that by (simp add: ml_consuming_upd)
  have mem: "t \<in> ml_consuming (ml_pcs s) \<longleftrightarrow> ml_pcs s t = C_lock \<or> ml_pcs s t = C_body" for t
    by (simp add: ml_consuming_def)
  have "ml_empty_check s' = [] \<or> length (ml_log s') \<le> length (ml_taken s') + card (ml_consuming (ml_pcs s'))"
    using step
  proof (cases rule: ml_move_cases)
    case (Call t c)
    then have "t \<notin> ml_consuming (ml_pcs s)" by (auto simp: ml_consuming_def)
    with Call ok finC show ?thesis by (auto simp: ml_consuming_upd)
  next
    case (Acquire t c)
    then have "c \<noteq> C_lock" by auto
    with Acquire have "ml_consuming ((ml_pcs s)(t := c)) = ml_consuming (ml_pcs s)"
      by (auto simp: ml_consuming_def)
    with Acquire ok show ?thesis by simp
  next
    case (Put t v i)
    let ?s = "ml_goto t (ML_unlock ML_unit) (ml_put v s)"
    have "t \<notin> ml_consuming (ml_pcs s)" using Put(1) by (auto simp: ml_consuming_def)
    with same [of "ML_unlock ML_unit" t] ok
    have "ml_empty_check ?s = [] \<or> length (ml_log ?s) \<le> Suc (length (ml_taken ?s) + card (ml_consuming (ml_pcs ?s)))"
      and "finite (ml_consuming (ml_pcs ?s))"
      using finC by (auto simp: ml_put_def)
    with notify_empty_serves [OF ml_put_inv [OF inv Put(1,2)] Put(3)] show ?thesis by blast
  next
    case (Take t v i s1)
    from Take(3) ml_take_eq [OF inv Take(2)] have s1: "ml_pcs s1 = ml_pcs s" "ml_log s1 = ml_log s"
      "length (ml_taken s1) = Suc (length (ml_taken s))" "ml_empty_check s1 = ml_empty_check s" by auto
    have t: "t \<in> ml_consuming (ml_pcs s)" using Take(1) by (simp add: ml_consuming_def)
    have "ml_consuming (ml_pcs s') = ml_consuming (ml_pcs s) - {t}"
      using notify_full_consuming [OF ml_take_inv [OF inv _ Take(2,3), of t] Take(4)] Take(1)
      by (simp add: ml_consuming_upd s1(1))
    then have "card (ml_consuming (ml_pcs s)) = Suc (card (ml_consuming (ml_pcs s')))"
      using card.remove [OF finC t] by (simp only:)
    moreover have "ml_log s' = ml_log s" "length (ml_taken s') = Suc (length (ml_taken s))"
      "ml_empty_check s' = ml_empty_check s"
      using notify_keeps(2) [OF Take(4)] s1 by simp_all
    ultimately show ?thesis using ok by simp
  next
    case (Try_take t v s1)
    have "t \<notin> ml_consuming (ml_pcs s)" using Try_take(1) by (simp add: ml_consuming_def)
    with Try_take ml_take_eq [OF inv Try_take(2)] ok same [of _ t] show ?thesis by auto
  next
    case (Sleep_empty t)
    with ml_counts(2) [OF inv] show ?thesis by simp
  next
    case (Fail t)
    with alloc show ?thesis by simp
  next
    case (Wake_empty t)
    then have "ml_pcs s t = C_sleep" using inv by (auto simp: ml_inv_def ml_inv_sleep_def)
    moreover from this have "t \<notin> ml_consuming (ml_pcs s)" by (simp add: ml_consuming_def)
    ultimately show ?thesis using Wake_empty ok finC by (auto simp: ml_consuming_upd)
  next
    case (Wake_full t)
    then obtain v where "ml_pcs s t = P_sleep v" using inv by (auto simp: ml_inv_def ml_inv_sleep_def)
    with Wake_full ok same [of "P_lock v" t] show ?thesis by (simp add: ml_consuming_def)
  qed (use ok in \<open>simp_all add: same mem\<close>)
  with ml_move_finite [OF step fin] ml_inv_move [OF inv step] show ?thesis by (simp add: ml_served_def)
qed

interpretation mlock_served: invariant_system ml_init ml_alloc_move ml_served
  by unfold_locales (auto intro: ml_served_start ml_served_move)

text \<open>A notification leaves the threads alone that are awake.\<close>

lemma notify_empty_other:
  assumes "ml_inv s" and "notify_empty i s = Some s'" and "\<not> ml_asleep (ml_pcs s t)"
  shows "ml_pcs s' t = ml_pcs s t"
proof -
  have "t \<notin> set (ml_empty_check s)" using assms(1,3) by (auto simp: ml_inv_def ml_inv_sleep_def)
  with assms(2) show ?thesis by (auto simp: notify_empty_def Let_def split: if_splits)
qed

subsection \<open>A producer can be left behind\<close>

text \<open>Thread 1 has just produced \<open>k\<close> values and nothing else has happened.\<close>

definition ml_filled :: "nat \<Rightarrow> 'a ml \<Rightarrow> bool" where
  "ml_filled k s \<longleftrightarrow> length (ml_log s) = k \<and> ml_taken s = [] \<and> ml_m s = None \<and> ml_empty_check s = []
     \<and> ml_full_check s = [] \<and> ml_quiet (ml_pcs s 1) \<and> (\<forall>t. t \<noteq> 1 \<longrightarrow> ml_pcs s t = ML_idle)"

lemma ml_fill: "k \<le> 1024 \<Longrightarrow> \<exists>s :: 'a ml. reach ml_init ml_move s \<and> ml_filled k s"
proof (induction k)
  case 0
  have "reach ml_init ml_move (ml_new :: 'a ml)" by (rule reach.start) (simp add: ml_init_def)
  moreover have "ml_filled 0 (ml_new :: 'a ml)" by (simp add: ml_filled_def ml_new_def)
  ultimately show ?case by blast
next
  case (Suc k)
  then obtain s :: "'a ml" where s: "reach ml_init ml_move s" "ml_filled k s" by auto
  have "\<not> ml_full s" using ml_counts [OF mlock.reach_inv [OF s(1)]] s(2) Suc.prems by (simp add: ml_filled_def)
  then have "\<exists>s'. run ml_move [ML_call 1 (P_lock v), ML_produce 1 0, ML_produce 1 0, ML_release 1] s = Some s'
      \<and> ml_filled (Suc k) s'" for v
    using s(2) by (simp add: ml_filled_def produce_def ml_acquire_def ml_full_def ml_size_def notify_empty_def
        ml_release_def ml_put_def ml_goto_def)
  then show ?case using reach_run [OF s(1)] by blast
qed

text \<open>Thread 0 sleeps in \<open>produce\<close>, and thread 1 has taken \<open>k\<close> of the 1024 values with \<open>try_consume\<close>.\<close>

definition ml_drained :: "'a \<Rightarrow> nat \<Rightarrow> 'a ml \<Rightarrow> bool" where
  "ml_drained v k s \<longleftrightarrow> length (ml_log s) = 1024 \<and> length (ml_taken s) = k \<and> ml_m s = None \<and> ml_empty_check s = []
     \<and> ml_full_check s = [0] \<and> ml_pcs s 0 = P_sleep v \<and> ml_quiet (ml_pcs s 1) \<and> (\<forall>t. 1 < t \<longrightarrow> ml_pcs s t = ML_idle)"

lemma ml_drain: "k \<le> 1024 \<Longrightarrow> \<exists>s :: 'a ml. reach ml_init ml_move s \<and> ml_drained v k s"
proof (induction k)
  case 0
  obtain s :: "'a ml" where s: "reach ml_init ml_move s" "ml_filled 1024 s" using ml_fill [of 1024] by auto
  have "ml_full s" using ml_counts [OF mlock.reach_inv [OF s(1)]] s(2) by (simp add: ml_filled_def)
  then have "\<exists>s'. run ml_move [ML_call 0 (P_lock v), ML_produce 0 0, ML_produce 0 0] s = Some s' \<and> ml_drained v 0 s'"
    using s(2) by (simp add: ml_filled_def ml_drained_def produce_def ml_acquire_def ml_full_def ml_size_def ml_goto_def)
  then show ?case using reach_run [OF s(1)] by blast
next
  case (Suc k)
  then obtain s :: "'a ml" where s: "reach ml_init ml_move s" "ml_drained v k s" by auto
  note inv = mlock.reach_inv [OF s(1)]
  have ne: "\<not> ml_empty s" using ml_counts [OF inv] s(2) Suc.prems by (simp add: ml_drained_def)
  with ml_take_eq [OF inv ne]
  have "\<exists>s'. run ml_move [ML_call 1 TC_lock, ML_try_consume 1 True, ML_try_consume 1 True, ML_release 1] s = Some s'
      \<and> ml_drained v (Suc k) s'"
    using s(2) by (simp add: ml_drained_def try_consume_def ml_acquire_def ml_empty_def ml_take_def
        ml_release_def ml_goto_def split: option.splits)
  then show ?case using reach_run [OF s(1)] by blast
qed

lemmas ml_eval = ml_new_def produce_def consume_def try_produce_def try_consume_def ml_acquire_def ml_goto_def ml_full_def
  ml_size_def MAXSIZE_eq ml_put_def ml_mask_def notify_empty_def notify_full_def ml_release_def ml_empty_def ml_take_def Let_def

subsection \<open>Properties\<close>

text \<open>C10. The locked MPMC queue is first-in first-out and holds at most 1024 values, for any number
  of operations, the wrap-around of its 64-bit counters included: the values consumed so far are the
  first values produced, in order, and \<open>size()\<close> is the number of the values in between.\<close>

theorem mpmc_lock_first_in_first_out:
  assumes "reach ml_init ml_move s"
  shows "\<exists>waiting. ml_log s = ml_taken s @ waiting \<and> length waiting \<le> 1024 \<and> unat (ml_size s) = length waiting"
  using mlock.fifo_order [OF assms] mlock.fifo_bound [OF assms] ml_counts(5) [OF mlock.reach_inv [OF assms]]
  by (intro exI [of _ "contents (ml_abs s)"]) (simp add: ml_contents, simp add: ml_abs_def)

theorem mpmc_lock_first_in_first_out_witness:
  "\<exists>s :: nat ml. reach ml_init ml_move s \<and> ml_log s = [7, 8] \<and> ml_pcs s 2 = ML_returned (ML_ptr 7)
     \<and> unat (ml_size s) = 1"
proof -
  let ?produce = "\<lambda>v :: nat. [ML_call 1 (P_lock v), ML_produce 1 0, ML_produce 1 0, ML_release 1]"
  have "\<exists>s :: nat ml. reach ml_init ml_move s
      \<and> (ml_log s = [7, 8] \<and> ml_taken s = [7] \<and> ml_pcs s 2 = ML_returned (ML_ptr 7))"
    by (rule reach_witness [where s = ml_new and es = "?produce 7 @ ?produce 8
          @ [ML_call 2 C_lock, ML_consume 2 0 True, ML_consume 2 0 True, ML_release 2]"],
        simp add: ml_init_def, simp add: ml_eval)
  then obtain s :: "nat ml" where s: "reach ml_init ml_move s" "ml_log s = [7, 8]" "ml_taken s = [7]"
    "ml_pcs s 2 = ML_returned (ML_ptr 7)" by blast
  with mpmc_lock_first_in_first_out [OF s(1)] show ?thesis by (intro exI [of _ s]) auto
qed

text \<open>What the non-blocking operations of the locked queue do on every branch. \<open>try_produce\<close>
  throws exactly when 1024 values wait and appends its value otherwise; \<open>try_consume\<close> returns null
  exactly when none waits; when \<open>make_shared\<close> throws, the queue is as before; else the oldest value
  is delivered and removed.\<close>

theorem mpmc_lock_try_operations:
  assumes "reach ml_init ml_move s" and "ml_log s = ml_taken s @ waiting"
  shows "(ml_pcs s t = TP_body v \<and> try_produce t i s = Some s' \<longrightarrow>
       (if length waiting = 1024
        then ml_pcs s' t = ML_unlock ML_filled_buffer \<and> ml_abs s' = ml_abs s
        else ml_pcs s' t = ML_unlock ML_unit \<and> ml_log s' = ml_log s @ [v] \<and> ml_taken s' = ml_taken s))
     \<and> (ml_pcs s t = TC_body \<longrightarrow> (\<exists>s'. try_consume t alloc s = Some s' \<and>
       (if waiting = [] then ml_pcs s' t = ML_unlock ML_nullptr \<and> ml_abs s' = ml_abs s
        else if \<not> alloc then ml_pcs s' t = ML_unlock ML_bad_alloc \<and> ml_abs s' = ml_abs s
        else ml_pcs s' t = ML_unlock (ML_ptr (hd waiting)) \<and> ml_log s' = ml_log s
          \<and> ml_taken s' = ml_taken s @ [hd waiting])))"
proof -
  have inv: "ml_inv s" using assms(1) by (rule mlock.reach_inv)
  note n = ml_counts [OF inv]
  have full: "ml_full s \<longleftrightarrow> length waiting = 1024" and empty: "ml_empty s \<longleftrightarrow> waiting = []"
    using n(2,3) assms(2) by auto
  have put: "ml_pcs s' t = ML_unlock ML_unit \<and> ml_log s' = ml_log s @ [v] \<and> ml_taken s' = ml_taken s"
    if "ml_pcs s t = TP_body v" "\<not> ml_full s" "notify_empty i (ml_goto t (ML_unlock ML_unit) (ml_put v s)) = Some s'"
    for v s'
    using notify_empty_other [OF ml_put_inv [OF inv _ that(2), of t v] that(3), of t] notify_keeps(1) [OF that(3)] that(1)
    by (simp add: ml_put_def)
  show ?thesis
    using full empty put ml_take_eq [OF inv] assms(2)
    by (auto simp: try_produce_def try_consume_def ml_abs_def nth_append hd_conv_nth)
qed

theorem mpmc_lock_try_operations_witness:
  "\<exists>s s' :: nat ml. reach ml_init ml_move s \<and> try_consume 2 True s = Some s'
     \<and> ml_pcs s' 2 = ML_unlock (ML_ptr 7) \<and> ml_taken s' = [7]"
proof -
  have "\<exists>s :: nat ml. reach ml_init ml_move s \<and> (ml_log s = [7, 8] \<and> ml_taken s = [] \<and> ml_pcs s 2 = TC_body)"
    by (rule reach_witness [where s = ml_new and es = "[ML_call 1 (TP_lock 7), ML_try_produce 1 0, ML_try_produce 1 0,
          ML_release 1, ML_call 1 (TP_lock 8), ML_try_produce 1 0, ML_try_produce 1 0, ML_release 1,
          ML_call 2 TC_lock, ML_try_consume 2 True]"], simp add: ml_init_def, simp add: ml_eval)
  then obtain s :: "nat ml" where s: "reach ml_init ml_move s" "ml_log s = ml_taken s @ [7, 8]" "ml_taken s = []"
    "ml_pcs s 2 = TC_body" by auto
  from mpmc_lock_try_operations [OF s(1,2), of 2 _ _ _ True] s show ?thesis by auto
qed

text \<open>C13. No consumer of the locked queue is left behind, as long as \<open>make_shared\<close> never throws: if a thread
  sleeps in \<open>consume\<close>, every value that waits has a thread inside \<open>consume\<close> that is awake.\<close>

theorem mpmc_lock_consumers_served:
  assumes "reach ml_init ml_alloc_move s" and "ml_pcs s t = C_sleep" and "ml_log s = ml_taken s @ waiting"
  shows "length waiting \<le> card {u. ml_pcs s u = C_lock \<or> ml_pcs s u = C_body}"
proof -
  have served: "ml_served s" using assms(1) by (rule mlock_served.reach_inv)
  with assms(2) have "ml_empty_check s \<noteq> []" by (auto simp: ml_served_def ml_inv_def ml_inv_sleep_def)
  with served assms(3) show ?thesis by (simp add: ml_served_def ml_consuming_def)
qed

theorem mpmc_lock_consumers_served_witness:
  "\<exists>s :: nat ml. reach ml_init ml_alloc_move s \<and> ml_pcs s 3 = C_sleep \<and> ml_log s = [7]
     \<and> 1 \<le> card {u. ml_pcs s u = C_lock \<or> ml_pcs s u = C_body}"
proof -
  have "\<exists>s :: nat ml. reach ml_init ml_alloc_move s \<and> (ml_pcs s 3 = C_sleep \<and> ml_log s = [7] \<and> ml_taken s = [])"
    by (rule reach_witness [where s = ml_new and es = "[ML_call 2 C_lock, ML_consume 2 0 True, ML_consume 2 0 True,
          ML_call 3 C_lock, ML_consume 3 0 True, ML_consume 3 0 True,
          ML_call 1 (P_lock 7), ML_produce 1 0, ML_produce 1 0]"],
        simp add: ml_init_def, simp add: ml_eval ml_alloc_move_def)
  then obtain s :: "nat ml" where s: "reach ml_init ml_alloc_move s" "ml_pcs s 3 = C_sleep"
    "ml_log s = ml_taken s @ [7]" "ml_taken s = []" by auto
  with mpmc_lock_consumers_served [OF s(1-3)] show ?thesis by auto
qed

text \<open>A producer can be left behind: \<open>try_consume\<close> removes values without notifying
  \<open>full_check_\<close>, so a thread can sleep in \<open>produce\<close> on an empty queue, with the mutex free and every
  other thread outside the queue.\<close>

theorem mpmc_lock_producer_left_behind:
  "\<exists>s :: nat ml. reach ml_init ml_move s \<and> ml_pcs s 0 = P_sleep 7 \<and> ml_empty s \<and> ml_m s = None
     \<and> {t. \<not> ml_quiet (ml_pcs s t)} = {0}"
proof -
  obtain s :: "nat ml" where s: "reach ml_init ml_move s" "ml_drained 7 1024 s"
    using ml_drain [of 1024 7] by auto
  have "ml_empty s" using ml_counts(2) [OF mlock.reach_inv [OF s(1)]] s(2) by (simp add: ml_drained_def)
  moreover have "ml_quiet (ml_pcs s t)" if "t \<noteq> 0" for t
    using s(2) that by (cases "t = 1") (auto simp: ml_drained_def)
  then have "{t. \<not> ml_quiet (ml_pcs s t)} = {0}" using s(2) by (auto simp: ml_drained_def)
  ultimately show ?thesis using s by (intro exI [of _ s]) (auto simp: ml_drained_def)
qed

end
