(* ===== verification/Mpmc_Lock_Demo.thy ===== *)
theory Mpmc_Lock_Demo
  imports Mpmc_Lock
begin

text \<open>
  The program of \<open>concurrent_structures/mpmc_lock.cpp\<close>: \<open>main\<close> starts a thread that produces the numbers
  from 0 to 99 and one that consumes 100 values, and joins both. It is a client of the queue in
  \<open>Mpmc_Lock\<close>: every step of a call is a step of that model.
\<close>

subsection \<open>The program\<close>

text \<open>Where \<open>main\<close> is, and where the loop of \<open>add\<close> or of \<open>rem\<close> is: at its head with \<open>i\<close>, or in the call with \<open>i\<close>.\<close>

datatype main_pc = M_spawn_t | M_spawn_q | M_join_t | M_join_q | M_return

datatype loop_pc = D_none | D_loop nat | D_call nat | D_end

text \<open>
  \<open>demo_out1\<close> and \<open>demo_out2\<close> are the numbers that \<open>add\<close> and \<open>rem\<close> have written to \<open>std::cout\<close>; the pieces of
  the lines of the two may interleave. \<open>demo_dead\<close>: an exception has left a thread, which ends the program.
\<close>

record demo =
  demo_queue :: "nat ml"
  demo_main :: main_pc
  demo_add :: loop_pc
  demo_rem :: loop_pc
  demo_out1 :: "nat list"
  demo_out2 :: "nat list"
  demo_dead :: bool

text \<open>\<open>main\<close> after its call of \<open>get_instance\<close>, which constructs the queue.\<close>

definition demo_new :: demo where
  "demo_new = \<lparr>demo_queue = ml_new, demo_main = M_spawn_t, demo_add = D_none, demo_rem = D_none,
     demo_out1 = [], demo_out2 = [], demo_dead = False\<rparr>"

definition demo_init :: "demo \<Rightarrow> bool" where
  "demo_init s \<longleftrightarrow> s = demo_new"

definition in_queue :: "nat ml_event \<Rightarrow> demo \<Rightarrow> demo option" where
  "in_queue e s = map_option (\<lambda>q. s\<lparr>demo_queue := q\<rparr>) (ml_move e (demo_queue s))"

text \<open>\<open>add\<close> is thread 1, \<open>rem\<close> thread 2.\<close>

definition demo_add_step :: "nat \<Rightarrow> demo \<Rightarrow> demo option" where
  "demo_add_step n s =
     (case demo_add s of
        D_loop i \<Rightarrow>
          (if i < 100 then in_queue (ML_call 1 (P_lock i)) (s\<lparr>demo_add := D_call i\<rparr>)
           else Some (s\<lparr>demo_add := D_end\<rparr>))
      | D_call i \<Rightarrow>
          (case ml_pcs (demo_queue s) 1 of
             ML_returned r \<Rightarrow> Some (s\<lparr>demo_out1 := demo_out1 s @ [i], demo_add := D_loop (i + 1)\<rparr>)
           | ML_unlock r \<Rightarrow> in_queue (ML_release 1) s
           | _ \<Rightarrow> in_queue (ML_produce 1 n) s)
      | _ \<Rightarrow> None)"

text \<open>The exception of \<open>make_shared\<close> in \<open>consume\<close> is not caught.\<close>

definition demo_rem_step :: "nat \<Rightarrow> bool \<Rightarrow> demo \<Rightarrow> demo option" where
  "demo_rem_step n alloc s =
     (case demo_rem s of
        D_loop i \<Rightarrow>
          (if i < 100 then in_queue (ML_call 2 C_lock) (s\<lparr>demo_rem := D_call i\<rparr>)
           else Some (s\<lparr>demo_rem := D_end\<rparr>))
      | D_call i \<Rightarrow>
          (case ml_pcs (demo_queue s) 2 of
             ML_returned r \<Rightarrow>
               (case r of
                  ML_ptr v \<Rightarrow> Some (s\<lparr>demo_out2 := demo_out2 s @ [v], demo_rem := D_loop (i + 1)\<rparr>)
                | ML_bad_alloc \<Rightarrow> Some (s\<lparr>demo_dead := True\<rparr>)
                | _ \<Rightarrow> None)
           | ML_unlock r \<Rightarrow> in_queue (ML_release 2) s
           | _ \<Rightarrow> in_queue (ML_consume 2 n alloc) s)
      | _ \<Rightarrow> None)"

definition demo_main_step :: "demo \<Rightarrow> demo option" where
  "demo_main_step s =
     (case demo_main s of
        M_spawn_t \<Rightarrow> Some (s\<lparr>demo_add := D_loop 0, demo_main := M_spawn_q\<rparr>)
      | M_spawn_q \<Rightarrow> Some (s\<lparr>demo_rem := D_loop 0, demo_main := M_join_t\<rparr>)
      | M_join_t \<Rightarrow> if demo_add s = D_end then Some (s\<lparr>demo_main := M_join_q\<rparr>) else None
      | M_join_q \<Rightarrow> if demo_rem s = D_end then Some (s\<lparr>demo_main := M_return\<rparr>) else None
      | M_return \<Rightarrow> None)"

text \<open>
  The number is the sleeper that \<open>notify_one\<close> wakes, the flag tells whether \<open>make_shared\<close> finds memory;
  \<open>DM_spurious\<close> is a wake-up without a notification.
\<close>

datatype demo_event = DM_main | DM_add nat | DM_rem nat bool | DM_spurious tid

definition demo_move :: "demo_event \<Rightarrow> demo \<Rightarrow> demo option" where
  "demo_move e s =
     (if demo_dead s then None
      else case e of
        DM_main \<Rightarrow> demo_main_step s
      | DM_add n \<Rightarrow> demo_add_step n s
      | DM_rem n alloc \<Rightarrow> demo_rem_step n alloc s
      | DM_spurious t \<Rightarrow> in_queue (ML_spurious t) s)"

subsection \<open>What a step of one thread does in the queue\<close>

text \<open>The queue as the two threads leave it: no other thread is inside, and \<open>produce\<close> never waits for room.\<close>

definition two_threads :: "nat ml \<Rightarrow> bool" where
  "two_threads q \<longleftrightarrow> ml_inv q \<and> (\<forall>t. t \<noteq> 1 \<longrightarrow> t \<noteq> 2 \<longrightarrow> ml_pcs q t = ML_idle) \<and> ml_full_check q = []"

lemma two_threads_inv: "two_threads q \<Longrightarrow> ml_inv q"
  by (simp add: two_threads_def)

text \<open>A notification of \<open>empty_check_\<close> wakes \<open>rem\<close> if it sleeps.\<close>

lemma notify_empty_two:
  assumes "two_threads q" and "ml_pcs q 1 \<noteq> C_sleep" and "notify_empty n q = Some q'"
  shows "(ml_pcs q 2 \<noteq> C_sleep \<and> q' = q) \<or> (ml_pcs q 2 = C_sleep \<and> q' = ml_goto 2 C_lock (q\<lparr>ml_empty_check := []\<rparr>))"
proof -
  have iff: "t \<in> set (ml_empty_check q) \<longleftrightarrow> t = 2 \<and> ml_pcs q 2 = C_sleep" for t
    using assms(1,2) by (cases "t = 1"; cases "t = 2") (auto simp: two_threads_def ml_inv_def ml_inv_sleep_def)
  show ?thesis
  proof (cases "ml_empty_check q")
    case Nil
    with iff [of 2] assms(3) show ?thesis by (simp add: notify_empty_def)
  next
    case (Cons u us)
    have "distinct (ml_empty_check q)" using assms(1) by (simp add: two_threads_def ml_inv_def ml_inv_sleep_def)
    moreover have "u = 2" "ml_pcs q 2 = C_sleep" using iff [of u] Cons by auto
    moreover have "us = []"
    proof (rule ccontr)
      assume "us \<noteq> []"
      then obtain w where "w \<in> set us" using hd_in_set by blast
      with iff [of w] Cons \<open>u = 2\<close> \<open>distinct (ml_empty_check q)\<close> show False by simp
    qed
    ultimately show ?thesis using Cons assms(3) by (auto simp: notify_empty_def Let_def split: if_splits)
  qed
qed

lemma notify_full_two: "ml_full_check q = [] \<Longrightarrow> notify_full n q = Some q' \<longleftrightarrow> q' = q"
  by (auto simp: notify_full_def)

text \<open>The steps of \<open>produce\<close> when there is room, and of \<open>consume\<close>.\<close>

lemma produce_two:
  assumes "two_threads q" and "\<not> ml_full q" and "produce 1 n q = Some q'"
  shows "(\<exists>v. ml_pcs q 1 = P_lock v \<and> ml_m q = None \<and> q' = ml_goto 1 (P_body v) (q\<lparr>ml_m := Some 1\<rparr>))
    \<or> (\<exists>v. ml_pcs q 1 = P_body v \<and>
        (let q1 = ml_goto 1 (ML_unlock ML_unit) (ml_put v q) in
         (ml_pcs q 2 \<noteq> C_sleep \<and> q' = q1) \<or> (ml_pcs q 2 = C_sleep \<and> q' = ml_goto 2 C_lock (q1\<lparr>ml_empty_check := []\<rparr>))))"
proof (cases "ml_pcs q 1")
  case (P_body v)
  let ?q = "ml_goto 1 (ML_unlock ML_unit) (ml_put v q)"
  have "two_threads ?q"
    using assms(1) ml_put_inv [of q 1 v] P_body assms(2) by (simp add: two_threads_def ml_put_def)
  moreover have "notify_empty n ?q = Some q'" using assms(2,3) P_body by (simp add: produce_def)
  moreover have "ml_pcs ?q 1 \<noteq> C_sleep" by simp
  ultimately have "(ml_pcs ?q 2 \<noteq> C_sleep \<and> q' = ?q) \<or> (ml_pcs ?q 2 = C_sleep \<and> q' = ml_goto 2 C_lock (?q\<lparr>ml_empty_check := []\<rparr>))"
    by (intro notify_empty_two)
  with P_body show ?thesis by (simp add: Let_def ml_put_def)
qed (use assms(3) in \<open>simp_all add: produce_def ml_acquire_def split: if_splits\<close>)

lemma consume_two:
  assumes "two_threads q" and "consume 2 n alloc q = Some q'"
  shows "(ml_pcs q 2 = C_lock \<and> ml_m q = None \<and> q' = ml_goto 2 C_body (q\<lparr>ml_m := Some 2\<rparr>))
    \<or> (ml_pcs q 2 = C_body \<and> ml_empty q \<and> q' = ml_goto 2 C_sleep (q\<lparr>ml_m := None, ml_empty_check := ml_empty_check q @ [2]\<rparr>))
    \<or> (ml_pcs q 2 = C_body \<and> \<not> ml_empty q \<and> \<not> alloc \<and> q' = ml_goto 2 (ML_unlock ML_bad_alloc) q)
    \<or> (ml_pcs q 2 = C_body \<and> \<not> ml_empty q \<and> alloc \<and> (let v = ml_log q ! length (ml_taken q) in
        q' = ml_goto 2 (ML_unlock (ML_ptr v)) (q\<lparr>ml_in := ml_in q + 1, ml_taken := ml_taken q @ [v]\<rparr>)))"
proof (cases "ml_pcs q 2")
  case C_body
  show ?thesis
  proof (cases "ml_empty q")
    case False
    note take = ml_take_eq [OF two_threads_inv [OF assms(1)] False]
    have "ml_full_check q = []" using assms(1) by (simp add: two_threads_def)
    then have "notify_full n (ml_goto 2 (ML_unlock (ML_ptr (ml_log q ! length (ml_taken q))))
        (q\<lparr>ml_in := ml_in q + 1, ml_taken := ml_taken q @ [ml_log q ! length (ml_taken q)]\<rparr>)) = Some q' \<longleftrightarrow>
        q' = ml_goto 2 (ML_unlock (ML_ptr (ml_log q ! length (ml_taken q))))
          (q\<lparr>ml_in := ml_in q + 1, ml_taken := ml_taken q @ [ml_log q ! length (ml_taken q)]\<rparr>)"
      by (intro notify_full_two) simp
    with C_body False assms(2) take show ?thesis by (simp add: consume_def Let_def split: if_splits)
  qed (use C_body assms(2) in \<open>simp add: consume_def\<close>)
qed (use assms(2) in \<open>simp_all add: consume_def ml_acquire_def split: if_splits\<close>)

subsection \<open>The invariant and the rank\<close>

text \<open>What each thread has done by where it is: the numbers below \<open>i\<close> are in the log, or taken, and written.\<close>

fun demo_inv_add :: "loop_pc \<Rightarrow> nat ml_pc \<Rightarrow> nat list \<Rightarrow> nat list \<Rightarrow> bool" where
  "demo_inv_add D_none p vs out \<longleftrightarrow> p = ML_idle \<and> vs = [] \<and> out = []"
| "demo_inv_add (D_loop i) p vs out \<longleftrightarrow> i \<le> 100 \<and> ml_quiet p \<and> vs = [0..<i] \<and> out = [0..<i]"
| "demo_inv_add (D_call i) p vs out \<longleftrightarrow> i < 100 \<and> out = [0..<i]
     \<and> (if p = P_lock i \<or> p = P_body i then vs = [0..<i]
        else (p = ML_unlock ML_unit \<or> p = ML_returned ML_unit) \<and> vs = [0..<Suc i])"
| "demo_inv_add D_end p vs out \<longleftrightarrow> ml_quiet p \<and> vs = [0..<100] \<and> out = [0..<100]"

definition out_of_memory :: "nat ml_pc \<Rightarrow> bool" where
  "out_of_memory p \<longleftrightarrow> p = ML_unlock ML_bad_alloc \<or> p = ML_returned ML_bad_alloc"

fun demo_inv_rem :: "loop_pc \<Rightarrow> nat ml_pc \<Rightarrow> nat list \<Rightarrow> nat list \<Rightarrow> bool" where
  "demo_inv_rem D_none p ws out \<longleftrightarrow> p = ML_idle \<and> ws = [] \<and> out = []"
| "demo_inv_rem (D_loop i) p ws out \<longleftrightarrow> i \<le> 100 \<and> ml_quiet p \<and> \<not> out_of_memory p \<and> ws = out \<and> length out = i"
| "demo_inv_rem (D_call i) p ws out \<longleftrightarrow> i < 100 \<and> length out = i
     \<and> (if p = C_lock \<or> p = C_body \<or> p = C_sleep \<or> out_of_memory p then ws = out
        else \<exists>v. (p = ML_unlock (ML_ptr v) \<or> p = ML_returned (ML_ptr v)) \<and> ws = out @ [v])"
| "demo_inv_rem D_end p ws out \<longleftrightarrow> ml_quiet p \<and> \<not> out_of_memory p \<and> ws = out \<and> length out = 100"

definition demo_inv_main :: "main_pc \<Rightarrow> loop_pc \<Rightarrow> loop_pc \<Rightarrow> bool" where
  "demo_inv_main m a r \<longleftrightarrow> (a = D_none \<longleftrightarrow> m = M_spawn_t) \<and> (r = D_none \<longleftrightarrow> m = M_spawn_t \<or> m = M_spawn_q)
     \<and> (m = M_join_q \<or> m = M_return \<longrightarrow> a = D_end) \<and> (m = M_return \<longrightarrow> r = D_end)"

definition demo_inv :: "demo \<Rightarrow> bool" where
  "demo_inv s \<longleftrightarrow> (let q = demo_queue s in two_threads q
     \<and> demo_inv_add (demo_add s) (ml_pcs q 1) (ml_log q) (demo_out1 s)
     \<and> demo_inv_rem (demo_rem s) (ml_pcs q 2) (ml_taken q) (demo_out2 s)
     \<and> demo_inv_main (demo_main s) (demo_add s) (demo_rem s)
     \<and> (ml_served q \<or> out_of_memory (ml_pcs q 2)))"

text \<open>
  The steps a thread has left, if it does not sleep again. Going to sleep and waking up costs \<open>rem\<close> two
  steps more, which \<open>add\<close> pays for in the step that notifies.
\<close>

fun add_rank :: "loop_pc \<Rightarrow> nat ml_pc \<Rightarrow> nat" where
  "add_rank D_none p = 701"
| "add_rank (D_loop i) p = 7 * (100 - i) + 1"
| "add_rank (D_call i) p = 7 * (99 - i) + (case p of P_lock v \<Rightarrow> 7 | P_body v \<Rightarrow> 6 | ML_unlock r \<Rightarrow> 3 | _ \<Rightarrow> 2)"
| "add_rank D_end p = 0"

fun rem_rank :: "loop_pc \<Rightarrow> nat ml_pc \<Rightarrow> nat" where
  "rem_rank D_none p = 501"
| "rem_rank (D_loop i) p = 5 * (100 - i) + 1"
| "rem_rank (D_call i) p = 5 * (99 - i) + (case p of C_lock \<Rightarrow> 5 | C_body \<Rightarrow> 4 | C_sleep \<Rightarrow> 3 | ML_unlock r \<Rightarrow> 3 | _ \<Rightarrow> 2)"
| "rem_rank D_end p = 0"

fun main_rank :: "main_pc \<Rightarrow> nat" where
  "main_rank M_spawn_t = 4"
| "main_rank M_spawn_q = 3"
| "main_rank M_join_t = 2"
| "main_rank M_join_q = 1"
| "main_rank M_return = 0"

definition demo_rank :: "demo \<Rightarrow> nat" where
  "demo_rank s = (if demo_dead s then 0 else main_rank (demo_main s) + add_rank (demo_add s) (ml_pcs (demo_queue s) 1)
     + rem_rank (demo_rem s) (ml_pcs (demo_queue s) 2))"

lemma demo_inv_start: "demo_inv demo_new"
  by (simp add: demo_inv_def demo_new_def two_threads_def ml_inv_start ml_served_start ml_init_def demo_inv_main_def)
    (simp add: ml_new_def)

lemma demo_rank_start: "demo_rank demo_new = 1206"
  by (simp add: demo_rank_def demo_new_def)

lemma demo_inv_room:
  assumes "two_threads q" and "demo_inv_add c p (ml_log q) out"
  shows "\<not> ml_full q"
proof -
  have "length (ml_log q) \<le> 100" using assms(2) by (cases c) (auto split: if_splits)
  with ml_counts(3) [OF two_threads_inv [OF assms(1)]] show ?thesis by simp
qed

lemma wake_rem: "demo_inv_rem c C_sleep ws out \<Longrightarrow> demo_inv_rem c C_lock ws out \<and> rem_rank c C_lock \<le> rem_rank c C_sleep + 2"
  by (cases c) auto

text \<open>A step of either thread in the queue keeps what the threads know of it.\<close>

lemma two_threads_move:
  assumes "two_threads q" and "ml_move e q = Some q'"
    and "ml_full_check q' = ml_full_check q" and "\<And>t. t \<noteq> 1 \<Longrightarrow> t \<noteq> 2 \<Longrightarrow> ml_pcs q' t = ml_pcs q t"
  shows "two_threads q'"
  using assms ml_inv_move [OF two_threads_inv [OF assms(1)] assms(2)] by (simp add: two_threads_def)

lemma ml_served_alloc: "ml_served q \<Longrightarrow> ml_move e q = Some q' \<Longrightarrow> \<not> ml_alloc_fails e \<Longrightarrow> ml_served q'"
  by (rule ml_served_move) (auto simp: ml_alloc_move_def)


lemma add_queue_step:
  assumes inv: "demo_inv s" "\<not> demo_dead s" and e: "ml_move e (demo_queue s) = Some q'" "\<not> ml_alloc_fails e"
    and q': "ml_full_check q' = ml_full_check (demo_queue s)" "ml_taken q' = ml_taken (demo_queue s)"
    and P: "ml_pcs q' = (ml_pcs (demo_queue s))(1 := p)
      \<or> ml_pcs (demo_queue s) 2 = C_sleep \<and> ml_pcs q' = (ml_pcs (demo_queue s))(1 := p, 2 := C_lock)
        \<and> add_rank a p + 2 < add_rank (demo_add s) (ml_pcs (demo_queue s) 1)"
    and a: "demo_inv_add a p (ml_log q') (demo_out1 s)" "demo_inv_main (demo_main s) a (demo_rem s)"
      "add_rank a p < add_rank (demo_add s) (ml_pcs (demo_queue s) 1)"
  shows "demo_inv (s\<lparr>demo_queue := q', demo_add := a\<rparr>) \<and> demo_rank (s\<lparr>demo_queue := q', demo_add := a\<rparr>) < demo_rank s"
proof -
  let ?q = "demo_queue s"
  have two: "two_threads ?q" and rem: "demo_inv_rem (demo_rem s) (ml_pcs ?q 2) (ml_taken ?q) (demo_out2 s)"
    and ok: "ml_served ?q \<or> out_of_memory (ml_pcs ?q 2)"
    using inv(1) by (simp_all add: demo_inv_def Let_def)
  have p1: "ml_pcs q' 1 = p" using P by auto
  have p2: "ml_pcs q' 2 = ml_pcs ?q 2 \<or> ml_pcs ?q 2 = C_sleep \<and> ml_pcs q' 2 = C_lock
      \<and> add_rank a p + 2 < add_rank (demo_add s) (ml_pcs ?q 1)" using P by auto
  have two': "two_threads q'"
  proof (rule two_threads_move [OF two e(1) q'(1)])
    show "ml_pcs q' t = ml_pcs ?q t" if "t \<noteq> 1" "t \<noteq> 2" for t using P that by auto
  qed
  have ok': "ml_served q' \<or> out_of_memory (ml_pcs q' 2)"
    using ok p2 ml_served_alloc [OF _ e] by (auto simp: out_of_memory_def)
  show ?thesis
  proof (cases "ml_pcs q' 2 = ml_pcs ?q 2")
    case True
    with two' ok' rem a p1 q'(2) inv(2) show ?thesis by (simp add: demo_inv_def demo_rank_def)
  next
    case False
    with p2 have w: "ml_pcs ?q 2 = C_sleep" "ml_pcs q' 2 = C_lock" "add_rank a p + 2 < add_rank (demo_add s) (ml_pcs ?q 1)" by auto
    with rem wake_rem [of "demo_rem s" "ml_taken ?q" "demo_out2 s"]
    have "demo_inv_rem (demo_rem s) C_lock (ml_taken ?q) (demo_out2 s)" "rem_rank (demo_rem s) C_lock \<le> rem_rank (demo_rem s) C_sleep + 2"
      by simp_all
    with two' ok' w a p1 q'(2) inv(2) show ?thesis by (simp add: demo_inv_def demo_rank_def)
  qed
qed

lemma demo_add_step_ok:
  assumes inv: "demo_inv s" "\<not> demo_dead s" and "demo_add_step n s = Some s'"
  shows "demo_inv s' \<and> demo_rank s' < demo_rank s"
proof -
  let ?q = "demo_queue s"
  have two: "two_threads ?q" and add: "demo_inv_add (demo_add s) (ml_pcs ?q 1) (ml_log ?q) (demo_out1 s)"
    and main: "demo_inv_main (demo_main s) (demo_add s) (demo_rem s)"
    using inv(1) by (simp_all add: demo_inv_def Let_def)
  note room = demo_inv_room [OF two add]
  show ?thesis
  proof (cases "demo_add s")
    case (D_loop i)
    show ?thesis
    proof (cases "i < 100")
      case True
      let ?q' = "ml_goto 1 (P_lock i) ?q"
      have q: "ml_move (ML_call 1 (P_lock i)) ?q = Some ?q'" and s': "s' = s\<lparr>demo_queue := ?q', demo_add := D_call i\<rparr>"
        using assms(3) D_loop True add by (auto simp: demo_add_step_def in_queue_def)
      show ?thesis unfolding s'
        by (rule add_queue_step [OF inv q, where p = "P_lock i"]) (use D_loop add main True in \<open>auto simp: demo_inv_main_def\<close>)
    next
      case False
      with D_loop assms(3) have s': "s' = s\<lparr>demo_add := D_end\<rparr>" by (simp add: demo_add_step_def)
      from D_loop False add have "i = 100" by simp
      with inv D_loop main show ?thesis by (auto simp: s' demo_inv_def demo_rank_def Let_def demo_inv_main_def)
    qed
  next
    case (D_call i)
    have main': "demo_inv_main (demo_main s) (D_call i) (demo_rem s)" using main D_call by simp
    consider (prod) "ml_pcs ?q 1 = P_lock i \<or> ml_pcs ?q 1 = P_body i"
      | (unl) "ml_pcs ?q 1 = ML_unlock ML_unit" | (ret) "ml_pcs ?q 1 = ML_returned ML_unit"
      using add D_call by (auto split: if_splits)
    then show ?thesis
    proof cases
      case prod
      then obtain q' where e: "ml_move (ML_produce 1 n) ?q = Some q'" and s': "s' = s\<lparr>demo_queue := q'\<rparr>"
        using assms(3) D_call by (auto simp: demo_add_step_def in_queue_def)
      have s'': "s' = s\<lparr>demo_queue := q', demo_add := D_call i\<rparr>" using s' D_call by simp
      have "produce 1 n ?q = Some q'" using e by simp
      from produce_two [OF two room this] show ?thesis
      proof (elim disjE exE conjE)
        fix v assume v: "ml_pcs ?q 1 = P_lock v" "q' = ml_goto 1 (P_body v) (?q\<lparr>ml_m := Some 1\<rparr>)"
        with prod have "v = i" by auto
        show ?thesis unfolding s''
          by (rule add_queue_step [OF inv e, where p = "P_body i"]) (use v add D_call main' \<open>v = i\<close> in simp_all)
      next
        fix v assume v: "ml_pcs ?q 1 = P_body v" "let q1 = ml_goto 1 (ML_unlock ML_unit) (ml_put v ?q) in
            ml_pcs ?q 2 \<noteq> C_sleep \<and> q' = q1 \<or> ml_pcs ?q 2 = C_sleep \<and> q' = ml_goto 2 C_lock (q1\<lparr>ml_empty_check := []\<rparr>)"
        with prod have "v = i" by auto
        show ?thesis unfolding s''
          by (rule add_queue_step [OF inv e, where p = "ML_unlock ML_unit"])
            (use v add D_call main' \<open>v = i\<close> in \<open>auto simp: Let_def ml_put_def\<close>)
      qed
    next
      case unl
      let ?q' = "ml_goto 1 (ML_returned ML_unit) (?q\<lparr>ml_m := None\<rparr>)"
      have e: "ml_move (ML_release 1) ?q = Some ?q'" using unl by (simp add: ml_release_def)
      have s': "s' = s\<lparr>demo_queue := ?q', demo_add := D_call i\<rparr>"
        using assms(3) D_call unl e by (auto simp: demo_add_step_def in_queue_def)
      show ?thesis unfolding s'
        by (rule add_queue_step [OF inv e, where p = "ML_returned ML_unit"]) (use unl add D_call main' in simp_all)
    next
      case ret
      with D_call assms(3) have s': "s' = s\<lparr>demo_out1 := demo_out1 s @ [i], demo_add := D_loop (i + 1)\<rparr>"
        by (simp add: demo_add_step_def)
      with inv D_call ret main show ?thesis by (auto simp: demo_inv_def demo_rank_def Let_def demo_inv_main_def)
    qed
  qed (use assms(3) in \<open>simp_all add: demo_add_step_def\<close>)
qed

lemma rem_queue_step:
  assumes inv: "demo_inv s" "\<not> demo_dead s" and e: "ml_move e (demo_queue s) = Some q'"
    and ok: "out_of_memory p \<or> \<not> ml_alloc_fails e \<and> \<not> out_of_memory (ml_pcs (demo_queue s) 2)"
    and q': "ml_full_check q' = ml_full_check (demo_queue s)" "ml_log q' = ml_log (demo_queue s)"
      "ml_pcs q' = (ml_pcs (demo_queue s))(2 := p)"
    and r: "demo_inv_rem r p (ml_taken q') (demo_out2 s)" "demo_inv_main (demo_main s) (demo_add s) r"
      "rem_rank r p < rem_rank (demo_rem s) (ml_pcs (demo_queue s) 2)"
  shows "demo_inv (s\<lparr>demo_queue := q', demo_rem := r\<rparr>) \<and> demo_rank (s\<lparr>demo_queue := q', demo_rem := r\<rparr>) < demo_rank s"
proof -
  let ?q = "demo_queue s"
  have two: "two_threads ?q" and add: "demo_inv_add (demo_add s) (ml_pcs ?q 1) (ml_log ?q) (demo_out1 s)"
    and srv: "ml_served ?q \<or> out_of_memory (ml_pcs ?q 2)"
    using inv(1) by (simp_all add: demo_inv_def Let_def)
  have two': "two_threads q'"
    by (rule two_threads_move [OF two e q'(1)]) (simp add: q'(3))
  have "ml_served q' \<or> out_of_memory (ml_pcs q' 2)"
    using ok srv ml_served_alloc [OF _ e] by (auto simp: q'(3))
  with two' add r inv(2) q' show ?thesis by (simp add: demo_inv_def demo_rank_def)
qed

lemma demo_rem_step_ok:
  assumes inv: "demo_inv s" "\<not> demo_dead s" and "demo_rem_step n alloc s = Some s'"
  shows "demo_inv s' \<and> demo_rank s' < demo_rank s"
proof -
  let ?q = "demo_queue s"
  have two: "two_threads ?q" and rem: "demo_inv_rem (demo_rem s) (ml_pcs ?q 2) (ml_taken ?q) (demo_out2 s)"
    and main: "demo_inv_main (demo_main s) (demo_add s) (demo_rem s)"
    using inv(1) by (simp_all add: demo_inv_def Let_def)
  show ?thesis
  proof (cases "demo_rem s")
    case (D_loop i)
    show ?thesis
    proof (cases "i < 100")
      case True
      let ?q' = "ml_goto 2 C_lock ?q"
      have q: "ml_move (ML_call 2 C_lock) ?q = Some ?q'" and s': "s' = s\<lparr>demo_queue := ?q', demo_rem := D_call i\<rparr>"
        using assms(3) D_loop True rem by (auto simp: demo_rem_step_def in_queue_def)
      show ?thesis unfolding s'
        by (rule rem_queue_step [OF inv q, where p = C_lock]) (use D_loop rem main True in \<open>auto simp: demo_inv_main_def\<close>)
    next
      case False
      with D_loop assms(3) have s': "s' = s\<lparr>demo_rem := D_end\<rparr>" by (simp add: demo_rem_step_def)
      from D_loop False rem have "i = 100" by simp
      with inv D_loop main show ?thesis by (auto simp: s' demo_inv_def demo_rank_def Let_def demo_inv_main_def)
    qed
  next
    case (D_call i)
    have main': "demo_inv_main (demo_main s) (demo_add s) (D_call i)" using main D_call by simp
    consider (cons) "ml_pcs ?q 2 = C_lock \<or> ml_pcs ?q 2 = C_body \<or> ml_pcs ?q 2 = C_sleep"
      | (unl) r where "ml_pcs ?q 2 = ML_unlock r" | (ret) v where "ml_pcs ?q 2 = ML_returned (ML_ptr v)"
      | (bad) "ml_pcs ?q 2 = ML_returned ML_bad_alloc"
      using rem D_call by (auto simp: out_of_memory_def split: if_splits)
    then show ?thesis
    proof cases
      case cons
      then obtain q' where e: "ml_move (ML_consume 2 n alloc) ?q = Some q'" and "s' = s\<lparr>demo_queue := q'\<rparr>"
        using assms(3) D_call by (auto simp: demo_rem_step_def in_queue_def)
      then have s': "s' = s\<lparr>demo_queue := q', demo_rem := D_call i\<rparr>" using D_call by simp
      have any: "ml_move (ML_consume 2 n True) ?q = Some q'" if "ml_pcs ?q 2 = C_lock \<or> ml_empty ?q"
        using that e cons by (auto simp: consume_def)
      have out: "ml_taken ?q = demo_out2 s" "length (demo_out2 s) = i" "i < 100" using rem D_call cons by (auto split: if_splits)
      have not: "\<not> out_of_memory (ml_pcs ?q 2)" using cons by (auto simp: out_of_memory_def)
      have "consume 2 n alloc ?q = Some q'" using e by simp
      from consume_two [OF two this] show ?thesis
      proof (elim disjE conjE)
        assume v: "ml_pcs ?q 2 = C_lock" "q' = ml_goto 2 C_body (?q\<lparr>ml_m := Some 2\<rparr>)"
        from any v(1) have e': "ml_move (ML_consume 2 n True) ?q = Some q'" by simp
        show ?thesis unfolding s'
          by (rule rem_queue_step [OF inv e', where p = C_body]) (use v out not D_call main' in simp_all)
      next
        assume v: "ml_pcs ?q 2 = C_body" "ml_empty ?q"
          "q' = ml_goto 2 C_sleep (?q\<lparr>ml_m := None, ml_empty_check := ml_empty_check ?q @ [2]\<rparr>)"
        from any v(2) have e': "ml_move (ML_consume 2 n True) ?q = Some q'" by simp
        show ?thesis unfolding s'
          by (rule rem_queue_step [OF inv e', where p = C_sleep]) (use v out not D_call main' in simp_all)
      next
        assume v: "ml_pcs ?q 2 = C_body" "q' = ml_goto 2 (ML_unlock ML_bad_alloc) ?q"
        show ?thesis unfolding s'
          by (rule rem_queue_step [OF inv e, where p = "ML_unlock ML_bad_alloc"])
            (use v out not D_call main' in \<open>simp_all add: out_of_memory_def\<close>)
      next
        let ?v = "ml_log ?q ! length (ml_taken ?q)"
        assume v: "ml_pcs ?q 2 = C_body" "alloc" "let v = ?v in
            q' = ml_goto 2 (ML_unlock (ML_ptr v)) (?q\<lparr>ml_in := ml_in ?q + 1, ml_taken := ml_taken ?q @ [v]\<rparr>)"
        show ?thesis unfolding s'
          by (rule rem_queue_step [OF inv e, where p = "ML_unlock (ML_ptr ?v)"])
            (use v out not D_call main' in \<open>simp_all add: out_of_memory_def Let_def\<close>)
      qed
    next
      case (unl r)
      let ?q' = "ml_goto 2 (ML_returned r) (?q\<lparr>ml_m := None\<rparr>)"
      have e: "ml_move (ML_release 2) ?q = Some ?q'" using unl by (simp add: ml_release_def)
      have s': "s' = s\<lparr>demo_queue := ?q', demo_rem := D_call i\<rparr>"
        using assms(3) D_call unl e by (auto simp: demo_rem_step_def in_queue_def)
      show ?thesis unfolding s'
        by (rule rem_queue_step [OF inv e, where p = "ML_returned r"])
          (use unl rem D_call main' in \<open>auto simp: out_of_memory_def split: if_splits\<close>)
    next
      case (ret v)
      with D_call assms(3) have s': "s' = s\<lparr>demo_out2 := demo_out2 s @ [v], demo_rem := D_loop (i + 1)\<rparr>"
        by (simp add: demo_rem_step_def)
      from ret rem D_call have "ml_taken ?q = demo_out2 s @ [v]" "length (demo_out2 s) = i" "i < 100"
        by (auto simp: out_of_memory_def)
      with inv D_call ret main show ?thesis
        by (simp add: s' demo_inv_def demo_rank_def Let_def demo_inv_main_def out_of_memory_def)
    next
      case bad
      with D_call assms(3) have s': "s' = s\<lparr>demo_dead := True\<rparr>" by (simp add: demo_rem_step_def)
      with inv D_call bad show ?thesis by (simp add: demo_inv_def demo_rank_def Let_def out_of_memory_def)
    qed
  qed (use assms(3) in \<open>simp_all add: demo_rem_step_def\<close>)
qed

lemma demo_main_step_ok:
  assumes "demo_inv s" "\<not> demo_dead s" and "demo_main_step s = Some s'"
  shows "demo_inv s' \<and> demo_rank s' < demo_rank s"
  using assms by (cases "demo_main s")
    (auto simp: demo_main_step_def demo_inv_def demo_rank_def Let_def demo_inv_main_def out_of_memory_def split: if_splits)

lemma demo_spurious_ok:
  assumes inv: "demo_inv s" "\<not> demo_dead s" and "in_queue (ML_spurious t) s = Some s'"
  shows "demo_inv s' \<and> demo_rank s' \<le> demo_rank s + 2"
proof -
  let ?q = "demo_queue s"
  have two: "two_threads ?q" and add: "demo_inv_add (demo_add s) (ml_pcs ?q 1) (ml_log ?q) (demo_out1 s)"
    and rem: "demo_inv_rem (demo_rem s) (ml_pcs ?q 2) (ml_taken ?q) (demo_out2 s)"
    and srv: "ml_served ?q \<or> out_of_memory (ml_pcs ?q 2)"
    using inv(1) by (simp_all add: demo_inv_def Let_def)
  from assms(3) obtain q' where e: "ml_move (ML_spurious t) ?q = Some q'" and s': "s' = s\<lparr>demo_queue := q'\<rparr>"
    by (auto simp: in_queue_def)
  with two have t: "t \<in> set (ml_empty_check ?q)"
    and q': "q' = ml_goto t (ml_awake (ml_pcs ?q t)) (?q\<lparr>ml_empty_check := remove1 t (ml_empty_check ?q)\<rparr>)"
    by (auto simp: ml_spurious_wakeup_def two_threads_def split: if_splits)
  have sleep: "ml_pcs ?q t = C_sleep" using t two by (auto simp: two_threads_def ml_inv_def ml_inv_sleep_def)
  moreover have "ml_pcs ?q 1 \<noteq> C_sleep" using add by (cases "demo_add s") (auto split: if_splits)
  moreover have "ml_pcs ?q t = ML_idle" if "t \<noteq> 1" "t \<noteq> 2" using two that by (simp add: two_threads_def)
  ultimately have t2: "t = 2" by (cases "t = 1"; cases "t = 2") auto
  have "two_threads q'" by (rule two_threads_move [OF two e]) (simp_all add: q' t2)
  moreover have "ml_served q'" using srv sleep t2 ml_served_alloc [OF _ e] by (auto simp: out_of_memory_def)
  ultimately show ?thesis
    using inv add rem wake_rem [of "demo_rem s" "ml_taken ?q" "demo_out2 s"] sleep
    by (simp add: s' q' t2 demo_inv_def demo_rank_def Let_def)
qed

fun demo_spurious :: "demo_event \<Rightarrow> bool" where
  "demo_spurious (DM_spurious t) = True"
| "demo_spurious _ = False"

lemma demo_move_ok:
  assumes "demo_inv s" and "demo_move e s = Some s'"
  shows "demo_inv s'" and "demo_rank s' + 1 \<le> demo_rank s + (if demo_spurious e then 3 else 0)"
proof -
  from assms(2) have alive: "\<not> demo_dead s" by (simp add: demo_move_def split: if_splits)
  with assms have "demo_inv s' \<and> demo_rank s' + 1 \<le> demo_rank s + (if demo_spurious e then 3 else 0)"
    by (cases e) (auto simp: demo_move_def Suc_le_eq dest: demo_main_step_ok demo_add_step_ok demo_rem_step_ok demo_spurious_ok)
  then show "demo_inv s'" and "demo_rank s' + 1 \<le> demo_rank s + (if demo_spurious e then 3 else 0)" by auto
qed

interpretation mlock_demo: ranked_system demo_init demo_move demo_inv demo_rank demo_spurious 3
  by unfold_locales (auto simp: demo_init_def demo_inv_start simp del: demo_spurious.simps dest: demo_move_ok)

subsection \<open>No deadlock\<close>

lemma rem_enabled:
  assumes "demo_inv s" and "demo_rem s = D_call i" and "ml_pcs (demo_queue s) 2 \<noteq> C_sleep"
    and "ml_holds (ml_pcs (demo_queue s) 2) \<or> ml_m (demo_queue s) = None"
  shows "demo_rem_step 0 True s \<noteq> None"
proof -
  let ?q = "demo_queue s"
  have two: "two_threads ?q" and rem: "demo_inv_rem (D_call i) (ml_pcs ?q 2) (ml_taken ?q) (demo_out2 s)"
    using assms(1,2) by (simp_all add: demo_inv_def Let_def)
  have body: "consume 2 0 True ?q \<noteq> None" if "ml_pcs ?q 2 = C_body"
  proof (cases "ml_empty ?q")
    case False
    have "ml_full_check ?q = []" using two by (simp add: two_threads_def)
    with that False ml_take_eq [OF two_threads_inv [OF two] False] show ?thesis
      by (simp add: consume_def notify_full_def)
  qed (use that in \<open>simp add: consume_def\<close>)
  consider "ml_pcs ?q 2 = C_lock" | "ml_pcs ?q 2 = C_body" | r where "ml_pcs ?q 2 = ML_unlock r"
    | v where "ml_pcs ?q 2 = ML_returned (ML_ptr v)" | "ml_pcs ?q 2 = ML_returned ML_bad_alloc"
    using rem assms(3) by (auto simp: out_of_memory_def split: if_splits)
  then show ?thesis
    by cases (use assms(2,4) body in \<open>auto simp: demo_rem_step_def in_queue_def consume_def ml_acquire_def ml_release_def\<close>)
qed

lemma add_enabled:
  assumes "demo_inv s" and "demo_add s = D_call i"
    and "ml_holds (ml_pcs (demo_queue s) 1) \<or> ml_m (demo_queue s) = None"
  shows "demo_add_step 0 s \<noteq> None"
proof -
  let ?q = "demo_queue s"
  have two: "two_threads ?q" and add: "demo_inv_add (D_call i) (ml_pcs ?q 1) (ml_log ?q) (demo_out1 s)"
    using assms(1,2) by (simp_all add: demo_inv_def Let_def)
  have "\<not> ml_full ?q" using demo_inv_room [OF two add] .
  then have body: "produce 1 0 ?q \<noteq> None" if "ml_pcs ?q 1 = P_body i"
    using that by (simp add: produce_def notify_empty_def Let_def)
  consider "ml_pcs ?q 1 = P_lock i" | "ml_pcs ?q 1 = P_body i" | "ml_pcs ?q 1 = ML_unlock ML_unit"
    | "ml_pcs ?q 1 = ML_returned ML_unit"
    using add by (auto split: if_splits)
  then show ?thesis
    by cases (use assms(2,3) body in \<open>auto simp: demo_add_step_def in_queue_def produce_def ml_acquire_def ml_release_def\<close>)
qed


text \<open>A sleeping \<open>rem\<close> means that the queue is empty, so \<open>add\<close> has not produced everything.\<close>

lemma rem_sleeps_empty:
  assumes "demo_inv s" and "ml_pcs (demo_queue s) 2 = C_sleep" and "demo_add s = D_end"
  shows False
proof -
  let ?q = "demo_queue s"
  have two: "two_threads ?q" and add: "ml_quiet (ml_pcs ?q 1)" "ml_log ?q = [0..<100]"
    and rem: "demo_inv_rem (demo_rem s) C_sleep (ml_taken ?q) (demo_out2 s)"
    and srv: "ml_served ?q"
    using assms by (simp_all add: demo_inv_def Let_def out_of_memory_def)
  have "t \<notin> ml_consuming (ml_pcs ?q)" for t
    using two add(1) assms(2) by (cases "t = 1"; cases "t = 2") (auto simp: two_threads_def ml_consuming_def)
  then have "ml_consuming (ml_pcs ?q) = {}" by blast
  moreover have "ml_empty_check ?q \<noteq> []" using two assms(2) by (auto simp: two_threads_def ml_inv_def ml_inv_sleep_def)
  ultimately have "100 \<le> length (ml_taken ?q)" using srv add(2) by (simp add: ml_served_def)
  with rem show False by (cases "demo_rem s") (auto simp: out_of_memory_def split: if_splits)
qed

lemma mutex_held_by:
  assumes "demo_inv s" and "ml_m (demo_queue s) = Some t"
  shows "(t = 1 \<or> t = 2) \<and> ml_holds (ml_pcs (demo_queue s) t)"
proof -
  have two: "two_threads (demo_queue s)" using assms(1) by (simp add: demo_inv_def Let_def)
  with assms(2) have "ml_holds (ml_pcs (demo_queue s) t)" by (simp add: two_threads_def ml_inv_def ml_inv_lock_def)
  with two show ?thesis by (auto simp: two_threads_def)
qed

text \<open>A thread inside the queue holds the mutex, or can take it, or the other one can go on.\<close>

lemma call_enabled:
  assumes inv: "demo_inv s" and "demo_add s = D_call i \<or> (\<exists>j. demo_rem s = D_call j \<and> ml_pcs (demo_queue s) 2 \<noteq> C_sleep)"
  shows "demo_add_step 0 s \<noteq> None \<or> demo_rem_step 0 True s \<noteq> None"
proof (cases "ml_m (demo_queue s)")
  case None
  with assms add_enabled [OF inv] rem_enabled [OF inv] show ?thesis by blast
next
  case (Some t)
  from mutex_held_by [OF inv this] have t: "t = 1 \<or> t = 2" "ml_holds (ml_pcs (demo_queue s) t)" by auto
  have add: "demo_inv_add (demo_add s) (ml_pcs (demo_queue s) 1) (ml_log (demo_queue s)) (demo_out1 s)"
    and rem: "demo_inv_rem (demo_rem s) (ml_pcs (demo_queue s) 2) (ml_taken (demo_queue s)) (demo_out2 s)"
    using inv by (simp_all add: demo_inv_def Let_def)
  have quiet: "\<not> ml_holds c" if "ml_quiet c" for c :: "nat ml_pc" using that by (cases c) auto
  show ?thesis
  proof (cases "t = 1")
    case True
    with t(2) add quiet obtain j where "demo_add s = D_call j" by (cases "demo_add s") auto
    with add_enabled [OF inv this] t(2) True show ?thesis by blast
  next
    case False
    with t have "ml_holds (ml_pcs (demo_queue s) 2)" by simp
    moreover from this rem quiet obtain j where "demo_rem s = D_call j" by (cases "demo_rem s") auto
    ultimately show ?thesis using rem_enabled [OF inv, of j] by fastforce
  qed
qed

definition demo_finished :: "demo \<Rightarrow> bool" where
  "demo_finished s \<longleftrightarrow> demo_main s = M_return"

lemma demo_progress:
  assumes inv: "demo_inv s" and "\<not> demo_dead s" and "\<not> demo_finished s"
  shows "\<exists>e. \<not> demo_spurious e \<and> demo_move e s \<noteq> None"
proof -
  have add: "demo_inv_add (demo_add s) (ml_pcs (demo_queue s) 1) (ml_log (demo_queue s)) (demo_out1 s)"
    and rem: "demo_inv_rem (demo_rem s) (ml_pcs (demo_queue s) 2) (ml_taken (demo_queue s)) (demo_out2 s)"
    and main: "demo_inv_main (demo_main s) (demo_add s) (demo_rem s)"
    using inv by (simp_all add: demo_inv_def Let_def)
  have loops: "demo_add s = D_loop i \<Longrightarrow> demo_add_step 0 s \<noteq> None" "demo_rem s = D_loop i \<Longrightarrow> demo_rem_step 0 True s \<noteq> None" for i
    using add rem by (auto simp: demo_add_step_def demo_rem_step_def in_queue_def)
  have "demo_main_step s \<noteq> None \<or> demo_add_step 0 s \<noteq> None \<or> demo_rem_step 0 True s \<noteq> None"
  proof (cases "demo_main s")
    case M_join_t
    with main have "demo_add s \<noteq> D_none" by (simp add: demo_inv_main_def)
    with M_join_t loops call_enabled [OF inv] show ?thesis by (cases "demo_add s") (auto simp: demo_main_step_def)
  next
    case M_join_q
    with main have r: "demo_rem s \<noteq> D_none" "demo_add s = D_end" by (simp_all add: demo_inv_main_def)
    have "ml_pcs (demo_queue s) 2 \<noteq> C_sleep" using rem_sleeps_empty [OF inv _ r(2)] by blast
    with M_join_q r loops call_enabled [OF inv] show ?thesis by (cases "demo_rem s") (auto simp: demo_main_step_def)
  qed (use assms(3) in \<open>simp_all add: demo_main_step_def demo_finished_def\<close>)
  then have "demo_move DM_main s \<noteq> None \<or> demo_move (DM_add 0) s \<noteq> None \<or> demo_move (DM_rem 0 True) s \<noteq> None"
    using assms(2) by (simp add: demo_move_def)
  then show ?thesis by (metis demo_spurious.simps(2,3,4))
qed

lemma take_upt_min: "take n [0..<m] = [0..<min n m]"
  by (cases "n \<le> m") (simp_all add: take_upt)

lemma take_take_upt: "xs = take a (take b [0..<m]) \<Longrightarrow> xs = [0..<length xs]"
  by (simp add: take_upt_min)

lemma demo_out2_prefix:
  assumes inv: "demo_inv s"
  shows "\<exists>k \<le> 100. demo_out2 s = [0..<k]" and "demo_finished s \<Longrightarrow> demo_out1 s = [0..<100] \<and> demo_out2 s = [0..<100]"
proof -
  let ?q = "demo_queue s"
  have two: "two_threads ?q" and add: "demo_inv_add (demo_add s) (ml_pcs ?q 1) (ml_log ?q) (demo_out1 s)"
    and rem: "demo_inv_rem (demo_rem s) (ml_pcs ?q 2) (ml_taken ?q) (demo_out2 s)"
    and main: "demo_inv_main (demo_main s) (demo_add s) (demo_rem s)"
    using inv by (simp_all add: demo_inv_def Let_def)
  have "length (ml_log ?q) \<le> 100 \<and> ml_log ?q = [0..<length (ml_log ?q)]"
    using add by (cases "demo_add s") (auto simp del: upt_Suc split: if_splits)
  then obtain m where m: "ml_log ?q = [0..<m]" by blast
  have "ml_taken ?q = take (length (ml_taken ?q)) (ml_log ?q)"
    using two_threads_inv [OF two] by (simp add: ml_inv_def ml_inv_ring_def)
  moreover have "demo_out2 s = take (length (demo_out2 s)) (ml_taken ?q)"
    using rem by (cases "demo_rem s") (auto split: if_splits)
  ultimately have "demo_out2 s = take (length (demo_out2 s)) (take (length (ml_taken ?q)) [0..<m])" using m by metis
  then have out: "demo_out2 s = [0..<length (demo_out2 s)]" using take_take_upt by blast
  have len: "length (demo_out2 s) \<le> 100" using rem by (cases "demo_rem s") auto
  with out show "\<exists>k \<le> 100. demo_out2 s = [0..<k]" by blast
  show "demo_out1 s = [0..<100] \<and> demo_out2 s = [0..<100]" if "demo_finished s"
  proof -
    from that main have "demo_add s = D_end" "demo_rem s = D_end" by (simp_all add: demo_finished_def demo_inv_main_def)
    with add rem out show ?thesis by simp
  qed
qed

subsection \<open>Only \<open>bad_alloc\<close> ends the program early\<close>

fun demo_alloc_fails :: "demo_event \<Rightarrow> bool" where
  "demo_alloc_fails (DM_rem n alloc) = (\<not> alloc)"
| "demo_alloc_fails _ = False"

lemma out_of_memory_awake: "out_of_memory (ml_awake c) = out_of_memory c"
  by (cases c) (auto simp: out_of_memory_def)

lemma notify_out_of_memory:
  "notify_empty i q = Some q' \<Longrightarrow> out_of_memory (ml_pcs q' t) = out_of_memory (ml_pcs q t)"
  "notify_full i q = Some q' \<Longrightarrow> out_of_memory (ml_pcs q' t) = out_of_memory (ml_pcs q t)"
  by (auto simp: notify_empty_def notify_full_def Let_def out_of_memory_awake split: if_splits)

lemma ml_move_memory:
  assumes "ml_move e q = Some q'" and "\<not> ml_alloc_fails e" and "\<not> out_of_memory (ml_pcs q t)"
  shows "\<not> out_of_memory (ml_pcs q' t)"
  using assms(1)
proof (cases rule: ml_move_cases)
  case (Put u v i)
  with assms(3) notify_out_of_memory(1) [OF Put(3), of t] show ?thesis by (auto simp: ml_put_def out_of_memory_def)
next
  case (Take u v i s1)
  with assms(3) notify_out_of_memory(2) [OF Take(4), of t] show ?thesis
    by (auto simp: ml_take_def out_of_memory_def split: option.splits)
next
  case (Acquire u c)
  then show ?thesis using assms(3) by (auto simp: out_of_memory_def)
next
  case (Call u c)
  then show ?thesis using assms(3) by (cases c) (auto simp: out_of_memory_def)
qed (use assms(2,3) in \<open>auto simp: ml_take_def out_of_memory_awake split: option.splits\<close>, auto simp: out_of_memory_def)


lemma demo_move_memory:
  assumes "demo_move e s = Some s'" and "\<not> demo_alloc_fails e"
    and "\<not> demo_dead s \<and> \<not> out_of_memory (ml_pcs (demo_queue s) 2)"
  shows "\<not> demo_dead s' \<and> \<not> out_of_memory (ml_pcs (demo_queue s') 2)"
proof -
  have queue: "\<not> demo_dead s' \<and> \<not> out_of_memory (ml_pcs (demo_queue s') 2)"
    if "in_queue f u = Some s'" "\<not> ml_alloc_fails f" "demo_queue u = demo_queue s" "demo_dead u = demo_dead s" for f u
    using that assms(3) by (auto simp: in_queue_def dest: ml_move_memory)
  have D: "\<not> demo_dead s" "demo_queue (s\<lparr>demo_add := x\<rparr>) = demo_queue s" "demo_queue (s\<lparr>demo_rem := x\<rparr>) = demo_queue s" for x
    using assms(3) by simp_all
  show ?thesis
  proof (cases e)
    case DM_main
    with assms show ?thesis by (auto simp: demo_move_def demo_main_step_def split: main_pc.splits if_splits)
  next
    case (DM_add n)
    with assms(1) D(1) have step: "demo_add_step n s = Some s'" by (simp add: demo_move_def)
    show ?thesis
    proof (cases "demo_add s")
      case (D_loop i)
      with step assms(3) show ?thesis
        by (cases "i < 100") (auto simp: demo_add_step_def simp del: ml_move.simps dest!: queue)
    next
      case (D_call i)
      with step assms(3) show ?thesis
        by (cases "ml_pcs (demo_queue s) 1") (auto simp: demo_add_step_def dest!: queue)
    qed (use step in \<open>simp_all add: demo_add_step_def\<close>)
  next
    case (DM_rem n alloc)
    with assms(1,2) D(1) have step: "demo_rem_step n True s = Some s'" by (simp add: demo_move_def)
    show ?thesis
    proof (cases "demo_rem s")
      case (D_loop i)
      with step assms(3) show ?thesis
        by (cases "i < 100") (auto simp: demo_rem_step_def simp del: ml_move.simps dest!: queue)
    next
      case (D_call i)
      show ?thesis
      proof (cases "ml_pcs (demo_queue s) 2")
        case (ML_returned r)
        with D_call step assms(3) show ?thesis by (cases r) (auto simp: demo_rem_step_def out_of_memory_def)
      qed (use D_call step assms(3) in \<open>auto simp: demo_rem_step_def dest!: queue\<close>)
    qed (use step in \<open>simp_all add: demo_rem_step_def\<close>)
  next
    case (DM_spurious t)
    with assms(1) D(1) have "in_queue (ML_spurious t) s = Some s'" by (simp add: demo_move_def)
    then show ?thesis by (rule queue) simp_all
  qed
qed

lemma demo_run_memory:
  assumes "run demo_move es demo_new = Some s" and "\<not> list_ex demo_alloc_fails es"
  shows "\<not> demo_dead s"
proof -
  have "\<not> demo_dead s \<and> \<not> out_of_memory (ml_pcs (demo_queue s) 2)"
  proof (rule run_preserves_on [OF assms(1)])
    show "list_all (\<lambda>e. \<not> demo_alloc_fails e) es" using assms(2) by (induction es) auto
  qed (auto simp: demo_new_def ml_new_def out_of_memory_def dest: demo_move_memory)
  then show ?thesis by simp
qed

subsection \<open>Property\<close>

text \<open>C36. The program of the locked queue prints 0 to 99 in order and ends. Whatever the interleaving, what
  \<open>rem\<close> has printed are the first numbers from 0 on; a run has at most 1206 steps and three more for every
  spurious wake-up; and a run that cannot be extended (but by spurious wake-ups) has joined both threads with
  all 100 numbers printed by each, or an allocation has failed on the way.\<close>

theorem mpmc_lock_demo_prints:
  assumes "run demo_move es demo_new = Some s"
  shows "(\<exists>k \<le> 100. demo_out2 s = [0..<k])
    \<and> length es \<le> 1206 + 3 * length (filter demo_spurious es)
    \<and> ((\<exists>e. \<not> demo_spurious e \<and> demo_move e s \<noteq> None)
       \<or> (demo_main s = M_return \<and> demo_out1 s = [0..<100] \<and> demo_out2 s = [0..<100])
       \<or> (demo_dead s \<and> list_ex demo_alloc_fails es))"
proof (intro conjI)
  have inv: "demo_inv s" by (rule mlock_demo.run_inv [OF demo_inv_start assms])
  show "\<exists>k \<le> 100. demo_out2 s = [0..<k]" using inv by (rule demo_out2_prefix)
  show "length es \<le> 1206 + 3 * length (filter demo_spurious es)"
    using mlock_demo.run_rank [OF demo_inv_start assms] demo_rank_start by simp
  show "(\<exists>e. \<not> demo_spurious e \<and> demo_move e s \<noteq> None)
       \<or> (demo_main s = M_return \<and> demo_out1 s = [0..<100] \<and> demo_out2 s = [0..<100])
       \<or> (demo_dead s \<and> list_ex demo_alloc_fails es)"
    using demo_progress [OF inv] demo_out2_prefix(2) [OF inv] demo_run_memory [OF assms] by (auto simp: demo_finished_def)
qed

theorem mpmc_lock_demo_prints_witness:
  "\<exists>s k. run demo_move [DM_main, DM_main, DM_rem 0 True, DM_rem 0 True, DM_rem 0 True, DM_spurious 2,
       DM_add 0, DM_add 0, DM_add 0, DM_add 0, DM_add 0, DM_rem 0 True, DM_rem 0 True, DM_rem 0 True, DM_rem 0 True] demo_new = Some s
     \<and> demo_out1 s = [0] \<and> demo_out2 s = [0] \<and> demo_out2 s = [0..<k]"
proof -
  have "\<exists>s. run demo_move [DM_main, DM_main, DM_rem 0 True, DM_rem 0 True, DM_rem 0 True, DM_spurious 2,
       DM_add 0, DM_add 0, DM_add 0, DM_add 0, DM_add 0, DM_rem 0 True, DM_rem 0 True, DM_rem 0 True, DM_rem 0 True] demo_new = Some s \<and> demo_out1 s = [0] \<and> demo_out2 s = [0]"
    by (simp add: demo_new_def demo_move_def demo_main_step_def demo_add_step_def demo_rem_step_def
        in_queue_def ml_eval ml_spurious_wakeup_def)
  then obtain s where s: "run demo_move [DM_main, DM_main, DM_rem 0 True, DM_rem 0 True, DM_rem 0 True, DM_spurious 2,
       DM_add 0, DM_add 0, DM_add 0, DM_add 0, DM_add 0, DM_rem 0 True, DM_rem 0 True, DM_rem 0 True, DM_rem 0 True] demo_new = Some s" "demo_out1 s = [0]" "demo_out2 s = [0]"
    by blast
  with mpmc_lock_demo_prints [OF s(1)] show ?thesis by blast
qed

end
