(* ===== verification/Lock_Free.thy ===== *)
theory Lock_Free
  imports DS_Prelude
begin

text \<open>
  The contract of lock-free progress. A thread of a lock-free structure may be sent back in a loop by the others,
  but only by one that has taken a step of \<open>work\<close>: an exchange of a shared pointer or counter that has succeeded.
  \<open>todo s u\<close> is what is left to do for \<open>u\<close> if nobody works in between. A schedule of \<open>n\<close> threads is then paid for
  by the work done in it, the calls, and the exchanges that fail spuriously (the \<open>extra\<close> events): however long the
  threads are kept running, one of them gets ahead.
\<close>

locale lock_free_system = invariant_system init move inv
  for init :: "'s \<Rightarrow> bool" and move :: "'e \<Rightarrow> 's \<Rightarrow> 's option" and inv :: "'s \<Rightarrow> bool" +
  fixes n :: nat and actor :: "'e \<Rightarrow> tid" and extra :: "'e \<Rightarrow> bool" and work :: "'s \<Rightarrow> nat"
    and todo :: "'s \<Rightarrow> tid \<Rightarrow> nat" and disturb :: "'s \<Rightarrow> 's \<Rightarrow> nat" and len :: nat
  assumes work_mono: "inv s \<Longrightarrow> move e s = Some s' \<Longrightarrow> work s \<le> work s'"
    and todo_bound: "inv s \<Longrightarrow> todo s u \<le> len"
    and todo_own: "inv s \<Longrightarrow> move e s = Some s' \<Longrightarrow> work s' = work s \<Longrightarrow> \<not> extra e \<Longrightarrow>
      todo s' (actor e) + n * disturb s s' < todo s (actor e)"
    and todo_other: "inv s \<Longrightarrow> move e s = Some s' \<Longrightarrow> work s' = work s \<Longrightarrow> \<not> extra e \<Longrightarrow> u \<noteq> actor e \<Longrightarrow>
      todo s' u \<le> todo s u + disturb s s'"
begin

definition potential :: "'s \<Rightarrow> nat" where
  "potential s = (\<Sum>u<n. todo s u)"

lemma potential_le: "inv s \<Longrightarrow> potential s \<le> n * len"
  unfolding potential_def using sum_bounded_above [of "{..<n}" "todo s" len] todo_bound by simp

lemma potential_step:
  assumes inv: "inv s" and move: "move e s = Some s'" and "work s' = work s" and "\<not> extra e" and t: "actor e < n"
  shows "potential s' < potential s"
proof -
  let ?t = "actor e" and ?d = "disturb s s'" and ?U = "{..<n} - {actor e}"
  have others: "(\<Sum>u\<in>?U. todo s' u) \<le> (\<Sum>u\<in>?U. todo s u) + card ?U * ?d"
    using sum_mono [of ?U "todo s'" "\<lambda>u. todo s u + ?d"] todo_other [OF assms(1-4)] by (simp add: sum.distrib)
  have "card ?U * ?d \<le> n * ?d" using card_mono [of "{..<n}" ?U] by (intro mult_right_mono) auto
  with others todo_own [OF assms(1-4)]
  have "todo s' ?t + (\<Sum>u\<in>?U. todo s' u) < todo s ?t + (\<Sum>u\<in>?U. todo s u)" by linarith
  then show ?thesis unfolding potential_def using t sum.remove [of "{..<n}" ?t] by (metis finite_lessThan lessThan_iff)
qed

lemma run_work:
  assumes "inv s" and "run move es s = Some s'" and "list_all (\<lambda>e. actor e < n) es"
  shows "work s \<le> work s' \<and>
    potential s' + length es \<le> potential s + (n * len + 1) * (work s' - work s + length (filter extra es))"
  using assms
proof (induction es arbitrary: s)
  case (Cons e es)
  then obtain u where u: "move e s = Some u" "run move es u = Some s'" by (auto split: option.splits)
  note inv' = inv_move [OF Cons.prems(1) u(1)]
  let ?c = "n * len + 1" and ?x = "if extra e then 1 else 0 :: nat"
  from Cons.IH [OF inv' u(2)] Cons.prems(3) have IH: "work u \<le> work s'"
    "potential s' + length es \<le> potential u + ?c * (work s' - work u + length (filter extra es))" by auto
  have w: "work s \<le> work u" using work_mono [OF Cons.prems(1) u(1)] .
  have pay: "potential u + 1 \<le> potential s + ?c * (work u - work s + ?x)"
  proof (cases "work u = work s \<and> \<not> extra e")
    case True
    with potential_step [OF Cons.prems(1) u(1)] Cons.prems(3) show ?thesis by simp
  next
    case False
    then have "work u - work s + ?x \<noteq> 0" using w by auto
    then obtain k where k: "work u - work s + ?x = Suc k" using not0_implies_Suc by blast
    have "potential u + 1 \<le> ?c * Suc k" using potential_le [OF inv'] by (simp only: mult_Suc_right)
    with k show ?thesis by simp
  qed
  have "work s' - work s + length (filter extra (e # es)) = (work u - work s + ?x) + (work s' - work u + length (filter extra es))"
    using w IH(1) by simp
  with pay IH w show ?case by (simp only: distrib_left) simp
qed simp

lemma lock_free:
  assumes "inv s" and "run move es s = Some s'" and "list_all (\<lambda>e. actor e < n) es"
  shows "length es \<le> n * len + (n * len + 1) * (work s' - work s + length (filter extra es))"
  using run_work [OF assms] potential_le [OF assms(1)] by linarith

end

end
