(* ===== verification/Mpmc_Progress.thy ===== *)
theory Mpmc_Progress
  imports Lock_Free Mpmc_Lockfree
begin

text \<open>
  \<open>concurrent_structures/mpmc_lockfree.cpp\<close>: the operations never wait. The loop of \<open>enqueue\<close> and of \<open>dequeue\<close> goes on
  only if another thread has claimed a position in between, or if the weak exchange has failed spuriously; a queue
  that is full or empty, or whose next cell is still in use, makes them return false.
\<close>

fun mq_actor :: "'a mq_event \<Rightarrow> tid" where
  "mq_actor (MQ_enqueue t v) = t"
| "mq_actor (MQ_dequeue t) = t"
| "mq_actor (MQ_producer t weak) = t"
| "mq_actor (MQ_consumer t weak) = t"

text \<open>The calls and the spurious failures.\<close>

fun mq_extra :: "'a mq_event \<Rightarrow> bool" where
  "mq_extra (MQ_producer t weak) = weak"
| "mq_extra (MQ_consumer t weak) = weak"
| "mq_extra _ = True"

text \<open>The positions that have been claimed.\<close>

definition mq_work :: "'a mq \<Rightarrow> nat" where
  "mq_work s = unat (mq_enq s) + unat (mq_deq s)"

text \<open>What is left to do at the two positions \<open>e\<close> and \<open>d\<close>, if they stay as they are.\<close>

fun mq_todo :: "u64 \<Rightarrow> u64 \<Rightarrow> 'a mq_pc \<Rightarrow> nat" where
  "mq_todo e d (E_load v) = 3"
| "mq_todo e d (E_seq v pos) = (if pos = e then 2 else 4)"
| "mq_todo e d (E_cas v pos) = (if pos = e then 1 else 3)"
| "mq_todo e d (E_write v pos) = 2"
| "mq_todo e d (E_publish pos) = 1"
| "mq_todo e d D_load = 3"
| "mq_todo e d (D_seq pos) = (if pos = d then 2 else 4)"
| "mq_todo e d (D_cas pos) = (if pos = d then 1 else 3)"
| "mq_todo e d (D_read pos) = 2"
| "mq_todo e d (D_publish v pos) = 1"
| "mq_todo e d _ = 0"

lemma mq_todo_le: "mq_todo e d c \<le> 4"
  by (cases c) auto

text \<open>The cell of the current position is never ahead of it.\<close>

lemma mq_current_cell:
  assumes "reach (mq_init c) (within mq_bound mq_move) s"
  shows "mq_seqs s (unat (mq_enq s) mod unat c) \<le> unat (mq_enq s)"
    and "mq_seqs s (unat (mq_deq s) mod unat c) \<le> unat (mq_deq s) + 1"
proof -
  let ?n = "unat c" and ?e = "unat (mq_enq s)" and ?d = "unat (mq_deq s)"
  have inv: "mq_inv ?n s" using assms by (rule mpmc.reach_inv)
  note I = mq_inv_natD [OF mq_inv_nat [OF inv]]
  show "mq_seqs s (?e mod ?n) \<le> ?e" using I(4) [of ?e] I(1) by (auto simp: mq_slot_ok_def)
  have room: "?e \<le> ?d + ?n" using assms by (rule mq_reach_room)
  obtain q where q: "?e \<le> q" "q < ?e + ?n" "q mod ?n = ?d mod ?n"
    "mq_slot_ok ?n ?d (mq_seqs s) (mq_datas s) (mq_log s) (mq_pcs s) q"
    using mq_next_lap [OF inv, of "mq_deq s"] by blast
  have "\<not> ?d + ?n < q" using mod_below [of "?d + ?n" ?n q] q(2,3) room by auto
  moreover have "q \<le> ?d" if "q < ?d + ?n"
  proof (rule ccontr)
    assume "\<not> q \<le> ?d"
    then have "?d + ?n \<le> q" by (intro mod_below) (use q(3) in simp_all)
    with that show False by simp
  qed
  ultimately show "mq_seqs s (?d mod ?n) \<le> ?d + 1" using q(3,4) by (auto simp: mq_slot_ok_def)
qed

lemma mq_enqueue_todo:
  assumes s: "reach (mq_init c) (within mq_bound mq_move) s" and step: "mq_enqueue t weak s = Some s'"
    and same: "mq_enq s' = mq_enq s" and strong: "\<not> weak"
  shows "mq_todo (mq_enq s) (mq_deq s) (mq_pcs s' t) < mq_todo (mq_enq s) (mq_deq s) (mq_pcs s t)"
    and "mq_deq s' = mq_deq s" and "u \<noteq> t \<Longrightarrow> mq_pcs s' u = mq_pcs s u"
proof -
  have inv: "mq_inv (unat c) s" using s by (rule mpmc.reach_inv)
  note I = mq_inv_natD [OF mq_inv_nat [OF inv]]
  have small: "unat (mq_enq s) + unat c < 2 ^ 63" using inv by (simp add: mq_inv_def)
  show "mq_todo (mq_enq s) (mq_deq s) (mq_pcs s' t) < mq_todo (mq_enq s) (mq_deq s) (mq_pcs s t)"
  proof (cases "mq_pcs s t")
    case (E_seq v pos)
    have p: "unat pos < 2 ^ 63" using I(5) [of t] E_seq small by auto
    obtain d where "mq_dif (sequence (mq_cell s pos)) pos = Some d" "d = 0 \<longleftrightarrow> mq_seqs s (unat pos mod unat c) = unat pos"
      "d < 0 \<longleftrightarrow> mq_seqs s (unat pos mod unat c) < unat pos"
      using mq_dif_compare [OF mq_inv_seq(3) [OF inv, of pos] p] mq_inv_seq(1) [OF inv, of pos] by auto
    with step E_seq mq_current_cell(1) [OF s] show ?thesis by (auto simp: mq_enqueue_def split: if_splits)
  next
    case (E_cas v pos)
    have "unat (mq_enq s + 1) \<noteq> unat (mq_enq s)" using small unat_inc [of "mq_enq s"] by simp
    then have "mq_enq s + 1 \<noteq> mq_enq s" by metis
    moreover have "mq_enq s' = mq_enq s + 1" if "mq_enq s = pos"
      using step E_cas strong that by (auto simp: mq_enqueue_def)
    ultimately have "mq_enq s \<noteq> pos" using same by auto
    with step E_cas show ?thesis by (auto simp: mq_enqueue_def)
  qed (use step in \<open>simp_all add: mq_enqueue_def\<close>, auto)
  show "mq_deq s' = mq_deq s" and "u \<noteq> t \<Longrightarrow> mq_pcs s' u = mq_pcs s u"
    using step by (auto simp: mq_enqueue_def split: mq_pc.splits option.splits if_splits)
qed


lemma mq_dequeue_todo:
  assumes s: "reach (mq_init c) (within mq_bound mq_move) s" and step: "mq_dequeue t weak s = Some s'"
    and same: "mq_deq s' = mq_deq s" and strong: "\<not> weak"
  shows "mq_todo (mq_enq s) (mq_deq s) (mq_pcs s' t) < mq_todo (mq_enq s) (mq_deq s) (mq_pcs s t)"
    and "mq_enq s' = mq_enq s" and "u \<noteq> t \<Longrightarrow> mq_pcs s' u = mq_pcs s u"
proof -
  have inv: "mq_inv (unat c) s" using s by (rule mpmc.reach_inv)
  note I = mq_inv_natD [OF mq_inv_nat [OF inv]]
  have small: "unat (mq_deq s) + unat c < 2 ^ 63" using inv I(2) by (simp add: mq_inv_def)
  show "mq_todo (mq_enq s) (mq_deq s) (mq_pcs s' t) < mq_todo (mq_enq s) (mq_deq s) (mq_pcs s t)"
  proof (cases "mq_pcs s t")
    case (D_seq pos)
    have p: "unat pos + 1 < 2 ^ 63" using I(1) I(5) [of t] D_seq small by auto
    then have p': "unat (pos + 1) = unat pos + 1" by (intro unat_inc) simp
    obtain d where "mq_dif (sequence (mq_cell s pos)) (pos + 1) = Some d"
      "d = 0 \<longleftrightarrow> mq_seqs s (unat pos mod unat c) = unat pos + 1" "d < 0 \<longleftrightarrow> mq_seqs s (unat pos mod unat c) < unat pos + 1"
      using mq_dif_compare [OF mq_inv_seq(3) [OF inv, of pos], of "pos + 1"] p p' mq_inv_seq(1) [OF inv, of pos] by auto
    with step D_seq mq_current_cell(2) [OF s] show ?thesis by (auto simp: mq_dequeue_def split: if_splits)
  next
    case (D_cas pos)
    have "unat (mq_deq s + 1) \<noteq> unat (mq_deq s)" using small unat_inc [of "mq_deq s"] by simp
    then have "mq_deq s + 1 \<noteq> mq_deq s" by metis
    moreover have "mq_deq s' = mq_deq s + 1" if "mq_deq s = pos"
      using step D_cas strong that by (auto simp: mq_dequeue_def)
    ultimately have "mq_deq s \<noteq> pos" using same by auto
    with step D_cas show ?thesis by (auto simp: mq_dequeue_def)
  next
    case (D_read pos)
    with step show ?thesis by (cases "data (mq_cell s pos)") (auto simp: mq_dequeue_def)
  qed (use step in \<open>simp_all add: mq_dequeue_def\<close>, auto)
  show "mq_enq s' = mq_enq s" and "u \<noteq> t \<Longrightarrow> mq_pcs s' u = mq_pcs s u"
    using step by (auto simp: mq_dequeue_def split: mq_pc.splits option.splits if_splits)
qed

text \<open>A position only grows.\<close>

lemma mq_positions_grow:
  assumes s: "reach (mq_init c) (within mq_bound mq_move) s" and step: "mq_move e s = Some s'"
  shows "unat (mq_enq s) \<le> unat (mq_enq s')" and "unat (mq_deq s) \<le> unat (mq_deq s')"
proof -
  have inv: "mq_inv (unat c) s" using s by (rule mpmc.reach_inv)
  have "unat (mq_enq s) + 1 < 2 ^ 64" "unat (mq_deq s) + 1 < 2 ^ 64"
    using inv mq_inv_natD(1,2) [OF mq_inv_nat [OF inv]] by (auto simp: mq_inv_def)
  then have inc: "unat (mq_enq s) \<le> unat (mq_enq s + 1)" "unat (mq_deq s) \<le> unat (mq_deq s + 1)"
    using unat_inc [of "mq_enq s"] unat_inc [of "mq_deq s"] by simp_all
  have "mq_enq s' = mq_enq s \<or> mq_enq s' = mq_enq s + 1" "mq_deq s' = mq_deq s \<or> mq_deq s' = mq_deq s + 1"
    using step by (cases e; auto simp: mq_enqueue_def mq_dequeue_def split: if_splits mq_pc.splits option.splits)+
  with inc show "unat (mq_enq s) \<le> unat (mq_enq s')" "unat (mq_deq s) \<le> unat (mq_deq s')" by auto
qed

lemma mq_no_work:
  assumes s: "reach (mq_init c) (within mq_bound mq_move) s" and step: "mq_move e s = Some s'"
    and work: "mq_work s' = mq_work s" and strong: "\<not> mq_extra e"
  shows "mq_todo (mq_enq s') (mq_deq s') (mq_pcs s' (mq_actor e)) < mq_todo (mq_enq s) (mq_deq s) (mq_pcs s (mq_actor e))"
    and "u \<noteq> mq_actor e \<Longrightarrow> mq_todo (mq_enq s') (mq_deq s') (mq_pcs s' u) = mq_todo (mq_enq s) (mq_deq s) (mq_pcs s u)"
proof -
  have "unat (mq_enq s') = unat (mq_enq s)" "unat (mq_deq s') = unat (mq_deq s)"
    using mq_positions_grow [OF s step] work by (simp_all add: mq_work_def)
  then have same: "mq_enq s' = mq_enq s" "mq_deq s' = mq_deq s" by (simp_all add: unsigned_word_eqI)
  show "mq_todo (mq_enq s') (mq_deq s') (mq_pcs s' (mq_actor e)) < mq_todo (mq_enq s) (mq_deq s) (mq_pcs s (mq_actor e))"
    using step strong same mq_enqueue_todo(1) [OF s] mq_dequeue_todo(1) [OF s] by (cases e) auto
  show "mq_todo (mq_enq s') (mq_deq s') (mq_pcs s' u) = mq_todo (mq_enq s) (mq_deq s) (mq_pcs s u)" if "u \<noteq> mq_actor e"
    using that step strong same mq_enqueue_todo(3) [OF s] mq_dequeue_todo(3) [OF s] by (cases e) auto
qed

interpretation mpmc_progress: lock_free_system "mq_init c" "within mq_bound mq_move" "reach (mq_init c) (within mq_bound mq_move)" n
    mq_actor mq_extra mq_work "\<lambda>s u. mq_todo (mq_enq s) (mq_deq s) (mq_pcs s u)" "\<lambda>_ _. 0" 4 for c n
proof (unfold_locales, goal_cases)
  case (3 s e s')
  then show ?case using mq_positions_grow [of c s e s'] by (simp add: mq_work_def)
next
  case (5 s e s')
  then show ?case using mq_no_work(1) [of c s e s'] by simp
next
  case (6 s e s' u)
  then show ?case using mq_no_work(2) [of c s e s' u] by simp
qed (auto intro: reach.start reach_move simp: mq_todo_le)

text \<open>C7. The operations of the MPMC queue are lock-free: however \<open>n\<close> threads are scheduled from a reachable state,
  they take at most \<open>4 * n + 1\<close> steps for every position that is claimed, every call and every spurious failure of an
  exchange, after the first \<open>4 * n\<close>.\<close>

theorem mpmc_lock_free:
  assumes "reach (mq_init c) (within mq_bound mq_move) s" and "run (within mq_bound mq_move) es s = Some s'"
    and "list_all (\<lambda>e. mq_actor e < n) es"
  shows "length es \<le> n * 4 + (n * 4 + 1) * (mq_work s' - mq_work s + length (filter mq_extra es))"
  by (rule mpmc_progress.lock_free [OF assms])

text \<open>Two threads enqueue at the same time; the exchange of the second fails.\<close>

theorem mpmc_lock_free_witness:
  "\<exists>es (s :: nat mq) s'. mq_init 2 s \<and> run (within mq_bound mq_move) es s = Some s' \<and> mq_log s' = [7, 8] \<and> length es = 10
     \<and> length es \<le> 2 * 4 + (2 * 4 + 1) * (mq_work s' - mq_work s + 2)"
proof -
  let ?s = "\<lparr>mq_buffer = (\<lambda>i. \<lparr>sequence = of_nat i, data = None\<rparr>), mq_mask = 2 - 1, mq_enq = 0, mq_deq = 0, mq_pcs = (\<lambda>_. MQ_idle),
    mq_log = []\<rparr> :: nat mq"
  let ?es = "[MQ_enqueue 0 7, MQ_enqueue 1 8, MQ_producer 0 False, MQ_producer 1 False, MQ_producer 0 False, MQ_producer 1 False,
    MQ_producer 0 False, MQ_producer 1 False, MQ_producer 1 False, MQ_producer 1 False] :: nat mq_event list"
  have init: "mq_init 2 ?s" by (rule mq_start) simp_all
  have "\<exists>s'. run (within mq_bound mq_move) ?es ?s = Some s' \<and> mq_log s' = [7, 8]" by (simp add: mq_eval)
  then obtain s' where s': "run (within mq_bound mq_move) ?es ?s = Some s'" "mq_log s' = [7, 8]" by blast
  have "reach (mq_init 2) (within mq_bound mq_move) ?s" by (rule reach.start) (rule init)
  from mpmc_lock_free [OF this s'(1), of 2]
  have "length ?es \<le> 2 * 4 + (2 * 4 + 1) * (mq_work s' - mq_work ?s + 2)" by simp
  with init s' show ?thesis by (intro exI [of _ ?es] exI [of _ ?s] exI [of _ s']) simp
qed

end
