(* ===== verification/Reader_Writer.thy ===== *)
theory Reader_Writer
  imports DS_Prelude
begin

text \<open>
  \<open>concurrent_structures/reader_writer.cpp\<close>: the reader-prioritised protocol on two mutexes
  and a count. A move is one operation on a mutex or one access of the count by one thread.
\<close>

subsection \<open>State\<close>

datatype rw_pc =
    RW_idle
  | R_lock \<comment> \<open>\<open>reader\<close>, about to acquire \<open>read_lock\<close> the first time\<close>
  | R_count \<comment> \<open>about to increment the count and test it\<close>
  | R_writer_lock \<comment> \<open>the count is 1, about to execute \<open>writer_lock.lock()\<close>\<close>
  | R_release \<comment> \<open>end of the first block\<close>
  | R_reading
  | R_lock_again \<comment> \<open>about to acquire \<open>read_lock\<close> the second time\<close>
  | R_uncount
  | R_writer_unlock \<comment> \<open>the count is 0, about to execute \<open>writer_lock.unlock()\<close>\<close>
  | R_release_again
  | W_lock | W_writing

text \<open>A mutex is its owner; the count stays between 0 and the number of threads.\<close>

record rw =
  read_lock :: "tid option"
  writer_lock :: "tid option"
  READ_COUNT :: int
  rw_pcs :: "tid \<Rightarrow> rw_pc"

definition rw_init :: "rw \<Rightarrow> bool" where
  "rw_init s \<longleftrightarrow> s = \<lparr>read_lock = None, writer_lock = None, READ_COUNT = 0, rw_pcs = (\<lambda>_. RW_idle)\<rparr>"

definition rw_goto :: "tid \<Rightarrow> rw_pc \<Rightarrow> rw \<Rightarrow> rw" where
  "rw_goto t c s = s\<lparr>rw_pcs := (rw_pcs s)(t := c)\<rparr>"

definition lock_read :: "tid \<Rightarrow> rw_pc \<Rightarrow> rw \<Rightarrow> rw option" where
  "lock_read t c s = (if read_lock s = None then Some (rw_goto t c (s\<lparr>read_lock := Some t\<rparr>)) else None)"

definition lock_writer :: "tid \<Rightarrow> rw_pc \<Rightarrow> rw \<Rightarrow> rw option" where
  "lock_writer t c s = (if writer_lock s = None then Some (rw_goto t c (s\<lparr>writer_lock := Some t\<rparr>)) else None)"

subsection \<open>Operations\<close>

definition reader :: "tid \<Rightarrow> rw \<Rightarrow> rw option" where
  "reader t s =
     (case rw_pcs s t of
        RW_idle \<Rightarrow> Some (rw_goto t R_lock s)
      | R_lock \<Rightarrow> lock_read t R_count s
      | R_count \<Rightarrow>
          (let n = READ_COUNT s + 1
           in Some (rw_goto t (if n = 1 then R_writer_lock else R_release) (s\<lparr>READ_COUNT := n\<rparr>)))
      | R_writer_lock \<Rightarrow> lock_writer t R_release s
      | R_release \<Rightarrow> Some (rw_goto t R_reading (s\<lparr>read_lock := None\<rparr>))
      | R_reading \<Rightarrow> Some (rw_goto t R_lock_again s)
      | R_lock_again \<Rightarrow> lock_read t R_uncount s
      | R_uncount \<Rightarrow>
          (let n = READ_COUNT s - 1
           in Some (rw_goto t (if n = 0 then R_writer_unlock else R_release_again) (s\<lparr>READ_COUNT := n\<rparr>)))
      | R_writer_unlock \<Rightarrow> Some (rw_goto t R_release_again (s\<lparr>writer_lock := None\<rparr>))
      | R_release_again \<Rightarrow> Some (rw_goto t RW_idle (s\<lparr>read_lock := None\<rparr>))
      | _ \<Rightarrow> None)"

definition writer :: "tid \<Rightarrow> rw \<Rightarrow> rw option" where
  "writer t s =
     (case rw_pcs s t of
        RW_idle \<Rightarrow> Some (rw_goto t W_lock s)
      | W_lock \<Rightarrow> lock_writer t W_writing s
      | W_writing \<Rightarrow> Some (rw_goto t RW_idle (s\<lparr>writer_lock := None\<rparr>))
      | _ \<Rightarrow> None)"

datatype rw_event = RW_reader tid | RW_writer tid

fun rw_move :: "rw_event \<Rightarrow> rw \<Rightarrow> rw option" where
  "rw_move (RW_reader t) s = reader t s"
| "rw_move (RW_writer t) s = writer t s"

subsection \<open>The invariant\<close>

definition rw_in_block :: "rw_pc \<Rightarrow> bool" where
  "rw_in_block c \<longleftrightarrow> c \<in> {R_count, R_writer_lock, R_release, R_uncount, R_writer_unlock, R_release_again}"

definition rw_counted :: "rw_pc \<Rightarrow> bool" where
  "rw_counted c \<longleftrightarrow> c \<in> {R_writer_lock, R_release, R_reading, R_lock_again, R_uncount}"

text \<open>The readers as a group own \<open>writer_lock\<close>.\<close>

definition rw_readers_own :: "(tid \<Rightarrow> rw_pc) \<Rightarrow> bool" where
  "rw_readers_own P \<longleftrightarrow> (\<exists>t. rw_counted (P t)) \<and> (\<forall>t. P t \<noteq> R_writer_lock) \<or> (\<exists>t. P t = R_writer_unlock)"

text \<open>
  The invariant: the owner of \<open>read_lock\<close> is the one thread inside a block; the count is the
  number of counted readers; only the first of them is about to lock \<open>writer_lock\<close> and only when
  it was the last one a thread is about to unlock it; \<open>writer_lock\<close> is held by the group of
  readers or by one writer, and not by both.
\<close>

definition rw_inv_block :: "tid option \<Rightarrow> (tid \<Rightarrow> rw_pc) \<Rightarrow> bool" where
  "rw_inv_block m P \<longleftrightarrow> (\<forall>t. rw_in_block (P t) \<longleftrightarrow> m = Some t)"

definition rw_inv_count :: "int \<Rightarrow> (tid \<Rightarrow> rw_pc) \<Rightarrow> bool" where
  "rw_inv_count n P \<longleftrightarrow> finite {t. rw_counted (P t)} \<and> n = int (card {t. rw_counted (P t)})"

definition rw_inv_turn :: "(tid \<Rightarrow> rw_pc) \<Rightarrow> bool" where
  "rw_inv_turn P \<longleftrightarrow> (\<forall>t u. P t = R_writer_lock \<longrightarrow> rw_counted (P u) \<longrightarrow> u = t)
     \<and> (\<forall>t u. P t = R_writer_unlock \<longrightarrow> \<not> rw_counted (P u))"

definition rw_inv_writer :: "tid option \<Rightarrow> (tid \<Rightarrow> rw_pc) \<Rightarrow> bool" where
  "rw_inv_writer m P \<longleftrightarrow> (m \<noteq> None \<longleftrightarrow> rw_readers_own P \<or> (\<exists>t. P t = W_writing))
     \<and> (\<forall>t. P t = W_writing \<longrightarrow> m = Some t \<and> \<not> rw_readers_own P)"

definition rw_inv :: "rw \<Rightarrow> bool" where
  "rw_inv s \<longleftrightarrow> rw_inv_block (read_lock s) (rw_pcs s) \<and> rw_inv_count (READ_COUNT s) (rw_pcs s)
     \<and> rw_inv_turn (rw_pcs s) \<and> rw_inv_writer (writer_lock s) (rw_pcs s)"

lemma rw_move_cases [consumes 1, case_names Reader Writer Lock First Later Writer_lock Release Leave
    Lock_again Last Not_last Writer_unlock Release_again Write Written]:
  assumes "rw_move e s = Some s'"
  obtains (Reader) t where "rw_pcs s t = RW_idle" "s' = rw_goto t R_lock s"
  | (Writer) t where "rw_pcs s t = RW_idle" "s' = rw_goto t W_lock s"
  | (Lock) t where "rw_pcs s t = R_lock" "read_lock s = None" "s' = rw_goto t R_count (s\<lparr>read_lock := Some t\<rparr>)"
  | (First) t where "rw_pcs s t = R_count" "READ_COUNT s = 0" "s' = rw_goto t R_writer_lock (s\<lparr>READ_COUNT := READ_COUNT s + 1\<rparr>)"
  | (Later) t where "rw_pcs s t = R_count" "READ_COUNT s \<noteq> 0" "s' = rw_goto t R_release (s\<lparr>READ_COUNT := READ_COUNT s + 1\<rparr>)"
  | (Writer_lock) t where "rw_pcs s t = R_writer_lock" "writer_lock s = None"
      "s' = rw_goto t R_release (s\<lparr>writer_lock := Some t\<rparr>)"
  | (Release) t where "rw_pcs s t = R_release" "s' = rw_goto t R_reading (s\<lparr>read_lock := None\<rparr>)"
  | (Leave) t where "rw_pcs s t = R_reading" "s' = rw_goto t R_lock_again s"
  | (Lock_again) t where "rw_pcs s t = R_lock_again" "read_lock s = None" "s' = rw_goto t R_uncount (s\<lparr>read_lock := Some t\<rparr>)"
  | (Last) t where "rw_pcs s t = R_uncount" "READ_COUNT s = 1" "s' = rw_goto t R_writer_unlock (s\<lparr>READ_COUNT := READ_COUNT s - 1\<rparr>)"
  | (Not_last) t where "rw_pcs s t = R_uncount" "READ_COUNT s \<noteq> 1" "s' = rw_goto t R_release_again (s\<lparr>READ_COUNT := READ_COUNT s - 1\<rparr>)"
  | (Writer_unlock) t where "rw_pcs s t = R_writer_unlock" "s' = rw_goto t R_release_again (s\<lparr>writer_lock := None\<rparr>)"
  | (Release_again) t where "rw_pcs s t = R_release_again" "s' = rw_goto t RW_idle (s\<lparr>read_lock := None\<rparr>)"
  | (Write) t where "rw_pcs s t = W_lock" "writer_lock s = None" "s' = rw_goto t W_writing (s\<lparr>writer_lock := Some t\<rparr>)"
  | (Written) t where "rw_pcs s t = W_writing" "s' = rw_goto t RW_idle (s\<lparr>writer_lock := None\<rparr>)"
proof (cases e)
  case (RW_reader t)
  with assms show ?thesis
    by (cases "rw_pcs s t") (auto simp: reader_def lock_read_def lock_writer_def Let_def intro: that split: if_splits)
next
  case (RW_writer t)
  with assms show ?thesis
    by (cases "rw_pcs s t") (auto simp: writer_def lock_writer_def intro: that split: if_splits)
qed

lemma rw_counted_upd:
  "{u. rw_counted ((P(t := c)) u)} = (if rw_counted c then insert t {u. rw_counted (P u)} else {u. rw_counted (P u)} - {t})"
  by auto

lemma rw_count_same: "rw_inv_count n P \<Longrightarrow> rw_counted c = rw_counted (P t) \<Longrightarrow> rw_inv_count n (P(t := c))"
  by (auto simp: rw_inv_count_def rw_counted_upd insert_absorb simp del: fun_upd_apply)

lemma rw_count_add: "rw_inv_count n P \<Longrightarrow> rw_counted c \<Longrightarrow> \<not> rw_counted (P t) \<Longrightarrow> rw_inv_count (n + 1) (P(t := c))"
  by (simp add: rw_inv_count_def rw_counted_upd del: fun_upd_apply)

lemma rw_count_remove: "rw_inv_count n P \<Longrightarrow> \<not> rw_counted c \<Longrightarrow> rw_counted (P t) \<Longrightarrow> rw_inv_count (n - 1) (P(t := c))"
  using card.remove [of "{u. rw_counted (P u)}" t]
  by (simp add: rw_inv_count_def rw_counted_upd del: fun_upd_apply)

lemma rw_count_zero: "rw_inv_count 0 P \<Longrightarrow> \<not> rw_counted (P t)"
  by (auto simp: rw_inv_count_def)

lemma rw_count_some: "rw_inv_count n P \<Longrightarrow> n \<noteq> 0 \<Longrightarrow> \<exists>t. rw_counted (P t)"
  by (auto simp: rw_inv_count_def)

lemma rw_count_one: "rw_inv_count 1 P \<Longrightarrow> rw_counted (P t) \<Longrightarrow> rw_counted (P u) \<Longrightarrow> u = t"
  by (auto simp: rw_inv_count_def card_1_singleton_iff dest: equalityD1)

lemma rw_count_more: "rw_inv_count n P \<Longrightarrow> n \<noteq> 1 \<Longrightarrow> rw_counted (P t) \<Longrightarrow> \<exists>u. u \<noteq> t \<and> rw_counted (P u)"
proof (rule ccontr)
  assume a: "rw_inv_count n P" "n \<noteq> 1" "rw_counted (P t)" "\<not> (\<exists>u. u \<noteq> t \<and> rw_counted (P u))"
  then have "{u. rw_counted (P u)} = {t}" by auto
  with a(1,2) show False by (simp add: rw_inv_count_def)
qed

lemma rw_block_unique: "rw_inv_block m P \<Longrightarrow> rw_in_block (P t) \<Longrightarrow> rw_in_block (P u) \<Longrightarrow> u = t"
  by (simp add: rw_inv_block_def)

lemma rw_inv_start: "rw_init s \<Longrightarrow> rw_inv s"
  by (simp add: rw_init_def rw_inv_def rw_inv_block_def rw_inv_count_def rw_inv_turn_def rw_inv_writer_def
      rw_in_block_def rw_counted_def rw_readers_own_def)

lemmas rw_pc_defs = rw_in_block_def rw_counted_def


lemma rw_counted_simps [simp]:
  "rw_counted R_writer_lock" "rw_counted R_release" "rw_counted R_reading" "rw_counted R_lock_again"
  "rw_counted R_uncount" "\<not> rw_counted RW_idle" "\<not> rw_counted R_lock" "\<not> rw_counted R_count"
  "\<not> rw_counted R_writer_unlock" "\<not> rw_counted R_release_again" "\<not> rw_counted W_lock" "\<not> rw_counted W_writing"
  by (simp_all add: rw_counted_def)

definition rw_special :: "rw_pc \<Rightarrow> bool" where
  "rw_special c \<longleftrightarrow> c = R_writer_lock \<or> c = R_writer_unlock"

lemma rw_own_same:
  assumes "rw_counted c = rw_counted (P t)" and "\<not> rw_special c" and "\<not> rw_special (P t)"
  shows "rw_readers_own (P(t := c)) = rw_readers_own P"
proof -
  have "rw_counted ((P(t := c)) u) = rw_counted (P u)" "((P(t := c)) u = R_writer_lock) = (P u = R_writer_lock)"
    "((P(t := c)) u = R_writer_unlock) = (P u = R_writer_unlock)" for u
    using assms by (auto simp: rw_special_def)
  then show ?thesis by (simp only: rw_readers_own_def)
qed

lemma rw_turn_same:
  assumes "rw_inv_turn P" and "rw_counted c = rw_counted (P t)" and "\<not> rw_special c"
  shows "rw_inv_turn (P(t := c))"
proof -
  have "rw_counted ((P(t := c)) u) = rw_counted (P u)" "(P(t := c)) u = R_writer_lock \<Longrightarrow> P u = R_writer_lock"
    "(P(t := c)) u = R_writer_unlock \<Longrightarrow> P u = R_writer_unlock" for u
    using assms(2,3) by (auto simp: rw_special_def split: if_splits)
  with assms(1) show ?thesis unfolding rw_inv_turn_def by blast
qed

lemma rw_writer_same:
  assumes "rw_inv_writer m P" and "rw_readers_own (P(t := c)) = rw_readers_own P" and "c \<noteq> W_writing" and "P t \<noteq> W_writing"
  shows "rw_inv_writer m (P(t := c))"
proof -
  have "((P(t := c)) u = W_writing) = (P u = W_writing)" for u using assms(3,4) by auto
  with assms(1,2) show ?thesis unfolding rw_inv_writer_def by (simp del: fun_upd_apply)
qed

lemma rw_writer_take:
  "rw_inv_writer None P \<Longrightarrow> rw_readers_own (P(t := c)) \<Longrightarrow> c \<noteq> W_writing \<Longrightarrow> rw_inv_writer (Some t) (P(t := c))"
  by (auto simp: rw_inv_writer_def)

lemma rw_writer_give:
  "rw_inv_writer m P \<Longrightarrow> rw_readers_own P \<Longrightarrow> \<not> rw_readers_own (P(t := c)) \<Longrightarrow> c \<noteq> W_writing \<Longrightarrow>
     rw_inv_writer None (P(t := c))"
  by (auto simp: rw_inv_writer_def)

lemma rw_writer_write:
  "rw_inv_writer None P \<Longrightarrow> rw_readers_own (P(t := W_writing)) = rw_readers_own P \<Longrightarrow> rw_inv_writer (Some t) (P(t := W_writing))"
  by (auto simp: rw_inv_writer_def)

lemma rw_writer_written:
  "rw_inv_writer m P \<Longrightarrow> P t = W_writing \<Longrightarrow> rw_readers_own (P(t := c)) = rw_readers_own P \<Longrightarrow> c \<noteq> W_writing \<Longrightarrow>
     rw_inv_writer None (P(t := c))"
  by (auto simp: rw_inv_writer_def)

text \<open>The four moves that change who counts or who owns \<open>writer_lock\<close> among the readers.\<close>

lemma rw_own_cases:
  assumes inv: "rw_inv s" and at: "rw_in_block (rw_pcs s t)"
  shows "rw_pcs s t = R_count \<Longrightarrow> READ_COUNT s = 0 \<Longrightarrow>
      rw_inv_turn ((rw_pcs s)(t := R_writer_lock)) \<and> \<not> rw_readers_own (rw_pcs s) \<and> \<not> rw_readers_own ((rw_pcs s)(t := R_writer_lock))"
    and "rw_pcs s t = R_count \<Longrightarrow> READ_COUNT s \<noteq> 0 \<Longrightarrow>
      rw_inv_turn ((rw_pcs s)(t := R_release)) \<and> rw_readers_own (rw_pcs s) \<and> rw_readers_own ((rw_pcs s)(t := R_release))"
    and "rw_pcs s t = R_uncount \<Longrightarrow> READ_COUNT s = 1 \<Longrightarrow>
      rw_inv_turn ((rw_pcs s)(t := R_writer_unlock)) \<and> rw_readers_own (rw_pcs s) \<and> rw_readers_own ((rw_pcs s)(t := R_writer_unlock))"
    and "rw_pcs s t = R_uncount \<Longrightarrow> READ_COUNT s \<noteq> 1 \<Longrightarrow>
      rw_inv_turn ((rw_pcs s)(t := R_release_again)) \<and> rw_readers_own (rw_pcs s) \<and> rw_readers_own ((rw_pcs s)(t := R_release_again))"
    and "rw_pcs s t = R_writer_lock \<Longrightarrow> rw_inv_turn ((rw_pcs s)(t := R_release)) \<and> rw_readers_own ((rw_pcs s)(t := R_release))"
    and "rw_pcs s t = R_writer_unlock \<Longrightarrow> rw_inv_turn ((rw_pcs s)(t := R_release_again))
      \<and> rw_readers_own (rw_pcs s) \<and> \<not> rw_readers_own ((rw_pcs s)(t := R_release_again))"
proof -
  let ?P = "rw_pcs s"
  have cnt: "rw_inv_count (READ_COUNT s) ?P" and turn: "rw_inv_turn ?P" using inv by (auto simp: rw_inv_def)
  have alone: "?P u \<noteq> R_writer_lock" "?P u \<noteq> R_writer_unlock" if "u \<noteq> t" for u
    using inv at that rw_block_unique [of "read_lock s" ?P t u] by (auto simp: rw_inv_def rw_in_block_def)
  show "rw_inv_turn (?P(t := R_writer_lock)) \<and> \<not> rw_readers_own ?P \<and> \<not> rw_readers_own (?P(t := R_writer_lock))"
    if pc: "?P t = R_count" and n: "READ_COUNT s = 0"
  proof -
    have "\<not> rw_counted (?P u)" for u using cnt n rw_count_zero by metis
    moreover have "?P u \<noteq> R_writer_unlock" for u using alone(2) pc by (cases "u = t") auto
    ultimately show ?thesis using alone by (auto simp: rw_inv_turn_def rw_readers_own_def)
  qed
  show "rw_inv_turn (?P(t := R_release)) \<and> rw_readers_own ?P \<and> rw_readers_own (?P(t := R_release))"
    if pc: "?P t = R_count" and n: "READ_COUNT s \<noteq> 0"
  proof -
    obtain u where "rw_counted (?P u)" using rw_count_some [OF cnt n] by blast
    moreover have "?P u \<noteq> R_writer_lock" for u using alone(1) pc by (cases "u = t") auto
    ultimately show ?thesis using alone by (auto simp: rw_inv_turn_def rw_readers_own_def)
  qed
  show "rw_inv_turn (?P(t := R_writer_unlock)) \<and> rw_readers_own ?P \<and> rw_readers_own (?P(t := R_writer_unlock))"
    if pc: "?P t = R_uncount" and n: "READ_COUNT s = 1"
  proof -
    have c: "rw_counted (?P t)" using pc by simp
    have only: "\<not> rw_counted (?P u)" if "u \<noteq> t" for u
      using rw_count_one [of ?P t u] cnt n c that by auto
    have "?P u \<noteq> R_writer_lock" for u using alone(1) pc by (cases "u = t") auto
    with c have "rw_readers_own ?P" by (auto simp: rw_readers_own_def)
    with only alone show ?thesis by (auto simp: rw_inv_turn_def rw_readers_own_def)
  qed
  show "rw_inv_turn (?P(t := R_release_again)) \<and> rw_readers_own ?P \<and> rw_readers_own (?P(t := R_release_again))"
    if pc: "?P t = R_uncount" and n: "READ_COUNT s \<noteq> 1"
  proof -
    obtain u where u: "u \<noteq> t" "rw_counted (?P u)" using rw_count_more [OF cnt n, of t] pc by auto
    have "?P w \<noteq> R_writer_lock" for w using alone(1) pc by (cases "w = t") auto
    with u alone show ?thesis by (auto simp: rw_inv_turn_def rw_readers_own_def)
  qed
  show "rw_inv_turn (?P(t := R_release)) \<and> rw_readers_own (?P(t := R_release))"
    if pc: "?P t = R_writer_lock"
    using alone by (auto simp: rw_inv_turn_def rw_readers_own_def)
  show "rw_inv_turn (?P(t := R_release_again)) \<and> rw_readers_own ?P \<and> \<not> rw_readers_own (?P(t := R_release_again))"
    if pc: "?P t = R_writer_unlock"
    using alone pc turn by (auto simp: rw_inv_turn_def rw_readers_own_def)
qed

lemma rw_block_simps [simp]:
  "rw_in_block R_count" "rw_in_block R_writer_lock" "rw_in_block R_release" "rw_in_block R_uncount"
  "rw_in_block R_writer_unlock" "rw_in_block R_release_again" "\<not> rw_in_block RW_idle" "\<not> rw_in_block R_lock"
  "\<not> rw_in_block R_reading" "\<not> rw_in_block R_lock_again" "\<not> rw_in_block W_lock" "\<not> rw_in_block W_writing"
  by (simp_all add: rw_in_block_def)

lemma rw_block_same: "rw_inv_block m P \<Longrightarrow> rw_in_block c = rw_in_block (P t) \<Longrightarrow> rw_inv_block m (P(t := c))"
  by (auto simp: rw_inv_block_def)

lemma rw_block_enter: "rw_inv_block None P \<Longrightarrow> rw_in_block c \<Longrightarrow> rw_inv_block (Some t) (P(t := c))"
  by (auto simp: rw_inv_block_def)

lemma rw_block_leave: "rw_inv_block m P \<Longrightarrow> rw_in_block (P t) \<Longrightarrow> \<not> rw_in_block c \<Longrightarrow> rw_inv_block None (P(t := c))"
  by (auto simp: rw_inv_block_def)

lemma rw_goto_simps [simp]:
  "read_lock (rw_goto t c s) = read_lock s" "writer_lock (rw_goto t c s) = writer_lock s"
  "READ_COUNT (rw_goto t c s) = READ_COUNT s" "rw_pcs (rw_goto t c s) = (rw_pcs s)(t := c)"
  by (simp_all add: rw_goto_def)

text \<open>A move that changes neither the readers that count nor the owner of \<open>writer_lock\<close>.\<close>

lemma rw_inv_plain:
  assumes "rw_inv s" and "rw_counted c = rw_counted (rw_pcs s t)" and "\<not> rw_special c" "\<not> rw_special (rw_pcs s t)"
    and "c \<noteq> W_writing" "rw_pcs s t \<noteq> W_writing"
    and "rw_inv_block m ((rw_pcs s)(t := c))"
  shows "rw_inv (rw_goto t c (s\<lparr>read_lock := m\<rparr>))"
  using assms by (simp add: rw_inv_def rw_count_same rw_turn_same rw_writer_same rw_own_same del: fun_upd_apply)

lemma rw_inv_move:
  assumes inv: "rw_inv s" and "rw_move e s = Some s'"
  shows "rw_inv s'"
proof -
  from inv have block: "rw_inv_block (read_lock s) (rw_pcs s)" and cnt: "rw_inv_count (READ_COUNT s) (rw_pcs s)"
    and turn: "rw_inv_turn (rw_pcs s)" and wr: "rw_inv_writer (writer_lock s) (rw_pcs s)" by (auto simp: rw_inv_def)
  have plain: "rw_inv (rw_goto t c s)" if "rw_counted c = rw_counted (rw_pcs s t)" "\<not> rw_special c" "\<not> rw_special (rw_pcs s t)"
    "c \<noteq> W_writing" "rw_pcs s t \<noteq> W_writing" "rw_in_block c = rw_in_block (rw_pcs s t)" for t c
    using rw_inv_plain [OF inv that(1-5), of "read_lock s"] rw_block_same [OF block that(6)] by simp
  note own = rw_own_cases [OF inv]
  show ?thesis using assms(2)
  proof (cases rule: rw_move_cases)
    case (Lock t)
    with block show ?thesis by (auto intro!: rw_inv_plain [OF inv] rw_block_enter simp: rw_special_def simp del: fun_upd_apply)
  next
    case (Lock_again t)
    with block show ?thesis by (auto intro!: rw_inv_plain [OF inv] rw_block_enter simp: rw_special_def simp del: fun_upd_apply)
  next
    case (Release t)
    with block show ?thesis by (auto intro!: rw_inv_plain [OF inv] rw_block_leave [OF block] simp: rw_special_def simp del: fun_upd_apply)
  next
    case (Release_again t)
    with block show ?thesis by (auto intro!: rw_inv_plain [OF inv] rw_block_leave [OF block] simp: rw_special_def simp del: fun_upd_apply)
  next
    case (First t)
    have "rw_inv_count (READ_COUNT s + 1) ((rw_pcs s)(t := R_writer_lock))" using First(1) by (intro rw_count_add cnt) auto
    with First own(1) [of t] show ?thesis
      by (simp add: rw_inv_def block rw_block_same wr rw_writer_same del: fun_upd_apply)
  next
    case (Later t)
    have "rw_inv_count (READ_COUNT s + 1) ((rw_pcs s)(t := R_release))" using Later(1) by (intro rw_count_add cnt) auto
    with Later own(2) [of t] show ?thesis
      by (simp add: rw_inv_def block rw_block_same wr rw_writer_same del: fun_upd_apply)
  next
    case (Last t)
    have "rw_inv_count (READ_COUNT s - 1) ((rw_pcs s)(t := R_writer_unlock))" using Last(1) by (intro rw_count_remove cnt) auto
    with Last own(3) [of t] show ?thesis
      by (simp add: rw_inv_def block rw_block_same wr rw_writer_same del: fun_upd_apply)
  next
    case (Not_last t)
    have "rw_inv_count (READ_COUNT s - 1) ((rw_pcs s)(t := R_release_again))" using Not_last(1) by (intro rw_count_remove cnt) auto
    with Not_last own(4) [of t] show ?thesis
      by (simp add: rw_inv_def block rw_block_same wr rw_writer_same del: fun_upd_apply)
  next
    case (Writer_lock t)
    with own(5) [of t] wr show ?thesis
      by (simp add: rw_inv_def block rw_block_same cnt rw_count_same rw_writer_take del: fun_upd_apply)
  next
    case (Writer_unlock t)
    with own(6) [of t] rw_writer_give [OF wr] show ?thesis
      by (simp add: rw_inv_def block rw_block_same cnt rw_count_same del: fun_upd_apply)
  next
    case (Write t)
    with wr turn show ?thesis
      by (simp add: rw_inv_def block rw_block_same cnt rw_count_same rw_turn_same rw_special_def rw_own_same rw_writer_write
          del: fun_upd_apply)
  next
    case (Written t)
    with rw_writer_written [OF wr] turn show ?thesis
      by (simp add: rw_inv_def block rw_block_same cnt rw_count_same rw_turn_same rw_special_def rw_own_same del: fun_upd_apply)
  qed (auto intro!: plain simp: rw_special_def)
qed

lemma rw_writing_unique: "rw_inv s \<Longrightarrow> rw_pcs s t = W_writing \<Longrightarrow> rw_pcs s u = W_writing \<Longrightarrow> t = u"
  unfolding rw_inv_def rw_inv_writer_def by (metis option.inject)

text \<open>The writers hold \<open>writer_lock\<close> one at a time.\<close>

interpretation writers: lock_system rw_init rw_move rw_inv "\<lambda>s t. rw_pcs s t = W_writing"
  by unfold_locales (erule rw_inv_start, erule (1) rw_inv_move, erule (2) rw_writing_unique)

lemma rw_reading_own:
  assumes inv: "rw_inv s" and t: "rw_pcs s t = R_reading"
  shows "rw_readers_own (rw_pcs s)"
proof -
  have c: "rw_counted (rw_pcs s t)" using t by simp
  have "rw_pcs s r \<noteq> R_writer_lock" for r
  proof
    assume r: "rw_pcs s r = R_writer_lock"
    with inv c have "t = r" by (simp add: rw_inv_def rw_inv_turn_def)
    with t r show False by simp
  qed
  with c show ?thesis by (auto simp: rw_readers_own_def)
qed

lemma rw_reading_excludes: "rw_inv s \<Longrightarrow> rw_pcs s t = R_reading \<Longrightarrow> rw_pcs s u \<noteq> W_writing"
  using rw_reading_own [of s t] unfolding rw_inv_def rw_inv_writer_def by blast

lemma rw_start: "rw_init \<lparr>read_lock = None, writer_lock = None, READ_COUNT = 0, rw_pcs = (\<lambda>_. RW_idle)\<rparr>"
  by (simp add: rw_init_def)

lemmas rw_eval = reader_def writer_def lock_read_def lock_writer_def rw_goto_def Let_def

subsection \<open>Properties\<close>

text \<open>C18. Readers and writers exclude each other for any number of threads: while one writer is
  between its lock and its unlock, no other writer is and no reader is reading.\<close>

theorem reader_writer_exclusive:
  assumes "reach rw_init rw_move s" and "rw_pcs s t = W_writing"
  shows "rw_pcs s u \<noteq> R_reading \<and> (rw_pcs s u = W_writing \<longrightarrow> u = t)"
  using writers.exclusive [OF assms(1,2), of u] rw_reading_excludes [OF writers.reach_inv [OF assms(1)], of u t] assms(2)
  by blast

theorem reader_writer_exclusive_witness:
  "\<exists>s. reach rw_init rw_move s \<and> rw_pcs s 0 = W_writing \<and> rw_pcs s 1 = R_writer_lock
     \<and> rw_pcs s 1 \<noteq> R_reading \<and> rw_pcs s 2 \<noteq> W_writing"
proof -
  have "\<exists>s. reach rw_init rw_move s \<and> (rw_pcs s 0 = W_writing \<and> rw_pcs s 1 = R_writer_lock)"
    by (rule reach_witness [where es = "[RW_writer 0, RW_writer 0, RW_reader 1, RW_reader 1, RW_reader 1]"],
        rule rw_start, simp add: rw_eval)
  then obtain s where s: "reach rw_init rw_move s" "rw_pcs s 0 = W_writing" "rw_pcs s 1 = R_writer_lock" by blast
  from reader_writer_exclusive [OF s(1,2), of 1] reader_writer_exclusive [OF s(1,2), of 2] s show ?thesis by auto
qed

text \<open>The count of the readers is right: \<open>READ_COUNT\<close> is the number of readers between their
  increment and their decrement, and while a reader reads, \<open>writer_lock\<close> is held for the readers.\<close>

theorem reader_count_correct:
  assumes "reach rw_init rw_move s"
  shows "READ_COUNT s = int (card {t. rw_counted (rw_pcs s t)})
     \<and> (rw_pcs s u = R_reading \<longrightarrow> 1 \<le> READ_COUNT s \<and> writer_lock s \<noteq> None)"
proof -
  have inv: "rw_inv s" using assms by (rule writers.reach_inv)
  have "1 \<le> READ_COUNT s \<and> writer_lock s \<noteq> None" if u: "rw_pcs s u = R_reading"
  proof -
    have c: "rw_counted (rw_pcs s u)" using u by simp
    with inv have "READ_COUNT s \<noteq> 0" by (auto simp: rw_inv_def dest: rw_count_zero)
    moreover have "0 \<le> READ_COUNT s" using inv by (simp add: rw_inv_def rw_inv_count_def)
    moreover have "rw_readers_own (rw_pcs s)" using inv u by (rule rw_reading_own)
    with inv have "writer_lock s \<noteq> None" by (simp add: rw_inv_def rw_inv_writer_def)
    ultimately show ?thesis by simp
  qed
  with inv show ?thesis by (simp add: rw_inv_def rw_inv_count_def)
qed

theorem reader_count_correct_witness:
  "\<exists>s. reach rw_init rw_move s \<and> rw_pcs s 0 = R_reading \<and> rw_pcs s 1 = R_reading \<and> 1 \<le> READ_COUNT s"
proof -
  have "\<exists>s. reach rw_init rw_move s \<and> (rw_pcs s 0 = R_reading \<and> rw_pcs s 1 = R_reading)"
    by (rule reach_witness [where es = "[RW_reader 0, RW_reader 0, RW_reader 0, RW_reader 0, RW_reader 0,
          RW_reader 1, RW_reader 1, RW_reader 1, RW_reader 1]"], rule rw_start, simp add: rw_eval)
  then obtain s where s: "reach rw_init rw_move s" "rw_pcs s 0 = R_reading" "rw_pcs s 1 = R_reading" by blast
  with reader_count_correct [OF s(1), of 0] show ?thesis by blast
qed

text \<open>\<open>reader\<close> can unlock a mutex that its thread does not own, which is undefined for
  \<open>std::mutex\<close>: the first reader locks \<open>writer_lock\<close> and the last one, another thread, unlocks it.\<close>

theorem reader_unlocks_foreign_mutex:
  "\<exists>s. reach rw_init rw_move s \<and> rw_pcs s 1 = R_writer_unlock \<and> writer_lock s = Some 0"
  by (rule reach_witness [where es = "[RW_reader 0, RW_reader 0, RW_reader 0, RW_reader 0, RW_reader 0,
        RW_reader 1, RW_reader 1, RW_reader 1, RW_reader 1, RW_reader 0, RW_reader 0, RW_reader 0, RW_reader 0,
        RW_reader 1, RW_reader 1, RW_reader 1]"], rule rw_start, simp add: rw_eval)

end
