(* ===== verification/Treiber.thy ===== *)
theory Treiber
  imports DS_Prelude "HOL-Library.Multiset"
begin

text \<open>
  What the stacks of \<open>concurrent_structures/stack_lockfree.cpp\<close> have in common: the nodes in the
  heap, the loop of \<open>push\<close>, the loop of \<open>pop\<close> without hazard pointers, and the contract of a
  linearizable stack. An access of a node that is not allocated sets \<open>fault\<close>. The allocator may
  return any address that is not in use, so addresses are reused.
\<close>

subsection \<open>The sequential stack\<close>

datatype 'a op = Push 'a | Pop 'a | Pop_empty

fun lifo_move :: "tid \<times> 'a op \<Rightarrow> 'a list \<Rightarrow> 'a list option" where
  "lifo_move (t, Push v) xs = Some (v # xs)"
| "lifo_move (t, Pop v) xs = (case xs of [] \<Rightarrow> None | x # ys \<Rightarrow> if x = v then Some ys else None)"
| "lifo_move (t, Pop_empty) xs = (if xs = [] then Some xs else None)"

text \<open>
  A history is the sequence of the operations that have taken effect, with their threads and
  results; it is legal if the sequential stack can run it.
\<close>

type_synonym 'a history = "(tid \<times> 'a op) list"

definition pushes :: "'a history \<Rightarrow> 'a multiset" where
  "pushes h = mset (concat (map (\<lambda>(t, e). case e of Push v \<Rightarrow> [v] | _ \<Rightarrow> []) h))"

definition pops :: "'a history \<Rightarrow> 'a multiset" where
  "pops h = mset (concat (map (\<lambda>(t, e). case e of Pop v \<Rightarrow> [v] | _ \<Rightarrow> []) h))"

text \<open>The last operation of a thread that has taken effect.\<close>

definition last_op :: "tid \<Rightarrow> 'a history \<Rightarrow> 'a op option" where
  "last_op t h = (let es = filter (\<lambda>e. fst e = t) h in if es = [] then None else Some (snd (last es)))"

lemma last_op_append: "last_op t (h @ [(u, e)]) = (if u = t then Some e else last_op t h)"
  by (simp add: last_op_def Let_def)

lemma run_snoc: "run move (es @ [e]) s = Option.bind (run move es s) (move e)"
  by (simp add: run_append split: option.splits)

text \<open>No value is popped that was not pushed, none is popped twice, none is lost.\<close>

lemma lifo_conserves: "run lifo_move h [] = Some xs \<Longrightarrow> pushes h = pops h + mset xs"
proof (induction h arbitrary: xs rule: rev_induct)
  case Nil
  then show ?case by (simp add: pushes_def pops_def)
next
  case (snoc e h)
  then obtain ys where ys: "run lifo_move h [] = Some ys" "lifo_move e ys = Some xs"
    by (auto simp: run_snoc bind_eq_Some_conv)
  obtain t c where e: "e = (t, c)" by (cases e)
  from snoc.IH [OF ys(1)] ys(2) e show ?case
    by (cases c) (auto simp: pushes_def pops_def split: list.splits if_splits)
qed

subsection \<open>The contract of a linearizable stack\<close>

text \<open>
  Every operation takes effect in one step between its call and its return: a step appends at most
  one operation to the history, and the history is legal.
\<close>

locale linearizable_stack = invariant_system init move inv
  for init :: "'s \<Rightarrow> bool" and move :: "'e \<Rightarrow> 's \<Rightarrow> 's option" and inv :: "'s \<Rightarrow> bool" +
  fixes history :: "'s \<Rightarrow> 'a history"
  assumes history_legal: "inv s \<Longrightarrow> \<exists>xs. run lifo_move (history s) [] = Some xs"
    and history_grows: "move e s = Some s' \<Longrightarrow> history s' = history s \<or> (\<exists>x. history s' = history s @ [x])"
begin

lemma linearizable: "reach init move s \<Longrightarrow> \<exists>xs. run lifo_move (history s) [] = Some xs \<and> pushes (history s) = pops (history s) + mset xs"
  using history_legal [OF reach_inv] lifo_conserves by blast

lemma history_prefix: "run move es s = Some s' \<Longrightarrow> \<exists>h. history s' = history s @ h"
proof (induction es arbitrary: s)
  case (Cons e es)
  then obtain u where u: "move e s = Some u" "run move es u = Some s'" by (auto split: option.splits)
  from Cons.IH [OF u(2)] history_grows [OF u(1)] show ?case by auto
qed simp

end

subsection \<open>Nodes\<close>

text \<open>A node: the value (a \<open>shared_ptr\<close> that may have been swapped out) and the link.\<close>

record 'a node =
  data :: "'a option"
  nxt :: "nat option"

record 'a tstack =
  heap :: "nat \<Rightarrow> 'a node option"
  head :: "nat option"
  hist :: "'a history"
  fault :: bool

text \<open>Writing a node, deleting a node.\<close>

definition put_node :: "nat \<Rightarrow> 'a node \<Rightarrow> ('a, 'z) tstack_scheme \<Rightarrow> ('a, 'z) tstack_scheme" where
  "put_node a n s = s\<lparr>heap := (heap s)(a \<mapsto> n)\<rparr>"

definition delete_node :: "nat \<Rightarrow> ('a, 'z) tstack_scheme \<Rightarrow> ('a, 'z) tstack_scheme" where
  "delete_node a s = (if heap s a = None then s\<lparr>fault := True\<rparr> else s\<lparr>heap := (heap s)(a := None)\<rparr>)"

definition effect :: "tid \<Rightarrow> 'a op \<Rightarrow> ('a, 'z) tstack_scheme \<Rightarrow> ('a, 'z) tstack_scheme" where
  "effect t e s = s\<lparr>hist := hist s @ [(t, e)]\<rparr>"

subsection \<open>\<open>push\<close>\<close>

datatype 'a push_pc =
    New_node 'a \<comment> \<open>about to evaluate \<open>new node{obj}\<close>\<close>
  | Load_next nat \<comment> \<open>about to store \<open>head\<close> in \<open>new_head->next\<close>\<close>
  | Cas_push nat
  | Pushed
  | Push_throws

text \<open>
  One step of \<open>push\<close>: \<open>alloc\<close> is the address the allocator returns (\<open>None\<close>: it throws), \<open>weak\<close>
  lets the exchange fail spuriously. A failed exchange stores \<open>head\<close> in \<open>new_head->next\<close>.
\<close>

definition push_step :: "tid \<Rightarrow> nat option \<Rightarrow> bool \<Rightarrow> 'a push_pc \<Rightarrow> ('a, 'z) tstack_scheme
    \<Rightarrow> ('a push_pc \<times> ('a, 'z) tstack_scheme) option" where
  "push_step t alloc weak pc s =
     (case pc of
        New_node v \<Rightarrow>
          (case alloc of
             None \<Rightarrow> Some (Push_throws, s)
           | Some a \<Rightarrow>
               (if heap s a = None then Some (Load_next a, put_node a \<lparr>data = Some v, nxt = None\<rparr> s) else None))
      | Load_next a \<Rightarrow>
          (case heap s a of
             None \<Rightarrow> Some (pc, s\<lparr>fault := True\<rparr>)
           | Some n \<Rightarrow> Some (Cas_push a, put_node a (n\<lparr>nxt := head s\<rparr>) s))
      | Cas_push a \<Rightarrow>
          (case heap s a of
             None \<Rightarrow> Some (pc, s\<lparr>fault := True\<rparr>)
           | Some n \<Rightarrow>
               (if nxt n = head s \<and> \<not> weak
                then Some (Pushed, effect t (Push (the (data n))) (s\<lparr>head := Some a\<rparr>))
                else Some (Cas_push a, put_node a (n\<lparr>nxt := head s\<rparr>) s)))
      | _ \<Rightarrow> None)"

subsection \<open>The loop of \<open>pop\<close>\<close>

datatype pop_pc =
    Load_head
  | Read_next nat \<comment> \<open>\<open>old_head\<close> is not null, about to read \<open>old_head->next\<close>\<close>
  | Cas_pop nat "nat option"
  | Loop_left "nat option" \<comment> \<open>\<open>old_head\<close> at the end of the loop\<close>

definition loop_test :: "tid \<Rightarrow> nat option \<Rightarrow> ('a, 'z) tstack_scheme \<Rightarrow> pop_pc \<times> ('a, 'z) tstack_scheme" where
  "loop_test t old_head s =
     (case old_head of None \<Rightarrow> (Loop_left None, effect t Pop_empty s) | Some a \<Rightarrow> (Read_next a, s))"

definition pop_step :: "tid \<Rightarrow> bool \<Rightarrow> pop_pc \<Rightarrow> ('a, 'z) tstack_scheme \<Rightarrow> (pop_pc \<times> ('a, 'z) tstack_scheme) option" where
  "pop_step t weak pc s =
     (case pc of
        Load_head \<Rightarrow> Some (loop_test t (head s) s)
      | Read_next a \<Rightarrow>
          (case heap s a of
             None \<Rightarrow> Some (pc, s\<lparr>fault := True\<rparr>)
           | Some n \<Rightarrow> Some (Cas_pop a (nxt n), s))
      | Cas_pop a n \<Rightarrow>
          (if head s = Some a \<and> \<not> weak
           then Some (Loop_left (Some a), effect t (Pop (the (Option.bind (heap s a) data))) (s\<lparr>head := n\<rparr>))
           else Some (loop_test t (head s) s))
      | Loop_left r \<Rightarrow> None)"

text \<open>The pointer \<open>pop\<close> returns is the value of the thread's last operation, null if the stack was empty.\<close>

fun res_ok :: "'a option \<Rightarrow> 'a op option \<Rightarrow> bool" where
  "res_ok (Some v) e = (e = Some (Pop v))"
| "res_ok None e = (e = Some Pop_empty)"

subsection \<open>Linked lists in the heap\<close>

fun seg :: "(nat \<Rightarrow> 'a node option) \<Rightarrow> nat option \<Rightarrow> nat list \<Rightarrow> bool" where
  "seg H p [] \<longleftrightarrow> p = None"
| "seg H p (c # cs) \<longleftrightarrow> p = Some c \<and> (\<exists>n. H c = Some n \<and> seg H (nxt n) cs)"

text \<open>The list at \<open>p\<close> has exactly the nodes \<open>A\<close> and holds the values \<open>vs\<close>.\<close>

definition node_list :: "(nat \<Rightarrow> 'a node option) \<Rightarrow> nat option \<Rightarrow> nat set \<Rightarrow> 'a option list \<Rightarrow> bool" where
  "node_list H p A vs \<longleftrightarrow> (\<exists>cs. seg H p cs \<and> distinct cs \<and> set cs = A \<and> vs = map (\<lambda>c. Option.bind (H c) data) cs)"

lemma seg_frame: "a \<notin> set cs \<Longrightarrow> seg (H(a := x)) p cs = seg H p cs"
  by (induction cs arbitrary: p) auto

lemma node_list_frame: "node_list H p A vs \<Longrightarrow> a \<notin> A \<Longrightarrow> node_list (H(a := x)) p A vs"
  unfolding node_list_def by (metis (no_types, lifting) fun_upd_other map_eq_conv seg_frame)

lemma seg_cong: "seg H p cs \<Longrightarrow> (\<And>b. b \<in> set cs \<Longrightarrow> H' b = H b) \<Longrightarrow> seg H' p cs"
  by (induction cs arbitrary: p) auto

lemma node_list_cong:
  assumes "node_list H p A vs" and "\<And>b. b \<in> A \<Longrightarrow> H' b = H b"
  shows "node_list H' p A vs"
proof -
  from assms(1) obtain cs where cs: "seg H p cs" "distinct cs" "set cs = A" "vs = map (\<lambda>c. Option.bind (H c) data) cs"
    by (auto simp: node_list_def)
  moreover from cs(3) assms(2) have "map (\<lambda>c. Option.bind (H' c) data) cs = map (\<lambda>c. Option.bind (H c) data) cs" by simp
  ultimately show ?thesis using assms(2) unfolding node_list_def by (auto intro!: exI [of _ cs] intro: seg_cong)
qed

lemma seg_null: "seg H None cs \<longleftrightarrow> cs = []"
  by (cases cs) auto

lemma seg_unique: "seg H p cs \<Longrightarrow> seg H p ds \<Longrightarrow> cs = ds"
proof (induction cs arbitrary: p ds)
  case Nil
  then show ?case by (simp add: seg_null)
next
  case (Cons c cs)
  then show ?case by (cases ds) auto
qed

lemma node_list_null: "node_list H None A vs \<longleftrightarrow> A = {} \<and> vs = []"
proof
  assume "node_list H None A vs"
  then obtain cs where "seg H None cs" "set cs = A" "vs = map (\<lambda>c. Option.bind (H c) data) cs" by (auto simp: node_list_def)
  then show "A = {} \<and> vs = []" by (cases cs) auto
qed (auto simp: node_list_def intro: exI [of _ "[]"])

lemma no_nodes: "Ex (node_list H None A) \<longleftrightarrow> A = {}"
  by (auto simp: node_list_null)

lemma node_list_cons:
  assumes "node_list H p A vs" and "a \<notin> A" and "H a = Some n" and "nxt n = p"
  shows "node_list H (Some a) (insert a A) (data n # vs)"
proof -
  from assms(1) obtain cs where cs: "seg H p cs" "distinct cs" "set cs = A" "vs = map (\<lambda>c. Option.bind (H c) data) cs"
    by (auto simp: node_list_def)
  with assms show ?thesis unfolding node_list_def by (intro exI [of _ "a # cs"]) simp
qed

lemma node_list_Some:
  assumes "node_list H (Some a) A vs"
  shows "\<exists>n ws. H a = Some n \<and> a \<in> A \<and> vs = data n # ws \<and> node_list H (nxt n) (A - {a}) ws"
proof -
  from assms obtain cs where cs: "seg H (Some a) cs" "distinct cs" "set cs = A" "vs = map (\<lambda>c. Option.bind (H c) data) cs"
    by (auto simp: node_list_def)
  then obtain ds where ds: "cs = a # ds" by (cases cs) auto
  with cs(1) obtain n where n: "H a = Some n" "seg H (nxt n) ds" by auto
  moreover have "node_list H (nxt n) (A - {a}) (map (\<lambda>c. Option.bind (H c) data) ds)"
    unfolding node_list_def using cs ds n by (intro exI [of _ ds]) auto
  ultimately show ?thesis using cs ds by auto
qed

lemma node_list_alive: "node_list H p A vs \<Longrightarrow> a \<in> A \<Longrightarrow> H a \<noteq> None"
proof -
  have "seg H p cs \<Longrightarrow> a \<in> set cs \<Longrightarrow> H a \<noteq> None" for cs
    by (induction cs arbitrary: p) auto
  then show "node_list H p A vs \<Longrightarrow> a \<in> A \<Longrightarrow> H a \<noteq> None" by (auto simp: node_list_def)
qed

lemma node_list_card: "node_list H p A vs \<Longrightarrow> finite A \<and> card A = length vs"
  by (auto simp: node_list_def distinct_card)

subsection \<open>Who owns a node\<close>

text \<open>
  What a node is used for, a function the invariants quantify over: it is free, on the stack, owned
  by one thread, on a list that one thread walks, or retired (unlinked and not freed).
\<close>

datatype role = Free | On_stack | Private tid | Batch tid | Retired

definition stack_ok :: "(nat \<Rightarrow> role) \<Rightarrow> ('a, 'z) tstack_scheme \<Rightarrow> bool" where
  "stack_ok r s \<longleftrightarrow> (\<forall>a. heap s a = None \<longleftrightarrow> r a = Free) \<and> \<not> fault s
     \<and> (\<exists>xs. run lifo_move (hist s) [] = Some xs \<and> node_list (heap s) (head s) {a. r a = On_stack} (map Some xs))"

lemma stack_ok_roles:
  assumes "stack_ok r s" and "\<And>b. r' b = On_stack \<longleftrightarrow> r b = On_stack" and "\<And>b. r' b = Free \<longleftrightarrow> r b = Free"
    and "heap s' = heap s" "head s' = head s" "hist s' = hist s" "fault s' = fault s"
  shows "stack_ok r' s'"
  using assms by (simp add: stack_ok_def)

lemma stack_ok_alive: "stack_ok r s \<Longrightarrow> heap s a = None \<longleftrightarrow> r a = Free"
  by (simp add: stack_ok_def)

lemma stack_ok_head: "stack_ok r s \<Longrightarrow> head s = Some a \<Longrightarrow> r a = On_stack"
  using node_list_Some unfolding stack_ok_def by fastforce

lemma put_node_simps [simp]:
  "heap (put_node a n s) = (heap s)(a \<mapsto> n)" "head (put_node a n s) = head s" "hist (put_node a n s) = hist s"
  "fault (put_node a n s) = fault s"
  by (simp_all add: put_node_def)

lemma effect_simps [simp]:
  "heap (effect t e s) = heap s" "head (effect t e s) = head s" "hist (effect t e s) = hist s @ [(t, e)]"
  "fault (effect t e s) = fault s"
  by (simp_all add: effect_def)

text \<open>What happens to nodes that are not on the stack does not matter to it.\<close>

lemma stack_ok_frame:
  assumes "stack_ok r s" and "r a \<noteq> On_stack" and "x \<noteq> On_stack" and "y = None \<longleftrightarrow> x = Free"
    and "heap s' = (heap s)(a := y)" and "head s' = head s" "hist s' = hist s" "fault s' = fault s"
  shows "stack_ok (r(a := x)) s'"
proof -
  have same: "{b. (r(a := x)) b = On_stack} = {b. r b = On_stack}" using assms(2,3) by auto
  have "node_list (heap s) (head s) {b. r b = On_stack} vs \<Longrightarrow>
      node_list ((heap s)(a := y)) (head s) {b. r b = On_stack} vs" for vs
    using assms(2) by (auto intro: node_list_frame)
  with assms same show ?thesis by (auto simp: stack_ok_def)
qed

lemma stack_ok_alloc:
  "stack_ok r s \<Longrightarrow> heap s a = None \<Longrightarrow> stack_ok (r(a := Private t)) (put_node a n s)"
  by (rule stack_ok_frame [where y = "Some n"]) (auto simp: stack_ok_alive)

lemma stack_ok_write:
  assumes "stack_ok r s" and "heap s a \<noteq> None" and "r a \<noteq> On_stack"
  shows "stack_ok r (put_node a n s)"
proof -
  have "r a \<noteq> Free" using assms by (simp add: stack_ok_alive)
  with stack_ok_frame [OF assms(1,3,3), of "Some n" "put_node a n s"] show ?thesis by simp
qed

lemma stack_ok_role: "stack_ok r s \<Longrightarrow> r a \<noteq> On_stack \<Longrightarrow> r a \<noteq> Free \<Longrightarrow> x \<noteq> On_stack \<Longrightarrow> x \<noteq> Free \<Longrightarrow> stack_ok (r(a := x)) s"
  by (rule stack_ok_frame [where y = "heap s a"]) (auto simp: stack_ok_alive)

lemma stack_ok_delete:
  "stack_ok r s \<Longrightarrow> heap s a \<noteq> None \<Longrightarrow> r a \<noteq> On_stack \<Longrightarrow> stack_ok (r(a := Free)) (delete_node a s)"
  by (rule stack_ok_frame [where s = s and y = None]) (auto simp: delete_node_def)

text \<open>The exchange of \<open>push\<close> and the exchange of \<open>pop\<close>.\<close>

lemma stack_ok_push:
  assumes "stack_ok r s" and "r a = Private t" and "heap s a = Some n" and "nxt n = head s" and "data n = Some v"
  shows "stack_ok (r(a := On_stack)) (effect t (Push v) (s\<lparr>head := Some a\<rparr>))"
proof -
  from assms(1) obtain xs where xs: "run lifo_move (hist s) [] = Some xs"
    "node_list (heap s) (head s) {b. r b = On_stack} (map Some xs)" by (auto simp: stack_ok_def)
  have "node_list (heap s) (Some a) (insert a {b. r b = On_stack}) (map Some (v # xs))"
    using node_list_cons [OF xs(2) _ assms(3,4)] assms(2,5) by simp
  moreover have "insert a {b. r b = On_stack} = {b. (r(a := On_stack)) b = On_stack}" by auto
  moreover have "r a \<noteq> Free" using assms(2) by simp
  ultimately show ?thesis using assms(1,3) xs(1) by (auto simp: stack_ok_def run_snoc)
qed

lemma stack_ok_pop:
  assumes "stack_ok r s" and "head s = Some a" and "x \<noteq> On_stack" and "x \<noteq> Free"
  shows "\<exists>n v. heap s a = Some n \<and> data n = Some v \<and> r a = On_stack
     \<and> stack_ok (r(a := x)) (effect t (Pop v) (s\<lparr>head := nxt n\<rparr>))"
proof -
  from assms(1,2) obtain xs where xs: "run lifo_move (hist s) [] = Some xs"
    "node_list (heap s) (Some a) {b. r b = On_stack} (map Some xs)" by (auto simp: stack_ok_def)
  from node_list_Some [OF xs(2)] obtain n ws where n: "heap s a = Some n" "r a = On_stack" "map Some xs = data n # ws"
    "node_list (heap s) (nxt n) ({b. r b = On_stack} - {a}) ws" by auto
  then obtain v ys where v: "xs = v # ys" "data n = Some v" "ws = map Some ys" by auto
  moreover have "{b. r b = On_stack} - {a} = {b. (r(a := x)) b = On_stack}" using assms(3) by auto
  ultimately show ?thesis using assms n xs(1) by (auto simp: stack_ok_def run_snoc)
qed

lemma stack_ok_empty: "stack_ok r s \<Longrightarrow> head s = None \<Longrightarrow> stack_ok r (effect t Pop_empty s)"
  by (auto simp: stack_ok_def run_snoc node_list_null)

subsection \<open>The steps of the two loops\<close>

text \<open>What a thread inside \<open>push\<close> owns: its new node.\<close>

fun push_nodes :: "'a push_pc \<Rightarrow> nat set" where
  "push_nodes (Load_next a) = {a}"
| "push_nodes (Cas_push a) = {a}"
| "push_nodes _ = {}"

definition push_ok :: "(nat \<Rightarrow> role) \<Rightarrow> ('a, 'z) tstack_scheme \<Rightarrow> tid \<Rightarrow> 'a push_pc \<Rightarrow> bool" where
  "push_ok r s t pc \<longleftrightarrow> {b. r b = Private t} = push_nodes pc
     \<and> (\<forall>a. r a = Private t \<longrightarrow> (\<exists>n v. heap s a = Some n \<and> data n = Some v))"

lemma push_own:
  assumes "push_ok r s t pc" and "a \<in> push_nodes pc"
  shows "r a = Private t" and "\<exists>n v. heap s a = Some n \<and> data n = Some v"
  using assms unfolding push_ok_def by blast+

lemma push_ok_frame:
  "push_ok r s u pc \<Longrightarrow> (\<And>b. r' b = Private u \<longleftrightarrow> r b = Private u) \<Longrightarrow>
    (\<And>b. r b = Private u \<Longrightarrow> heap s' b = heap s b) \<Longrightarrow> push_ok r' s' u pc"
  by (simp add: push_ok_def)

text \<open>A step of \<open>push\<close> takes a free node, writes its own node, or links it.\<close>

definition push_frame :: "tid \<Rightarrow> (nat \<Rightarrow> role) \<Rightarrow> ('a, 'z) tstack_scheme \<Rightarrow> (nat \<Rightarrow> role) \<Rightarrow> ('a, 'z) tstack_scheme \<Rightarrow> bool" where
  "push_frame t r s r' s' \<longleftrightarrow> (\<forall>b. r b \<noteq> Free \<and> r b \<noteq> Private t \<longrightarrow> r' b = r b \<and> heap s' b = heap s b)
     \<and> (\<forall>b. r' b = r b \<or> r b = Free \<and> r' b = Private t \<or> r b = Private t \<and> r' b = On_stack)"

lemma push_step_ok:
  assumes ok: "stack_ok r s" and own: "push_ok r s t pc" and step: "push_step t alloc weak pc s = Some (pc', s')"
  shows "\<exists>r'. stack_ok r' s' \<and> push_ok r' s' t pc' \<and> push_frame t r s r' s'"
proof (cases pc)
  case (New_node v)
  show ?thesis
  proof (cases alloc)
    case None
    with New_node step own ok show ?thesis
      by (intro exI [of _ r]) (auto simp: push_step_def push_ok_def push_frame_def)
  next
    case (Some a)
    with New_node step have a: "heap s a = None" "pc' = Load_next a" "s' = put_node a \<lparr>data = Some v, nxt = None\<rparr> s"
      by (auto simp: push_step_def split: if_splits)
    then have "r a = Free" using ok by (simp add: stack_ok_alive)
    with a own New_node stack_ok_alloc [OF ok a(1)] show ?thesis
      by (intro exI [of _ "r(a := Private t)"]) (auto simp: push_ok_def push_frame_def)
  qed
next
  case (Load_next a)
  with own obtain n v where n: "r a = Private t" "heap s a = Some n" "data n = Some v"
    using push_own [OF own, of a] by auto
  with Load_next step have "pc' = Cas_push a" "s' = put_node a (n\<lparr>nxt := head s\<rparr>) s" by (auto simp: push_step_def)
  with own Load_next n stack_ok_write [OF ok, of a] show ?thesis
    by (intro exI [of _ r]) (auto simp: push_ok_def push_frame_def)
next
  case (Cas_push a)
  with own obtain n v where n: "r a = Private t" "heap s a = Some n" "data n = Some v"
    using push_own [OF own, of a] by auto
  show ?thesis
  proof (cases "nxt n = head s \<and> \<not> weak")
    case True
    with Cas_push step n have s': "pc' = Pushed" "s' = effect t (Push v) (s\<lparr>head := Some a\<rparr>)" by (auto simp: push_step_def)
    from stack_ok_push [OF ok n(1,2) _ n(3)] True have "stack_ok (r(a := On_stack)) s'" by (simp add: s')
    with s' own Cas_push n show ?thesis
      by (intro exI [of _ "r(a := On_stack)"]) (auto simp: push_ok_def push_frame_def)
  next
    case False
    with Cas_push step n have "pc' = Cas_push a" "s' = put_node a (n\<lparr>nxt := head s\<rparr>) s" by (auto simp: push_step_def)
    with own Cas_push n stack_ok_write [OF ok, of a] show ?thesis
      by (intro exI [of _ r]) (auto simp: push_ok_def push_frame_def)
  qed
qed (use step in \<open>auto simp: push_step_def\<close>)

text \<open>The steps of the loop of \<open>pop\<close>, from a point whose node is allocated.\<close>

fun pop_node :: "pop_pc \<Rightarrow> nat option" where
  "pop_node (Read_next a) = Some a"
| "pop_node (Cas_pop a n) = Some a"
| "pop_node _ = None"

lemma pop_step_cases [consumes 4, case_names Top Empty Next Taken]:
  assumes ok: "stack_ok r s" and alive: "\<forall>a. pop_node pc = Some a \<longrightarrow> heap s a \<noteq> None"
    and step: "pop_step t weak pc s = Some (pc', s')"
    and cur: "\<forall>a n. pc = Cas_pop a n \<and> r a = On_stack \<longrightarrow> (\<exists>m. heap s a = Some m \<and> nxt m = n)"
  obtains (Top) b where "pc' = Read_next b" "s' = s" "r b = On_stack"
  | (Empty) "pc' = Loop_left None" "s' = effect t Pop_empty s" "stack_ok r s'"
  | (Next) a n where "pc = Read_next a" "heap s a = Some n" "pc' = Cas_pop a (nxt n)" "s' = s"
  | (Taken) a m v where "pc = Cas_pop a (nxt m)" "pc' = Loop_left (Some a)" "r a = On_stack" "heap s a = Some m" "data m = Some v"
      "s' = effect t (Pop v) (s\<lparr>head := nxt m\<rparr>)" "\<And>x. x \<noteq> On_stack \<Longrightarrow> x \<noteq> Free \<Longrightarrow> stack_ok (r(a := x)) s'"
proof -
  have test: thesis if "loop_test t (head s) s = (pc', s')"
  proof (cases "head s")
    case None
    with that Empty stack_ok_empty [OF ok] show thesis by (auto simp: loop_test_def)
  next
    case (Some b)
    with that Top stack_ok_head [OF ok] show thesis by (auto simp: loop_test_def)
  qed
  show thesis
  proof (cases pc)
    case Load_head
    with step test show ?thesis by (simp add: pop_step_def)
  next
    case (Read_next a)
    with alive obtain n where n: "heap s a = Some n" by fastforce
    with Read_next step have "pc' = Cas_pop a (nxt n)" "s' = s" by (auto simp: pop_step_def)
    then show ?thesis by (rule Next [OF Read_next n])
  next
    case (Cas_pop a n)
    show ?thesis
    proof (cases "head s = Some a \<and> \<not> weak")
      case True
      then have "r a = On_stack" using stack_ok_head [OF ok] by simp
      with cur Cas_pop obtain m where m: "heap s a = Some m" "nxt m = n" by blast
      from stack_ok_pop [OF ok, of a Retired] True m obtain v where v: "data m = Some v" by auto
      with True Cas_pop step m have s': "pc' = Loop_left (Some a)" "s' = effect t (Pop v) (s\<lparr>head := nxt m\<rparr>)"
        by (auto simp: pop_step_def)
      have "stack_ok (r(a := x)) s'" if "x \<noteq> On_stack" "x \<noteq> Free" for x
        using stack_ok_pop [OF ok, of a x t] that True m v s' by auto
      with Taken [of a m v] Cas_pop m s' v \<open>r a = On_stack\<close> show ?thesis by blast
    next
      case False
      with Cas_pop step test show ?thesis by (auto simp: pop_step_def)
    qed
  qed (use step in \<open>auto simp: pop_step_def\<close>)
qed

lemma push_step_hist: "push_step t alloc weak pc s = Some (pc', s') \<Longrightarrow>
    hist s' = hist s \<and> pc' \<noteq> Pushed \<or> (\<exists>v. hist s' = hist s @ [(t, Push v)])"
  by (auto simp: push_step_def split: push_pc.splits option.splits if_splits)

lemma pop_step_hist: "pop_step t weak pc s = Some (pc', s') \<Longrightarrow> hist s' = hist s \<or> (\<exists>e. hist s' = hist s @ [e])"
  by (auto simp: pop_step_def loop_test_def effect_def split: pop_pc.splits option.splits if_splits)

end
