(* ===== verification/Stack_Leaky.thy ===== *)
theory Stack_Leaky
  imports Treiber
begin

text \<open>
  \<open>concurrent_structures/stack_lockfree.cpp\<close>, the namespaces \<open>exception\<close> and \<open>mem_leak\<close>: the stacks
  that never delete a node. They differ in what \<open>pop\<close> returns: a copy of the value, whose copy
  constructor may throw, or a \<open>shared_ptr\<close>.
\<close>

subsection \<open>State\<close>

datatype 'a lk_result = LK_void | LK_bad_alloc | LK_value 'a | LK_nothing | LK_copy_throws

datatype 'a lk_pc = LK_idle | LK_push "'a push_pc" | LK_pop pop_pc | LK_done "'a lk_result"

record 'a leaky_stack = "'a tstack" +
  lk_pcs :: "tid \<Rightarrow> 'a lk_pc"

text \<open>The atomic \<open>head\<close> is taken as initialised with the null pointer, as C++20 does.\<close>

definition lk_new :: "'a leaky_stack" where
  "lk_new = \<lparr>heap = (\<lambda>_. None), head = None, hist = [], fault = False, lk_pcs = (\<lambda>_. LK_idle)\<rparr>"

definition lk_init :: "'a leaky_stack \<Rightarrow> bool" where
  "lk_init s \<longleftrightarrow> s = lk_new"

definition lk_goto :: "tid \<Rightarrow> 'a lk_pc \<Rightarrow> 'a leaky_stack \<Rightarrow> 'a leaky_stack" where
  "lk_goto t c s = s\<lparr>lk_pcs := (lk_pcs s)(t := c)\<rparr>"

subsection \<open>Operations\<close>

text \<open>The point after a step of \<open>push\<close>.\<close>

fun lk_after_push :: "'a push_pc \<Rightarrow> 'a lk_pc" where
  "lk_after_push Pushed = LK_done LK_void"
| "lk_after_push Push_throws = LK_done LK_bad_alloc"
| "lk_after_push pc = LK_push pc"

definition exception_push :: "tid \<Rightarrow> nat option \<Rightarrow> bool \<Rightarrow> 'a leaky_stack \<Rightarrow> 'a leaky_stack option" where
  "exception_push t alloc weak s =
     (case lk_pcs s t of
        LK_push pc \<Rightarrow> map_option (\<lambda>(pc', s'). lk_goto t (lk_after_push pc') s') (push_step t alloc weak pc s)
      | _ \<Rightarrow> None)"

text \<open>\<open>result = old_head ? old_head->data : T{}\<close>; \<open>copies\<close> is false when the copy throws.\<close>

definition exception_pop :: "tid \<Rightarrow> bool \<Rightarrow> bool \<Rightarrow> 'a leaky_stack \<Rightarrow> 'a leaky_stack option" where
  "exception_pop t weak copies s =
     (case lk_pcs s t of
        LK_pop (Loop_left None) \<Rightarrow> Some (lk_goto t (LK_done LK_nothing) s)
      | LK_pop (Loop_left (Some a)) \<Rightarrow>
          (case heap s a of
             None \<Rightarrow> Some (s\<lparr>fault := True\<rparr>)
           | Some n \<Rightarrow> Some (lk_goto t (LK_done (if copies then LK_value (the (data n)) else LK_copy_throws)) s))
      | LK_pop pc \<Rightarrow> map_option (\<lambda>(pc', s'). lk_goto t (LK_pop pc') s') (pop_step t weak pc s)
      | _ \<Rightarrow> None)"

text \<open>The text of \<open>push\<close> is the same in both namespaces.\<close>

definition mem_leak_push :: "tid \<Rightarrow> nat option \<Rightarrow> bool \<Rightarrow> 'a leaky_stack \<Rightarrow> 'a leaky_stack option" where
  "mem_leak_push = exception_push"

definition mem_leak_pop :: "tid \<Rightarrow> bool \<Rightarrow> 'a leaky_stack \<Rightarrow> 'a leaky_stack option" where
  "mem_leak_pop t weak s =
     (case lk_pcs s t of
        LK_pop (Loop_left None) \<Rightarrow> Some (lk_goto t (LK_done LK_nothing) s)
      | LK_pop (Loop_left (Some a)) \<Rightarrow>
          (case heap s a of
             None \<Rightarrow> Some (s\<lparr>fault := True\<rparr>)
           | Some n \<Rightarrow>
               Some (lk_goto t (LK_done (case data n of None \<Rightarrow> LK_nothing | Some v \<Rightarrow> LK_value v)) s))
      | LK_pop pc \<Rightarrow> map_option (\<lambda>(pc', s'). lk_goto t (LK_pop pc') s') (pop_step t weak pc s)
      | _ \<Rightarrow> None)"

datatype 'a lk_event = LK_call_push tid 'a | LK_call_pop tid | LK_push_step tid "nat option" bool | LK_pop_step tid bool bool

fun lk_quiet :: "'a lk_pc \<Rightarrow> bool" where
  "lk_quiet LK_idle = True"
| "lk_quiet (LK_done r) = True"
| "lk_quiet _ = False"

text \<open>The moves of the one stack or, if \<open>shared\<close>, of the other.\<close>

fun lk_move :: "bool \<Rightarrow> 'a lk_event \<Rightarrow> 'a leaky_stack \<Rightarrow> 'a leaky_stack option" where
  "lk_move shared (LK_call_push t v) s =
     (if lk_quiet (lk_pcs s t) then Some (lk_goto t (LK_push (New_node v)) s) else None)"
| "lk_move shared (LK_call_pop t) s =
     (if lk_quiet (lk_pcs s t) then Some (lk_goto t (LK_pop Load_head) s) else None)"
| "lk_move shared (LK_push_step t alloc weak) s =
     (if shared then mem_leak_push t alloc weak s else exception_push t alloc weak s)"
| "lk_move shared (LK_pop_step t weak copies) s =
     (if shared then mem_leak_pop t weak s else exception_pop t weak copies s)"

subsection \<open>The invariant\<close>

text \<open>What a result says about the last operation of the thread that has taken effect.\<close>

fun lk_result_ok :: "'a lk_result \<Rightarrow> 'a op option \<Rightarrow> bool" where
  "lk_result_ok LK_void e = (\<exists>v. e = Some (Push v))"
| "lk_result_ok (LK_value v) e = (e = Some (Pop v))"
| "lk_result_ok LK_nothing e = (e = Some Pop_empty)"
| "lk_result_ok LK_copy_throws e = (\<exists>v. e = Some (Pop v))"
| "lk_result_ok LK_bad_alloc e = True"

text \<open>What a thread inside the loop of \<open>pop\<close> knows of its node.\<close>

fun lk_pop_ok :: "(nat \<Rightarrow> role) \<Rightarrow> (nat \<Rightarrow> 'a node option) \<Rightarrow> 'a op option \<Rightarrow> pop_pc \<Rightarrow> bool" where
  "lk_pop_ok r H e Load_head = True"
| "lk_pop_ok r H e (Read_next a) = (r a = On_stack \<or> r a = Retired)"
| "lk_pop_ok r H e (Cas_pop a n) = ((r a = On_stack \<or> r a = Retired) \<and> (\<exists>m. H a = Some m \<and> nxt m = n))"
| "lk_pop_ok r H e (Loop_left None) = (e = Some Pop_empty)"
| "lk_pop_ok r H e (Loop_left (Some a)) = (r a = Retired \<and> (\<exists>m v. H a = Some m \<and> data m = Some v \<and> e = Some (Pop v)))"

fun lk_thread :: "(nat \<Rightarrow> role) \<Rightarrow> 'a leaky_stack \<Rightarrow> tid \<Rightarrow> 'a lk_pc \<Rightarrow> bool" where
  "lk_thread r s t (LK_push pc) = push_ok r s t pc"
| "lk_thread r s t (LK_pop pc) = ({b. r b = Private t} = {} \<and> lk_pop_ok r (heap s) (last_op t (hist s)) pc)"
| "lk_thread r s t (LK_done x) = ({b. r b = Private t} = {} \<and> lk_result_ok x (last_op t (hist s)))"
| "lk_thread r s t LK_idle = ({b. r b = Private t} = {})"

definition lk_ok :: "(nat \<Rightarrow> role) \<Rightarrow> 'a leaky_stack \<Rightarrow> bool" where
  "lk_ok r s \<longleftrightarrow> stack_ok r s \<and> (\<forall>t. lk_thread r s t (lk_pcs s t)) \<and> (\<forall>a t. r a \<noteq> Batch t)
     \<and> finite {a. r a = Retired} \<and> card {a. r a = Retired} = size (pops (hist s))"

definition lk_inv :: "'a leaky_stack \<Rightarrow> bool" where
  "lk_inv s \<longleftrightarrow> (\<exists>r. lk_ok r s)"

text \<open>What a thread does to the nodes the others know of: it takes free nodes, links its own, retires.\<close>

definition lk_frame :: "tid \<Rightarrow> (nat \<Rightarrow> role) \<Rightarrow> 'a leaky_stack \<Rightarrow> (nat \<Rightarrow> role) \<Rightarrow> 'a leaky_stack \<Rightarrow> bool" where
  "lk_frame t r s r' s' \<longleftrightarrow>
     (\<forall>b. r b \<noteq> Free \<longrightarrow> r b \<noteq> Private t \<longrightarrow> heap s' b = heap s b \<and> (r' b = r b \<or> r b = On_stack \<and> r' b = Retired))
     \<and> (\<forall>b u. u \<noteq> t \<longrightarrow> (r' b = Private u \<longleftrightarrow> r b = Private u))
     \<and> (\<forall>u. u \<noteq> t \<longrightarrow> last_op u (hist s') = last_op u (hist s))"

lemma lk_frame_other:
  assumes "lk_frame t r s r' s'" and "u \<noteq> t" and "lk_thread r s u pc"
  shows "lk_thread r' s' u pc"
proof -
  from assms(1,2) have own: "{b. r' b = Private u} = {b. r b = Private u}" and last: "last_op u (hist s') = last_op u (hist s)"
    and same: "\<And>b. r b \<noteq> Free \<Longrightarrow> r b \<noteq> Private t \<Longrightarrow> heap s' b = heap s b \<and> (r' b = r b \<or> r b = On_stack \<and> r' b = Retired)"
    by (auto simp: lk_frame_def)
  show ?thesis
  proof (cases pc)
    case (LK_push p)
    have "heap s' b = heap s b" if "r b = Private u" for b using same [of b] that assms(2) by simp
    with LK_push assms show ?thesis by (auto simp: lk_frame_def elim: push_ok_frame)
  next
    case (LK_pop p)
    have "lk_pop_ok r' (heap s') e p" if ok: "lk_pop_ok r (heap s) e p" for e
    proof (cases p)
      case (Read_next a)
      with ok same [of a] show ?thesis by auto
    next
      case (Cas_pop a n)
      with ok same [of a] show ?thesis by auto
    next
      case (Loop_left x)
      with ok same show ?thesis by (cases x) force+
    qed simp
    with LK_pop assms(3) own last show ?thesis by simp
  qed (use assms(3) own last in auto)
qed

lemma lk_goto_simps [simp]:
  "heap (lk_goto t c s) = heap s" "head (lk_goto t c s) = head s" "hist (lk_goto t c s) = hist s" "fault (lk_goto t c s) = fault s"
  "lk_pcs (lk_goto t c s) = (lk_pcs s)(t := c)"
  by (simp_all add: lk_goto_def)

lemma stack_ok_goto: "stack_ok r (lk_goto t c s) \<longleftrightarrow> stack_ok r s"
  by (simp add: stack_ok_def)

lemma lk_thread_cong: "heap s' = heap s \<Longrightarrow> hist s' = hist s \<Longrightarrow> lk_thread r s' t pc = lk_thread r s t pc"
  by (cases pc) (simp_all add: push_ok_def)

text \<open>The shape of every step: the thread's own part, and the frame for the others.\<close>

lemma lk_okI:
  assumes ok: "lk_ok r s" and "stack_ok r' s'" and "lk_thread r' s' t c" and "lk_frame t r s r' s'"
    and "lk_pcs s' = lk_pcs s" and "\<forall>a u. r' a \<noteq> Batch u"
    and "finite {a. r' a = Retired} \<and> card {a. r' a = Retired} = size (pops (hist s'))"
  shows "lk_ok r' (lk_goto t c s')"
proof -
  have "lk_thread r' s' u (lk_pcs s u)" if "u \<noteq> t" for u
    using lk_frame_other [OF assms(4) that] ok by (simp add: lk_ok_def)
  with assms show ?thesis by (simp add: lk_ok_def stack_ok_goto lk_thread_cong [of "lk_goto t c s'" s'])
qed


subsection \<open>Every step keeps the invariant\<close>

lemma lk_ok_thread: "lk_ok r s \<Longrightarrow> lk_pcs s t = c \<Longrightarrow> lk_thread r s t c"
  by (auto simp: lk_ok_def)

lemma push_frame_retired:
  assumes "push_frame t r s r' s'"
  shows "{a. r' a = Retired} = {a. r a = Retired}" and "(\<forall>a u. r a \<noteq> Batch u) \<Longrightarrow> (\<forall>a u. r' a \<noteq> Batch u)"
  using assms unfolding push_frame_def by (auto, (metis role.distinct)+)

lemma push_step_pcs: "push_step t alloc weak pc s = Some (pc', s') \<Longrightarrow> lk_pcs s' = lk_pcs s"
  by (auto simp: push_step_def put_node_def effect_def split: push_pc.splits option.splits if_splits)

lemma pops_append: "pops (h @ [(t, e)]) = pops h + (case e of Pop v \<Rightarrow> {#v#} | _ \<Rightarrow> {#})"
  by (simp add: pops_def split: op.splits)

lemma lk_push_inv:
  assumes inv: "lk_inv s" and "exception_push t alloc weak s = Some s'"
  shows "lk_inv s'"
proof -
  from inv obtain r where ok: "lk_ok r s" by (auto simp: lk_inv_def)
  from assms(2) obtain pc pc' s1 where pc: "lk_pcs s t = LK_push pc" "push_step t alloc weak pc s = Some (pc', s1)"
    and s': "s' = lk_goto t (lk_after_push pc') s1"
    by (auto simp: exception_push_def split: lk_pc.splits)
  from ok pc have "stack_ok r s" "push_ok r s t pc" using lk_ok_thread [OF ok pc(1)] by (auto simp: lk_ok_def)
  from push_step_ok [OF this pc(2)] obtain r' where r': "stack_ok r' s1" "push_ok r' s1 t pc'" "push_frame t r s r' s1" by blast
  note h = push_step_hist [OF pc(2)]
  have last: "last_op u (hist s1) = last_op u (hist s)" if "u \<noteq> t" for u
    using h that by (auto simp: last_op_append)
  have frame: "lk_frame t r s r' s1"
    using r'(3) last unfolding push_frame_def lk_frame_def by (metis role.distinct role.inject)
  have "lk_thread r' s1 t (lk_after_push pc')"
    using r'(2) h by (cases pc') (auto simp: push_ok_def last_op_append)
  moreover have "pops (hist s1) = pops (hist s)" using h by (auto simp: pops_append)
  ultimately have "lk_ok r' (lk_goto t (lk_after_push pc') s1)"
    using ok r'(1) frame push_step_pcs [OF pc(2)] push_frame_retired [OF r'(3)]
    by (intro lk_okI [OF ok]) (simp_all add: lk_ok_def)
  with s' show ?thesis by (auto simp: lk_inv_def)
qed


lemma pop_step_pcs: "pop_step t weak pc s = Some (pc', s') \<Longrightarrow> lk_pcs s' = lk_pcs s"
  by (auto simp: pop_step_def loop_test_def effect_def split: pop_pc.splits option.splits if_splits)

lemma stack_ok_head_upd: "lk_pcs (effect t e (s\<lparr>head := p\<rparr>)) = lk_pcs s" "lk_pcs (effect t e s) = lk_pcs s"
  by (simp_all add: effect_def)

lemma lk_pop_loop_inv:
  assumes ok: "lk_ok r s" and pc: "lk_pcs s t = LK_pop pc" and step: "pop_step t weak pc s = Some (pc', s1)"
  shows "lk_inv (lk_goto t (LK_pop pc') s1)"
proof -
  from ok have st: "stack_ok r s" and batch: "\<forall>a u. r a \<noteq> Batch u"
    and ret: "finite {a. r a = Retired}" "card {a. r a = Retired} = size (pops (hist s))" by (auto simp: lk_ok_def)
  from lk_ok_thread [OF ok pc] have own: "{b. r b = Private t} = {}"
    and pop: "lk_pop_ok r (heap s) (last_op t (hist s)) pc" by auto
  have alive: "\<forall>a. pop_node pc = Some a \<longrightarrow> heap s a \<noteq> None"
    using pop stack_ok_alive [OF st] by (cases pc) auto
  have cur: "\<forall>a n. pc = Cas_pop a n \<and> r a = On_stack \<longrightarrow> (\<exists>m. heap s a = Some m \<and> nxt m = n)" using pop by auto
  have same: "lk_frame t r s r s1" if "heap s1 = heap s" "\<And>u. u \<noteq> t \<Longrightarrow> last_op u (hist s1) = last_op u (hist s)"
    using that by (simp add: lk_frame_def)
  from st alive step cur show ?thesis
  proof (cases rule: pop_step_cases)
    case (Top b)
    then have "lk_ok r (lk_goto t (LK_pop pc') s1)"
      using st own batch ret by (intro lk_okI [OF ok _ _ same]) auto
    then show ?thesis by (auto simp: lk_inv_def)
  next
    case Empty
    then have "lk_ok r (lk_goto t (LK_pop pc') s1)"
      using own batch ret pop_step_pcs [OF step]
      by (intro lk_okI [OF ok _ _ same]) (auto simp: last_op_append pops_append)
    then show ?thesis by (auto simp: lk_inv_def)
  next
    case (Next a n)
    then have "lk_ok r (lk_goto t (LK_pop pc') s1)"
      using st own batch ret pop by (intro lk_okI [OF ok _ _ same]) auto
    then show ?thesis by (auto simp: lk_inv_def)
  next
    case (Taken a m v)
    let ?r = "r(a := Retired)"
    have "{b. ?r b = Retired} = insert a {b. r b = Retired}" "a \<notin> {b. r b = Retired}" using Taken(3) by auto
    then have card: "finite {b. ?r b = Retired}" "card {b. ?r b = Retired} = size (pops (hist s1))"
      using ret Taken(6) by (simp_all add: pops_append)
    have "lk_frame t r s ?r s1" using Taken(3,6) by (auto simp: lk_frame_def last_op_append)
    moreover have "lk_thread ?r s1 t (LK_pop pc')"
      using Taken own by (auto simp: last_op_append)
    ultimately have "lk_ok ?r (lk_goto t (LK_pop pc') s1)"
      using Taken(7) [of Retired] batch card pop_step_pcs [OF step] by (intro lk_okI [OF ok]) auto
    then show ?thesis by (auto simp: lk_inv_def)
  qed
qed

text \<open>A step that only changes the point of the thread.\<close>

lemma lk_goto_inv:
  assumes "lk_ok r s" and "lk_thread r s t c"
  shows "lk_inv (lk_goto t c s)"
proof -
  have "lk_frame t r s r s" by (simp add: lk_frame_def)
  with assms have "lk_ok r (lk_goto t c s)" by (intro lk_okI [OF assms(1)]) (auto simp: lk_ok_def)
  then show ?thesis by (auto simp: lk_inv_def)
qed

lemma lk_pop_end_inv:
  assumes ok: "lk_ok r s" and pc: "lk_pcs s t = LK_pop (Loop_left x)"
  shows "case x of
      None \<Rightarrow> lk_inv (lk_goto t (LK_done LK_nothing) s)
    | Some a \<Rightarrow> \<exists>n v. heap s a = Some n \<and> data n = Some v \<and> lk_inv (lk_goto t (LK_done (LK_value v)) s)
        \<and> lk_inv (lk_goto t (LK_done LK_copy_throws) s)"
  using lk_ok_thread [OF ok pc] lk_goto_inv [OF ok] by (cases x) auto

lemma exception_pop_inv:
  assumes inv: "lk_inv s" and "exception_pop t weak copies s = Some s'"
  shows "lk_inv s'"
proof -
  from inv obtain r where ok: "lk_ok r s" by (auto simp: lk_inv_def)
  from assms(2) obtain pc where pc: "lk_pcs s t = LK_pop pc" by (auto simp: exception_pop_def split: lk_pc.splits)
  show ?thesis
  proof (cases pc)
    case (Loop_left x)
    with lk_pop_end_inv [OF ok pc [unfolded Loop_left]] pc assms(2) show ?thesis
      by (cases x) (auto simp: exception_pop_def)
  qed (use pc assms(2) lk_pop_loop_inv [OF ok pc] in \<open>auto simp: exception_pop_def\<close>)
qed

lemma mem_leak_pop_inv:
  assumes inv: "lk_inv s" and "mem_leak_pop t weak s = Some s'"
  shows "lk_inv s'"
proof -
  from inv obtain r where ok: "lk_ok r s" by (auto simp: lk_inv_def)
  from assms(2) obtain pc where pc: "lk_pcs s t = LK_pop pc" by (auto simp: mem_leak_pop_def split: lk_pc.splits)
  show ?thesis
  proof (cases pc)
    case (Loop_left x)
    with lk_pop_end_inv [OF ok pc [unfolded Loop_left]] pc assms(2) show ?thesis
      by (cases x) (auto simp: mem_leak_pop_def)
  qed (use pc assms(2) lk_pop_loop_inv [OF ok pc] in \<open>auto simp: mem_leak_pop_def\<close>)
qed

lemma lk_inv_move:
  assumes inv: "lk_inv s" and "lk_move shared e s = Some s'"
  shows "lk_inv s'"
proof -
  from inv obtain r where ok: "lk_ok r s" by (auto simp: lk_inv_def)
  have quiet: "{b. r b = Private t} = {}" if "lk_quiet (lk_pcs s t)" for t
    using that lk_ok_thread [OF ok refl, of t] by (cases "lk_pcs s t") auto
  show ?thesis
  proof (cases e)
    case (LK_call_push t v)
    with assms(2) quiet [of t] show ?thesis
      by (auto simp: push_ok_def split: if_splits intro!: lk_goto_inv [OF ok])
  next
    case (LK_call_pop t)
    with assms(2) quiet [of t] show ?thesis
      by (auto split: if_splits intro!: lk_goto_inv [OF ok])
  qed (use assms in \<open>auto simp: mem_leak_push_def split: if_splits intro: lk_push_inv exception_pop_inv mem_leak_pop_inv\<close>)
qed

lemma lk_inv_start: "lk_init s \<Longrightarrow> lk_inv s"
  unfolding lk_inv_def
  by (intro exI [of _ "\<lambda>_. Free"])
    (auto simp: lk_init_def lk_new_def lk_ok_def stack_ok_def node_list_null pops_def)

lemma lk_history_grows: "lk_move shared e s = Some s' \<Longrightarrow> hist s' = hist s \<or> (\<exists>x. hist s' = hist s @ [x])"
  by (cases e)
    (auto simp: exception_push_def exception_pop_def mem_leak_push_def mem_leak_pop_def
      split: if_splits lk_pc.splits pop_pc.splits option.splits dest!: push_step_hist pop_step_hist)

lemma lk_legal: "lk_inv s \<Longrightarrow> \<exists>xs. run lifo_move (hist s) [] = Some xs"
  by (auto simp: lk_inv_def lk_ok_def stack_ok_def)

interpretation leaky: linearizable_stack lk_init "lk_move shared" lk_inv hist for shared
  by unfold_locales (erule lk_inv_start, erule (1) lk_inv_move, erule lk_legal, erule lk_history_grows)

text \<open>When no operation is in progress, the allocated nodes are those on the stack and those popped.\<close>

lemma lk_quiet_nodes:
  assumes ok: "lk_ok r s" and quiet: "\<forall>t. lk_quiet (lk_pcs s t)" and xs: "run lifo_move (hist s) [] = Some xs"
  shows "card {a. heap s a \<noteq> None} = length xs + size (pops (hist s))"
proof -
  from ok xs have list: "node_list (heap s) (head s) {a. r a = On_stack} (map Some xs)"
    and alive: "\<And>a. heap s a = None \<longleftrightarrow> r a = Free" and batch: "\<And>a t. r a \<noteq> Batch t"
    and ret: "finite {a. r a = Retired}" "card {a. r a = Retired} = size (pops (hist s))"
    by (auto simp: lk_ok_def stack_ok_def)
  have own: "r a \<noteq> Private t" for a t
  proof -
    from quiet have "lk_quiet (lk_pcs s t)" by blast
    with lk_ok_thread [OF ok refl, of t] show ?thesis by (cases "lk_pcs s t") auto
  qed
  have "r a \<noteq> Free \<longleftrightarrow> r a = On_stack \<or> r a = Retired" for a
    by (cases "r a") (use own batch in \<open>metis role.distinct\<close>)+
  then have split: "{a. heap s a \<noteq> None} = {a. r a = On_stack} \<union> {a. r a = Retired}" using alive by auto
  show ?thesis unfolding split using node_list_card [OF list] ret by (subst card_Un_disjoint) auto
qed

lemmas lk_eval = lk_new_def lk_goto_def exception_push_def exception_pop_def mem_leak_push_def mem_leak_pop_def push_step_def
  pop_step_def loop_test_def put_node_def effect_def

subsection \<open>Properties\<close>

text \<open>The stacks of \<open>exception\<close> and \<open>mem_leak\<close> are linearizable, for any number of threads: the
  operations take effect one at a time, in an order in which a sequential stack gives the same results,
  each at a moment between its call and its return; no value is lost, duplicated or made up on the way
  to the popping thread, and no node is accessed that is not allocated.\<close>

theorem leaky_stack_linearizable:
  assumes "reach lk_init (lk_move shared) s"
  shows "\<not> fault s \<and> (\<exists>xs. run lifo_move (hist s) [] = Some xs \<and> pushes (hist s) = pops (hist s) + mset xs)
     \<and> (lk_pcs s t = LK_done x \<longrightarrow> lk_result_ok x (last_op t (hist s)))"
proof -
  from leaky.reach_inv [OF assms] obtain r where ok: "lk_ok r s" by (auto simp: lk_inv_def)
  then have "\<not> fault s" by (simp add: lk_ok_def stack_ok_def)
  moreover have "lk_pcs s t = LK_done x \<longrightarrow> lk_result_ok x (last_op t (hist s))"
    using lk_ok_thread [OF ok, of t] by auto
  ultimately show ?thesis using leaky.linearizable [OF assms] by blast
qed

theorem leaky_stack_linearizable_witness:
  "\<exists>s :: nat leaky_stack. reach lk_init (lk_move False) s \<and> lk_pcs s 2 = LK_done (LK_value 8) \<and> last_op 2 (hist s) = Some (Pop 8)"
proof -
  have "\<exists>s :: nat leaky_stack. reach lk_init (lk_move False) s \<and> lk_pcs s 2 = LK_done (LK_value 8)"
    by (rule reach_witness [where s = lk_new and es = "[LK_call_push 0 7, LK_push_step 0 (Some 5) False, LK_push_step 0 None False,
          LK_push_step 0 None False, LK_call_push 1 8, LK_push_step 1 (Some 6) False, LK_push_step 1 None False,
          LK_push_step 1 None True, LK_push_step 1 None False, LK_call_pop 2, LK_pop_step 2 False True, LK_pop_step 2 False True,
          LK_pop_step 2 False True, LK_pop_step 2 False True]"], simp add: lk_init_def, simp add: lk_eval)
  then obtain s :: "nat leaky_stack" where s: "reach lk_init (lk_move False) s" "lk_pcs s 2 = LK_done (LK_value 8)" by blast
  from leaky_stack_linearizable [OF s(1), of 2 "LK_value 8"] s have "last_op 2 (hist s) = Some (Pop 8)" by simp
  with s show ?thesis by blast
qed

text \<open>These stacks leak every node they pop: when no operation is in progress, the nodes that are
  allocated are as many as the values ever pushed.\<close>

theorem leaky_stack_leaks:
  assumes "reach lk_init (lk_move shared) s" and "\<forall>t. lk_quiet (lk_pcs s t)"
  shows "card {a. heap s a \<noteq> None} = size (pushes (hist s))"
proof -
  from leaky.reach_inv [OF assms(1)] obtain r where ok: "lk_ok r s" by (auto simp: lk_inv_def)
  from leaky.linearizable [OF assms(1)] obtain xs where xs: "run lifo_move (hist s) [] = Some xs"
    "pushes (hist s) = pops (hist s) + mset xs" by blast
  from lk_quiet_nodes [OF ok assms(2) xs(1)] xs(2) show ?thesis by simp
qed

theorem leaky_stack_leaks_witness:
  "\<exists>s :: nat leaky_stack. reach lk_init (lk_move True) s \<and> head s = None \<and> card {a. heap s a \<noteq> None} = 1"
proof -
  have "\<exists>s :: nat leaky_stack. reach lk_init (lk_move True) s \<and> (head s = None \<and> hist s = [(0, Push 7), (0, Pop 7)]
      \<and> lk_pcs s = (\<lambda>_. LK_idle)(0 := LK_done (LK_value 7)))"
    by (rule reach_witness [where s = lk_new and es = "[LK_call_push 0 7, LK_push_step 0 (Some 5) False, LK_push_step 0 None False,
          LK_push_step 0 None False, LK_call_pop 0, LK_pop_step 0 False True, LK_pop_step 0 False True,
          LK_pop_step 0 False True, LK_pop_step 0 False True]"], simp add: lk_init_def, simp add: lk_eval fun_eq_iff)
  then obtain s :: "nat leaky_stack" where s: "reach lk_init (lk_move True) s" "head s = None"
    "hist s = [(0, Push 7), (0, Pop 7)]" "lk_pcs s = (\<lambda>_. LK_idle)(0 := LK_done (LK_value 7))" by blast
  have "\<forall>t. lk_quiet (lk_pcs s t)" using s(4) by simp
  from leaky_stack_leaks [OF s(1) this] s show ?thesis by (intro exI [of _ s]) (simp add: pushes_def)
qed

text \<open>When the copy throws, the value is in the hands of no one.\<close>

theorem exception_pop_loses_value:
  "\<exists>s :: nat leaky_stack. reach lk_init (lk_move False) s \<and> lk_pcs s 0 = LK_done LK_copy_throws
     \<and> pushes (hist s) = {#7#} \<and> head s = None"
proof -
  have "\<exists>s :: nat leaky_stack. reach lk_init (lk_move False) s \<and> (lk_pcs s 0 = LK_done LK_copy_throws
      \<and> hist s = [(0, Push 7), (0, Pop 7)] \<and> head s = None)"
    by (rule reach_witness [where s = lk_new and es = "[LK_call_push 0 7, LK_push_step 0 (Some 5) False, LK_push_step 0 None False,
          LK_push_step 0 None False, LK_call_pop 0, LK_pop_step 0 False True, LK_pop_step 0 False True,
          LK_pop_step 0 False True, LK_pop_step 0 False False]"], simp add: lk_init_def, simp add: lk_eval)
  then show ?thesis by (auto simp: pushes_def)
qed

end
