(* ===== verification/Stack_Progress.thy ===== *)
theory Stack_Progress
  imports Lock_Free Stack_Leaky
begin

text \<open>
  The stacks of \<open>concurrent_structures/stack_lockfree.cpp\<close> are lock-free: a loop is repeated only if another thread
  has completed an operation in between, or if an exchange has failed spuriously.
\<close>

subsection \<open>The loops of \<open>push\<close> and \<open>pop\<close>\<close>

text \<open>The steps up to the exchange: if it will fail, those of the round after it count too.\<close>

fun push_todo :: "('a, 'z) tstack_scheme \<Rightarrow> 'a push_pc \<Rightarrow> nat" where
  "push_todo s (New_node v) = 3"
| "push_todo s (Load_next a) = 2"
| "push_todo s (Cas_push a) = (if map_option nxt (heap s a) = Some (head s) then 1 else 2)"
| "push_todo s pc = 0"

fun pop_todo :: "nat option \<Rightarrow> pop_pc \<Rightarrow> nat" where
  "pop_todo h Load_head = 3"
| "pop_todo h (Read_next a) = (if h = Some a then 2 else 4)"
| "pop_todo h (Cas_pop a p) = (if h = Some a then 1 else 3)"
| "pop_todo h (Loop_left x) = 1"

lemma push_step_todo:
  assumes "push_step t alloc weak pc s = Some (pc', s')" and "length (hist s') = length (hist s)" and "\<not> weak"
    and "\<And>a. a \<in> push_nodes pc \<Longrightarrow> heap s a \<noteq> None"
  shows "push_todo s' pc' < push_todo s pc" and "head s' = head s"
  using assms by (cases pc; force simp: push_step_def split: option.splits if_splits)+

lemma pop_step_todo:
  assumes "pop_step t weak pc s = Some (pc', s')" and "length (hist s') = length (hist s)" and "\<not> weak"
    and "\<And>a. pop_node pc = Some a \<Longrightarrow> heap s a \<noteq> None"
  shows "pop_todo (head s') pc' < pop_todo (head s) pc" and "head s' = head s" and "heap s' = heap s"
  using assms by (cases pc; force simp: pop_step_def loop_test_def split: option.splits if_splits)+

text \<open>A step of \<open>push\<close> writes free nodes and its own.\<close>

lemma push_step_writes:
  "push_step t alloc weak pc s = Some (pc', s') \<Longrightarrow> b \<notin> push_nodes pc \<Longrightarrow> heap s b \<noteq> None \<Longrightarrow> heap s' b = heap s b"
  by (auto simp: push_step_def split: push_pc.splits option.splits if_splits)

lemma push_todo_cong:
  "head s' = head s \<Longrightarrow> (\<And>a. a \<in> push_nodes pc \<Longrightarrow> heap s' a = heap s a) \<Longrightarrow> push_todo s' pc = push_todo s pc"
  by (cases pc) auto

subsection \<open>The length of a list\<close>

text \<open>The number of nodes of a list in the heap.\<close>

definition list_len :: "(nat \<Rightarrow> 'a node option) \<Rightarrow> nat option \<Rightarrow> nat" where
  "list_len H p = length (THE cs. seg H p cs)"

lemma list_len_seg: "seg H p cs \<Longrightarrow> list_len H p = length cs"
  unfolding list_len_def using seg_unique by (metis the_equality)

lemma list_len_null [simp]: "list_len H None = 0"
  using list_len_seg [of H None "[]"] by simp

lemma list_len_list: "node_list H p A vs \<Longrightarrow> list_len H p = card A"
  by (auto simp: node_list_def distinct_card dest!: list_len_seg)

lemma list_len_cong: "node_list H p A vs \<Longrightarrow> (\<And>b. b \<in> A \<Longrightarrow> H' b = H b) \<Longrightarrow> list_len H' p = list_len H p"
  by (metis list_len_list node_list_cong)

subsection \<open>\<open>exception\<close> and \<open>mem_leak\<close>\<close>

fun lk_actor :: "'a lk_event \<Rightarrow> tid" where
  "lk_actor (LK_call_push t v) = t"
| "lk_actor (LK_call_pop t) = t"
| "lk_actor (LK_push_step t alloc weak) = t"
| "lk_actor (LK_pop_step t weak copies) = t"

text \<open>The calls and the spurious failures.\<close>

fun lk_extra :: "'a lk_event \<Rightarrow> bool" where
  "lk_extra (LK_push_step t alloc weak) = weak"
| "lk_extra (LK_pop_step t weak copies) = weak"
| "lk_extra _ = True"

fun lk_todo :: "'a leaky_stack \<Rightarrow> 'a lk_pc \<Rightarrow> nat" where
  "lk_todo s (LK_push pc) = push_todo s pc"
| "lk_todo s (LK_pop pc) = pop_todo (head s) pc"
| "lk_todo s _ = 0"

lemma lk_todo_le: "lk_todo s c \<le> 4"
proof (cases c)
  case (LK_push pc)
  then show ?thesis by (cases pc) auto
next
  case (LK_pop pc)
  then show ?thesis by (cases pc) auto
qed auto

lemma lk_todo_after_push: "lk_todo s (lk_after_push pc) = push_todo s pc"
  by (cases pc) auto

text \<open>A step of \<open>t\<close> that neither completes an operation nor fails spuriously.\<close>

lemma lk_step_todo:
  assumes ok: "lk_ok r s" and step: "lk_move shared e s = Some s'" and "length (hist s') = length (hist s)" and "\<not> lk_extra e"
  shows "lk_todo s' (lk_pcs s' (lk_actor e)) < lk_todo s (lk_pcs s (lk_actor e))" and "head s' = head s"
    and "u \<noteq> lk_actor e \<Longrightarrow> lk_pcs s' u = lk_pcs s u"
    and "heap s b \<noteq> None \<Longrightarrow> r b \<noteq> Private (lk_actor e) \<Longrightarrow> heap s' b = heap s b"
proof -
  have alive: "heap s a \<noteq> None" if "r a \<noteq> Free" for a
    using that ok stack_ok_alive unfolding lk_ok_def by blast
  have "lk_todo s' (lk_pcs s' (lk_actor e)) < lk_todo s (lk_pcs s (lk_actor e)) \<and> head s' = head s
      \<and> (u \<noteq> lk_actor e \<longrightarrow> lk_pcs s' u = lk_pcs s u)
      \<and> (heap s b \<noteq> None \<longrightarrow> r b \<noteq> Private (lk_actor e) \<longrightarrow> heap s' b = heap s b)"
  proof (cases e)
    case (LK_push_step t alloc weak)
    with step obtain pc pc' s1 where pc: "lk_pcs s t = LK_push pc" "push_step t alloc weak pc s = Some (pc', s1)"
      and s': "s' = lk_goto t (lk_after_push pc') s1"
      by (auto simp: exception_push_def mem_leak_push_def split: if_splits lk_pc.splits)
    have own: "push_ok r s t pc" using lk_ok_thread [OF ok pc(1)] by simp
    have nodes: "a \<in> push_nodes pc \<Longrightarrow> r a = Private t \<and> heap s a \<noteq> None" for a
      using push_own [OF own, of a] by auto
    have "push_todo s1 pc' < push_todo s pc" "head s1 = head s"
      using push_step_todo [OF pc(2)] nodes assms(3,4) LK_push_step s' by auto
    moreover have "push_todo s' pc' = push_todo s1 pc'" by (rule push_todo_cong) (simp_all add: s')
    ultimately show ?thesis using s' pc(1) LK_push_step push_step_writes [OF pc(2)] nodes push_step_pcs [OF pc(2)]
      by (auto simp: lk_todo_after_push)
  next
    case (LK_pop_step t weak copies)
    with step obtain pc where pc: "lk_pcs s t = LK_pop pc"
      by (auto simp: exception_pop_def mem_leak_pop_def split: if_splits lk_pc.splits)
    have own: "lk_pop_ok r (heap s) (last_op t (hist s)) pc" using lk_ok_thread [OF ok pc] by simp
    have nodes: "pop_node pc = Some a \<Longrightarrow> heap s a \<noteq> None" for a using own alive by (cases pc) auto
    show ?thesis
    proof (cases "\<exists>x. pc = Loop_left x")
      case True
      then obtain x where x: "pc = Loop_left x" by blast
      have "\<exists>r. s' = lk_goto t (LK_done r) s"
        using step LK_pop_step pc own alive x
        by (cases x) (auto simp: exception_pop_def mem_leak_pop_def split: if_splits)
      with pc x LK_pop_step show ?thesis by auto
    next
      case False
      then obtain pc' s1 where s1: "pop_step t weak pc s = Some (pc', s1)" "s' = lk_goto t (LK_pop pc') s1"
        using step LK_pop_step pc by (auto simp: exception_pop_def mem_leak_pop_def split: if_splits pop_pc.splits)
      have "pop_todo (head s1) pc' < pop_todo (head s) pc" "head s1 = head s" "heap s1 = heap s"
        using pop_step_todo [OF s1(1)] nodes assms(3,4) LK_pop_step s1(2) by auto
      with s1 pc LK_pop_step pop_step_pcs [OF s1(1)] show ?thesis by simp
    qed
  qed (use assms(4) in simp_all)
  then show "lk_todo s' (lk_pcs s' (lk_actor e)) < lk_todo s (lk_pcs s (lk_actor e))" and "head s' = head s"
    and "u \<noteq> lk_actor e \<Longrightarrow> lk_pcs s' u = lk_pcs s u"
    and "heap s b \<noteq> None \<Longrightarrow> r b \<noteq> Private (lk_actor e) \<Longrightarrow> heap s' b = heap s b" by blast+
qed

lemma lk_other_todo:
  assumes ok: "lk_ok r s" and step: "lk_move shared e s = Some s'" "length (hist s') = length (hist s)" "\<not> lk_extra e"
    and u: "u \<noteq> lk_actor e"
  shows "lk_todo s' (lk_pcs s' u) = lk_todo s (lk_pcs s u)"
proof (cases "lk_pcs s u")
  case (LK_push pc)
  have own: "push_ok r s u pc" using lk_ok_thread [OF ok LK_push] by simp
  have "heap s' a = heap s a" if "a \<in> push_nodes pc" for a
    using push_own [OF own that] u by (intro lk_step_todo(4) [OF ok step]) auto
  then have "push_todo s' pc = push_todo s pc" using lk_step_todo(2) [OF ok step] by (intro push_todo_cong) auto
  with LK_push lk_step_todo(3) [OF ok step u] show ?thesis by simp
qed (use lk_step_todo(2,3) [OF ok step] u in simp_all)

interpretation leaky_progress: lock_free_system lk_init "lk_move shared" lk_inv n lk_actor lk_extra "\<lambda>s. length (hist s)"
    "\<lambda>s u. lk_todo s (lk_pcs s u)" "\<lambda>_ _. 0" 4 for shared n
proof unfold_locales
  show "length (hist s) \<le> length (hist s')" if "lk_move shared e s = Some s'" for e and s s' :: "'a leaky_stack"
    using lk_history_grows [OF that] by auto
  show "lk_todo s (lk_pcs s u) \<le> 4" for u and s :: "'a leaky_stack" by (rule lk_todo_le)
  show "lk_todo s' (lk_pcs s' (lk_actor e)) + n * 0 < lk_todo s (lk_pcs s (lk_actor e))"
    if "lk_inv s" "lk_move shared e s = Some s'" "length (hist s') = length (hist s)" "\<not> lk_extra e"
    for e and s s' :: "'a leaky_stack"
    using that lk_step_todo(1) by (auto simp: lk_inv_def)
  show "lk_todo s' (lk_pcs s' u) \<le> lk_todo s (lk_pcs s u) + 0"
    if "lk_inv s" "lk_move shared e s = Some s'" "length (hist s') = length (hist s)" "\<not> lk_extra e" "u \<noteq> lk_actor e"
    for u e and s s' :: "'a leaky_stack"
    using that lk_other_todo by (fastforce simp: lk_inv_def)
qed

text \<open>C40. The stacks of \<open>exception\<close> and \<open>mem_leak\<close> are lock-free: however \<open>n\<close> threads are scheduled from a
  reachable state, they take at most \<open>4 * n + 1\<close> steps for every operation that takes effect, every call and every
  spurious failure of an exchange, after the first \<open>4 * n\<close>.\<close>

theorem leaky_stack_lock_free:
  assumes "reach lk_init (lk_move shared) s" and "run (lk_move shared) es s = Some s'"
    and "list_all (\<lambda>e. lk_actor e < n) es"
  shows "length es \<le> n * 4 + (n * 4 + 1) * (length (hist s') - length (hist s) + length (filter lk_extra es))"
  by (rule leaky_progress.lock_free [OF leaky.reach_inv [OF assms(1)] assms(2,3)])

text \<open>Two threads push at the same time: the exchange of the second fails, because the first has pushed.\<close>

theorem leaky_stack_lock_free_witness:
  "\<exists>es s'. run (lk_move False) es (lk_new :: nat leaky_stack) = Some s' \<and> head s' = Some 6 \<and> length es = 9
     \<and> length es \<le> 2 * 4 + (2 * 4 + 1) * (length (hist s') + 2)"
proof -
  let ?es = "[LK_call_push 0 7, LK_call_push 1 8, LK_push_step 0 (Some 5) False, LK_push_step 1 (Some 6) False, LK_push_step 0 None False,
    LK_push_step 1 None False, LK_push_step 0 None False, LK_push_step 1 None False, LK_push_step 1 None False] :: nat lk_event list"
  have "\<exists>s'. run (lk_move False) ?es (lk_new :: nat leaky_stack) = Some s' \<and> head s' = Some 6"
    by (simp add: lk_eval)
  then obtain s' :: "nat leaky_stack" where s': "run (lk_move False) ?es lk_new = Some s'" "head s' = Some 6" by blast
  have "reach lk_init (lk_move False) (lk_new :: nat leaky_stack)" by (simp add: reach.start lk_init_def)
  from leaky_stack_lock_free [OF this s'(1), of 2] have "length ?es \<le> 2 * 4 + (2 * 4 + 1) * (length (hist s') + 2)"
    by (simp add: lk_new_def)
  with s' show ?thesis by (intro exI [of _ ?es] exI [of _ s']) simp
qed

subsection \<open>Lock-free, not wait-free\<close>

text \<open>A round in which thread 1 pushes a node at \<open>b\<close>, and then the exchange of thread 0 fails.\<close>

definition outrun :: "nat \<Rightarrow> nat lk_event list" where
  "outrun b = [LK_call_push 1 b, LK_push_step 1 (Some b) False, LK_push_step 1 None False, LK_push_step 1 None False,
     LK_push_step 0 None False]"

definition waiting :: "nat \<Rightarrow> nat leaky_stack \<Rightarrow> bool" where
  "waiting k s \<longleftrightarrow> lk_pcs s 0 = LK_push (Cas_push 0) \<and> lk_quiet (lk_pcs s 1) \<and> (\<forall>b > k. heap s b = None)
     \<and> (\<exists>n. heap s 0 = Some n \<and> nxt n = (if k = 0 then None else Some k))"

lemma outrun_round:
  assumes "waiting k s"
  shows "\<exists>s'. run (lk_move shared) (outrun (Suc k)) s = Some s' \<and> waiting (Suc k) s'"
proof -
  from assms obtain n where n: "heap s 0 = Some n" "nxt n = (if k = 0 then None else Some k)" by (auto simp: waiting_def)
  from assms have s: "lk_pcs s 0 = LK_push (Cas_push 0)" "lk_quiet (lk_pcs s 1)" "heap s (Suc k) = None"
    and free: "\<And>b. Suc k < b \<Longrightarrow> heap s b = None" by (auto simp: waiting_def)
  have "nxt n \<noteq> Some (Suc k)" using n(2) by auto
  with n(1) s free show ?thesis
    by (cases shared) (auto simp: outrun_def waiting_def exception_push_def mem_leak_push_def push_step_def lk_goto_def put_node_def effect_def)
qed

text \<open>A single \<open>push\<close> has no bound on its steps: for every \<open>k\<close> the exchange of thread 0 can fail \<open>k\<close> times, although no
  exchange fails spuriously, and the \<open>push\<close> is still not done.\<close>

theorem leaky_push_not_wait_free:
  "\<exists>es s. run (lk_move shared) es (lk_new :: nat leaky_stack) = Some s \<and> lk_pcs s 0 = LK_push (Cas_push 0)
     \<and> length (filter (\<lambda>e. e = LK_push_step 0 None False) es) = k + 1 \<and> list_all (\<lambda>e. lk_extra e \<longrightarrow> (\<exists>t v. e = LK_call_push t v)) es"
proof -
  let ?mine = "\<lambda>es. length (filter (\<lambda>e. e = LK_push_step 0 None False) es)"
  let ?calls = "list_all (\<lambda>e :: nat lk_event. lk_extra e \<longrightarrow> (\<exists>t v. e = LK_call_push t v))"
  have "\<exists>es s. run (lk_move shared) es (lk_new :: nat leaky_stack) = Some s \<and> waiting k s \<and> ?mine es = k + 1 \<and> ?calls es"
  proof (induction k)
    case 0
    show ?case
      by (intro exI [of _ "[LK_call_push 0 0, LK_push_step 0 (Some 0) False, LK_push_step 0 None False]"])
        (auto simp: waiting_def lk_eval)
  next
    case (Suc k)
    then obtain es s where s: "run (lk_move shared) es (lk_new :: nat leaky_stack) = Some s" "waiting k s" "?mine es = k + 1" "?calls es"
      by blast
    from outrun_round [OF s(2)] obtain s' where "run (lk_move shared) (outrun (Suc k)) s = Some s'" "waiting (Suc k) s'" by blast
    with s show ?case by (intro exI [of _ "es @ outrun (Suc k)"] exI [of _ s']) (simp add: run_append outrun_def)
  qed
  then show ?thesis unfolding waiting_def by blast
qed

end
