(* ===== verification/Stack_Reclaim.thy ===== *)
theory Stack_Reclaim
  imports Treiber
begin

text \<open>
  \<open>concurrent_structures/stack_lockfree.cpp\<close>, the namespace \<open>low_contention\<close>: the stack that counts
  the threads inside \<open>pop\<close> and deletes a popped node at once when there is only one of them, and
  else puts it on a list of pending nodes.
\<close>

subsection \<open>State\<close>

datatype 'a rc_result = RC_void | RC_bad_alloc | RC_ptr "'a option"

text \<open>What follows after \<open>chain_pending_nodes\<close> has returned.\<close>

datatype after_chain = Then_delete nat | Then_leave

text \<open>
  The points of \<open>pop\<close> and \<open>try_reclaim\<close>: the node that has been unlinked, the value in \<open>res\<close>, and
  what else is in scope.
\<close>

datatype 'a rc_pc =
    RC_idle | RC_push "'a push_pc"
  | RC_enter \<comment> \<open>about to increment \<open>threads_in_pop\<close>\<close>
  | RC_loop pop_pc
  | RC_check nat "'a option" \<comment> \<open>about to read \<open>threads_in_pop\<close>\<close>
  | RC_take nat "'a option" \<comment> \<open>about to exchange \<open>to_be_deleted\<close>\<close>
  | RC_dec nat "'a option" "nat option" \<comment> \<open>about to decrement, with \<open>nodes_to_delete\<close>\<close>
  | RC_delete nat "'a option" "nat option" \<comment> \<open>\<open>delete_nodes\<close>\<close>
  | RC_walk nat "'a option" nat nat \<comment> \<open>\<open>chain_pending_nodes(list)\<close>, from the first node to the current one\<close>
  | RC_chain after_chain "'a option" nat nat \<comment> \<open>\<open>chain_pending_nodes(first, last)\<close>, about to store \<open>last->next\<close>\<close>
  | RC_chain_cas after_chain "'a option" nat nat
  | RC_free nat "'a option" \<comment> \<open>about to delete \<open>old_head\<close>\<close>
  | RC_leave "'a option" \<comment> \<open>about to decrement, with nothing left to do\<close>
  | RC_done "'a rc_result"

record 'a rc_stack = "'a tstack" +
  threads_in_pop :: nat
  to_be_deleted :: "nat option"
  rc_pcs :: "tid \<Rightarrow> 'a rc_pc"

definition rc_new :: "'a rc_stack" where
  "rc_new = \<lparr>heap = (\<lambda>_. None), head = None, hist = [], fault = False,
     threads_in_pop = 0, to_be_deleted = None, rc_pcs = (\<lambda>_. RC_idle)\<rparr>"

definition rc_init :: "'a rc_stack \<Rightarrow> bool" where
  "rc_init s \<longleftrightarrow> s = rc_new"

definition rc_goto :: "tid \<Rightarrow> 'a rc_pc \<Rightarrow> 'a rc_stack \<Rightarrow> 'a rc_stack" where
  "rc_goto t c s = s\<lparr>rc_pcs := (rc_pcs s)(t := c)\<rparr>"

text \<open>Access to a node: undefined if it is not allocated.\<close>

definition with_node :: "nat \<Rightarrow> ('a node \<Rightarrow> 'a rc_stack) \<Rightarrow> 'a rc_stack \<Rightarrow> 'a rc_stack" where
  "with_node a f s = (case heap s a of None \<Rightarrow> s\<lparr>fault := True\<rparr> | Some n \<Rightarrow> f n)"

subsection \<open>Operations\<close>

fun rc_after_push :: "'a push_pc \<Rightarrow> 'a rc_pc" where
  "rc_after_push Pushed = RC_done RC_void"
| "rc_after_push Push_throws = RC_done RC_bad_alloc"
| "rc_after_push pc = RC_push pc"

definition rc_push :: "tid \<Rightarrow> nat option \<Rightarrow> bool \<Rightarrow> 'a rc_stack \<Rightarrow> 'a rc_stack option" where
  "rc_push t alloc weak s =
     (case rc_pcs s t of
        RC_push pc \<Rightarrow> map_option (\<lambda>(pc', s'). rc_goto t (rc_after_push pc') s') (push_step t alloc weak pc s)
      | _ \<Rightarrow> None)"

text \<open>One round of the loop of \<open>delete_nodes\<close>.\<close>

definition delete_nodes :: "tid \<Rightarrow> nat \<Rightarrow> 'a option \<Rightarrow> nat option \<Rightarrow> 'a rc_stack \<Rightarrow> 'a rc_stack" where
  "delete_nodes t a res list s =
     (case list of
        None \<Rightarrow> rc_goto t (RC_free a res) s
      | Some q \<Rightarrow> with_node q (\<lambda>n. rc_goto t (RC_delete a res (nxt n)) (delete_node q s)) s)"

text \<open>\<open>last->next = to_be_deleted\<close>, and the exchange.\<close>

definition chain_store :: "tid \<Rightarrow> after_chain \<Rightarrow> 'a option \<Rightarrow> nat \<Rightarrow> nat \<Rightarrow> 'a rc_stack \<Rightarrow> 'a rc_stack" where
  "chain_store t k res first back s =
     with_node back (\<lambda>n. rc_goto t (RC_chain_cas k res first back) (put_node back (n\<lparr>nxt := to_be_deleted s\<rparr>) s)) s"

definition chain_exchange :: "tid \<Rightarrow> after_chain \<Rightarrow> 'a option \<Rightarrow> nat \<Rightarrow> nat \<Rightarrow> 'a rc_stack \<Rightarrow> 'a rc_stack" where
  "chain_exchange t k res first back s =
     with_node back (\<lambda>n.
       if nxt n = to_be_deleted s
       then rc_goto t (case k of Then_delete a \<Rightarrow> RC_free a res | Then_leave \<Rightarrow> RC_leave res)
              (s\<lparr>to_be_deleted := Some first\<rparr>)
       else put_node back (n\<lparr>nxt := to_be_deleted s\<rparr>) s) s"

text \<open>One round of the loop that looks for the back node.\<close>

definition chain_walk :: "tid \<Rightarrow> nat \<Rightarrow> 'a option \<Rightarrow> nat \<Rightarrow> nat \<Rightarrow> 'a rc_stack \<Rightarrow> 'a rc_stack" where
  "chain_walk t a res first list s =
     with_node list (\<lambda>n.
       rc_goto t (case nxt n of None \<Rightarrow> RC_chain (Then_delete a) res first list
                  | Some l \<Rightarrow> RC_walk a res first l) s) s"

definition try_reclaim :: "tid \<Rightarrow> 'a rc_stack \<Rightarrow> 'a rc_stack option" where
  "try_reclaim t s =
     (case rc_pcs s t of
        RC_leave res \<Rightarrow> Some (rc_goto t (RC_done (RC_ptr res)) (s\<lparr>threads_in_pop := threads_in_pop s - 1\<rparr>))
      | RC_check a res \<Rightarrow>
          Some (rc_goto t (if threads_in_pop s = 1 then RC_take a res else RC_chain Then_leave res a a) s)
      | RC_take a res \<Rightarrow> Some (rc_goto t (RC_dec a res (to_be_deleted s)) (s\<lparr>to_be_deleted := None\<rparr>))
      | RC_dec a res nodes \<Rightarrow>
          Some (let s' = s\<lparr>threads_in_pop := threads_in_pop s - 1\<rparr> in
                if threads_in_pop s' = 0 then rc_goto t (RC_delete a res nodes) s'
                else case nodes of None \<Rightarrow> rc_goto t (RC_free a res) s'
                     | Some q \<Rightarrow> rc_goto t (RC_walk a res q q) s')
      | RC_delete a res list \<Rightarrow> Some (delete_nodes t a res list s)
      | RC_walk a res first list \<Rightarrow> Some (chain_walk t a res first list s)
      | RC_chain k res first back \<Rightarrow> Some (chain_store t k res first back s)
      | RC_chain_cas k res first back \<Rightarrow> Some (chain_exchange t k res first back s)
      | RC_free a res \<Rightarrow> Some (rc_goto t (RC_done (RC_ptr res)) (delete_node a s))
      | _ \<Rightarrow> None)"

definition rc_pop :: "tid \<Rightarrow> 'a rc_stack \<Rightarrow> 'a rc_stack option" where
  "rc_pop t s =
     (case rc_pcs s t of
        RC_enter \<Rightarrow> Some (rc_goto t (RC_loop Load_head) (s\<lparr>threads_in_pop := threads_in_pop s + 1\<rparr>))
      | RC_loop (Loop_left None) \<Rightarrow> Some (rc_goto t (RC_leave None) s)
      | RC_loop (Loop_left (Some a)) \<Rightarrow>
          Some (with_node a (\<lambda>n. rc_goto t (RC_check a (data n)) (put_node a (n\<lparr>data := None\<rparr>) s)) s)
      | RC_loop pc \<Rightarrow> map_option (\<lambda>(pc', s'). rc_goto t (RC_loop pc') s') (pop_step t False pc s)
      | _ \<Rightarrow> try_reclaim t s)"

datatype 'a rc_event = RC_call_push tid 'a | RC_call_pop tid | RC_push_step tid "nat option" bool | RC_pop_step tid

fun rc_quiet :: "'a rc_pc \<Rightarrow> bool" where
  "rc_quiet RC_idle = True"
| "rc_quiet (RC_done r) = True"
| "rc_quiet _ = False"

fun rc_move :: "'a rc_event \<Rightarrow> 'a rc_stack \<Rightarrow> 'a rc_stack option" where
  "rc_move (RC_call_push t v) s =
     (if rc_quiet (rc_pcs s t) then Some (rc_goto t (RC_push (New_node v)) s) else None)"
| "rc_move (RC_call_pop t) s = (if rc_quiet (rc_pcs s t) then Some (rc_goto t RC_enter s) else None)"
| "rc_move (RC_push_step t alloc weak) s = rc_push t alloc weak s"
| "rc_move (RC_pop_step t) s = rc_pop t s"

subsection \<open>Lists with an open end\<close>

fun lseg :: "(nat \<Rightarrow> 'a node option) \<Rightarrow> nat option \<Rightarrow> nat list \<Rightarrow> nat option \<Rightarrow> bool" where
  "lseg H p [] q \<longleftrightarrow> p = q"
| "lseg H p (c # cs) q \<longleftrightarrow> p = Some c \<and> (\<exists>n. H c = Some n \<and> lseg H (nxt n) cs q)"

lemma lseg_cong: "lseg H p cs q \<Longrightarrow> (\<And>b. b \<in> set cs \<Longrightarrow> H' b = H b) \<Longrightarrow> lseg H' p cs q"
  by (induction cs arbitrary: p) auto

lemma seg_lseg: "seg H p (cs @ ds) \<longleftrightarrow> (\<exists>q. lseg H p cs q \<and> seg H q ds)"
  by (induction cs arbitrary: p) auto

lemma lseg_snoc: "lseg H p cs (Some c) \<Longrightarrow> H c = Some n \<Longrightarrow> lseg H p (cs @ [c]) (nxt n)"
  by (induction cs arbitrary: p) auto

subsection \<open>The invariant\<close>

text \<open>The threads the counter counts.\<close>

fun in_pop :: "'a rc_pc \<Rightarrow> bool" where
  "in_pop (RC_loop pc) = True"
| "in_pop (RC_check a x) = True"
| "in_pop (RC_take a x) = True"
| "in_pop (RC_dec a x p) = True"
| "in_pop (RC_chain Then_leave x f l) = True"
| "in_pop (RC_chain_cas Then_leave x f l) = True"
| "in_pop (RC_leave x) = True"
| "in_pop _ = False"

text \<open>The node a thread may read although it is no longer on the stack.\<close>

fun stale :: "'a rc_pc \<Rightarrow> nat option" where
  "stale (RC_loop pc) = pop_node pc"
| "stale _ = None"

text \<open>
  The points at which the thread's own node cannot be such a node of another thread: it is new, or the
  thread has seen that it is alone since it unlinked the node.
\<close>

fun own_hidden :: "'a rc_pc \<Rightarrow> bool" where
  "own_hidden (RC_push pc) = True"
| "own_hidden (RC_take a x) = True"
| "own_hidden (RC_dec a x p) = True"
| "own_hidden (RC_delete a x p) = True"
| "own_hidden (RC_walk a x f l) = True"
| "own_hidden (RC_chain (Then_delete a) x f l) = True"
| "own_hidden (RC_chain_cas (Then_delete a) x f l) = True"
| "own_hidden (RC_free a x) = True"
| "own_hidden _ = False"

fun batch_hidden :: "'a rc_pc \<Rightarrow> bool" where
  "batch_hidden (RC_delete a x p) = True"
| "batch_hidden _ = False"

fun hidden :: "(tid \<Rightarrow> 'a rc_pc) \<Rightarrow> role \<Rightarrow> bool" where
  "hidden P Free = True"
| "hidden P (Private t) = own_hidden (P t)"
| "hidden P (Batch t) = batch_hidden (P t)"
| "hidden P _ = False"

fun rc_result_ok :: "'a rc_result \<Rightarrow> 'a op option \<Rightarrow> bool" where
  "rc_result_ok RC_void e = (\<exists>v. e = Some (Push v))"
| "rc_result_ok RC_bad_alloc e = True"
| "rc_result_ok (RC_ptr x) e = res_ok x e"

text \<open>The nodes a thread owns at a point: its own node, and whether it has a batch.\<close>

fun own_nodes :: "'a rc_pc \<Rightarrow> nat set" where
  "own_nodes (RC_loop (Loop_left (Some a))) = {a}"
| "own_nodes (RC_check a x) = {a}"
| "own_nodes (RC_take a x) = {a}"
| "own_nodes (RC_dec a x p) = {a}"
| "own_nodes (RC_delete a x p) = {a}"
| "own_nodes (RC_walk a x f l) = {a}"
| "own_nodes (RC_chain (Then_delete a) x f l) = {a}"
| "own_nodes (RC_chain_cas (Then_delete a) x f l) = {a}"
| "own_nodes (RC_free a x) = {a}"
| "own_nodes (RC_push pc) = push_nodes pc"
| "own_nodes _ = {}"

text \<open>The list a thread has at a point, on the nodes \<open>B\<close>.\<close>

definition path_ok :: "(nat \<Rightarrow> 'a node option) \<Rightarrow> nat set \<Rightarrow> nat \<Rightarrow> nat \<Rightarrow> bool" where
  "path_ok H B f l \<longleftrightarrow> (\<exists>cs. lseg H (Some f) cs (Some l) \<and> distinct (cs @ [l]) \<and> set (cs @ [l]) = B)"

fun batch_ok :: "(nat \<Rightarrow> 'a node option) \<Rightarrow> nat set \<Rightarrow> 'a rc_pc \<Rightarrow> bool" where
  "batch_ok H B (RC_dec a x p) = (\<exists>vs. node_list H p B vs)"
| "batch_ok H B (RC_delete a x p) = (\<exists>vs. node_list H p B vs)"
| "batch_ok H B (RC_walk a x f l) =
     (\<exists>cs ds. lseg H (Some f) cs (Some l) \<and> seg H (Some l) (l # ds) \<and> distinct (cs @ l # ds) \<and> set (cs @ l # ds) = B)"
| "batch_ok H B (RC_chain k x f l) = path_ok H B f l"
| "batch_ok H B (RC_chain_cas k x f l) = path_ok H B f l"
| "batch_ok H B _ = (B = {})"

text \<open>What else a thread knows at a point: values and links of nodes, its last operation.\<close>

fun knows :: "(nat \<Rightarrow> role) \<Rightarrow> (nat \<Rightarrow> 'a node option) \<Rightarrow> 'a op option \<Rightarrow> 'a rc_pc \<Rightarrow> bool" where
  "knows r H e (RC_push pc) = (\<forall>a \<in> push_nodes pc. \<exists>n v. H a = Some n \<and> data n = Some v)"
| "knows r H e (RC_loop (Cas_pop a n)) = (r a = On_stack \<longrightarrow> (\<exists>m. H a = Some m \<and> nxt m = n))"
| "knows r H e (RC_loop (Loop_left x)) =
     (case x of None \<Rightarrow> e = Some Pop_empty | Some a \<Rightarrow> \<exists>m v. H a = Some m \<and> data m = Some v \<and> e = Some (Pop v))"
| "knows r H e (RC_check a x) = res_ok x e"
| "knows r H e (RC_take a x) = res_ok x e"
| "knows r H e (RC_dec a x p) = res_ok x e"
| "knows r H e (RC_delete a x p) = res_ok x e"
| "knows r H e (RC_walk a x f l) = res_ok x e"
| "knows r H e (RC_chain k x f l) = res_ok x e"
| "knows r H e (RC_chain_cas k x f l) = res_ok x e"
| "knows r H e (RC_free a x) = res_ok x e"
| "knows r H e (RC_leave x) = res_ok x e"
| "knows r H e (RC_done x) = rc_result_ok x e"
| "knows r H e _ = True"

definition rc_thread :: "(nat \<Rightarrow> role) \<Rightarrow> 'a rc_stack \<Rightarrow> tid \<Rightarrow> 'a rc_pc \<Rightarrow> bool" where
  "rc_thread r s t c \<longleftrightarrow> {b. r b = Private t} = own_nodes c \<and> batch_ok (heap s) {b. r b = Batch t} c
     \<and> knows r (heap s) (last_op t (hist s)) c"

definition rc_ok :: "(nat \<Rightarrow> role) \<Rightarrow> 'a rc_stack \<Rightarrow> bool" where
  "rc_ok r s \<longleftrightarrow> stack_ok r s
     \<and> (\<exists>vs. node_list (heap s) (to_be_deleted s) {b. r b = Retired} vs)
     \<and> finite {t. in_pop (rc_pcs s t)} \<and> threads_in_pop s = card {t. in_pop (rc_pcs s t)}
     \<and> (\<forall>t. rc_thread r s t (rc_pcs s t))
     \<and> (\<forall>t a. stale (rc_pcs s t) = Some a \<longrightarrow> \<not> hidden (rc_pcs s) (r a))"

definition rc_inv :: "'a rc_stack \<Rightarrow> bool" where
  "rc_inv s \<longleftrightarrow> (\<exists>r. rc_ok r s)"

text \<open>What a step of \<open>t\<close> leaves alone.\<close>

definition rc_frame :: "tid \<Rightarrow> (nat \<Rightarrow> role) \<Rightarrow> 'a rc_stack \<Rightarrow> (nat \<Rightarrow> role) \<Rightarrow> 'a rc_stack \<Rightarrow> bool" where
  "rc_frame t r s r' s' \<longleftrightarrow>
     (\<forall>b u. u \<noteq> t \<longrightarrow> (r' b = Private u \<longleftrightarrow> r b = Private u) \<and> (r' b = Batch u \<longleftrightarrow> r b = Batch u))
     \<and> (\<forall>b. r b \<noteq> Free \<longrightarrow> r b \<noteq> Private t \<longrightarrow> r b \<noteq> Batch t \<longrightarrow> heap s' b = heap s b)
     \<and> (\<forall>b. r' b = On_stack \<longrightarrow> r b = On_stack \<or> hidden (rc_pcs s) (r b))
     \<and> (\<forall>u. u \<noteq> t \<longrightarrow> last_op u (hist s') = last_op u (hist s))"

lemma batch_ok_cong:
  assumes "batch_ok H B c" and "\<And>b. b \<in> B \<Longrightarrow> H' b = H b"
  shows "batch_ok H' B c"
proof -
  have path: "path_ok H B f l \<Longrightarrow> path_ok H' B f l" for f l
    unfolding path_ok_def using assms(2) by (fastforce intro: lseg_cong)
  show ?thesis
  proof (cases c)
    case (RC_walk a x f l)
    with assms(1) obtain cs ds where cs: "lseg H (Some f) cs (Some l)" "seg H (Some l) (l # ds)" "distinct (cs @ l # ds)"
      "set (cs @ l # ds) = B" by auto
    then have eq: "H' b = H b" if "b \<in> set (cs @ l # ds)" for b using that assms(2) by blast
    have "lseg H' (Some f) cs (Some l)" by (rule lseg_cong [OF cs(1)]) (rule eq, simp)
    moreover have "seg H' (Some l) (l # ds)" by (rule seg_cong [OF cs(2)]) (rule eq, auto)
    ultimately show ?thesis unfolding RC_walk batch_ok.simps using cs(3,4) by blast
  qed (use assms path in \<open>auto intro: node_list_cong\<close>)
qed

lemma rc_thread_other:
  assumes frame: "rc_frame t r s r' s'" and "u \<noteq> t" and th: "rc_thread r s u c"
    and stale: "\<And>a. stale c = Some a \<Longrightarrow> \<not> hidden (rc_pcs s) (r a)"
  shows "rc_thread r' s' u c"
proof -
  from frame \<open>u \<noteq> t\<close> have own: "\<And>b. r' b = Private u \<longleftrightarrow> r b = Private u" "\<And>b. r' b = Batch u \<longleftrightarrow> r b = Batch u"
    and same: "\<And>b. r b \<noteq> Free \<Longrightarrow> r b \<noteq> Private t \<Longrightarrow> r b \<noteq> Batch t \<Longrightarrow> heap s' b = heap s b"
    and up: "\<And>b. r' b = On_stack \<Longrightarrow> r b = On_stack \<or> hidden (rc_pcs s) (r b)"
    and last: "last_op u (hist s') = last_op u (hist s)" by (auto simp: rc_frame_def)
  from th have P: "{b. r b = Private u} = own_nodes c" and B: "batch_ok (heap s) {b. r b = Batch u} c"
    and K: "knows r (heap s) (last_op u (hist s)) c" by (auto simp: rc_thread_def)
  have heap: "heap s' b = heap s b" if "b \<in> own_nodes c" for b
  proof -
    from that P have "r b = Private u" by blast
    with \<open>u \<noteq> t\<close> show ?thesis by (intro same) simp_all
  qed
  have "batch_ok (heap s') {b. r' b = Batch u} c"
    unfolding own using B by (rule batch_ok_cong) (use same \<open>u \<noteq> t\<close> in auto)
  moreover have "knows r' (heap s') (last_op u (hist s)) c"
  proof (cases "\<exists>a n. c = RC_loop (Cas_pop a n)")
    case True
    then obtain a n where c: "c = RC_loop (Cas_pop a n)" by blast
    then have "\<not> hidden (rc_pcs s) (r a)" using stale by simp
    with up [of a] same [of a] K c show ?thesis by auto
  next
    case False
    with K heap show ?thesis by (cases c rule: own_nodes.cases) (auto split: option.splits)
  qed
  ultimately show ?thesis using P own last by (simp add: rc_thread_def)
qed

subsection \<open>The shape of a step\<close>

lemma rc_goto_simps [simp]:
  "heap (rc_goto t c s) = heap s" "head (rc_goto t c s) = head s" "hist (rc_goto t c s) = hist s" "fault (rc_goto t c s) = fault s"
  "threads_in_pop (rc_goto t c s) = threads_in_pop s" "to_be_deleted (rc_goto t c s) = to_be_deleted s"
  "rc_pcs (rc_goto t c s) = (rc_pcs s)(t := c)"
  by (simp_all add: rc_goto_def)

lemma rc_node_simps [simp]:
  "threads_in_pop (put_node a n s) = threads_in_pop s" "to_be_deleted (put_node a n s) = to_be_deleted s"
  "rc_pcs (put_node a n s) = rc_pcs s" "threads_in_pop (effect t e s) = threads_in_pop s"
  "to_be_deleted (effect t e s) = to_be_deleted s" "rc_pcs (effect t e s) = rc_pcs s"
  "threads_in_pop (delete_node a s) = threads_in_pop s" "to_be_deleted (delete_node a s) = to_be_deleted s"
  "rc_pcs (delete_node a s) = rc_pcs s" "hist (delete_node a s) = hist s" "head (delete_node a s) = head s"
  for s :: "'a rc_stack"
  by (simp_all add: put_node_def effect_def delete_node_def)

lemma count_upd:
  assumes "finite {u. Q (P u)}"
  shows "finite {u. Q ((P(t := c)) u)}"
    and "card {u. Q ((P(t := c)) u)} + of_bool (Q (P t)) = card {u. Q (P u)} + of_bool (Q c)"
proof -
  have set: "{u. Q ((P(t := c)) u)} = (if Q c then insert t ({u. Q (P u)} - {t}) else {u. Q (P u)} - {t})" by auto
  show "finite {u. Q ((P(t := c)) u)}" unfolding set using assms by simp
  have "card ({u. Q (P u)} - {t}) + of_bool (Q (P t)) = card {u. Q (P u)}"
    using card_Suc_Diff1 [OF assms, of t] by (cases "Q (P t)") simp_all
  moreover have "finite ({u. Q (P u)} - {t})" "t \<notin> {u. Q (P u)} - {t}" using assms by simp_all
  ultimately show "card {u. Q ((P(t := c)) u)} + of_bool (Q (P t)) = card {u. Q (P u)} + of_bool (Q c)"
    unfolding set by (cases "Q c") (simp_all del: insert_Diff_single)
qed

lemma rc_okI:
  assumes ok: "rc_ok r s" and st: "stack_ok r' s'"
    and pend: "\<exists>vs. node_list (heap s') (to_be_deleted s') {b. r' b = Retired} vs"
    and own: "rc_thread r' s' t c" and fr: "rc_frame t r s r' s'" and pcs: "rc_pcs s' = rc_pcs s"
    and cnt: "threads_in_pop s' + of_bool (in_pop (rc_pcs s t)) = threads_in_pop s + of_bool (in_pop c)"
    and hid: "\<And>u a. u \<noteq> t \<Longrightarrow> stale (rc_pcs s u) = Some a \<Longrightarrow> \<not> hidden ((rc_pcs s)(t := c)) (r' a)"
    and stale: "\<And>a. stale c = Some a \<Longrightarrow> \<not> hidden ((rc_pcs s)(t := c)) (r' a)"
  shows "rc_inv (rc_goto t c s')"
proof -
  let ?s = "rc_goto t c s'"
  have other: "rc_thread r' s' u (rc_pcs s u)" if "u \<noteq> t" for u
    using rc_thread_other [OF fr that] ok by (auto simp: rc_ok_def)
  have "rc_thread r' ?s u (rc_pcs ?s u)" for u
    using other [of u] own pcs by (simp add: rc_thread_def)
  moreover have "\<not> hidden (rc_pcs ?s) (r' a)" if "stale (rc_pcs ?s u) = Some a" for u a
    using hid [of u a] stale [of a] that pcs by (cases "u = t") auto
  moreover have "stack_ok r' ?s" using st by (simp add: stack_ok_def)
  moreover have "finite {u. in_pop (rc_pcs s u)}" "threads_in_pop s = card {u. in_pop (rc_pcs s u)}"
    using ok by (auto simp: rc_ok_def)
  note c = count_upd [of in_pop "rc_pcs s" t c, OF this(1)] this(2)
  have "finite {u. in_pop (rc_pcs ?s u)}" using c(1) pcs by simp
  moreover have "threads_in_pop ?s = card {u. in_pop (rc_pcs ?s u)}" using c(2,3) cnt pcs by simp
  ultimately have "rc_ok r' ?s" using pend by (simp add: rc_ok_def)
  then show ?thesis by (auto simp: rc_inv_def)
qed

lemma rc_ok_stale: "rc_ok r s \<Longrightarrow> stale (rc_pcs s u) = Some a \<Longrightarrow> \<not> hidden (rc_pcs s) (r a)"
  by (auto simp: rc_ok_def)

lemma rc_ok_thread: "rc_ok r s \<Longrightarrow> rc_thread r s t (rc_pcs s t)"
  by (simp add: rc_ok_def)

text \<open>A step that hides no further node.\<close>

lemma rc_okI_mono:
  assumes ok: "rc_ok r s" and "stack_ok r' s'"
    and "\<exists>vs. node_list (heap s') (to_be_deleted s') {b. r' b = Retired} vs"
    and "rc_thread r' s' t c" and "rc_frame t r s r' s'" and "rc_pcs s' = rc_pcs s"
    and "threads_in_pop s' + of_bool (in_pop (rc_pcs s t)) = threads_in_pop s + of_bool (in_pop c)"
    and mono: "\<And>b. hidden ((rc_pcs s)(t := c)) (r' b) \<Longrightarrow> hidden (rc_pcs s) (r b)"
    and stale: "\<And>a. stale c = Some a \<Longrightarrow> \<not> hidden ((rc_pcs s)(t := c)) (r' a)"
  shows "rc_inv (rc_goto t c s')"
  by (rule rc_okI [OF assms(1-7) _ stale]) (use mono rc_ok_stale [OF ok] in blast)

lemma hidden_same:
  assumes "hidden (P(t := c)) x" and "x = Private t \<Longrightarrow> own_hidden c \<Longrightarrow> own_hidden (P t)"
    and "x = Batch t \<Longrightarrow> batch_hidden c \<Longrightarrow> batch_hidden (P t)"
  shows "hidden P x"
  using assms by (cases x) (auto split: if_splits)

lemma rc_frame_same:
  assumes "\<And>b. r b \<noteq> Free \<Longrightarrow> r b \<noteq> Private t \<Longrightarrow> r b \<noteq> Batch t \<Longrightarrow> heap s' b = heap s b"
    and "\<And>u. u \<noteq> t \<Longrightarrow> last_op u (hist s') = last_op u (hist s)"
  shows "rc_frame t r s r s'"
  using assms by (simp add: rc_frame_def)

lemma pending_same:
  assumes "rc_ok r s" and "to_be_deleted s' = to_be_deleted s" and "\<And>b. r b = Retired \<Longrightarrow> heap s' b = heap s b"
    and "\<And>b. r' b = Retired \<longleftrightarrow> r b = Retired"
  shows "\<exists>vs. node_list (heap s') (to_be_deleted s') {b. r' b = Retired} vs"
proof -
  from assms(1) obtain vs where "node_list (heap s) (to_be_deleted s) {b. r b = Retired} vs" by (auto simp: rc_ok_def)
  then have "node_list (heap s') (to_be_deleted s) {b. r b = Retired} vs" by (rule node_list_cong) (simp add: assms(3))
  then show ?thesis by (auto simp: assms(2,4))
qed

text \<open>A step that changes the point of the thread and the counter.\<close>

lemma rc_step_point:
  assumes ok: "rc_ok r s" and "rc_thread r s t c"
    and "n + of_bool (in_pop (rc_pcs s t)) = threads_in_pop s + of_bool (in_pop c)"
    and "(\<exists>b. r b = Private t) \<Longrightarrow> own_hidden c \<Longrightarrow> own_hidden (rc_pcs s t)"
    and "(\<exists>b. r b = Batch t) \<Longrightarrow> batch_hidden c \<Longrightarrow> batch_hidden (rc_pcs s t)"
    and stale: "\<And>a. stale c = Some a \<Longrightarrow> \<not> hidden ((rc_pcs s)(t := c)) (r a)"
  shows "rc_inv (rc_goto t c (s\<lparr>threads_in_pop := n\<rparr>))"
proof (rule rc_okI_mono [OF ok _ _ _ _ _ _ _ stale])
  show "stack_ok r (s\<lparr>threads_in_pop := n\<rparr>)" using ok by (simp add: rc_ok_def stack_ok_def)
  show "\<exists>vs. node_list (heap (s\<lparr>threads_in_pop := n\<rparr>)) (to_be_deleted (s\<lparr>threads_in_pop := n\<rparr>)) {b. r b = Retired} vs"
    using ok by (simp add: rc_ok_def)
  show "hidden (rc_pcs s) (r b)" if "hidden ((rc_pcs s)(t := c)) (r b)" for b
    using that assms(4,5) by (rule hidden_same) auto
qed (use assms in \<open>auto simp: rc_frame_def rc_thread_def\<close>)

lemma rc_step_goto:
  assumes ok: "rc_ok r s" and "rc_thread r s t c" and "in_pop (rc_pcs s t) = in_pop c"
    and "(\<exists>b. r b = Private t) \<Longrightarrow> own_hidden c \<Longrightarrow> own_hidden (rc_pcs s t)"
    and "(\<exists>b. r b = Batch t) \<Longrightarrow> batch_hidden c \<Longrightarrow> batch_hidden (rc_pcs s t)"
    and "\<And>a. stale c = Some a \<Longrightarrow> \<not> hidden ((rc_pcs s)(t := c)) (r a)"
  shows "rc_inv (rc_goto t c s)"
proof -
  have "rc_inv (rc_goto t c (s\<lparr>threads_in_pop := threads_in_pop s\<rparr>))"
    using assms(3) by (intro rc_step_point [OF ok assms(2) _ assms(4-6)]) auto
  then show ?thesis by simp
qed

lemma rc_inv_fault: "rc_inv s \<Longrightarrow> \<not> fault s"
  by (auto simp: rc_inv_def rc_ok_def stack_ok_def)

text \<open>The calls.\<close>

lemma rc_call_inv:
  assumes ok: "rc_ok r s" and "rc_quiet (rc_pcs s t)"
  shows "rc_inv (rc_goto t (RC_push (New_node v)) s)" and "rc_inv (rc_goto t RC_enter s)"
proof -
  have "{b. r b = Private t} = {} \<and> {b. r b = Batch t} = {}" "\<not> in_pop (rc_pcs s t)"
    using assms(2) rc_ok_thread [OF ok, of t] by (cases "rc_pcs s t"; auto simp: rc_thread_def)+
  then show "rc_inv (rc_goto t (RC_push (New_node v)) s)" "rc_inv (rc_goto t RC_enter s)"
    by (intro rc_step_goto [OF ok]; auto simp: rc_thread_def)+
qed

text \<open>A step of \<open>push\<close>.\<close>

lemma push_step_rc:
  fixes s :: "'a rc_stack"
  shows "push_step t alloc weak pc s = Some (pc', s') \<Longrightarrow>
    rc_pcs s' = rc_pcs s \<and> to_be_deleted s' = to_be_deleted s \<and> threads_in_pop s' = threads_in_pop s"
  by (auto simp: push_step_def split: push_pc.splits option.splits if_splits)

lemma rc_push_inv:
  assumes inv: "rc_inv s" and "rc_push t alloc weak s = Some s'"
  shows "rc_inv s'"
proof -
  from inv obtain r where ok: "rc_ok r s" by (auto simp: rc_inv_def)
  from assms(2) obtain pc pc' s1 where pc: "rc_pcs s t = RC_push pc" "push_step t alloc weak pc s = Some (pc', s1)"
    and s': "s' = rc_goto t (rc_after_push pc') s1"
    by (auto simp: rc_push_def split: rc_pc.splits)
  have th: "rc_thread r s t (RC_push pc)" using rc_ok_thread [OF ok, of t] pc(1) by simp
  then have batch: "{b. r b = Batch t} = {}" and own: "{b. r b = Private t} = push_nodes pc"
    and "\<forall>a \<in> push_nodes pc. \<exists>n v. heap s a = Some n \<and> data n = Some v" by (auto simp: rc_thread_def)
  then have "push_ok r s t pc" unfolding push_ok_def by blast
  from ok have "stack_ok r s" by (simp add: rc_ok_def)
  from push_step_ok [OF this \<open>push_ok r s t pc\<close> pc(2)] obtain r' where
    r': "stack_ok r' s1" "push_ok r' s1 t pc'" "push_frame t r s r' s1" by blast
  then have keep: "\<And>b. r b \<noteq> Free \<Longrightarrow> r b \<noteq> Private t \<Longrightarrow> r' b = r b \<and> heap s1 b = heap s b"
    and change: "\<And>b. r' b = r b \<or> r b = Free \<and> r' b = Private t \<or> r b = Private t \<and> r' b = On_stack"
    by (auto simp: push_frame_def)
  note h = push_step_hist [OF pc(2)]
  have last: "last_op u (hist s1) = last_op u (hist s)" if "u \<noteq> t" for u
    using h that by (auto simp: last_op_append)
  have roles: "r' b = Private u \<longleftrightarrow> r b = Private u" "r' b = Batch u \<longleftrightarrow> r b = Batch u" if "u \<noteq> t" for b u
    using change [of b] that by auto
  have ret: "r' b = Retired \<longleftrightarrow> r b = Retired" "r' b = Batch t \<longleftrightarrow> r b = Batch t" for b
    using change [of b] by auto
  have "\<exists>vs. node_list (heap s1) (to_be_deleted s1) {b. r' b = Retired} vs"
    by (rule pending_same [OF ok]) (simp_all add: push_step_rc [OF pc(2)] keep ret)
  moreover have "rc_thread r' s1 t (rc_after_push pc')"
    using r'(2) h batch unfolding rc_thread_def ret by (cases pc') (auto simp: push_ok_def last_op_append)
  moreover have "r b = On_stack \<or> hidden (rc_pcs s) (r b)" if "r' b = On_stack" for b
    using change [of b] that pc(1) by auto
  then have "rc_frame t r s r' s1" unfolding rc_frame_def using roles keep last by blast
  moreover have "hidden (rc_pcs s) (r b)" if "hidden ((rc_pcs s)(t := rc_after_push pc')) (r' b)" for b
  proof (cases "r' b = r b")
    case True
    show ?thesis by (rule hidden_same [OF that [unfolded True]]) (use pc(1) batch in auto)
  next
    case False
    with change [of b] that pc(1) show ?thesis by auto
  qed
  moreover have "stale (rc_after_push pc') = None" "in_pop (rc_after_push pc') = in_pop (rc_pcs s t)"
    using pc(1) by (cases pc'; simp)+
  ultimately show ?thesis using ok r'(1) push_step_rc [OF pc(2)] unfolding s'
    by (intro rc_okI_mono [OF ok]) simp_all
qed

subsection \<open>The loop of \<open>pop\<close>\<close>

lemma rc_ok_alive: "rc_ok r s \<Longrightarrow> r a \<noteq> Free \<Longrightarrow> \<exists>n. heap s a = Some n"
  using stack_ok_alive [of r s a] by (auto simp: rc_ok_def)

lemma rc_ok_own: "rc_ok r s \<Longrightarrow> rc_pcs s t = c \<Longrightarrow> a \<in> own_nodes c \<Longrightarrow> r a = Private t"
  using rc_ok_thread [of r s t] unfolding rc_thread_def by blast

lemma rc_loop_inv:
  assumes ok: "rc_ok r s" and pc: "rc_pcs s t = RC_loop pc" and step: "pop_step t False pc s = Some (pc', s1)"
  shows "rc_inv (rc_goto t (RC_loop pc') s1)"
proof -
  from ok have st: "stack_ok r s" by (simp add: rc_ok_def)
  have th: "rc_thread r s t (RC_loop pc)" using rc_ok_thread [OF ok, of t] pc by simp
  have "own_nodes (RC_loop pc) = {}" using step by (cases pc) (auto simp: pop_step_def)
  with th have own: "{b. r b = Private t} = {}" and batch: "{b. r b = Batch t} = {}"
    and knows: "knows r (heap s) (last_op t (hist s)) (RC_loop pc)" by (auto simp: rc_thread_def)
  have seen: "\<not> hidden (rc_pcs s) (r a)" if "pop_node pc = Some a" for a
    using rc_ok_stale [OF ok, of t a] that pc by simp
  have alive: "\<forall>a. pop_node pc = Some a \<longrightarrow> heap s a \<noteq> None"
  proof (intro allI impI)
    fix a assume "pop_node pc = Some a"
    then have "r a \<noteq> Free" using seen [of a] by auto
    then show "heap s a \<noteq> None" using rc_ok_alive [OF ok] by fastforce
  qed
  have cur: "\<forall>a n. pc = Cas_pop a n \<and> r a = On_stack \<longrightarrow> (\<exists>m. heap s a = Some m \<and> nxt m = n)" using knows by auto
  from st alive step cur show ?thesis
  proof (cases rule: pop_step_cases)
    case (Top b)
    then show ?thesis using own batch pc by (auto simp: rc_thread_def intro!: rc_step_goto [OF ok])
  next
    case Empty
    have "rc_thread r s1 t (RC_loop pc')" using Empty own batch by (simp add: rc_thread_def last_op_append)
    moreover have "hidden (rc_pcs s) (r b)" if "hidden ((rc_pcs s)(t := RC_loop pc')) (r b)" for b
      using that by (rule hidden_same) simp_all
    moreover have "rc_frame t r s r s1" using Empty by (intro rc_frame_same) (auto simp: last_op_append)
    moreover have "\<exists>vs. node_list (heap s1) (to_be_deleted s1) {b. r b = Retired} vs"
      by (rule pending_same [OF ok]) (simp_all add: Empty)
    ultimately show ?thesis using Empty pc by (intro rc_okI_mono [OF ok]) auto
  next
    case (Next a n)
    have "\<not> hidden ((rc_pcs s)(t := RC_loop pc')) (r a)"
    proof
      assume "hidden ((rc_pcs s)(t := RC_loop pc')) (r a)"
      then have "hidden (rc_pcs s) (r a)" by (rule hidden_same) simp_all
      with seen [of a] Next(1) show False by simp
    qed
    with Next show ?thesis using own batch pc by (auto simp: rc_thread_def intro!: rc_step_goto [OF ok])
  next
    case (Taken a m v)
    let ?r = "r(a := Private t)"
    have "rc_thread ?r s1 t (RC_loop pc')" using Taken own batch by (auto simp: rc_thread_def last_op_append)
    moreover have "hidden (rc_pcs s) (r b)" if "hidden ((rc_pcs s)(t := RC_loop pc')) (?r b)" for b
    proof (cases "b = a")
      case False
      with that show ?thesis by (auto intro: hidden_same [of "rc_pcs s" t "RC_loop pc'"])
    qed (use that in simp)
    moreover have "rc_frame t r s ?r s1" using Taken(3,6) by (auto simp: rc_frame_def last_op_append)
    moreover have "\<exists>vs. node_list (heap s1) (to_be_deleted s1) {b. ?r b = Retired} vs"
      by (rule pending_same [OF ok]) (simp_all add: Taken)
    ultimately show ?thesis using Taken(2,6) Taken(7) [of "Private t"] pc by (intro rc_okI_mono [OF ok]) auto
  qed
qed

lemma rc_left_inv:
  assumes ok: "rc_ok r s" and pc: "rc_pcs s t = RC_loop (Loop_left x)" and "rc_pop t s = Some s'"
  shows "rc_inv s'"
proof (cases x)
  case None
  with rc_ok_thread [OF ok, of t] pc have "rc_thread r s t (RC_leave None)" by (simp add: rc_thread_def)
  with None assms show ?thesis by (auto simp: rc_pop_def intro: rc_step_goto [OF ok])
next
  case (Some a)
  have th: "rc_thread r s t (RC_loop (Loop_left (Some a)))" using rc_ok_thread [OF ok, of t] pc Some by simp
  then have a: "r a = Private t" using rc_ok_own [OF ok pc] Some by simp
  from th obtain m v where m: "heap s a = Some m" "data m = Some v" "last_op t (hist s) = Some (Pop v)"
    by (auto simp: rc_thread_def)
  let ?s = "put_node a (m\<lparr>data := None\<rparr>) s"
  have s': "s' = rc_goto t (RC_check a (Some v)) ?s"
    using assms(3) pc Some m by (simp add: rc_pop_def with_node_def)
  have "stack_ok r ?s" using ok a m by (intro stack_ok_write) (auto simp: rc_ok_def)
  moreover have "rc_thread r ?s t (RC_check a (Some v))" using th m by (simp add: rc_thread_def)
  moreover have "rc_frame t r s r ?s" using a by (intro rc_frame_same) auto
  moreover have "\<exists>vs. node_list (heap ?s) (to_be_deleted ?s) {b. r b = Retired} vs"
    using a by (intro pending_same [OF ok]) auto
  moreover have "hidden (rc_pcs s) (r b)" if "hidden ((rc_pcs s)(t := RC_check a (Some v))) (r b)" for b
    using that by (rule hidden_same) simp_all
  ultimately show ?thesis unfolding s' using pc by (intro rc_okI_mono [OF ok]) auto
qed

subsection \<open>\<open>try_reclaim\<close>\<close>

text \<open>A thread that the counter counts, and that is the only one.\<close>

lemma count_pos:
  assumes "rc_ok r s" and "in_pop (rc_pcs s t)"
  shows "0 < threads_in_pop s"
proof -
  from assms have "finite {u. in_pop (rc_pcs s u)}" "threads_in_pop s = card {u. in_pop (rc_pcs s u)}"
    by (auto simp: rc_ok_def)
  with assms(2) show ?thesis by (auto simp: card_gt_0_iff)
qed

lemma stale_in_pop: "stale c = Some a \<Longrightarrow> in_pop c"
  by (cases c) auto

lemma alone:
  assumes "rc_ok r s" and "in_pop (rc_pcs s t)" and "threads_in_pop s = 1" and "u \<noteq> t"
  shows "stale (rc_pcs s u) \<noteq> Some a"
proof
  assume "stale (rc_pcs s u) = Some a"
  then have "in_pop (rc_pcs s u)" by (rule stale_in_pop)
  moreover have "card {w. in_pop (rc_pcs s w)} = 1" using assms(1,3) by (simp add: rc_ok_def)
  then obtain v where "{w. in_pop (rc_pcs s w)} = {v}" by (rule card_1_singletonE)
  ultimately have "u \<in> {v}" "t \<in> {v}" using assms(2) by auto
  with assms(4) show False by simp
qed

lemma rc_leave_inv:
  assumes ok: "rc_ok r s" and pc: "rc_pcs s t = RC_leave x"
  shows "rc_inv (rc_goto t (RC_done (RC_ptr x)) (s\<lparr>threads_in_pop := threads_in_pop s - 1\<rparr>))"
proof (rule rc_step_point [OF ok])
  show "rc_thread r s t (RC_done (RC_ptr x))" using rc_ok_thread [OF ok, of t] pc by (simp add: rc_thread_def)
  show "threads_in_pop s - 1 + of_bool (in_pop (rc_pcs s t)) = threads_in_pop s + of_bool (in_pop (RC_done (RC_ptr x)))"
    using count_pos [OF ok, of t] pc by simp
qed simp_all

lemma rc_check_inv:
  assumes ok: "rc_ok r s" and pc: "rc_pcs s t = RC_check a x"
  shows "rc_inv (rc_goto t (if threads_in_pop s = 1 then RC_take a x else RC_chain Then_leave x a a) s)"
proof -
  have th: "rc_thread r s t (RC_check a x)" using rc_ok_thread [OF ok, of t] pc by simp
  have st: "stack_ok r s" using ok by (simp add: rc_ok_def)
  have a: "r a = Private t" using rc_ok_own [OF ok pc] by simp
  show ?thesis
  proof (cases "threads_in_pop s = 1")
    case True
    have "rc_thread r s t (RC_take a x)" using th by (simp add: rc_thread_def)
    moreover have "stale (rc_pcs s u) \<noteq> Some b" if "u \<noteq> t" for u b using alone [OF ok _ True that] pc by simp
    moreover have "rc_frame t r s r s" by (rule rc_frame_same) simp_all
    ultimately show ?thesis using True pc st pending_same [OF ok, of s r] by (auto intro!: rc_okI [OF ok])
  next
    case False
    let ?r = "r(a := Batch t)" and ?c = "RC_chain Then_leave x a a"
    have "stack_ok ?r s" using st a by (intro stack_ok_role) auto
    moreover have "rc_thread ?r s t ?c"
    proof -
      from th have "{b. r b = Private t} = {a}" "{b. r b = Batch t} = {}" by (auto simp: rc_thread_def)
      then have "{b. ?r b = Private t} = {}" "{b. ?r b = Batch t} = {a}" by auto
      moreover have "path_ok (heap s) {a} a a" unfolding path_ok_def by (intro exI [of _ "[]"]) simp
      ultimately show ?thesis using th by (simp add: rc_thread_def)
    qed
    moreover have "rc_frame t r s ?r s" using a by (auto simp: rc_frame_def)
    moreover have "\<exists>vs. node_list (heap s) (to_be_deleted s) {b. ?r b = Retired} vs"
      using a by (intro pending_same [OF ok]) auto
    moreover have "hidden (rc_pcs s) (r b)" if "hidden ((rc_pcs s)(t := ?c)) (?r b)" for b
      using that by (cases "b = a") (auto intro: hidden_same [of "rc_pcs s" t ?c])
    ultimately show ?thesis using False pc by (auto intro!: rc_okI_mono [OF ok])
  qed
qed

lemma rc_take_inv:
  assumes ok: "rc_ok r s" and pc: "rc_pcs s t = RC_take a x"
  shows "rc_inv (rc_goto t (RC_dec a x (to_be_deleted s)) (s\<lparr>to_be_deleted := None\<rparr>))"
proof -
  let ?r = "\<lambda>b. if r b = Retired then Batch t else r b" and ?c = "RC_dec a x (to_be_deleted s)"
  let ?s = "s\<lparr>to_be_deleted := None\<rparr>"
  have th: "rc_thread r s t (RC_take a x)" using rc_ok_thread [OF ok, of t] pc by simp
  have st: "stack_ok r s" using ok by (simp add: rc_ok_def)
  have "stack_ok ?r ?s" by (rule stack_ok_roles [OF st]) simp_all
  moreover have "rc_thread ?r ?s t ?c"
  proof -
    from th have own: "{b. r b = Private t} = {a}" "{b. r b = Batch t} = {}" by (auto simp: rc_thread_def)
    have "r b \<noteq> Batch t" for b using own(2) by blast
    then have "?r b = Private t \<longleftrightarrow> r b = Private t" "?r b = Batch t \<longleftrightarrow> r b = Retired" for b by simp_all
    then have sets: "{b. ?r b = Private t} = {a}" "{b. ?r b = Batch t} = {b. r b = Retired}" using own(1) by simp_all
    moreover have "\<exists>vs. node_list (heap s) (to_be_deleted s) {b. r b = Retired} vs" using ok by (simp add: rc_ok_def)
    moreover have "res_ok x (last_op t (hist s))" using th by (simp add: rc_thread_def)
    ultimately show ?thesis unfolding rc_thread_def by simp
  qed
  moreover have "rc_frame t r s ?r ?s" by (auto simp: rc_frame_def)
  moreover have "{b. ?r b = Retired} = {}" by auto
  then have "\<exists>vs. node_list (heap ?s) (to_be_deleted ?s) {b. ?r b = Retired} vs" by (simp add: node_list_null)
  moreover have "hidden (rc_pcs s) (r b)" if "hidden ((rc_pcs s)(t := ?c)) (?r b)" for b
    using that pc by (cases "r b = Retired") (auto intro: hidden_same [of "rc_pcs s" t ?c])
  ultimately show ?thesis using pc by (intro rc_okI_mono [OF ok]) auto
qed

lemma path_single: "path_ok H {a} a a"
  unfolding path_ok_def by (intro exI [of _ "[]"]) simp

lemma rc_dec_inv:
  assumes ok: "rc_ok r s" and pc: "rc_pcs s t = RC_dec a x p"
  shows "threads_in_pop s = 1 \<Longrightarrow> rc_inv (rc_goto t (RC_delete a x p) (s\<lparr>threads_in_pop := 0\<rparr>))"
    and "p = None \<Longrightarrow> rc_inv (rc_goto t (RC_free a x) (s\<lparr>threads_in_pop := threads_in_pop s - 1\<rparr>))"
    and "p = Some q \<Longrightarrow> rc_inv (rc_goto t (RC_walk a x q q) (s\<lparr>threads_in_pop := threads_in_pop s - 1\<rparr>))"
proof -
  have th: "rc_thread r s t (RC_dec a x p)" using rc_ok_thread [OF ok, of t] pc by simp
  have st: "stack_ok r s" using ok by (simp add: rc_ok_def)
  have pos: "0 < threads_in_pop s" using count_pos [OF ok, of t] pc by simp
  show "rc_inv (rc_goto t (RC_delete a x p) (s\<lparr>threads_in_pop := 0\<rparr>))" if one: "threads_in_pop s = 1"
  proof (rule rc_okI [OF ok])
    let ?s = "s\<lparr>threads_in_pop := 0\<rparr>"
    show "stack_ok r ?s" by (rule stack_ok_roles [OF st]) simp_all
    show "\<exists>vs. node_list (heap ?s) (to_be_deleted ?s) {b. r b = Retired} vs" by (rule pending_same [OF ok]) simp_all
    show "rc_thread r ?s t (RC_delete a x p)" using th by (simp add: rc_thread_def)
    show "rc_frame t r s r ?s" by (rule rc_frame_same) simp_all
    show "threads_in_pop ?s + of_bool (in_pop (rc_pcs s t)) = threads_in_pop s + of_bool (in_pop (RC_delete a x p))"
      using one pc by simp
    show "\<not> hidden ((rc_pcs s)(t := RC_delete a x p)) (r b)" if "u \<noteq> t" "stale (rc_pcs s u) = Some b" for u b
      using alone [OF ok _ one that(1), of b] that(2) pc by simp
  qed simp_all
  show "rc_inv (rc_goto t (RC_free a x) (s\<lparr>threads_in_pop := threads_in_pop s - 1\<rparr>))" if "p = None"
  proof (rule rc_step_point [OF ok])
    show "rc_thread r s t (RC_free a x)" using th that by (simp add: rc_thread_def no_nodes)
  qed (use pos pc in auto)
  show "rc_inv (rc_goto t (RC_walk a x q q) (s\<lparr>threads_in_pop := threads_in_pop s - 1\<rparr>))" if "p = Some q"
  proof (rule rc_step_point [OF ok])
    from th that obtain vs where "node_list (heap s) (Some q) {b. r b = Batch t} vs" by (auto simp: rc_thread_def)
    then obtain cs where cs: "seg (heap s) (Some q) cs" "distinct cs" "set cs = {b. r b = Batch t}" by (auto simp: node_list_def)
    then obtain ds where ds: "cs = q # ds" by (cases cs) auto
    have "batch_ok (heap s) {b. r b = Batch t} (RC_walk a x q q)"
      unfolding batch_ok.simps using cs unfolding ds by (intro exI [of _ "[]"] exI [of _ ds]) simp
    with th show "rc_thread r s t (RC_walk a x q q)" unfolding rc_thread_def by simp
  qed (use pos pc in auto)
qed

lemma rc_delete_inv:
  assumes ok: "rc_ok r s" and pc: "rc_pcs s t = RC_delete a x p"
  shows "rc_inv (delete_nodes t a x p s)"
proof (cases p)
  case None
  have "rc_thread r s t (RC_free a x)"
    using rc_ok_thread [OF ok, of t] pc None by (simp add: rc_thread_def no_nodes)
  with pc None show ?thesis by (auto simp: delete_nodes_def intro!: rc_step_goto [OF ok])
next
  case (Some q)
  have th: "rc_thread r s t (RC_delete a x (Some q))" using rc_ok_thread [OF ok, of t] pc Some by simp
  then obtain vs where "node_list (heap s) (Some q) {b. r b = Batch t} vs" by (auto simp: rc_thread_def)
  from node_list_Some [OF this] obtain n ws where n: "heap s q = Some n" "r q = Batch t"
    "node_list (heap s) (nxt n) ({b. r b = Batch t} - {q}) ws" by auto
  let ?s = "delete_node q s" and ?r = "r(q := Free)" and ?c = "RC_delete a x (nxt n)"
  have heap: "heap ?s = (heap s)(q := None)" using n(1) by (simp add: delete_node_def)
  have own: "{b. r b = Private t} = {a}" using th by (simp add: rc_thread_def)
  have sets: "{b. ?r b = Batch t} = {b. r b = Batch t} - {q}" "{b. ?r b = Private t} = {b. r b = Private t}"
    using n(2) by auto
  have "node_list (heap ?s) (nxt n) ({b. r b = Batch t} - {q}) ws" unfolding heap by (rule node_list_frame [OF n(3)]) simp
  then have "rc_thread ?r ?s t ?c" using th unfolding rc_thread_def sets by auto
  moreover have "stack_ok ?r ?s" using ok n by (intro stack_ok_delete) (auto simp: rc_ok_def)
  moreover have "rc_frame t r s ?r ?s" using n by (auto simp: rc_frame_def heap)
  moreover have "\<exists>vs. node_list (heap ?s) (to_be_deleted ?s) {b. ?r b = Retired} vs"
    using n by (intro pending_same [OF ok]) (auto simp: heap)
  moreover have "hidden (rc_pcs s) (r b)" if "hidden ((rc_pcs s)(t := ?c)) (?r b)" for b
  proof (cases "b = q")
    case True
    then show ?thesis using n pc by simp
  next
    case False
    with that have h: "hidden ((rc_pcs s)(t := ?c)) (r b)" by simp
    show ?thesis by (rule hidden_same [OF h]) (use pc in simp_all)
  qed
  ultimately have "rc_inv (rc_goto t ?c ?s)" using pc by (intro rc_okI_mono [OF ok]) auto
  with Some n show ?thesis by (simp add: delete_nodes_def with_node_def)
qed

lemma rc_walk_inv:
  assumes ok: "rc_ok r s" and pc: "rc_pcs s t = RC_walk a x f l"
  shows "rc_inv (chain_walk t a x f l s)"
proof -
  have th: "rc_thread r s t (RC_walk a x f l)" using rc_ok_thread [OF ok, of t] pc by simp
  then obtain cs ds where cs: "lseg (heap s) (Some f) cs (Some l)" "seg (heap s) (Some l) (l # ds)" "distinct (cs @ l # ds)"
    "set (cs @ l # ds) = {b. r b = Batch t}" by (auto simp: rc_thread_def)
  then obtain n where n: "heap s l = Some n" "seg (heap s) (nxt n) ds" by auto
  show ?thesis
  proof (cases "nxt n")
    case None
    then have "ds = []" using n(2) by (cases ds) auto
    with cs have "path_ok (heap s) {b. r b = Batch t} f l" unfolding path_ok_def by auto
    with th have "rc_thread r s t (RC_chain (Then_delete a) x f l)" by (simp add: rc_thread_def)
    then have "rc_inv (rc_goto t (RC_chain (Then_delete a) x f l) s)" using pc by (intro rc_step_goto [OF ok]) auto
    with n None show ?thesis by (simp add: chain_walk_def with_node_def)
  next
    case (Some q)
    then obtain es where es: "ds = q # es" using n(2) by (cases ds) auto
    have "batch_ok (heap s) {b. r b = Batch t} (RC_walk a x f q)"
      unfolding batch_ok.simps using lseg_snoc [OF cs(1) n(1)] n(2) cs(3,4) Some unfolding es
      by (intro exI [of _ "cs @ [l]"] exI [of _ es]) simp
    with th have "rc_thread r s t (RC_walk a x f q)" by (simp add: rc_thread_def)
    then have "rc_inv (rc_goto t (RC_walk a x f q) s)" using pc by (intro rc_step_goto [OF ok]) auto
    with n Some show ?thesis by (simp add: chain_walk_def with_node_def)
  qed
qed

text \<open>A write to the back node of a batch.\<close>

lemma path_back: "path_ok H B f l \<Longrightarrow> l \<in> B"
  by (auto simp: path_ok_def)

lemma path_write: "path_ok H B f l \<Longrightarrow> path_ok (H(l := x)) B f l"
proof -
  assume "path_ok H B f l"
  then obtain cs where cs: "lseg H (Some f) cs (Some l)" "distinct (cs @ [l])" "set (cs @ [l]) = B"
    unfolding path_ok_def by blast
  then have "lseg (H(l := x)) (Some f) cs (Some l)" by (intro lseg_cong [OF cs(1)]) auto
  with cs show ?thesis unfolding path_ok_def by blast
qed

lemma rc_batch:
  assumes "rc_ok r s" and "rc_pcs s t = RC_chain k x f l \<or> rc_pcs s t = RC_chain_cas k x f l"
  shows "path_ok (heap s) {b. r b = Batch t} f l" and "{b. r b = Private t} = own_nodes (RC_chain_cas k x f l)"
    and "res_ok x (last_op t (hist s))" and "r l = Batch t" and "\<exists>n. heap s l = Some n"
proof -
  have th: "rc_thread r s t (rc_pcs s t)" by (rule rc_ok_thread [OF assms(1)])
  then show p: "path_ok (heap s) {b. r b = Batch t} f l" and "{b. r b = Private t} = own_nodes (RC_chain_cas k x f l)"
    and "res_ok x (last_op t (hist s))" using assms(2) unfolding rc_thread_def by (cases k; fastforce)+
  from path_back [OF p] show l: "r l = Batch t" by simp
  then show "\<exists>n. heap s l = Some n" using rc_ok_alive [OF assms(1), of l] by simp
qed

lemma rc_write_inv:
  assumes ok: "rc_ok r s" and pc: "rc_pcs s t = RC_chain k x f l \<or> rc_pcs s t = RC_chain_cas k x f l"
    and n: "heap s l = Some n"
  shows "rc_inv (rc_goto t (RC_chain_cas k x f l) (put_node l n' s))"
proof -
  let ?s = "put_node l n' s"
  note b = rc_batch [OF ok pc]
  have st: "stack_ok r s" using ok by (simp add: rc_ok_def)
  have "rc_thread r ?s t (RC_chain_cas k x f l)"
    using path_write [OF b(1)] b(2,3) unfolding rc_thread_def by simp
  moreover have "stack_ok r ?s" by (rule stack_ok_write [OF st]) (simp_all add: n b(4))
  moreover have "rc_frame t r s r ?s" using b(4) by (intro rc_frame_same) auto
  moreover have "\<exists>vs. node_list (heap ?s) (to_be_deleted ?s) {b. r b = Retired} vs"
    using b(4) by (intro pending_same [OF ok]) auto
  moreover have "hidden (rc_pcs s) (r b)" if "hidden ((rc_pcs s)(t := RC_chain_cas k x f l)) (r b)" for b
    by (rule hidden_same [OF that]) (use pc in \<open>cases k; auto\<close>)+
  moreover have "in_pop (rc_pcs s t) = in_pop (RC_chain_cas k x f l)" using pc by (cases k) auto
  ultimately show ?thesis by (intro rc_okI_mono [OF ok]) auto
qed


lemma rc_linked_inv:
  assumes ok: "rc_ok r s" and pc: "rc_pcs s t = RC_chain_cas k x f l"
    and n: "heap s l = Some n" "nxt n = to_be_deleted s"
  shows "rc_inv (rc_goto t (case k of Then_delete a \<Rightarrow> RC_free a x | Then_leave \<Rightarrow> RC_leave x) (s\<lparr>to_be_deleted := Some f\<rparr>))"
    (is "rc_inv (rc_goto t ?c ?s)")
proof -
  let ?r = "\<lambda>b. if r b = Batch t then Retired else r b"
  note b = rc_batch [OF ok disjI2 [OF pc]]
  have st: "stack_ok r s" using ok by (simp add: rc_ok_def)
  have sets: "{b. ?r b = Private t} = own_nodes (RC_chain_cas k x f l)" "{b. ?r b = Batch t} = {}"
    "{b. ?r b = Retired} = {b. r b = Batch t} \<union> {b. r b = Retired}"
    unfolding b(2) [symmetric] by auto
  have "stack_ok ?r ?s" by (rule stack_ok_roles [OF st]) simp_all
  moreover have "rc_thread ?r ?s t ?c" unfolding rc_thread_def sets using b(3) by (cases k) simp_all
  moreover have "rc_frame t r s ?r ?s" by (auto simp: rc_frame_def)
  moreover have "\<exists>vs. node_list (heap ?s) (to_be_deleted ?s) {b. ?r b = Retired} vs"
  proof -
    from b(1) obtain cs where cs: "lseg (heap s) (Some f) cs (Some l)" "distinct (cs @ [l])" "set (cs @ [l]) = {b. r b = Batch t}"
      unfolding path_ok_def by blast
    from ok obtain es where es: "seg (heap s) (to_be_deleted s) es" "distinct es" "set es = {b. r b = Retired}"
      by (auto simp: rc_ok_def node_list_def)
    have "seg (heap s) (Some f) (cs @ l # es)" using cs(1) es(1) n by (auto simp: seg_lseg)
    moreover have "set (cs @ [l]) \<inter> set es = {}" unfolding cs(3) es(3) by auto
    then have "distinct ((cs @ [l]) @ es)" using cs(2) es(2) by (simp only: distinct_append)
    moreover have "set ((cs @ [l]) @ es) = {b. ?r b = Retired}" unfolding set_append [of "cs @ [l]"] cs(3) es(3) sets(3) ..
    ultimately show ?thesis unfolding node_list_def by (intro exI conjI; (rule refl)?) auto
  qed
  moreover have "hidden (rc_pcs s) (r b)" if "hidden ((rc_pcs s)(t := ?c)) (?r b)" for b
  proof (cases "r b = Batch t")
    case False
    with that have h: "hidden ((rc_pcs s)(t := ?c)) (r b)" by simp
    show ?thesis by (rule hidden_same [OF h]) (use pc in \<open>cases k; auto\<close>)+
  qed (use that in simp)
  moreover have "in_pop (rc_pcs s t) = in_pop ?c" "stale ?c = None" using pc by (cases k; simp)+
  ultimately show ?thesis by (intro rc_okI_mono [OF ok]) simp_all
qed

lemma rc_exchange_inv:
  assumes ok: "rc_ok r s" and pc: "rc_pcs s t = RC_chain_cas k x f l"
  shows "rc_inv (chain_exchange t k x f l s)"
proof -
  from rc_batch(5) [OF ok disjI2 [OF pc]] obtain n where n: "heap s l = Some n" ..
  let ?s = "put_node l (n\<lparr>nxt := to_be_deleted s\<rparr>) s"
  have "rc_goto t (RC_chain_cas k x f l) ?s = ?s" using pc by (simp add: rc_goto_def put_node_def fun_upd_idem)
  with rc_write_inv [OF ok disjI2 [OF pc] n, of "n\<lparr>nxt := to_be_deleted s\<rparr>"] rc_linked_inv [OF ok pc n] n
  show ?thesis by (auto simp: chain_exchange_def with_node_def)
qed

lemma rc_store_inv:
  assumes ok: "rc_ok r s" and pc: "rc_pcs s t = RC_chain k x f l"
  shows "rc_inv (chain_store t k x f l s)"
proof -
  from rc_batch(5) [OF ok disjI1 [OF pc]] obtain n where n: "heap s l = Some n" ..
  with rc_write_inv [OF ok disjI1 [OF pc] n] show ?thesis by (auto simp: chain_store_def with_node_def)
qed

lemma rc_free_inv:
  assumes ok: "rc_ok r s" and pc: "rc_pcs s t = RC_free a x"
  shows "rc_inv (rc_goto t (RC_done (RC_ptr x)) (delete_node a s))"
proof -
  let ?r = "r(a := Free)" and ?s = "delete_node a s" and ?c = "RC_done (RC_ptr x)"
  have th: "rc_thread r s t (RC_free a x)" using rc_ok_thread [OF ok, of t] pc by simp
  have a: "r a = Private t" using rc_ok_own [OF ok pc] by simp
  then obtain n where n: "heap s a = Some n" using rc_ok_alive [OF ok, of a] by auto
  then have heap: "heap ?s = (heap s)(a := None)" by (simp add: delete_node_def)
  have st: "stack_ok r s" using ok by (simp add: rc_ok_def)
  have "stack_ok ?r ?s" by (rule stack_ok_delete [OF st]) (simp_all add: a n)
  moreover have "{b. ?r b = Private t} = {b. r b = Private t} - {a}" "{b. ?r b = Batch t} = {b. r b = Batch t}" using a by auto
  then have "rc_thread ?r ?s t ?c" using th by (simp add: rc_thread_def)
  moreover have "rc_frame t r s ?r ?s" using a by (auto simp: rc_frame_def heap)
  moreover have "\<exists>vs. node_list (heap ?s) (to_be_deleted ?s) {b. ?r b = Retired} vs"
    using a by (intro pending_same [OF ok]) (auto simp: heap)
  moreover have "hidden (rc_pcs s) (r b)" if "hidden ((rc_pcs s)(t := ?c)) (?r b)" for b
  proof (cases "b = a")
    case True
    then show ?thesis using a pc by simp
  next
    case False
    with that have h: "hidden ((rc_pcs s)(t := ?c)) (r b)" by simp
    show ?thesis by (rule hidden_same [OF h]) simp_all
  qed
  ultimately show ?thesis using pc by (intro rc_okI_mono [OF ok]) auto
qed

subsection \<open>Every step\<close>

lemma rc_reclaim_inv:
  assumes inv: "rc_inv s" and step: "try_reclaim t s = Some s'"
  shows "rc_inv s'"
proof -
  from inv obtain r where ok: "rc_ok r s" by (auto simp: rc_inv_def)
  show ?thesis
  proof (cases "rc_pcs s t")
    case (RC_dec a x p)
    note d = rc_dec_inv [OF ok RC_dec]
    have pos: "0 < threads_in_pop s" using count_pos [OF ok, of t] RC_dec by simp
    show ?thesis
    proof (cases "threads_in_pop s = 1")
      case True
      with d(1) step RC_dec show ?thesis by (auto simp: try_reclaim_def)
    next
      case False
      with pos have "\<not> threads_in_pop s - Suc 0 = 0" by simp
      with d(2,3) step RC_dec show ?thesis by (cases p) (auto simp: try_reclaim_def)
    qed
  qed (use step rc_leave_inv [OF ok] rc_check_inv [OF ok] rc_take_inv [OF ok] rc_delete_inv [OF ok] rc_walk_inv [OF ok]
      rc_store_inv [OF ok] rc_exchange_inv [OF ok] rc_free_inv [OF ok] in \<open>auto simp: try_reclaim_def\<close>)
qed


lemma rc_pop_inv:
  assumes inv: "rc_inv s" and step: "rc_pop t s = Some s'"
  shows "rc_inv s'"
proof -
  from inv obtain r where ok: "rc_ok r s" by (auto simp: rc_inv_def)
  show ?thesis
  proof (cases "rc_pcs s t")
    case RC_enter
    have "rc_inv (rc_goto t (RC_loop Load_head) (s\<lparr>threads_in_pop := threads_in_pop s + 1\<rparr>))"
      using rc_ok_thread [OF ok, of t] RC_enter by (intro rc_step_point [OF ok]) (auto simp: rc_thread_def)
    with RC_enter step show ?thesis by (auto simp: rc_pop_def)
  next
    case (RC_loop pc)
    show ?thesis
    proof (cases "\<exists>x. pc = Loop_left x")
      case True
      with rc_left_inv [OF ok _ step] RC_loop show ?thesis by auto
    next
      case False
      with step RC_loop obtain pc' s1 where "pop_step t False pc s = Some (pc', s1)" "s' = rc_goto t (RC_loop pc') s1"
        by (cases pc) (auto simp: rc_pop_def)
      with rc_loop_inv [OF ok RC_loop] show ?thesis by simp
    qed
  qed (use rc_reclaim_inv [OF inv, of t s'] step in \<open>simp_all add: rc_pop_def\<close>)
qed

lemma rc_inv_move:
  assumes inv: "rc_inv s" and step: "rc_move e s = Some s'"
  shows "rc_inv s'"
proof -
  from inv obtain r where ok: "rc_ok r s" by (auto simp: rc_inv_def)
  show ?thesis
  proof (cases e)
    case (RC_push_step t alloc weak)
    with step rc_push_inv [OF inv] show ?thesis by simp
  next
    case (RC_pop_step t)
    with step rc_pop_inv [OF inv] show ?thesis by simp
  qed (use step rc_call_inv [OF ok] in \<open>auto split: if_splits\<close>)
qed

lemma rc_inv_start: "rc_init s \<Longrightarrow> rc_inv s"
  unfolding rc_init_def rc_inv_def
  by (rule exI [of _ "\<lambda>_. Free"])
    (simp add: rc_ok_def stack_ok_def rc_new_def rc_thread_def node_list_null)

lemma rc_pop_hist: "rc_pop t s = Some s' \<Longrightarrow> hist s' = hist s \<or> (\<exists>x. hist s' = hist s @ [x])"
  unfolding rc_pop_def try_reclaim_def delete_nodes_def chain_walk_def chain_store_def chain_exchange_def with_node_def
  by (auto simp: Let_def dest: pop_step_hist split: rc_pc.splits pop_pc.splits option.splits if_splits after_chain.splits)

lemma rc_grows:
  assumes "rc_move e s = Some s'"
  shows "hist s' = hist s \<or> (\<exists>x. hist s' = hist s @ [x])"
proof (cases e)
  case (RC_push_step t alloc weak)
  with assms show ?thesis by (auto simp: rc_push_def dest: push_step_hist split: rc_pc.splits)
next
  case (RC_pop_step t)
  with assms rc_pop_hist show ?thesis by simp
qed (use assms in \<open>auto split: if_splits\<close>)

interpretation reclaim: linearizable_stack rc_init rc_move rc_inv hist
proof unfold_locales
  show "rc_inv s \<Longrightarrow> \<exists>xs. run lifo_move (hist s) [] = Some xs" for s :: "'a rc_stack"
    by (auto simp: rc_inv_def rc_ok_def stack_ok_def)
qed (fact rc_inv_start rc_inv_move rc_grows)+

subsection \<open>Properties\<close>

lemmas rc_eval = rc_new_def rc_goto_def rc_push_def rc_pop_def try_reclaim_def delete_nodes_def with_node_def chain_walk_def
  chain_store_def chain_exchange_def push_step_def pop_step_def loop_test_def put_node_def effect_def delete_node_def

text \<open>C8. The stack of \<open>low_contention\<close> is linearizable for any number of threads, although it frees
  its nodes and the allocator may hand out their addresses again: the operations take effect one at a
  time, in an order in which a sequential stack gives the same results, each between its call and its
  return; no node is read, written or deleted after it has been deleted, and none is deleted twice.\<close>

theorem reclaim_stack_linearizable:
  assumes "reach rc_init rc_move s"
  shows "\<not> fault s \<and> (\<exists>xs. run lifo_move (hist s) [] = Some xs \<and> pushes (hist s) = pops (hist s) + mset xs)
     \<and> (rc_pcs s t = RC_done x \<longrightarrow> rc_result_ok x (last_op t (hist s)))"
proof -
  from reclaim.reach_inv [OF assms] obtain r where ok: "rc_ok r s" by (auto simp: rc_inv_def)
  then have "\<not> fault s" by (simp add: rc_ok_def stack_ok_def)
  moreover have "rc_pcs s t = RC_done x \<longrightarrow> rc_result_ok x (last_op t (hist s))"
    using rc_ok_thread [OF ok, of t] by (auto simp: rc_thread_def)
  ultimately show ?thesis using reclaim.linearizable [OF assms] by blast
qed

theorem reclaim_stack_linearizable_witness:
  "\<exists>s :: nat rc_stack. reach rc_init rc_move s \<and> rc_pcs s 2 = RC_done (RC_ptr (Some 8)) \<and> last_op 2 (hist s) = Some (Pop 8)"
proof -
  have "\<exists>s :: nat rc_stack. reach rc_init rc_move s \<and> rc_pcs s 2 = RC_done (RC_ptr (Some 8))"
    by (rule reach_witness [where s = rc_new and es = "[RC_call_push 0 8, RC_push_step 0 (Some 5) False, RC_push_step 0 None False,
          RC_push_step 0 None True, RC_push_step 0 None False, RC_call_pop 2] @ replicate 10 (RC_pop_step 2)"],
        simp add: rc_init_def, simp add: rc_eval numeral_nat)
  then obtain s :: "nat rc_stack" where s: "reach rc_init rc_move s" "rc_pcs s 2 = RC_done (RC_ptr (Some 8))" by blast
  from reclaim_stack_linearizable [OF s(1), of 2 "RC_ptr (Some 8)"] s have "last_op 2 (hist s) = Some (Pop 8)" by simp
  with s show ?thesis by blast
qed

text \<open>When no operation is in progress, the allocated nodes are those of the stack and the pending ones.\<close>

lemma rc_quiet_nodes:
  assumes ok: "rc_ok r s" and quiet_all: "\<forall>t. rc_quiet (rc_pcs s t)" and xs: "run lifo_move (hist s) [] = Some xs"
  shows "threads_in_pop s = 0"
    and "\<exists>cs. seg (heap s) (to_be_deleted s) cs \<and> distinct cs \<and> card {a. heap s a \<noteq> None} = length xs + length cs"
proof -
  from ok xs obtain vs where list: "node_list (heap s) (head s) {a. r a = On_stack} (map Some xs)"
    and pend: "node_list (heap s) (to_be_deleted s) {a. r a = Retired} vs" by (auto simp: rc_ok_def stack_ok_def)
  then obtain cs where cs: "seg (heap s) (to_be_deleted s) cs" "distinct cs" "set cs = {a. r a = Retired}" by (auto simp: node_list_def)
  have quiet: "\<not> in_pop c \<and> own_nodes c = {} \<and> batch_ok H B c = (B = {})" if "rc_quiet c" for c :: "'a rc_pc" and H B
    using that by (cases c) auto
  have none: "r a \<noteq> Private t" "r a \<noteq> Batch t" for a t
  proof -
    from quiet_all have q: "rc_quiet (rc_pcs s t)" by blast
    with rc_ok_thread [OF ok, of t] quiet have "{b. r b = Private t} = {}" "{b. r b = Batch t} = {}"
      unfolding rc_thread_def by metis+
    then show "r a \<noteq> Private t" "r a \<noteq> Batch t" by blast+
  qed
  have "r a \<noteq> Free \<longleftrightarrow> a \<in> {a. r a = On_stack} \<union> {a. r a = Retired}" for a
  proof (cases "r a")
    case (Private t)
    with none(1) [of a t] show ?thesis by simp
  next
    case (Batch t)
    with none(2) [of a t] show ?thesis by simp
  qed simp_all
  moreover have "heap s a \<noteq> None \<longleftrightarrow> r a \<noteq> Free" for a using ok by (simp add: rc_ok_def stack_ok_def)
  ultimately have split: "{a. heap s a \<noteq> None} = {a. r a = On_stack} \<union> {a. r a = Retired}" by blast
  have "card {a. heap s a \<noteq> None} = length xs + length cs"
    unfolding split using node_list_card [OF list] distinct_card [OF cs(2)] cs(3) node_list_card [OF pend]
    by (subst card_Un_disjoint) auto
  then show "\<exists>cs. seg (heap s) (to_be_deleted s) cs \<and> distinct cs \<and> card {a. heap s a \<noteq> None} = length xs + length cs"
    using cs by blast
  show "threads_in_pop s = 0" using ok quiet_all quiet by (simp add: rc_ok_def)
qed

text \<open>C30. No node of \<open>low_contention\<close> is lost: when no operation is in progress, the allocated nodes are
  the nodes of the stack and the nodes on \<open>to_be_deleted\<close>, and \<open>threads_in_pop\<close> is back at zero.\<close>

theorem reclaim_stack_no_leak:
  assumes "reach rc_init rc_move s" and "\<forall>t. rc_quiet (rc_pcs s t)"
  shows "threads_in_pop s = 0 \<and> (\<exists>xs cs. run lifo_move (hist s) [] = Some xs \<and> seg (heap s) (to_be_deleted s) cs
     \<and> distinct cs \<and> card {a. heap s a \<noteq> None} = length xs + length cs)"
proof -
  from reclaim.reach_inv [OF assms(1)] obtain r where ok: "rc_ok r s" by (auto simp: rc_inv_def)
  from reclaim.linearizable [OF assms(1)] obtain xs where xs: "run lifo_move (hist s) [] = Some xs" by blast
  from rc_quiet_nodes [OF ok assms(2) xs] xs show ?thesis by blast
qed

theorem reclaim_stack_no_leak_witness:
  "\<exists>s :: nat rc_stack. reach rc_init rc_move s \<and> rc_pcs s 0 = RC_done (RC_ptr (Some 7)) \<and> threads_in_pop s = 0"
proof -
  have "\<exists>s :: nat rc_stack. reach rc_init rc_move s \<and> rc_pcs s = (\<lambda>_. RC_idle)(0 := RC_done (RC_ptr (Some 7)))"
    by (rule reach_witness [where s = rc_new and es = "[RC_call_push 0 7, RC_push_step 0 (Some 5) False, RC_push_step 0 None False,
          RC_push_step 0 None False, RC_call_pop 0] @ replicate 10 (RC_pop_step 0)"],
        simp add: rc_init_def, simp add: rc_eval numeral_nat fun_eq_iff)
  then obtain s :: "nat rc_stack" where s: "reach rc_init rc_move s" "rc_pcs s = (\<lambda>_. RC_idle)(0 := RC_done (RC_ptr (Some 7)))"
    by blast
  then have "\<forall>t. rc_quiet (rc_pcs s t)" by simp
  from reclaim_stack_no_leak [OF s(1) this] s show ?thesis by (intro exI [of _ s]) simp
qed

text \<open>
  The links of the nodes are plain fields. A thread in the loop of \<open>pop\<close> can be about to read
  \<open>old_head->next\<close> while another one, which has unlinked that node, is about to write it in
  \<open>chain_pending_nodes\<close>.
\<close>

text \<open>The stack of \<open>low_contention\<close> has a data race: it can reach a state in which one thread is about
  to read the plain field \<open>old_head->next\<close> and another is about to write that same field.\<close>

theorem reclaim_next_data_race:
  "\<exists>(s :: nat rc_stack) a x. reach rc_init rc_move s \<and> rc_pcs s 1 = RC_loop (Read_next a)
     \<and> rc_pcs s 0 = RC_chain Then_leave x a a \<and> heap s a \<noteq> None"
proof -
  have "\<exists>s :: nat rc_stack. reach rc_init rc_move s \<and> (rc_pcs s 1 = RC_loop (Read_next 5)
      \<and> rc_pcs s 0 = RC_chain Then_leave (Some 7) 5 5 \<and> heap s 5 \<noteq> None)"
    by (rule reach_witness [where s = rc_new and es = "[RC_call_push 0 7, RC_push_step 0 (Some 5) False, RC_push_step 0 None False,
          RC_push_step 0 None False, RC_call_pop 1, RC_pop_step 1, RC_pop_step 1, RC_call_pop 0] @ replicate 6 (RC_pop_step 0)"],
        simp add: rc_init_def, simp add: rc_eval numeral_nat)
  then show ?thesis by blast
qed

subsection \<open>A thread alone\<close>

lemma delete_run:
  assumes "rc_pcs s t = RC_delete a x p" and "seg (heap s) p cs" and "distinct cs" and "a \<notin> set cs" and "heap s a \<noteq> None"
  shows "\<exists>s'. run rc_move (replicate (length cs + 2) (RC_pop_step t)) s = Some s'
     \<and> rc_pcs s' = (rc_pcs s)(t := RC_done (RC_ptr x)) \<and> to_be_deleted s' = to_be_deleted s \<and> hist s' = hist s"
  using assms
proof (induction cs arbitrary: s p)
  case Nil
  then show ?case by (auto simp: rc_pop_def try_reclaim_def delete_nodes_def delete_node_def rc_goto_def)
next
  case (Cons c cs)
  then obtain n where n: "p = Some c" "heap s c = Some n" "seg (heap s) (nxt n) cs" by auto
  let ?s = "rc_goto t (RC_delete a x (nxt n)) (delete_node c s)"
  have step: "rc_move (RC_pop_step t) s = Some ?s"
    using Cons.prems(1) n by (simp add: rc_pop_def try_reclaim_def delete_nodes_def with_node_def)
  have heap: "heap (delete_node c s) = (heap s)(c := None)" using n by (simp add: delete_node_def)
  have "\<exists>s'. run rc_move (replicate (length cs + 2) (RC_pop_step t)) ?s = Some s'
     \<and> rc_pcs s' = (rc_pcs ?s)(t := RC_done (RC_ptr x)) \<and> to_be_deleted s' = to_be_deleted ?s \<and> hist s' = hist ?s"
    by (rule Cons.IH) (use Cons.prems n seg_frame [of c cs "heap s" None] in \<open>simp_all add: heap del: fun_upd_apply\<close>, simp_all)
  then obtain s' where s': "run rc_move (replicate (length cs + 2) (RC_pop_step t)) ?s = Some s'"
    "rc_pcs s' = (rc_pcs s)(t := RC_done (RC_ptr x))" "to_be_deleted s' = to_be_deleted s" "hist s' = hist s" by auto
  have "run rc_move (replicate (length (c # cs) + 2) (RC_pop_step t)) s = run rc_move (replicate (length cs + 2) (RC_pop_step t)) ?s"
    by (simp only: length_Cons add_Suc replicate_Suc run.simps step option.case)
  with s' show ?case by (intro exI [of _ s']) simp
qed

lemma pop_alone_run:
  fixes s :: "'a rc_stack"
  assumes "rc_quiet (rc_pcs s t)" and "threads_in_pop s = 0" and "head s = Some a" and n: "heap s a = Some n"
    and cs: "seg (heap s) (to_be_deleted s) cs" "distinct cs" "a \<notin> set cs"
  shows "\<exists>s'. run rc_move (RC_call_pop t # replicate (length cs + 10) (RC_pop_step t)) s = Some s'
     \<and> rc_pcs s' = (rc_pcs s)(t := RC_done (RC_ptr (data n))) \<and> to_be_deleted s' = None
     \<and> hist s' = hist s @ [(t, Pop (the (data n)))]"
proof -
  let ?p = "to_be_deleted s"
  let ?s = "rc_goto t (RC_delete a (data n) ?p) (effect t (Pop (the (data n)))
     (put_node a (n\<lparr>data := None\<rparr>) (s\<lparr>to_be_deleted := None, head := nxt n\<rparr>)))"
  have first: "run rc_move (RC_call_pop t # replicate 8 (RC_pop_step t)) s = Some ?s"
    using assms(1-4) by (simp add: rc_eval numeral_nat)
  have "\<exists>s'. run rc_move (replicate (length cs + 2) (RC_pop_step t)) ?s = Some s'
     \<and> rc_pcs s' = (rc_pcs ?s)(t := RC_done (RC_ptr (data n))) \<and> to_be_deleted s' = to_be_deleted ?s \<and> hist s' = hist ?s"
    by (rule delete_run [where p = ?p]) (use cs in \<open>auto simp: seg_frame\<close>)
  then obtain s' where s': "run rc_move (replicate (length cs + 2) (RC_pop_step t)) ?s = Some s'"
    "rc_pcs s' = (rc_pcs s)(t := RC_done (RC_ptr (data n)))" "to_be_deleted s' = None"
    "hist s' = hist s @ [(t, Pop (the (data n)))]" by auto
  have "(RC_call_pop t :: 'a rc_event) # replicate (length cs + 10) (RC_pop_step t)
      = (RC_call_pop t # replicate 8 (RC_pop_step t)) @ replicate (length cs + 2) (RC_pop_step t)"
    unfolding append_Cons replicate_add [symmetric] by simp
  then have "run rc_move (RC_call_pop t # replicate (length cs + 10) (RC_pop_step t)) s = Some s'"
    by (simp only: run_append first option.case s'(1))
  with s'(2-4) show ?thesis by blast
qed

text \<open>A popping thread of \<open>low_contention\<close> that is alone frees everything: if no other operation is in
  progress, its \<open>pop\<close> returns the top value after ten steps and one for each pending node, and then
  the allocated nodes are exactly those of the stack.\<close>

theorem reclaim_alone_frees:
  assumes reach: "reach rc_init rc_move s" and quiet: "\<forall>t. rc_quiet (rc_pcs s t)"
    and legal: "run lifo_move (hist s) [] = Some (v # xs)"
  shows "\<exists>cs s'. seg (heap s) (to_be_deleted s) cs
     \<and> run rc_move (RC_call_pop t # replicate (length cs + 10) (RC_pop_step t)) s = Some s'
     \<and> rc_pcs s' t = RC_done (RC_ptr (Some v)) \<and> card {a. heap s' a \<noteq> None} = length xs \<and> to_be_deleted s' = None"
proof -
  from reclaim.reach_inv [OF reach] obtain r where ok: "rc_ok r s" by (auto simp: rc_inv_def)
  with legal have list: "node_list (heap s) (head s) {a. r a = On_stack} (map Some (v # xs))"
    by (auto simp: rc_ok_def stack_ok_def)
  then obtain a where a: "head s = Some a" by (cases "head s") (auto simp: node_list_null)
  from node_list_Some [OF list [unfolded a]] obtain n where n: "heap s a = Some n" "r a = On_stack" "data n = Some v" by auto
  from ok obtain cs where cs: "seg (heap s) (to_be_deleted s) cs" "distinct cs" "set cs = {b. r b = Retired}"
    by (auto simp: rc_ok_def node_list_def)
  then have "a \<notin> set cs" using n(2) by simp
  moreover have "rc_quiet (rc_pcs s t)" using quiet by blast
  moreover have "threads_in_pop s = 0" using rc_quiet_nodes(1) [OF ok quiet legal] .
  ultimately obtain s' where s': "run rc_move (RC_call_pop t # replicate (length cs + 10) (RC_pop_step t)) s = Some s'"
    "rc_pcs s' = (rc_pcs s)(t := RC_done (RC_ptr (data n)))" "to_be_deleted s' = None"
    "hist s' = hist s @ [(t, Pop (the (data n)))]"
    using pop_alone_run [OF _ _ a n(1) cs(1,2)] by blast
  have q: "\<forall>u. rc_quiet (rc_pcs s' u)" using s'(2) quiet by simp
  have "reach rc_init rc_move s'" using reach_run [OF reach s'(1)] .
  then obtain r' where ok': "rc_ok r' s'" using reclaim.reach_inv by (auto simp: rc_inv_def)
  have xs: "run lifo_move (hist s') [] = Some xs" using legal n(3) s'(4) by (simp add: run_snoc)
  have "card {b. heap s' b \<noteq> None} = length xs"
    using rc_quiet_nodes(2) [OF ok' q xs] s'(3) by (auto simp: seg_null)
  moreover have "rc_pcs s' t = RC_done (RC_ptr (Some v))" using s'(2) n(3) by simp
  ultimately show ?thesis using cs(1) s'(1,3) by blast
qed


theorem reclaim_alone_frees_witness:
  "\<exists>s :: nat rc_stack. reach rc_init rc_move s \<and> rc_pcs s 2 = RC_done (RC_ptr (Some 7)) \<and> card {a. heap s a \<noteq> None} = 0"
proof -
  have "\<exists>s :: nat rc_stack. reach rc_init rc_move s \<and> (rc_pcs s = (\<lambda>_. RC_idle)(0 := RC_done RC_void) \<and> hist s = [(0, Push 7)])"
    by (rule reach_witness [where s = rc_new and es = "[RC_call_push 0 7, RC_push_step 0 (Some 5) False, RC_push_step 0 None False,
          RC_push_step 0 None False]"], simp add: rc_init_def, simp add: rc_eval numeral_nat fun_eq_iff)
  then obtain s :: "nat rc_stack" where s: "reach rc_init rc_move s" "rc_pcs s = (\<lambda>_. RC_idle)(0 := RC_done RC_void)"
    "hist s = [(0, Push 7)]" by blast
  have quiet: "\<forall>t. rc_quiet (rc_pcs s t)" using s(2) by simp
  have legal: "run lifo_move (hist s) [] = Some [7]" by (simp add: s(3))
  from reclaim_alone_frees [OF s(1) quiet legal, of 2] obtain cs :: "nat list" and s' where
    s': "run rc_move (RC_call_pop 2 # replicate (length cs + 10) (RC_pop_step 2)) s = Some s'"
    "rc_pcs s' 2 = RC_done (RC_ptr (Some 7))" "card {a. heap s' a \<noteq> None} = length ([] :: nat list)" by blast
  from s'(3) have "card {a. heap s' a \<noteq> None} = 0" by (simp only: list.size)
  with s'(2) reach_run [OF s(1) s'(1)] show ?thesis by blast
qed

end
