(* ===== verification/Reclaim_Progress.thy ===== *)
theory Reclaim_Progress
  imports Stack_Progress Stack_Reclaim
begin

text \<open>
  \<open>concurrent_structures/stack_lockfree.cpp\<close>, the namespace \<open>low_contention\<close>: the stack is lock-free. Besides the loops
  on \<open>head\<close> there is the exchange of \<open>chain_pending_nodes\<close>, which the changes of \<open>to_be_deleted\<close> send back, and there
  are the loops of \<open>delete_nodes\<close> and \<open>chain_pending_nodes\<close> along a list that nobody else can reach.
\<close>

fun rc_actor :: "'a rc_event \<Rightarrow> tid" where
  "rc_actor (RC_call_push t v) = t"
| "rc_actor (RC_call_pop t) = t"
| "rc_actor (RC_push_step t alloc weak) = t"
| "rc_actor (RC_pop_step t) = t"

text \<open>The calls and the spurious failures; \<open>pop\<close> has strong exchanges only.\<close>

fun rc_extra :: "'a rc_event \<Rightarrow> bool" where
  "rc_extra (RC_push_step t alloc weak) = weak"
| "rc_extra (RC_pop_step t) = False"
| "rc_extra _ = True"

text \<open>With \<open>n\<close> threads and at most \<open>m\<close> nodes in the heap.\<close>

fun rc_todo :: "nat \<Rightarrow> nat \<Rightarrow> 'a rc_stack \<Rightarrow> 'a rc_pc \<Rightarrow> nat" where
  "rc_todo n m s (RC_push pc) = push_todo s pc"
| "rc_todo n m s RC_enter = 4"
| "rc_todo n m s (RC_loop (Loop_left x)) = m + 2 * n + 7"
| "rc_todo n m s (RC_loop pc) = pop_todo (head s) pc"
| "rc_todo n m s (RC_check a x) = m + 2 * n + 6"
| "rc_todo n m s (RC_take a x) = m + 2 * n + 5"
| "rc_todo n m s (RC_dec a x p) = list_len (heap s) p + n + 4"
| "rc_todo n m s (RC_delete a x p) = list_len (heap s) p + 2"
| "rc_todo n m s (RC_walk a x f l) = list_len (heap s) (Some l) + n + 3"
| "rc_todo n m s (RC_chain k x f l) = n + 3"
| "rc_todo n m s (RC_chain_cas k x f l) = (if map_option nxt (heap s l) = Some (to_be_deleted s) then n + 2 else n + 3)"
| "rc_todo n m s (RC_free a x) = 1"
| "rc_todo n m s (RC_leave x) = 1"
| "rc_todo n m s _ = 0"

definition rc_disturb :: "'a rc_stack \<Rightarrow> 'a rc_stack \<Rightarrow> nat" where
  "rc_disturb s s' = (if to_be_deleted s' = to_be_deleted s then 0 else 1)"

definition rc_few :: "nat \<Rightarrow> 'a rc_stack \<Rightarrow> bool" where
  "rc_few m s \<longleftrightarrow> finite {a. heap s a \<noteq> None} \<and> card {a. heap s a \<noteq> None} \<le> m"

lemma rc_few_list:
  assumes "rc_few m s" and "seg (heap s) p cs" and "distinct cs"
  shows "list_len (heap s) p \<le> m"
proof -
  have "node_list (heap s) p (set cs) (map (\<lambda>c. Option.bind (heap s c) data) cs)" using assms(2,3) by (auto simp: node_list_def)
  from node_list_alive [OF this] have "set cs \<subseteq> {a. heap s a \<noteq> None}" by auto
  then have "card (set cs) \<le> card {a. heap s a \<noteq> None}" using assms(1) by (intro card_mono) (auto simp: rc_few_def)
  with assms show ?thesis by (simp add: list_len_seg distinct_card rc_few_def)
qed

lemma rc_few_node_list: "rc_few m s \<Longrightarrow> node_list (heap s) p A vs \<Longrightarrow> list_len (heap s) p \<le> m"
  unfolding node_list_def by (elim exE conjE) (rule rc_few_list)

lemma rc_todo_le:
  assumes few: "rc_few m s" and batch: "batch_ok (heap s) B c"
  shows "rc_todo n m s c \<le> m + 2 * n + 7"
proof (cases c)
  case (RC_push pc)
  then show ?thesis by (cases pc) auto
next
  case (RC_loop pc)
  then show ?thesis by (cases pc) auto
next
  case (RC_dec a x p)
  with batch obtain vs where "node_list (heap s) p B vs" by auto
  from rc_few_node_list [OF few this] RC_dec show ?thesis by simp
next
  case (RC_delete a x p)
  with batch obtain vs where "node_list (heap s) p B vs" by auto
  from rc_few_node_list [OF few this] RC_delete show ?thesis by simp
next
  case (RC_walk a x f l)
  with batch obtain cs ds where "seg (heap s) (Some l) (l # ds)" "distinct (cs @ l # ds)" by auto
  then have "list_len (heap s) (Some l) \<le> m" by (intro rc_few_list [OF few, where cs = "l # ds"]) auto
  with RC_walk show ?thesis by simp
qed auto

subsection \<open>The steps of the thread itself\<close>

lemma list_len_Some: "seg H (Some l) (l # ds) \<Longrightarrow> \<exists>k. H l = Some k \<and> list_len H (Some l) = Suc (list_len H (nxt k)) \<and> seg H (nxt k) ds"
  using list_len_seg [of H "Some l" "l # ds"] by (auto simp: list_len_seg)

lemma rc_reclaim_todo:
  assumes few: "rc_few m s" and batch: "batch_ok (heap s) B (rc_pcs s t)" and list: "node_list (heap s) (to_be_deleted s) A vs"
    and alive: "\<And>b. b \<in> B \<Longrightarrow> heap s b \<noteq> None" and step: "try_reclaim t s = Some s'"
  shows "rc_todo n m s' (rc_pcs s' t) + n * rc_disturb s s' < rc_todo n m s (rc_pcs s t)"
proof (cases "rc_pcs s t")
  case (RC_check a x)
  with step show ?thesis by (auto simp: try_reclaim_def rc_disturb_def)
next
  case (RC_take a x)
  with step rc_few_node_list [OF few list] show ?thesis by (auto simp: try_reclaim_def rc_disturb_def)
next
  case (RC_dec a x p)
  with step show ?thesis by (auto simp: try_reclaim_def rc_disturb_def Let_def split: option.splits)
next
  case (RC_delete a x p)
  show ?thesis
  proof (cases p)
    case None
    with RC_delete step show ?thesis by (auto simp: try_reclaim_def delete_nodes_def rc_disturb_def)
  next
    case (Some q)
    with batch RC_delete obtain ws where "node_list (heap s) (Some q) B ws" by auto
    then obtain cs where cs: "seg (heap s) (Some q) cs" "distinct cs" by (auto simp: node_list_def)
    then obtain ds where ds: "cs = q # ds" by (cases cs) auto
    from list_len_Some [OF cs(1) [unfolded ds]] obtain k where k: "heap s q = Some k"
      "list_len (heap s) (Some q) = Suc (list_len (heap s) (nxt k))" "seg (heap s) (nxt k) ds" by blast
    have "list_len ((heap s)(q := None)) (nxt k) = list_len (heap s) (nxt k)"
      using k(3) cs(2) ds by (simp add: list_len_seg seg_frame)
    with Some RC_delete step k(1,2) show ?thesis
      by (auto simp: try_reclaim_def delete_nodes_def with_node_def rc_disturb_def delete_node_def)
  qed
next
  case (RC_walk a x f l)
  with batch obtain cs ds where "seg (heap s) (Some l) (l # ds)" by auto
  from list_len_Some [OF this] obtain k where "heap s l = Some k" "list_len (heap s) (Some l) = Suc (list_len (heap s) (nxt k))" by blast
  with RC_walk step show ?thesis
    by (auto simp: try_reclaim_def chain_walk_def with_node_def rc_disturb_def split: option.splits)
next
  case (RC_chain k x f l)
  then have "l \<in> B" using batch by (auto simp: path_ok_def)
  then have "heap s l \<noteq> None" by (rule alive)
  with RC_chain step show ?thesis by (auto simp: try_reclaim_def chain_store_def with_node_def rc_disturb_def)
next
  case (RC_chain_cas k x f l)
  then have "l \<in> B" using batch by (auto simp: path_ok_def)
  then have "heap s l \<noteq> None" by (rule alive)
  with RC_chain_cas step show ?thesis
    by (auto simp: try_reclaim_def chain_exchange_def with_node_def rc_disturb_def split: after_chain.splits if_splits)
qed (use step in \<open>auto simp: try_reclaim_def rc_disturb_def\<close>)

lemma rc_own_step:
  assumes ok: "rc_ok r s" and few: "rc_few m s" and step: "rc_move e s = Some s'"
    and same: "length (hist s') = length (hist s)" and strong: "\<not> rc_extra e"
  shows "rc_todo n m s' (rc_pcs s' (rc_actor e)) + n * rc_disturb s s' < rc_todo n m s (rc_pcs s (rc_actor e))"
proof -
  have th: "rc_thread r s t (rc_pcs s t)" for t using ok by (simp add: rc_ok_def)
  have st: "stack_ok r s" using ok by (simp add: rc_ok_def)
  have alive: "heap s a \<noteq> None" if "r a \<noteq> Free" for a using that stack_ok_alive [OF st] by simp
  show ?thesis
  proof (cases e)
    case (RC_push_step t alloc weak)
    with step obtain pc pc' s1 where pc: "rc_pcs s t = RC_push pc" "push_step t alloc weak pc s = Some (pc', s1)"
      and s': "s' = rc_goto t (rc_after_push pc') s1"
      by (auto simp: rc_push_def split: rc_pc.splits)
    have "push_nodes pc = {b. r b = Private t}" using th [of t] pc(1) by (simp add: rc_thread_def)
    then have "heap s a \<noteq> None" if "a \<in> push_nodes pc" for a using that alive by auto
    with push_step_todo(1) [OF pc(2)] same strong RC_push_step s' have "push_todo s1 pc' < push_todo s pc" by auto
    moreover have "push_todo s' pc' = push_todo s1 pc'" by (rule push_todo_cong) (simp_all add: s')
    moreover have "rc_todo n m s' (rc_after_push pc') = push_todo s' pc'" by (cases pc') simp_all
    moreover have "rc_pcs s1 = rc_pcs s \<and> to_be_deleted s1 = to_be_deleted s"
      using pc(2) by (auto simp: push_step_def split: push_pc.splits option.splits if_splits)
    ultimately show ?thesis using s' pc(1) RC_push_step by (simp add: rc_disturb_def)
  next
    case (RC_pop_step t)
    with step have pop: "rc_pop t s = Some s'" by simp
    have reclaim: ?thesis if "try_reclaim t s = Some s'"
    proof -
      obtain vs where "node_list (heap s) (to_be_deleted s) {b. r b = Retired} vs" using ok by (auto simp: rc_ok_def)
      moreover have "batch_ok (heap s) {b. r b = Batch t} (rc_pcs s t)" using th [of t] by (simp add: rc_thread_def)
      ultimately show ?thesis
        using rc_reclaim_todo [OF few _ _ _ that, of "{b. r b = Batch t}"] alive RC_pop_step by auto
    qed
    show ?thesis
    proof (cases "rc_pcs s t")
      case (RC_loop pc)
      show ?thesis
      proof (cases "\<exists>x. pc = Loop_left x")
        case True
        then obtain x where x: "pc = Loop_left x" by blast
        show ?thesis
        proof (cases x)
          case (Some a)
          then have "r a = Private t" using th [of t] RC_loop x by (auto simp: rc_thread_def)
          then have "heap s a \<noteq> None" by (intro alive) simp
          with RC_loop x Some pop RC_pop_step show ?thesis by (auto simp: rc_pop_def with_node_def rc_disturb_def)
        qed (use RC_loop x pop RC_pop_step in \<open>auto simp: rc_pop_def rc_disturb_def\<close>)
      next
        case False
        then obtain pc' s1 where s1: "pop_step t False pc s = Some (pc', s1)" "s' = rc_goto t (RC_loop pc') s1"
          using pop RC_loop by (auto simp: rc_pop_def split: pop_pc.splits)
        have "heap s a \<noteq> None" if "pop_node pc = Some a" for a
        proof -
          have "stale (rc_pcs s t) = Some a" using that RC_loop by simp
          then have "\<not> hidden (rc_pcs s) (r a)" using ok by (auto simp: rc_ok_def)
          then show ?thesis by (intro alive) auto
        qed
        with pop_step_todo(1,2) [OF s1(1)] same s1(2) have "pop_todo (head s1) pc' < pop_todo (head s) pc" "head s1 = head s" by auto
        moreover have "rc_pcs s1 = rc_pcs s \<and> to_be_deleted s1 = to_be_deleted s \<and> (\<forall>x. pc' \<noteq> Loop_left x)"
          using s1(1) same s1(2) by (auto simp: pop_step_def loop_test_def split: pop_pc.splits option.splits if_splits)
        ultimately show ?thesis using s1(2) RC_loop RC_pop_step False
          by (cases pc; cases pc') (auto simp: rc_disturb_def)
      qed
    next
      case RC_enter
      with pop RC_pop_step show ?thesis by (auto simp: rc_pop_def rc_disturb_def)
    qed (use pop reclaim in \<open>auto simp: rc_pop_def\<close>)
  qed (use strong in simp_all)
qed

subsection \<open>What a step does to the others\<close>

fun rc_writes :: "'a rc_pc \<Rightarrow> nat set" where
  "rc_writes (RC_loop (Loop_left (Some a))) = {a}"
| "rc_writes (RC_delete a x (Some q)) = {q}"
| "rc_writes (RC_chain k x f l) = {l}"
| "rc_writes (RC_chain_cas k x f l) = {l}"
| "rc_writes (RC_free a x) = {a}"
| "rc_writes _ = {}"

lemmas rc_pop_unfold = rc_pop_def try_reclaim_def delete_nodes_def chain_walk_def chain_store_def chain_exchange_def with_node_def
  delete_node_def pop_step_def loop_test_def Let_def

lemma rc_pop_pcs: "rc_pop t s = Some s' \<Longrightarrow> u \<noteq> t \<Longrightarrow> rc_pcs s' u = rc_pcs s u"
  by (cases "rc_pcs s t") (auto simp: rc_pop_unfold split: option.splits pop_pc.splits if_splits)

lemma rc_pop_head: "rc_pop t s = Some s' \<Longrightarrow> length (hist s') = length (hist s) \<Longrightarrow> head s' = head s"
  by (cases "rc_pcs s t") (auto simp: rc_pop_unfold split: option.splits pop_pc.splits if_splits)

lemma rc_pop_heap: "rc_pop t s = Some s' \<Longrightarrow> a \<notin> rc_writes (rc_pcs s t) \<Longrightarrow> heap s' a = heap s a"
  by (cases "rc_pcs s t") (auto simp: rc_pop_unfold split: option.splits pop_pc.splits if_splits)

lemma rc_todo_other:
  assumes "head s' = head s" and "\<And>a. a \<in> own_nodes c \<Longrightarrow> heap s' a = heap s a"
    and batch: "batch_ok (heap s) B c" and same: "\<And>b. b \<in> B \<Longrightarrow> heap s' b = heap s b"
  shows "rc_todo n m s' c \<le> rc_todo n m s c + rc_disturb s s'"
proof -
  have list_len: "list_len (heap s') p = list_len (heap s) p" if "seg (heap s) p cs" "set cs \<subseteq> B" for p cs
  proof -
    have "seg (heap s') p cs" using that(2) same by (intro seg_cong [OF that(1)]) auto
    with that(1) show ?thesis by (simp add: list_len_seg)
  qed
  have list: "list_len (heap s') p = list_len (heap s) p" if "node_list (heap s) p B vs" for p vs
    using that list_len by (auto simp: node_list_def)
  show ?thesis
  proof (cases c)
    case (RC_push pc)
    with assms(1,2) push_todo_cong [of s' s pc] show ?thesis by simp
  next
    case (RC_loop pc)
    with assms(1) show ?thesis by (cases pc) simp_all
  next
    case (RC_walk a x f l)
    with batch obtain cs ds where "seg (heap s) (Some l) (l # ds)" "set (cs @ l # ds) = B" by auto
    then have "list_len (heap s') (Some l) = list_len (heap s) (Some l)" by (intro list_len [of _ "l # ds"]) auto
    with RC_walk show ?thesis by simp
  next
    case (RC_chain_cas k x f l)
    then have "l \<in> B" using batch by (auto simp: path_ok_def)
    then have "heap s' l = heap s l" by (rule same)
    with RC_chain_cas show ?thesis by (auto simp: rc_disturb_def)
  next
    case (RC_dec a x p)
    with batch obtain vs where "node_list (heap s) p B vs" by auto
    from list [OF this] RC_dec show ?thesis by simp
  next
    case (RC_delete a x p)
    with batch obtain vs where "node_list (heap s) p B vs" by auto
    from list [OF this] RC_delete show ?thesis by simp
  qed simp_all
qed

lemma rc_other_step:
  assumes ok: "rc_ok r s" and step: "rc_move e s = Some s'" and same: "length (hist s') = length (hist s)"
    and "\<not> rc_extra e" and u: "u \<noteq> rc_actor e"
  shows "rc_todo n m s' (rc_pcs s' u) \<le> rc_todo n m s (rc_pcs s u) + rc_disturb s s'"
proof -
  have th: "rc_thread r s v (rc_pcs s v)" for v using ok by (simp add: rc_ok_def)
  then have own: "own_nodes (rc_pcs s v) = {b. r b = Private v}" and batch: "batch_ok (heap s) {b. r b = Batch v} (rc_pcs s v)" for v
    by (auto simp: rc_thread_def)
  have heap: "heap s a \<noteq> None" if "r a \<noteq> Free" for a using that ok stack_ok_alive by (auto simp: rc_ok_def)
  have "head s' = head s \<and> rc_pcs s' u = rc_pcs s u \<and> (\<forall>a. r a = Private u \<or> r a = Batch u \<longrightarrow> heap s' a = heap s a)"
  proof (cases e)
    case (RC_push_step t alloc weak)
    with step obtain pc pc' s1 where pc: "rc_pcs s t = RC_push pc" "push_step t alloc weak pc s = Some (pc', s1)"
      and s': "s' = rc_goto t (rc_after_push pc') s1"
      by (auto simp: rc_push_def split: rc_pc.splits)
    have mine: "push_nodes pc = {b. r b = Private t}" using own [of t] pc(1) by simp
    have "head s1 = head s" using push_step_todo(2) [OF pc(2)] same s' heap mine assms(4) RC_push_step by auto
    moreover have "heap s1 a = heap s a" if "r a = Private u \<or> r a = Batch u" for a
      using push_step_writes [OF pc(2), of a] that u RC_push_step mine heap by auto
    moreover have "rc_pcs s1 = rc_pcs s"
      using pc(2) by (auto simp: push_step_def split: push_pc.splits option.splits if_splits)
    ultimately show ?thesis using s' u RC_push_step by auto
  next
    case (RC_pop_step t)
    with step have pop: "rc_pop t s = Some s'" by simp
    have mine: "r a = Private t \<or> r a = Batch t" if "a \<in> rc_writes (rc_pcs s t)" for a
    proof (cases "rc_pcs s t")
      case (RC_delete b x p)
      with that obtain q where q: "p = Some q" "a = q" by (cases p) auto
      with RC_delete batch [of t] obtain vs where "node_list (heap s) (Some q) {b. r b = Batch t} vs" by auto
      from node_list_Some [OF this] q(2) show ?thesis by auto
    next
      case (RC_loop pc)
      show ?thesis
      proof (cases pc)
        case (Loop_left x)
        with RC_loop that own [of t] show ?thesis by (cases x) auto
      qed (use RC_loop that in auto)
    next
      case (RC_chain k x f l)
      with that batch [of t] show ?thesis by (auto simp: path_ok_def)
    next
      case (RC_chain_cas k x f l)
      with that batch [of t] show ?thesis by (auto simp: path_ok_def)
    next
      case (RC_free b x)
      with that own [of t] show ?thesis by auto
    qed (use that in auto)
    then have "a \<notin> rc_writes (rc_pcs s t)" if "r a = Private u \<or> r a = Batch u" for a
      using that u RC_pop_step mine [of a] by force
    then have "heap s' a = heap s a" if "r a = Private u \<or> r a = Batch u" for a
      using that rc_pop_heap [OF pop] by blast
    moreover have "u \<noteq> t" using u RC_pop_step by simp
    ultimately show ?thesis using rc_pop_head [OF pop same] rc_pop_pcs [OF pop] by blast
  qed (use assms(4) in simp_all)
  then have h: "head s' = head s" "rc_pcs s' u = rc_pcs s u" "\<And>a. r a = Private u \<Longrightarrow> heap s' a = heap s a"
    "\<And>a. r a = Batch u \<Longrightarrow> heap s' a = heap s a" by blast+
  show ?thesis unfolding h(2)
    by (rule rc_todo_other [OF h(1) _ batch [of u]]) (use h(3,4) own [of u] in auto)
qed

subsection \<open>The contract\<close>

definition rc_progress_inv :: "nat \<Rightarrow> 'a rc_stack \<Rightarrow> bool" where
  "rc_progress_inv m s \<longleftrightarrow> rc_inv s \<and> rc_few m s"

interpretation reclaim_progress: lock_free_system rc_init "within (rc_few m) rc_move" "rc_progress_inv m" n rc_actor rc_extra
    "\<lambda>s. length (hist s)" "\<lambda>s u. rc_todo n m s (rc_pcs s u)" rc_disturb "m + 2 * n + 7" for m n
proof (unfold_locales, goal_cases)
  case (1 s)
  then show ?case using reclaim.inv_init by (auto simp: rc_progress_inv_def rc_init_def rc_new_def rc_few_def)
next
  case (2 s e s')
  then show ?case using reclaim.inv_move by (auto simp: rc_progress_inv_def)
next
  case (3 s e s')
  then show ?case using reclaim.history_grows [of e s s'] by auto
next
  case (4 s u)
  then obtain r where ok: "rc_ok r s" "rc_few m s" by (auto simp: rc_progress_inv_def rc_inv_def)
  then have "batch_ok (heap s) {b. r b = Batch u} (rc_pcs s u)" by (simp add: rc_ok_def rc_thread_def)
  from rc_todo_le [OF ok(2) this] show ?case .
next
  case (5 s e s')
  then obtain r where "rc_ok r s" by (auto simp: rc_progress_inv_def rc_inv_def)
  from rc_own_step [OF this, of m e s'] 5 show ?case by (simp add: rc_progress_inv_def)
next
  case (6 s e s' u)
  then obtain r where "rc_ok r s" by (auto simp: rc_progress_inv_def rc_inv_def)
  from rc_other_step [OF this, of e s' u n m] 6 show ?case by simp
qed

text \<open>The stack of \<open>low_contention\<close> is lock-free, with its list of pending nodes: however \<open>n\<close> threads are scheduled, as
  long as at most \<open>m\<close> nodes are allocated, a bounded number of steps is taken for every operation that takes effect,
  every call and every spurious failure of an exchange.\<close>

theorem reclaim_stack_lock_free:
  assumes "reach rc_init (within (rc_few m) rc_move) s" and "run (within (rc_few m) rc_move) es s = Some s'"
    and "list_all (\<lambda>e. rc_actor e < n) es"
  shows "length es \<le> n * (m + 2 * n + 7)
     + (n * (m + 2 * n + 7) + 1) * (length (hist s') - length (hist s) + length (filter rc_extra es))"
  by (rule reclaim_progress.lock_free [OF reclaim_progress.reach_inv [OF assms(1)] assms(2,3)])

text \<open>Two threads push at the same time, then one of them pops and deletes the node.\<close>

theorem reclaim_stack_lock_free_witness:
  "\<exists>es s'. run (within (rc_few 2) rc_move) es (rc_new :: nat rc_stack) = Some s' \<and> rc_pcs s' 0 = RC_done (RC_ptr (Some 8))
     \<and> heap s' 6 = None \<and> length es = 20 \<and> length es \<le> 2 * 13 + (2 * 13 + 1) * (length (hist s') + 3)"
proof -
  let ?es = "[RC_call_push 0 7, RC_call_push 1 8, RC_push_step 0 (Some 5) False, RC_push_step 1 (Some 6) False, RC_push_step 0 None False,
    RC_push_step 1 None False, RC_push_step 0 None False, RC_push_step 1 None False, RC_push_step 1 None False, RC_call_pop 0]
    @ replicate 10 (RC_pop_step 0) :: nat rc_event list"
  have two: "{a. a \<noteq> x \<longrightarrow> a = y} = {x, y}" for x y :: nat by auto
  have "\<exists>s'. run (within (rc_few 2) rc_move) ?es (rc_new :: nat rc_stack) = Some s' \<and> rc_pcs s' 0 = RC_done (RC_ptr (Some 8)) \<and> heap s' 6 = None"
    by (simp add: rc_new_def rc_goto_def rc_push_def push_step_def rc_pop_unfold within_def rc_few_def numeral_nat two
        put_node_def effect_def)
  then obtain s' :: "nat rc_stack" where s': "run (within (rc_few 2) rc_move) ?es rc_new = Some s'"
    "rc_pcs s' 0 = RC_done (RC_ptr (Some 8))" "heap s' 6 = None" by blast
  have "reach rc_init (within (rc_few 2) rc_move) (rc_new :: nat rc_stack)" by (simp add: reach.start rc_init_def)
  from reclaim_stack_lock_free [OF this s'(1), of 2]
  have "length ?es \<le> 2 * 13 + (2 * 13 + 1) * (length (hist s') + 3)"
    by (simp add: rc_new_def)
  with s' show ?thesis by (intro exI [of _ ?es] exI [of _ s']) simp
qed

end
