(* ===== verification/Stack_Hazard.thy ===== *)
theory Stack_Hazard
  imports Treiber
begin

text \<open>
  \<open>concurrent_structures/stack_lockfree.cpp\<close>, the namespace \<open>hazard_ptr\<close>: the stack whose threads
  publish the node they read in a table of hazard pointers, and delete a node only after they have not
  found it there. The accesses of the atomics are sequentially consistent, as they are in the code.
\<close>

subsection \<open>State\<close>

definition MAX_PTR :: nat where
  "MAX_PTR = 100"

datatype 'a hz_result = HZ_void | HZ_bad_alloc | HZ_no_hazard_pointer | HZ_ptr "'a option"

text \<open>What follows after \<open>add_to_reclaim_list\<close> has returned: it is called by \<open>reclaim_later\<close> and in the loop
  of \<open>delete_nodes_with_no_hazard\<close>.\<close>

datatype after_add = Then_take | Then_list "nat option"

text \<open>
  The points of \<open>pop\<close> and of the functions it calls, with what is in scope: the node \<open>old_head\<close>, the value
  in \<open>res\<close>, the record of the list and the one after it, the number of the slot a scan is at.
\<close>

datatype 'a hz_pc =
    HZ_idle | HZ_push "'a push_pc"
  | HZ_slot nat \<comment> \<open>\<open>hp_owner\<close>: about to try this slot\<close>
  | HZ_load
  | HZ_store "nat option" \<comment> \<open>about to store \<open>tmp\<close> in the hazard pointer\<close>
  | HZ_reload "nat option" \<comment> \<open>about to load \<open>head\<close> and compare it with \<open>tmp\<close>\<close>
  | HZ_next nat
  | HZ_cas nat "nat option"
  | HZ_clear "nat option" \<comment> \<open>about to clear the hazard pointer\<close>
  | HZ_swap nat
  | HZ_scan nat "'a option" nat
  | HZ_new nat "'a option" \<comment> \<open>\<open>reclaim_later\<close>: about to evaluate \<open>new data_to_reclaim{data}\<close>\<close>
  | HZ_delete nat "'a option"
  | HZ_add after_add "'a option" nat \<comment> \<open>about to store \<open>node->next\<close>\<close>
  | HZ_add_cas after_add "'a option" nat
  | HZ_take "'a option" \<comment> \<open>about to exchange \<open>nodes_to_reclaim\<close>\<close>
  | HZ_list "'a option" "nat option" \<comment> \<open>\<open>while (current)\<close>\<close>
  | HZ_check "'a option" nat nat "nat option" nat \<comment> \<open>scan for \<open>current->data\<close>\<close>
  | HZ_reclaim "'a option" nat "nat option" \<comment> \<open>about to delete \<open>current\<close>\<close>
  | HZ_exit \<comment> \<open>\<open>~hp_owner\<close>: about to clear the pointer\<close>
  | HZ_done "'a hz_result"

text \<open>
  The table, the records of type \<open>data_to_reclaim\<close> (the address of the data and the link; all have the
  same deleter, the one of the nodes), the list of them, and the thread-local owners.
\<close>

record 'a hz = "'a tstack" +
  hp_id :: "nat \<Rightarrow> tid option"
  hp_pointer :: "nat \<Rightarrow> nat option"
  records :: "nat \<Rightarrow> nat node option"
  nodes_to_reclaim :: "nat option"
  hp_owner :: "tid \<Rightarrow> nat option"
  hz_pcs :: "tid \<Rightarrow> 'a hz_pc"

definition hz_new :: "'a hz" where
  "hz_new = \<lparr>heap = (\<lambda>_. None), head = None, hist = [], fault = False, hp_id = (\<lambda>_. None), hp_pointer = (\<lambda>_. None),
     records = (\<lambda>_. None), nodes_to_reclaim = None, hp_owner = (\<lambda>_. None), hz_pcs = (\<lambda>_. HZ_idle)\<rparr>"

definition hz_init :: "'a hz \<Rightarrow> bool" where
  "hz_init s \<longleftrightarrow> s = hz_new"

definition hz_goto :: "tid \<Rightarrow> 'a hz_pc \<Rightarrow> 'a hz \<Rightarrow> 'a hz" where
  "hz_goto t c s = s\<lparr>hz_pcs := (hz_pcs s)(t := c)\<rparr>"

subsection \<open>The table\<close>

text \<open>One round of the loop of the constructor of \<open>hp_owner\<close>, and the \<open>throw\<close> after it.\<close>

definition acquire_slot :: "tid \<Rightarrow> nat \<Rightarrow> 'a hz \<Rightarrow> 'a hz" where
  "acquire_slot t i s =
     (if i = MAX_PTR then hz_goto t (HZ_done HZ_no_hazard_pointer) s
      else if hp_id s i = None
      then hz_goto t HZ_load (s\<lparr>hp_id := (hp_id s)(i \<mapsto> t), hp_owner := (hp_owner s)(t \<mapsto> i)\<rparr>)
      else hz_goto t (HZ_slot (i + 1)) s)"

text \<open>The destructor of \<open>hp_owner\<close>, when the thread ends: the two stores, in the order of the code.\<close>

definition release_slot :: "tid \<Rightarrow> 'a hz \<Rightarrow> 'a hz option" where
  "release_slot t s =
     (case hp_owner s t of
        None \<Rightarrow> None
      | Some i \<Rightarrow>
          (case hz_pcs s t of
             HZ_exit \<Rightarrow> Some (hz_goto t HZ_idle (s\<lparr>hp_pointer := (hp_pointer s)(i := None), hp_owner := (hp_owner s)(t := None)\<rparr>))
           | HZ_idle \<Rightarrow> Some (hz_goto t HZ_exit (s\<lparr>hp_id := (hp_id s)(i := None)\<rparr>))
           | HZ_done r \<Rightarrow> Some (hz_goto t HZ_exit (s\<lparr>hp_id := (hp_id s)(i := None)\<rparr>))
           | _ \<Rightarrow> None))"

text \<open>\<open>hp.store\<close>.\<close>

definition hp_store :: "tid \<Rightarrow> nat option \<Rightarrow> 'a hz \<Rightarrow> 'a hz" where
  "hp_store t p s =
     (case hp_owner s t of None \<Rightarrow> s\<lparr>fault := True\<rparr> | Some i \<Rightarrow> s\<lparr>hp_pointer := (hp_pointer s)(i := p)\<rparr>)"

text \<open>One round of \<open>outstanding_hazard_pointers_for\<close>; \<open>None\<close> if the loop goes on.\<close>

definition outstanding :: "nat \<Rightarrow> nat \<Rightarrow> 'a hz \<Rightarrow> bool option" where
  "outstanding p i s = (if i = MAX_PTR then Some False else if hp_pointer s i = Some p then Some True else None)"

subsection \<open>The list of nodes to reclaim\<close>

text \<open>Access to a record: undefined if it is not allocated.\<close>

definition with_record :: "nat \<Rightarrow> (nat node \<Rightarrow> 'a hz) \<Rightarrow> 'a hz \<Rightarrow> 'a hz" where
  "with_record c f s = (case records s c of None \<Rightarrow> s\<lparr>fault := True\<rparr> | Some m \<Rightarrow> f m)"

definition put_record :: "nat \<Rightarrow> nat node \<Rightarrow> 'a hz \<Rightarrow> 'a hz" where
  "put_record c m s = s\<lparr>records := (records s)(c \<mapsto> m)\<rparr>"

text \<open>The construction of a record in \<open>reclaim_later\<close>.\<close>

definition reclaim_later :: "tid \<Rightarrow> nat option \<Rightarrow> nat \<Rightarrow> 'a option \<Rightarrow> 'a hz \<Rightarrow> 'a hz option" where
  "reclaim_later t alloc a res s =
     (case alloc of
        None \<Rightarrow> Some (hz_goto t (HZ_done HZ_bad_alloc) s)
      | Some c \<Rightarrow>
          (if records s c = None
           then Some (hz_goto t (HZ_add Then_take res c) (put_record c \<lparr>data = Some a, nxt = None\<rparr> s))
           else None))"

text \<open>\<open>add_to_reclaim_list\<close>: the store, and one round of the loop.\<close>

definition add_store :: "tid \<Rightarrow> after_add \<Rightarrow> 'a option \<Rightarrow> nat \<Rightarrow> 'a hz \<Rightarrow> 'a hz" where
  "add_store t k res c s =
     with_record c (\<lambda>m. hz_goto t (HZ_add_cas k res c) (put_record c (m\<lparr>nxt := nodes_to_reclaim s\<rparr>) s)) s"

definition add_exchange :: "tid \<Rightarrow> bool \<Rightarrow> after_add \<Rightarrow> 'a option \<Rightarrow> nat \<Rightarrow> 'a hz \<Rightarrow> 'a hz" where
  "add_exchange t weak k res c s =
     with_record c (\<lambda>m.
       if nxt m = nodes_to_reclaim s \<and> \<not> weak
       then hz_goto t (case k of Then_take \<Rightarrow> HZ_take res | Then_list p \<Rightarrow> HZ_list res p) (s\<lparr>nodes_to_reclaim := Some c\<rparr>)
       else put_record c (m\<lparr>nxt := nodes_to_reclaim s\<rparr>) s) s"

text \<open>\<open>delete current\<close>: the destructor deletes the data with the deleter, then the record is freed.\<close>

definition delete_record :: "nat \<Rightarrow> 'a hz \<Rightarrow> 'a hz" where
  "delete_record c s =
     with_record c (\<lambda>m.
       case data m of None \<Rightarrow> s\<lparr>fault := True\<rparr>
       | Some d \<Rightarrow> (let s' = delete_node d s in s'\<lparr>records := (records s')(c := None)\<rparr>)) s"

definition delete_nodes_with_no_hazard :: "tid \<Rightarrow> 'a hz \<Rightarrow> 'a hz option" where
  "delete_nodes_with_no_hazard t s =
     (case hz_pcs s t of
        HZ_take res \<Rightarrow> Some (hz_goto t (HZ_list res (nodes_to_reclaim s)) (s\<lparr>nodes_to_reclaim := None\<rparr>))
      | HZ_list res None \<Rightarrow> Some (hz_goto t (HZ_done (HZ_ptr res)) s)
      | HZ_list res (Some c) \<Rightarrow>
          Some (with_record c (\<lambda>m.
            case data m of None \<Rightarrow> s\<lparr>fault := True\<rparr> | Some d \<Rightarrow> hz_goto t (HZ_check res c d (nxt m) 0) s) s)
      | HZ_check res c d p i \<Rightarrow>
          Some (case outstanding d i s of
                  None \<Rightarrow> hz_goto t (HZ_check res c d p (i + 1)) s
                | Some True \<Rightarrow> hz_goto t (HZ_add (Then_list p) res c) s
                | Some False \<Rightarrow> hz_goto t (HZ_reclaim res c p) s)
      | HZ_reclaim res c p \<Rightarrow> Some (hz_goto t (HZ_list res p) (delete_record c s))
      | _ \<Rightarrow> None)"

subsection \<open>\<open>push\<close> and \<open>pop\<close>\<close>

fun hz_after_push :: "'a push_pc \<Rightarrow> 'a hz_pc" where
  "hz_after_push Pushed = HZ_done HZ_void"
| "hz_after_push Push_throws = HZ_done HZ_bad_alloc"
| "hz_after_push pc = HZ_push pc"

definition hz_push :: "tid \<Rightarrow> nat option \<Rightarrow> 'a hz \<Rightarrow> 'a hz option" where
  "hz_push t alloc s =
     (case hz_pcs s t of
        HZ_push pc \<Rightarrow> map_option (\<lambda>(pc', s'). hz_goto t (hz_after_push pc') s') (push_step t alloc False pc s)
      | _ \<Rightarrow> None)"

text \<open>The two nested loops; the empty \<open>pop\<close> takes effect at the load that finds \<open>head\<close> null again.\<close>

definition hz_loop :: "tid \<Rightarrow> 'a hz \<Rightarrow> 'a hz option" where
  "hz_loop t s =
     (case hz_pcs s t of
        HZ_load \<Rightarrow> Some (hz_goto t (HZ_store (head s)) s)
      | HZ_store tmp \<Rightarrow> Some (hz_goto t (HZ_reload tmp) (hp_store t tmp s))
      | HZ_reload tmp \<Rightarrow>
          Some (if tmp \<noteq> head s then hz_goto t (HZ_store (head s)) s
                else case tmp of
                       None \<Rightarrow> hz_goto t (HZ_clear None) (effect t Pop_empty s)
                     | Some a \<Rightarrow> hz_goto t (HZ_next a) s)
      | HZ_next a \<Rightarrow>
          Some (case heap s a of None \<Rightarrow> s\<lparr>fault := True\<rparr> | Some n \<Rightarrow> hz_goto t (HZ_cas a (nxt n)) s)
      | HZ_cas a n \<Rightarrow>
          Some (if head s = Some a
                then hz_goto t (HZ_clear (Some a)) (effect t (Pop (the (Option.bind (heap s a) data))) (s\<lparr>head := n\<rparr>))
                else hz_goto t (HZ_store (head s)) s)
      | _ \<Rightarrow> None)"

text \<open>
  The rest of \<open>pop\<close>. \<open>alloc\<close> is the address of a new record (\<open>None\<close>: the allocation throws), \<open>weak\<close>
  lets the exchange of \<open>add_to_reclaim_list\<close> fail spuriously.
\<close>

definition hz_pop :: "tid \<Rightarrow> nat option \<Rightarrow> bool \<Rightarrow> 'a hz \<Rightarrow> 'a hz option" where
  "hz_pop t alloc weak s =
     (case hz_pcs s t of
        HZ_slot i \<Rightarrow> Some (acquire_slot t i s)
      | HZ_clear x \<Rightarrow>
          Some (hz_goto t (case x of None \<Rightarrow> HZ_done (HZ_ptr None) | Some a \<Rightarrow> HZ_swap a) (hp_store t None s))
      | HZ_swap a \<Rightarrow>
          Some (case heap s a of
                  None \<Rightarrow> s\<lparr>fault := True\<rparr>
                | Some n \<Rightarrow> hz_goto t (HZ_scan a (data n) 0) (put_node a (n\<lparr>data := None\<rparr>) s))
      | HZ_scan a res i \<Rightarrow>
          Some (hz_goto t (case outstanding a i s of
                             None \<Rightarrow> HZ_scan a res (i + 1)
                           | Some True \<Rightarrow> HZ_new a res
                           | Some False \<Rightarrow> HZ_delete a res) s)
      | HZ_new a res \<Rightarrow> reclaim_later t alloc a res s
      | HZ_delete a res \<Rightarrow> Some (hz_goto t (HZ_take res) (delete_node a s))
      | HZ_add k res c \<Rightarrow> Some (add_store t k res c s)
      | HZ_add_cas k res c \<Rightarrow> Some (add_exchange t weak k res c s)
      | HZ_take res \<Rightarrow> delete_nodes_with_no_hazard t s
      | HZ_list res p \<Rightarrow> delete_nodes_with_no_hazard t s
      | HZ_check res c d p i \<Rightarrow> delete_nodes_with_no_hazard t s
      | HZ_reclaim res c p \<Rightarrow> delete_nodes_with_no_hazard t s
      | _ \<Rightarrow> hz_loop t s)"

datatype 'a hz_event =
  HZ_call_push tid 'a | HZ_call_pop tid | HZ_push_step tid "nat option" | HZ_pop_step tid "nat option" bool | HZ_exit_step tid

text \<open>The thread that makes the step.\<close>

fun hz_actor :: "'a hz_event \<Rightarrow> tid" where
  "hz_actor (HZ_call_push t v) = t"
| "hz_actor (HZ_call_pop t) = t"
| "hz_actor (HZ_push_step t alloc) = t"
| "hz_actor (HZ_pop_step t alloc weak) = t"
| "hz_actor (HZ_exit_step t) = t"

fun hz_quiet :: "'a hz_pc \<Rightarrow> bool" where
  "hz_quiet HZ_idle = True"
| "hz_quiet (HZ_done r) = True"
| "hz_quiet _ = False"

text \<open>
  The moves; threads end only if \<open>exits\<close>. \<open>get_hazard_pointer_for_this_thread\<close> constructs the owner in
  the first call of a thread, and again if the constructor has thrown.
\<close>

fun hz_move :: "bool \<Rightarrow> 'a hz_event \<Rightarrow> 'a hz \<Rightarrow> 'a hz option" where
  "hz_move exits (HZ_call_push t v) s =
     (if hz_quiet (hz_pcs s t) then Some (hz_goto t (HZ_push (New_node v)) s) else None)"
| "hz_move exits (HZ_call_pop t) s =
     (if hz_quiet (hz_pcs s t)
      then Some (hz_goto t (case hp_owner s t of None \<Rightarrow> HZ_slot 0 | Some i \<Rightarrow> HZ_load) s) else None)"
| "hz_move exits (HZ_push_step t alloc) s = hz_push t alloc s"
| "hz_move exits (HZ_pop_step t alloc weak) s = hz_pop t alloc weak s"
| "hz_move exits (HZ_exit_step t) s = (if exits then release_slot t s else None)"

subsection \<open>The invariant\<close>

text \<open>The node a thread may read although it does not own it: its hazard pointer has been validated.\<close>

fun reading :: "'a hz_pc \<Rightarrow> nat option" where
  "reading (HZ_next a) = Some a"
| "reading (HZ_cas a n) = Some a"
| "reading _ = None"

text \<open>What its hazard pointer holds.\<close>

fun held :: "'a hz_pc \<Rightarrow> nat option option" where
  "held (HZ_reload p) = Some p"
| "held (HZ_next a) = Some (Some a)"
| "held (HZ_cas a n) = Some (Some a)"
| "held _ = None"

fun needs_slot :: "'a hz_pc \<Rightarrow> bool" where
  "needs_slot HZ_load = True"
| "needs_slot (HZ_store p) = True"
| "needs_slot (HZ_clear x) = True"
| "needs_slot c = (held c \<noteq> None)"

text \<open>The node a thread looks for in the table, and the slots it has passed.\<close>

fun scanning :: "(nat \<Rightarrow> nat node option) \<Rightarrow> 'a hz_pc \<Rightarrow> (nat \<times> nat) option" where
  "scanning R (HZ_scan a x i) = Some (a, i)"
| "scanning R (HZ_delete a x) = Some (a, MAX_PTR)"
| "scanning R (HZ_check x c d p i) = Some (d, i)"
| "scanning R (HZ_reclaim x c p) = (case R c of None \<Rightarrow> None | Some m \<Rightarrow> map_option (\<lambda>d. (d, MAX_PTR)) (data m))"
| "scanning R _ = None"

fun hz_own :: "'a hz_pc \<Rightarrow> nat set" where
  "hz_own (HZ_clear (Some a)) = {a}"
| "hz_own (HZ_swap a) = {a}"
| "hz_own (HZ_scan a x i) = {a}"
| "hz_own (HZ_new a x) = {a}"
| "hz_own (HZ_delete a x) = {a}"
| "hz_own _ = {}"

fun hz_new_nodes :: "'a hz_pc \<Rightarrow> nat set" where
  "hz_new_nodes (HZ_push pc) = push_nodes pc"
| "hz_new_nodes _ = {}"

text \<open>The list of records of a thread on the records \<open>B\<close>: a record and the rest of the list.\<close>

definition cons_list :: "(nat \<Rightarrow> nat node option) \<Rightarrow> nat set \<Rightarrow> nat \<Rightarrow> nat option \<Rightarrow> bool" where
  "cons_list R B c p \<longleftrightarrow> c \<in> B \<and> (\<exists>vs. node_list R p (B - {c}) vs)"

fun after_rest :: "after_add \<Rightarrow> nat option" where
  "after_rest Then_take = None"
| "after_rest (Then_list p) = p"

fun hz_records :: "(nat \<Rightarrow> nat node option) \<Rightarrow> nat set \<Rightarrow> 'a hz_pc \<Rightarrow> bool" where
  "hz_records R B (HZ_add k x c) = cons_list R B c (after_rest k)"
| "hz_records R B (HZ_add_cas k x c) = cons_list R B c (after_rest k)"
| "hz_records R B (HZ_list x p) = (\<exists>vs. node_list R p B vs)"
| "hz_records R B (HZ_check x c d p i) = (cons_list R B c p \<and> (\<exists>m. R c = Some m \<and> data m = Some d))"
| "hz_records R B (HZ_reclaim x c p) = cons_list R B c p"
| "hz_records R B _ = (B = {})"

fun hz_result_ok :: "'a hz_result \<Rightarrow> 'a op option \<Rightarrow> bool" where
  "hz_result_ok HZ_void e = (\<exists>v. e = Some (Push v))"
| "hz_result_ok (HZ_ptr x) e = res_ok x e"
| "hz_result_ok _ e = True"

fun hz_knows :: "(nat \<Rightarrow> 'a node option) \<Rightarrow> 'a op option \<Rightarrow> 'a hz_pc \<Rightarrow> bool" where
  "hz_knows H e (HZ_push pc) = (\<forall>a \<in> push_nodes pc. \<exists>n v. H a = Some n \<and> data n = Some v)"
| "hz_knows H e (HZ_slot i) = (i \<le> MAX_PTR)"
| "hz_knows H e (HZ_cas a n) = (\<exists>m. H a = Some m \<and> nxt m = n)"
| "hz_knows H e (HZ_clear None) = (e = Some Pop_empty)"
| "hz_knows H e (HZ_clear (Some a)) = (\<exists>m v. H a = Some m \<and> data m = Some v \<and> e = Some (Pop v))"
| "hz_knows H e (HZ_swap a) = (\<exists>m v. H a = Some m \<and> data m = Some v \<and> e = Some (Pop v))"
| "hz_knows H e (HZ_scan a x i) = res_ok x e"
| "hz_knows H e (HZ_new a x) = res_ok x e"
| "hz_knows H e (HZ_delete a x) = res_ok x e"
| "hz_knows H e (HZ_add k x c) = res_ok x e"
| "hz_knows H e (HZ_add_cas k x c) = res_ok x e"
| "hz_knows H e (HZ_take x) = res_ok x e"
| "hz_knows H e (HZ_list x p) = res_ok x e"
| "hz_knows H e (HZ_check x c d p i) = res_ok x e"
| "hz_knows H e (HZ_reclaim x c p) = res_ok x e"
| "hz_knows H e (HZ_done r) = hz_result_ok r e"
| "hz_knows H e _ = True"

definition hz_thread :: "(nat \<Rightarrow> role) \<Rightarrow> (nat \<Rightarrow> role) \<Rightarrow> 'a hz \<Rightarrow> tid \<Rightarrow> 'a hz_pc \<Rightarrow> bool" where
  "hz_thread r q s t c \<longleftrightarrow> {b. r b = Private t} = hz_new_nodes c \<and> {b. r b = Batch t} = hz_own c
     \<and> hz_records (records s) {b. q b = Batch t} c \<and> hz_knows (heap s) (last_op t (hist s)) c
     \<and> (\<forall>p. held c = Some p \<longrightarrow> (\<exists>i. hp_owner s t = Some i \<and> hp_pointer s i = p))
     \<and> (needs_slot c \<longrightarrow> hp_owner s t \<noteq> None) \<and> c \<noteq> HZ_exit"

definition slots_ok :: "'a hz \<Rightarrow> bool" where
  "slots_ok s \<longleftrightarrow> (\<forall>t i. hp_owner s t = Some i \<longrightarrow> i < MAX_PTR \<and> hp_id s i = Some t)"

fun record_role :: "role \<Rightarrow> bool" where
  "record_role (Private t) = False"
| "record_role Retired = False"
| "record_role _ = True"

text \<open>
  The records: those of the list and those of the threads; each has the address of a retired node, and
  no two have the same.
\<close>

definition records_ok :: "(nat \<Rightarrow> role) \<Rightarrow> (nat \<Rightarrow> role) \<Rightarrow> 'a hz \<Rightarrow> bool" where
  "records_ok r q s \<longleftrightarrow> (\<forall>c. records s c = None \<longleftrightarrow> q c = Free) \<and> (\<forall>c. record_role (q c))
     \<and> (\<exists>vs. node_list (records s) (nodes_to_reclaim s) {c. q c = On_stack} vs)
     \<and> (\<forall>c m. records s c = Some m \<longrightarrow> (\<exists>d. data m = Some d \<and> r d = Retired))
     \<and> (\<forall>c c' m m'. records s c = Some m \<longrightarrow> records s c' = Some m' \<longrightarrow> data m = data m' \<longrightarrow> c = c')"

text \<open>
  A node that is read is neither free nor new, and a thread that looks for it has not yet passed the slot
  of the reader.
\<close>

definition protected :: "(nat \<Rightarrow> role) \<Rightarrow> 'a hz \<Rightarrow> bool" where
  "protected r s \<longleftrightarrow> (\<forall>u a. reading (hz_pcs s u) = Some a \<longrightarrow> r a \<noteq> Free \<and> (\<forall>v. r a \<noteq> Private v))
     \<and> (\<forall>t u a i j. scanning (records s) (hz_pcs s t) = Some (a, i) \<longrightarrow> reading (hz_pcs s u) = Some a
          \<longrightarrow> hp_owner s u = Some j \<longrightarrow> i \<le> j)"

definition hz_ok :: "(nat \<Rightarrow> role) \<Rightarrow> (nat \<Rightarrow> role) \<Rightarrow> 'a hz \<Rightarrow> bool" where
  "hz_ok r q s \<longleftrightarrow> stack_ok r s \<and> records_ok r q s \<and> slots_ok s \<and> protected r s
     \<and> (\<forall>t. hz_thread r q s t (hz_pcs s t))"

definition hz_inv :: "'a hz \<Rightarrow> bool" where
  "hz_inv s \<longleftrightarrow> (\<exists>r q. hz_ok r q s)"

text \<open>What a step of \<open>t\<close> leaves alone.\<close>

definition hz_frame :: "tid \<Rightarrow> (nat \<Rightarrow> role) \<Rightarrow> (nat \<Rightarrow> role) \<Rightarrow> 'a hz \<Rightarrow> (nat \<Rightarrow> role) \<Rightarrow> (nat \<Rightarrow> role) \<Rightarrow> 'a hz \<Rightarrow> bool" where
  "hz_frame t r q s r' q' s' \<longleftrightarrow>
     (\<forall>b u. u \<noteq> t \<longrightarrow> (r' b = Private u \<longleftrightarrow> r b = Private u) \<and> (r' b = Batch u \<longleftrightarrow> r b = Batch u)
        \<and> (q' b = Batch u \<longleftrightarrow> q b = Batch u))
     \<and> (\<forall>b u. u \<noteq> t \<longrightarrow> r b = Private u \<or> r b = Batch u \<longrightarrow> heap s' b = heap s b)
     \<and> (\<forall>b u. u \<noteq> t \<longrightarrow> q b = Batch u \<longrightarrow> records s' b = records s b)
     \<and> (\<forall>u i. u \<noteq> t \<longrightarrow> hp_owner s' u = hp_owner s u \<and> (hp_owner s u = Some i \<longrightarrow> hp_pointer s' i = hp_pointer s i))
     \<and> (\<forall>u a. u \<noteq> t \<longrightarrow> reading (hz_pcs s u) = Some a \<longrightarrow> map_option nxt (heap s' a) = map_option nxt (heap s a)
          \<and> r' a \<noteq> Free \<and> (\<forall>v. r' a \<noteq> Private v))
     \<and> (\<forall>u. u \<noteq> t \<longrightarrow> last_op u (hist s') = last_op u (hist s))"

lemma cons_list_cong: "cons_list R B c p \<Longrightarrow> (\<And>b. b \<in> B \<Longrightarrow> R' b = R b) \<Longrightarrow> cons_list R' B c p"
  unfolding cons_list_def by (metis DiffD1 node_list_cong)

lemma hz_records_cong: "hz_records R B c \<Longrightarrow> (\<And>b. b \<in> B \<Longrightarrow> R' b = R b) \<Longrightarrow> hz_records R' B c"
  by (cases c) (auto intro: cons_list_cong node_list_cong simp: cons_list_def)

lemma hz_thread_other:
  assumes frame: "hz_frame t r q s r' q' s'" and "u \<noteq> t" and th: "hz_thread r q s u c" and c: "hz_pcs s u = c"
  shows "hz_thread r' q' s' u c"
proof -
  from frame \<open>u \<noteq> t\<close> have roles: "\<And>b. r' b = Private u \<longleftrightarrow> r b = Private u" "\<And>b. r' b = Batch u \<longleftrightarrow> r b = Batch u"
      "\<And>b. q' b = Batch u \<longleftrightarrow> q b = Batch u"
    and heap: "\<And>b. r b = Private u \<or> r b = Batch u \<Longrightarrow> heap s' b = heap s b"
    and recs: "\<And>b. q b = Batch u \<Longrightarrow> records s' b = records s b"
    and own: "hp_owner s' u = hp_owner s u" "\<And>i. hp_owner s u = Some i \<Longrightarrow> hp_pointer s' i = hp_pointer s i"
    and nxt: "\<And>a. reading c = Some a \<Longrightarrow> map_option nxt (heap s' a) = map_option nxt (heap s a)"
    and last: "last_op u (hist s') = last_op u (hist s)" unfolding hz_frame_def c [symmetric] by blast+
  from th have P: "{b. r b = Private u} = hz_new_nodes c" "{b. r b = Batch u} = hz_own c"
    and B: "hz_records (records s) {b. q b = Batch u} c" and K: "hz_knows (heap s) (last_op u (hist s)) c"
    and rest: "\<forall>p. held c = Some p \<longrightarrow> (\<exists>i. hp_owner s u = Some i \<and> hp_pointer s i = p)"
      "needs_slot c \<longrightarrow> hp_owner s u \<noteq> None" "c \<noteq> HZ_exit" by (auto simp: hz_thread_def)
  have same: "heap s' b = heap s b" if "b \<in> hz_new_nodes c \<union> hz_own c" for b
    using that unfolding P [symmetric] by (intro heap) auto
  have "hz_records (records s') {b. q' b = Batch u} c"
    unfolding roles using B by (rule hz_records_cong) (simp add: recs)
  moreover have "hz_knows (heap s') (last_op u (hist s)) c"
  proof (cases "\<exists>a n. c = HZ_cas a n")
    case True
    then obtain a n where [simp]: "c = HZ_cas a n" by blast
    from K nxt [of a] show ?thesis by (cases "heap s' a") auto
  next
    case False
    with K same show ?thesis by (cases c rule: hz_own.cases) auto
  qed
  moreover have "\<forall>p. held c = Some p \<longrightarrow> (\<exists>i. hp_owner s' u = Some i \<and> hp_pointer s' i = p)"
    using rest(1) own by fastforce
  ultimately show ?thesis using P rest(2,3) own last by (simp add: hz_thread_def roles)
qed

lemma hz_goto_simps [simp]:
  "heap (hz_goto t c s) = heap s" "head (hz_goto t c s) = head s" "hist (hz_goto t c s) = hist s" "fault (hz_goto t c s) = fault s"
  "hp_id (hz_goto t c s) = hp_id s" "hp_pointer (hz_goto t c s) = hp_pointer s" "records (hz_goto t c s) = records s"
  "nodes_to_reclaim (hz_goto t c s) = nodes_to_reclaim s" "hp_owner (hz_goto t c s) = hp_owner s"
  "hz_pcs (hz_goto t c s) = (hz_pcs s)(t := c)"
  by (simp_all add: hz_goto_def)

lemma hz_stack_simps [simp]:
  "hp_id (put_node a n s) = hp_id s" "hp_pointer (put_node a n s) = hp_pointer s" "records (put_node a n s) = records s"
  "nodes_to_reclaim (put_node a n s) = nodes_to_reclaim s" "hp_owner (put_node a n s) = hp_owner s" "hz_pcs (put_node a n s) = hz_pcs s"
  "hp_id (effect t e s) = hp_id s" "hp_pointer (effect t e s) = hp_pointer s" "records (effect t e s) = records s"
  "nodes_to_reclaim (effect t e s) = nodes_to_reclaim s" "hp_owner (effect t e s) = hp_owner s" "hz_pcs (effect t e s) = hz_pcs s"
  "hp_id (delete_node a s) = hp_id s" "hp_pointer (delete_node a s) = hp_pointer s" "records (delete_node a s) = records s"
  "nodes_to_reclaim (delete_node a s) = nodes_to_reclaim s" "hp_owner (delete_node a s) = hp_owner s"
  "hz_pcs (delete_node a s) = hz_pcs s" "hist (delete_node a s) = hist s" "head (delete_node a s) = head s"
  for s :: "'a hz"
  by (simp_all add: put_node_def effect_def delete_node_def)

lemma put_record_simps [simp]:
  "heap (put_record c m s) = heap s" "head (put_record c m s) = head s" "hist (put_record c m s) = hist s"
  "fault (put_record c m s) = fault s" "hp_id (put_record c m s) = hp_id s" "hp_pointer (put_record c m s) = hp_pointer s"
  "records (put_record c m s) = (records s)(c \<mapsto> m)" "nodes_to_reclaim (put_record c m s) = nodes_to_reclaim s"
  "hp_owner (put_record c m s) = hp_owner s" "hz_pcs (put_record c m s) = hz_pcs s"
  by (simp_all add: put_record_def)

lemma scanning_cong: "hz_records R B c \<Longrightarrow> (\<And>b. b \<in> B \<Longrightarrow> R' b = R b) \<Longrightarrow> scanning R' c = scanning R c"
  by (cases c) (auto simp: cons_list_def)

lemma hz_okI:
  assumes ok: "hz_ok r q s" and st: "stack_ok r' s'" and recs: "records_ok r' q' s'" and slots: "slots_ok s'"
    and own: "hz_thread r' q' s' t c" and fr: "hz_frame t r q s r' q' s'" and pcs: "hz_pcs s' = hz_pcs s"
    and seen: "\<And>a. reading c = Some a \<Longrightarrow> r' a \<noteq> Free \<and> (\<forall>v. r' a \<noteq> Private v)"
    and reader: "\<And>u a i j. reading c = Some a \<Longrightarrow> u \<noteq> t \<Longrightarrow> scanning (records s) (hz_pcs s u) = Some (a, i)
      \<Longrightarrow> hp_owner s' t = Some j \<Longrightarrow> i \<le> j"
    and scanner: "\<And>u a i j. scanning (records s') c = Some (a, i) \<Longrightarrow> u \<noteq> t \<Longrightarrow> reading (hz_pcs s u) = Some a
      \<Longrightarrow> hp_owner s u = Some j \<Longrightarrow> i \<le> j"
  shows "hz_inv (hz_goto t c s')"
proof -
  let ?s = "hz_goto t c s'"
  have th: "hz_thread r q s u (hz_pcs s u)" for u using ok by (simp add: hz_ok_def)
  have other: "hz_thread r' q' s' u (hz_pcs s u)" if "u \<noteq> t" for u using hz_thread_other [OF fr that th refl] .
  have "hz_thread r' q' ?s u (hz_pcs ?s u)" for u
    using other [of u] own pcs by (simp add: hz_thread_def)
  moreover have "protected r' ?s"
    unfolding protected_def
  proof (intro conjI allI impI)
    fix u a assume "reading (hz_pcs ?s u) = Some a"
    with fr seen [of a] pcs show "r' a \<noteq> Free" "\<And>v. r' a \<noteq> Private v"
      by (cases "u = t"; auto simp: hz_frame_def)+
  next
    fix w u a i j
    assume w: "scanning (records ?s) (hz_pcs ?s w) = Some (a, i)" and u: "reading (hz_pcs ?s u) = Some a" "hp_owner ?s u = Some j"
    show "i \<le> j"
    proof (cases "w = t")
      case True
      show ?thesis
      proof (cases "u = t")
        case True
        with \<open>w = t\<close> w u pcs show ?thesis by (cases c) auto
      next
        case False
        then have "hp_owner s u = Some j" using fr u(2) by (auto simp: hz_frame_def)
        with False True w u pcs scanner show ?thesis by auto
      qed
    next
      case False
      then have "\<And>b. q b = Batch w \<Longrightarrow> records s' b = records s b" using fr unfolding hz_frame_def by blast
      moreover have "hz_records (records s) {b. q b = Batch w} (hz_pcs s w)" using th [of w] by (simp add: hz_thread_def)
      ultimately have "scanning (records s') (hz_pcs s w) = scanning (records s) (hz_pcs s w)"
        by (intro scanning_cong) auto
      then have w': "scanning (records s) (hz_pcs s w) = Some (a, i)" using w False pcs by simp
      show ?thesis
      proof (cases "u = t")
        case True
        with reader [OF _ False w'] u pcs show ?thesis by simp
      next
        case u: False
        then have "hp_owner s u = Some j" using fr \<open>hp_owner ?s u = Some j\<close> by (auto simp: hz_frame_def)
        moreover have "reading (hz_pcs s u) = Some a" using \<open>reading (hz_pcs ?s u) = Some a\<close> u pcs by simp
        ultimately show ?thesis using ok w' unfolding hz_ok_def protected_def by blast
      qed
    qed
  qed
  moreover have "stack_ok r' ?s" using st by (simp add: stack_ok_def)
  moreover have "records_ok r' q' ?s" using recs by (simp add: records_ok_def)
  moreover have "slots_ok ?s" using slots by (simp add: slots_ok_def)
  ultimately have "hz_ok r' q' ?s" by (simp add: hz_ok_def)
  then show ?thesis by (auto simp: hz_inv_def)
qed

subsection \<open>Steps that only move a thread\<close>

lemma hz_ok_thread: "hz_ok r q s \<Longrightarrow> hz_thread r q s t (hz_pcs s t)"
  by (simp add: hz_ok_def)

lemma hz_ok_stack: "hz_ok r q s \<Longrightarrow> stack_ok r s"
  by (simp add: hz_ok_def)

lemma hz_ok_records: "hz_ok r q s \<Longrightarrow> records_ok r q s"
  by (simp add: hz_ok_def)

lemma hz_ok_slots: "hz_ok r q s \<Longrightarrow> slots_ok s"
  by (simp add: hz_ok_def)

lemma hz_ok_protected: "hz_ok r q s \<Longrightarrow> protected r s"
  by (simp add: hz_ok_def)

lemma hz_ok_reading: "hz_ok r q s \<Longrightarrow> reading (hz_pcs s u) = Some a \<Longrightarrow> r a \<noteq> Free \<and> (\<forall>v. r a \<noteq> Private v)"
  unfolding hz_ok_def protected_def by blast

lemma hz_ok_scanning: "hz_ok r q s \<Longrightarrow> scanning (records s) (hz_pcs s t) = Some (a, i) \<Longrightarrow> reading (hz_pcs s u) = Some a
    \<Longrightarrow> hp_owner s u = Some j \<Longrightarrow> i \<le> j"
  unfolding hz_ok_def protected_def by blast

text \<open>The slot of a reading thread holds the node.\<close>

lemma hz_ok_held:
  assumes "hz_ok r q s" and "reading (hz_pcs s u) = Some a"
  shows "\<exists>j. hp_owner s u = Some j \<and> hp_pointer s j = Some a \<and> j < MAX_PTR"
proof -
  have "held (hz_pcs s u) = Some (Some a)" using assms(2) by (cases "hz_pcs s u") auto
  then obtain j where j: "hp_owner s u = Some j" "hp_pointer s j = Some a"
    using hz_ok_thread [OF assms(1), of u] by (auto simp: hz_thread_def)
  with hz_ok_slots [OF assms(1)] show ?thesis by (auto simp: slots_ok_def)
qed

lemma hz_frame_nodes:
  assumes ok: "hz_ok r q s" and "heap s' = heap s" and "records s' = records s" and "hist s' = hist s"
    and "\<And>u i. u \<noteq> t \<Longrightarrow> hp_owner s' u = hp_owner s u \<and> (hp_owner s u = Some i \<longrightarrow> hp_pointer s' i = hp_pointer s i)"
  shows "hz_frame t r q s r q s'"
  using assms hz_ok_reading [OF ok] by (simp add: hz_frame_def)

lemma records_retired: "records_ok r q s \<Longrightarrow> records s c = Some m \<Longrightarrow> \<exists>d. data m = Some d \<and> r d = Retired"
  unfolding records_ok_def by blast

text \<open>A node a thread looks for is its own or retired.\<close>

lemma hz_scanned:
  assumes ok: "hz_ok r q s" and "scanning (records s) (hz_pcs s t) = Some (a, i)"
  shows "r a = Retired \<or> r a = Batch t"
proof -
  have th: "hz_thread r q s t (hz_pcs s t)" by (rule hz_ok_thread [OF ok])
  have rec: "records s c = Some m \<Longrightarrow> data m = Some d \<Longrightarrow> r d = Retired" for c m d
    using records_retired [OF hz_ok_records [OF ok], of c m] by auto
  show ?thesis
  proof (cases "hz_pcs s t")
    case (HZ_check x c d p k)
    with th assms(2) rec show ?thesis by (auto simp: hz_thread_def)
  next
    case (HZ_reclaim x c p)
    with assms(2) rec show ?thesis by (auto split: option.splits)
  qed (use th assms(2) in \<open>auto simp: hz_thread_def\<close>)
qed

lemma hz_point:
  assumes ok: "hz_ok r q s" and same: "heap s' = heap s" "head s' = head s" "hist s' = hist s" "fault s' = fault s"
      "records s' = records s" "nodes_to_reclaim s' = nodes_to_reclaim s"
    and pcs: "hz_pcs s' = hz_pcs s" and slots: "slots_ok s'"
    and fr: "\<And>u i. u \<noteq> t \<Longrightarrow> hp_owner s' u = hp_owner s u \<and> (hp_owner s u = Some i \<longrightarrow> hp_pointer s' i = hp_pointer s i)"
    and own: "hz_thread r q s' t c"
    and seen: "\<And>a. reading c = Some a \<Longrightarrow> r a = On_stack \<or> reading (hz_pcs s t) = Some a \<and> hp_owner s' t = hp_owner s t"
    and scanner: "\<And>u a i j. scanning (records s) c = Some (a, i) \<Longrightarrow> u \<noteq> t \<Longrightarrow> reading (hz_pcs s u) = Some a
      \<Longrightarrow> hp_owner s u = Some j \<Longrightarrow> i \<le> j"
  shows "hz_inv (hz_goto t c s')"
proof (rule hz_okI [OF ok])
  show "stack_ok r s'" using hz_ok_stack [OF ok] same by (simp add: stack_ok_def)
  show "records_ok r q s'" using hz_ok_records [OF ok] same by (simp add: records_ok_def)
  show "hz_frame t r q s r q s'" by (rule hz_frame_nodes [OF ok same(1,5,3) fr])
  show "r a \<noteq> Free \<and> (\<forall>v. r a \<noteq> Private v)" if "reading c = Some a" for a
    using seen [OF that] hz_ok_reading [OF ok, of t a] by auto
  show "i \<le> j" if c: "reading c = Some a" and u: "u \<noteq> t" "scanning (records s) (hz_pcs s u) = Some (a, i)"
    "hp_owner s' t = Some j" for u a i j
    using seen [OF c]
  proof
    assume "r a = On_stack"
    moreover have "r a = Retired \<or> r a = Batch u" using hz_scanned [OF ok u(2)] .
    ultimately show ?thesis by simp
  next
    assume "reading (hz_pcs s t) = Some a \<and> hp_owner s' t = hp_owner s t"
    with hz_ok_scanning [OF ok u(2), of t j] u(3) show ?thesis by simp
  qed
  show "i \<le> j" if "scanning (records s') c = Some (a, i)" "u \<noteq> t" "reading (hz_pcs s u) = Some a" "hp_owner s u = Some j"
    for u a i j using that scanner same(5) by simp
qed (use slots own pcs in simp_all)

text \<open>Without any change of the table.\<close>

lemma hz_point_goto:
  assumes ok: "hz_ok r q s" and own: "hz_thread r q s t c"
    and seen: "\<And>a. reading c = Some a \<Longrightarrow> r a = On_stack \<or> reading (hz_pcs s t) = Some a"
    and scanner: "\<And>u a i j. scanning (records s) c = Some (a, i) \<Longrightarrow> u \<noteq> t \<Longrightarrow> reading (hz_pcs s u) = Some a
      \<Longrightarrow> hp_owner s u = Some j \<Longrightarrow> i \<le> j"
  shows "hz_inv (hz_goto t c s)"
  by (rule hz_point [OF ok _ _ _ _ _ _ _ _ _ own _ scanner]) (use seen hz_ok_slots [OF ok] in auto)

lemma hz_ok_alive: "hz_ok r q s \<Longrightarrow> r a \<noteq> Free \<Longrightarrow> \<exists>n. heap s a = Some n"
  using stack_ok_alive [of r s a] hz_ok_stack by fastforce

lemma hz_call_inv:
  assumes ok: "hz_ok r q s" and "hz_quiet (hz_pcs s t)"
  shows "hz_inv (hz_goto t (HZ_push (New_node v)) s)"
    and "hz_inv (hz_goto t (case hp_owner s t of None \<Rightarrow> HZ_slot 0 | Some i \<Rightarrow> HZ_load) s)"
proof -
  have th: "{b. r b = Private t} = {}" "{b. r b = Batch t} = {}" "{b. q b = Batch t} = {}"
    using assms(2) hz_ok_thread [OF ok, of t] by (cases "hz_pcs s t"; simp add: hz_thread_def)+
  show "hz_inv (hz_goto t (HZ_push (New_node v)) s)"
    by (rule hz_point_goto [OF ok]) (simp_all add: hz_thread_def th)
  show "hz_inv (hz_goto t (case hp_owner s t of None \<Rightarrow> HZ_slot 0 | Some i \<Rightarrow> HZ_load) s)"
    by (rule hz_point_goto [OF ok]) (auto simp: hz_thread_def th split: option.splits)
qed

lemma hz_slot_inv:
  assumes ok: "hz_ok r q s" and pc: "hz_pcs s t = HZ_slot i"
  shows "hz_inv (acquire_slot t i s)"
proof -
  have th: "{b. r b = Private t} = {}" "{b. r b = Batch t} = {}" "{b. q b = Batch t} = {}"
    using pc hz_ok_thread [OF ok, of t] by (simp_all add: hz_thread_def)
  have i: "i \<le> MAX_PTR" using pc hz_ok_thread [OF ok, of t] by (simp add: hz_thread_def)
  have stop: "hz_inv (hz_goto t (HZ_done HZ_no_hazard_pointer) s)"
    by (rule hz_point_goto [OF ok]; simp add: hz_thread_def th)
  have go: "hz_inv (hz_goto t (HZ_slot (i + 1)) s)" if "i \<noteq> MAX_PTR"
    using that i by (intro hz_point_goto [OF ok]) (simp_all add: hz_thread_def th)
  show ?thesis
  proof (cases "i \<noteq> MAX_PTR \<and> hp_id s i = None")
    case True
    let ?s = "s\<lparr>hp_id := (hp_id s)(i \<mapsto> t), hp_owner := (hp_owner s)(t \<mapsto> i)\<rparr>"
    have "hp_owner s u \<noteq> Some i" for u using hz_ok_slots [OF ok] True by (auto simp: slots_ok_def)
    moreover have "i < MAX_PTR" using i True by simp
    ultimately have "slots_ok ?s" using hz_ok_slots [OF ok] by (auto simp: slots_ok_def)
    then have "hz_inv (hz_goto t HZ_load ?s)"
      by (intro hz_point [OF ok]) (simp_all add: hz_thread_def th)
    with True show ?thesis by (simp add: acquire_slot_def)
  qed (use stop go in \<open>auto simp: acquire_slot_def\<close>)
qed

lemma hz_store_inv:
  assumes ok: "hz_ok r q s" and i: "hp_owner s t = Some i" and pc: "reading (hz_pcs s t) = None"
    and own: "hz_thread r q (s\<lparr>hp_pointer := (hp_pointer s)(i := p)\<rparr>) t c" and "reading c = None" and "scanning (records s) c = None"
  shows "hz_inv (hz_goto t c (hp_store t p s))"
proof -
  let ?s = "s\<lparr>hp_pointer := (hp_pointer s)(i := p)\<rparr>"
  have slots: "slots_ok s" by (rule hz_ok_slots [OF ok])
  then have "hp_id s i = Some t" using i by (simp add: slots_ok_def)
  then have "hp_owner s u \<noteq> Some i" if "u \<noteq> t" for u using that slots by (auto simp: slots_ok_def)
  then have "hz_inv (hz_goto t c ?s)"
    using slots assms(4-6) by (intro hz_point [OF ok]) (auto simp: slots_ok_def)
  with i show ?thesis by (simp add: hp_store_def)
qed

subsection \<open>The loop of \<open>pop\<close>\<close>

lemma records_ok_same:
  assumes "records_ok r q s" and "\<And>b. r b = Retired \<Longrightarrow> r' b = Retired"
    and "records s' = records s" and "nodes_to_reclaim s' = nodes_to_reclaim s"
  shows "records_ok r' q s'"
  using assms unfolding records_ok_def by (metis (no_types, lifting))

lemma slots_ok_same: "slots_ok s \<Longrightarrow> hp_owner s' = hp_owner s \<Longrightarrow> hp_id s' = hp_id s \<Longrightarrow> slots_ok s'"
  by (simp add: slots_ok_def)

lemma hz_loop_inv:
  assumes ok: "hz_ok r q s" and step: "hz_loop t s = Some s'"
  shows "hz_inv s'"
proof -
  have th: "hz_thread r q s t (hz_pcs s t)" by (rule hz_ok_thread [OF ok])
  have own: "{b. r b = Private t} = {}" "{b. r b = Batch t} = {}" "{b. q b = Batch t} = {}"
    and slot: "\<exists>i. hp_owner s t = Some i"
    using step th by (cases "hz_pcs s t"; auto simp: hz_loop_def hz_thread_def)+
  then obtain i where i: "hp_owner s t = Some i" by blast
  have again: "hz_inv (hz_goto t (HZ_store p) s)" for p
    by (rule hz_point_goto [OF ok]) (simp_all add: hz_thread_def own i)
  note frame = hz_frame_nodes [OF ok]
  show ?thesis
  proof (cases "hz_pcs s t")
    case HZ_load
    with step again show ?thesis by (auto simp: hz_loop_def)
  next
    case (HZ_store tmp)
    then have "hz_inv (hz_goto t (HZ_reload tmp) (hp_store t tmp s))"
      by (intro hz_store_inv [OF ok i]) (simp_all add: hz_thread_def own i)
    with HZ_store step show ?thesis by (simp add: hz_loop_def)
  next
    case (HZ_reload tmp)
    show ?thesis
    proof (cases "tmp = head s")
      case False
      with HZ_reload step again show ?thesis by (auto simp: hz_loop_def)
    next
      case True
      show ?thesis
      proof (cases tmp)
        case None
        have "stack_ok r (effect t Pop_empty s)" using stack_ok_empty [OF hz_ok_stack [OF ok]] True None by simp
        moreover have "records_ok r q (effect t Pop_empty s)" using hz_ok_records [OF ok] by (simp add: records_ok_def)
        moreover have "slots_ok (effect t Pop_empty s)" using hz_ok_slots [OF ok] by (simp add: slots_ok_def)
        moreover have "hz_frame t r q s r q (effect t Pop_empty s)"
          using hz_ok_reading [OF ok] by (auto simp: hz_frame_def last_op_append)
        moreover have "hz_thread r q (effect t Pop_empty s) t (HZ_clear None)"
          by (simp add: hz_thread_def own i last_op_append)
        ultimately have "hz_inv (hz_goto t (HZ_clear None) (effect t Pop_empty s))" by (intro hz_okI [OF ok]) simp_all
        with HZ_reload None True step show ?thesis by (auto simp: hz_loop_def)
      next
        case (Some a)
        with True have "r a = On_stack" using stack_ok_head [OF hz_ok_stack [OF ok]] by simp
        moreover have "hz_thread r q s t (HZ_next a)" using th HZ_reload Some by (auto simp: hz_thread_def)
        ultimately have "hz_inv (hz_goto t (HZ_next a) s)" by (intro hz_point_goto [OF ok]) simp_all
        with HZ_reload Some True step show ?thesis by (auto simp: hz_loop_def)
      qed
    qed
  next
    case (HZ_next a)
    then obtain n where n: "heap s a = Some n" using hz_ok_reading [OF ok, of t a] hz_ok_alive [OF ok, of a] by auto
    have "hz_thread r q s t (HZ_cas a (nxt n))" using th HZ_next n by (auto simp: hz_thread_def)
    then have "hz_inv (hz_goto t (HZ_cas a (nxt n)) s)" using HZ_next by (intro hz_point_goto [OF ok]) simp_all
    with HZ_next n step show ?thesis by (simp add: hz_loop_def)
  next
    case (HZ_cas a n)
    show ?thesis
    proof (cases "head s = Some a")
      case False
      with HZ_cas step again show ?thesis by (auto simp: hz_loop_def)
    next
      case True
      from th HZ_cas obtain m where m: "heap s a = Some m" "nxt m = n" by (auto simp: hz_thread_def)
      from stack_ok_pop [OF hz_ok_stack [OF ok] True, of "Batch t" t] m obtain v where v: "data m = Some v" "r a = On_stack"
        "stack_ok (r(a := Batch t)) (effect t (Pop v) (s\<lparr>head := n\<rparr>))" by auto
      let ?s = "effect t (Pop v) (s\<lparr>head := n\<rparr>)" and ?r = "r(a := Batch t)" and ?c = "HZ_clear (Some a)"
      have "records_ok ?r q ?s" by (rule records_ok_same [OF hz_ok_records [OF ok]]) (use v(2) in auto)
      moreover have "slots_ok ?s" using hz_ok_slots [OF ok] by (simp add: slots_ok_def)
      moreover have "hz_frame t r q s ?r q ?s"
        using hz_ok_reading [OF ok] v(2) by (auto simp: hz_frame_def last_op_append)
      moreover have "{b. ?r b = Private t} = {}" "{b. ?r b = Batch t} = {a}" using own by auto
      then have "hz_thread ?r q ?s t ?c" using m v i by (simp add: hz_thread_def own last_op_append)
      ultimately have "hz_inv (hz_goto t ?c ?s)" using v(3) by (intro hz_okI [OF ok]) simp_all
      with HZ_cas True m v step show ?thesis by (simp add: hz_loop_def)
    qed
  qed (use step in \<open>simp_all add: hz_loop_def\<close>)
qed

lemma push_step_hz:
  fixes s :: "'a hz"
  shows "push_step t alloc weak pc s = Some (pc', s') \<Longrightarrow> hp_id s' = hp_id s \<and> hp_pointer s' = hp_pointer s \<and>
    records s' = records s \<and> nodes_to_reclaim s' = nodes_to_reclaim s \<and> hp_owner s' = hp_owner s \<and> hz_pcs s' = hz_pcs s"
  by (auto simp: push_step_def split: push_pc.splits option.splits if_splits)

lemma hz_push_inv:
  assumes inv: "hz_inv s" and "hz_push t alloc s = Some s'"
  shows "hz_inv s'"
proof -
  from inv obtain r q where ok: "hz_ok r q s" by (auto simp: hz_inv_def)
  from assms(2) obtain pc pc' s1 where pc: "hz_pcs s t = HZ_push pc" "push_step t alloc False pc s = Some (pc', s1)"
    and s': "s' = hz_goto t (hz_after_push pc') s1"
    by (auto simp: hz_push_def split: hz_pc.splits)
  note same = push_step_hz [OF pc(2)]
  have th: "hz_thread r q s t (HZ_push pc)" using hz_ok_thread [OF ok, of t] pc(1) by simp
  then have own: "{b. r b = Private t} = push_nodes pc" and batch: "{b. r b = Batch t} = {}" "{b. q b = Batch t} = {}"
    and "\<forall>a \<in> push_nodes pc. \<exists>n v. heap s a = Some n \<and> data n = Some v" by (simp_all add: hz_thread_def)
  then have "push_ok r s t pc" unfolding push_ok_def by blast
  from push_step_ok [OF hz_ok_stack [OF ok] this pc(2)] obtain r' where
    r': "stack_ok r' s1" "push_ok r' s1 t pc'" "push_frame t r s r' s1" by blast
  then have keep: "\<And>b. r b \<noteq> Free \<Longrightarrow> r b \<noteq> Private t \<Longrightarrow> r' b = r b \<and> heap s1 b = heap s b"
    and change: "\<And>b. r' b = r b \<or> r b = Free \<and> r' b = Private t \<or> r b = Private t \<and> r' b = On_stack"
    by (auto simp: push_frame_def)
  note h = push_step_hist [OF pc(2)]
  have last: "last_op u (hist s1) = last_op u (hist s)" if "u \<noteq> t" for u
    using h that by (auto simp: last_op_append)
  have roles: "r' b = Private u \<longleftrightarrow> r b = Private u" "r' b = Batch u \<longleftrightarrow> r b = Batch u" if "u \<noteq> t" for b u
    using change [of b] that by auto
  have ret: "r' b = Retired \<longleftrightarrow> r b = Retired" "r' b = Batch t \<longleftrightarrow> r b = Batch t" for b
    using change [of b] by auto
  have "records_ok r' q s1" by (rule records_ok_same [OF hz_ok_records [OF ok]]) (simp_all add: ret same)
  moreover have "slots_ok s1" by (rule slots_ok_same [OF hz_ok_slots [OF ok]]) (simp_all add: same)
  moreover have "hz_thread r' q s1 t (hz_after_push pc')"
    using r'(2) h batch unfolding hz_thread_def ret by (cases pc') (auto simp: push_ok_def last_op_append)
  moreover have "hz_frame t r q s r' q s1"
    unfolding hz_frame_def
  proof (intro conjI allI impI)
    fix u a assume u: "reading (hz_pcs s u) = Some a"
    then have "r' a = r a" "heap s1 a = heap s a" using hz_ok_reading [OF ok u] keep [of a] by auto
    then show "map_option nxt (heap s1 a) = map_option nxt (heap s a)" "r' a \<noteq> Free" "\<And>v. r' a \<noteq> Private v"
      using hz_ok_reading [OF ok u] by auto
  qed (use roles keep last same in auto)
  moreover have "reading (hz_after_push pc') = None" "scanning R (hz_after_push pc') = None" for R by (cases pc'; simp)+
  ultimately show ?thesis using r'(1) same unfolding s' by (intro hz_okI [OF ok]) simp_all
qed

subsection \<open>The end of \<open>pop\<close>\<close>

lemma hz_clear_inv:
  assumes ok: "hz_ok r q s" and pc: "hz_pcs s t = HZ_clear x"
  shows "hz_inv (hz_goto t (case x of None \<Rightarrow> HZ_done (HZ_ptr None) | Some a \<Rightarrow> HZ_swap a) (hp_store t None s))"
proof -
  have th: "hz_thread r q s t (HZ_clear x)" using hz_ok_thread [OF ok, of t] pc by simp
  then obtain i where i: "hp_owner s t = Some i" by (auto simp: hz_thread_def)
  show ?thesis using th pc by (intro hz_store_inv [OF ok i]) (auto simp: hz_thread_def split: option.splits)
qed

lemma hz_swap_inv:
  assumes ok: "hz_ok r q s" and pc: "hz_pcs s t = HZ_swap a"
  shows "\<exists>n. heap s a = Some n \<and> hz_inv (hz_goto t (HZ_scan a (data n) 0) (put_node a (n\<lparr>data := None\<rparr>) s))"
proof -
  have th: "hz_thread r q s t (HZ_swap a)" using hz_ok_thread [OF ok, of t] pc by simp
  then obtain n v where n: "heap s a = Some n" "data n = Some v" "last_op t (hist s) = Some (Pop v)" by (auto simp: hz_thread_def)
  from th have "a \<in> {b. r b = Batch t}" by (simp add: hz_thread_def)
  then have a: "r a = Batch t" by simp
  let ?s = "put_node a (n\<lparr>data := None\<rparr>) s" and ?c = "HZ_scan a (Some v) 0"
  have "stack_ok r ?s" using hz_ok_stack [OF ok] a n by (intro stack_ok_write) auto
  moreover have "records_ok r q ?s" by (rule records_ok_same [OF hz_ok_records [OF ok]]) simp_all
  moreover have "slots_ok ?s" by (rule slots_ok_same [OF hz_ok_slots [OF ok]]) simp_all
  moreover have "hz_thread r q ?s t ?c" using th n by (simp add: hz_thread_def)
  moreover have "hz_frame t r q s r q ?s" using a n hz_ok_reading [OF ok] by (auto simp: hz_frame_def)
  ultimately have "hz_inv (hz_goto t ?c ?s)" by (intro hz_okI [OF ok]) auto
  with n show ?thesis by auto
qed

lemma hz_scan_inv:
  assumes ok: "hz_ok r q s" and pc: "hz_pcs s t = HZ_scan a x i"
  shows "hz_inv (hz_goto t (case outstanding a i s of None \<Rightarrow> HZ_scan a x (i + 1) | Some True \<Rightarrow> HZ_new a x
     | Some False \<Rightarrow> HZ_delete a x) s)"
proof -
  have th: "hz_thread r q s t (HZ_scan a x i)" using hz_ok_thread [OF ok, of t] pc by simp
  have le: "i \<le> j" if "reading (hz_pcs s u) = Some a" "hp_owner s u = Some j" for u j
    using hz_ok_scanning [OF ok _ that, of t i] pc by simp
  have next_slot: "i + 1 \<le> j" if "reading (hz_pcs s u) = Some a" "hp_owner s u = Some j" "hp_pointer s i \<noteq> Some a" for u j
    using le [OF that(1,2)] hz_ok_held [OF ok that(1)] that(2,3) by (cases "i = j") auto
  show ?thesis
  proof (cases "outstanding a i s")
    case None
    have "hp_pointer s i \<noteq> Some a" using None by (auto simp: outstanding_def split: if_splits)
    then have "hz_inv (hz_goto t (HZ_scan a x (i + 1)) s)"
      using th next_slot by (intro hz_point_goto [OF ok]) (auto simp: hz_thread_def)
    with None show ?thesis by simp
  next
    case (Some b)
    have "hz_inv (hz_goto t (HZ_new a x) s)" using th by (intro hz_point_goto [OF ok]) (auto simp: hz_thread_def)
    moreover have "hz_inv (hz_goto t (HZ_delete a x) s)" if "i = MAX_PTR"
      using th le that by (intro hz_point_goto [OF ok]) (auto simp: hz_thread_def)
    ultimately show ?thesis using Some by (auto simp: outstanding_def split: if_splits)
  qed
qed

text \<open>No thread reads a node whose scan has ended.\<close>

lemma hz_unread:
  assumes ok: "hz_ok r q s" and "scanning (records s) (hz_pcs s t) = Some (a, MAX_PTR)"
  shows "reading (hz_pcs s u) \<noteq> Some a"
proof
  assume u: "reading (hz_pcs s u) = Some a"
  from hz_ok_held [OF ok u] obtain j where "hp_owner s u = Some j" "j < MAX_PTR" by blast
  with hz_ok_scanning [OF ok assms(2) u] show False by fastforce
qed

lemma hz_delete_inv:
  assumes ok: "hz_ok r q s" and pc: "hz_pcs s t = HZ_delete a x"
  shows "hz_inv (hz_goto t (HZ_take x) (delete_node a s))"
proof -
  let ?s = "delete_node a s" and ?r = "r(a := Free)"
  have th: "hz_thread r q s t (HZ_delete a x)" using hz_ok_thread [OF ok, of t] pc by simp
  then have own: "{b. r b = Batch t} = {a}" by (simp add: hz_thread_def)
  then have a: "r a = Batch t" by blast
  then obtain n where n: "heap s a = Some n" using hz_ok_alive [OF ok, of a] by auto
  then have heap: "heap ?s = (heap s)(a := None)" by (simp add: delete_node_def)
  have unread: "reading (hz_pcs s u) \<noteq> Some a" for u using hz_unread [OF ok, of t a u] pc by simp
  have "stack_ok ?r ?s" by (rule stack_ok_delete [OF hz_ok_stack [OF ok]]) (simp_all add: a n)
  moreover have "records_ok ?r q ?s" by (rule records_ok_same [OF hz_ok_records [OF ok]]) (use a in auto)
  moreover have "slots_ok ?s" by (rule slots_ok_same [OF hz_ok_slots [OF ok]]) simp_all
  moreover have "{b. ?r b = Batch t} = {b. r b = Batch t} - {a}" "{b. ?r b = Private t} = {b. r b = Private t}" using a by auto
  then have "hz_thread ?r q ?s t (HZ_take x)" using th by (simp add: hz_thread_def)
  moreover have "hz_frame t r q s ?r q ?s"
    using a hz_ok_reading [OF ok] unread by (auto simp: hz_frame_def heap)
  ultimately show ?thesis by (intro hz_okI [OF ok]) simp_all
qed

lemma records_okI:
  assumes "\<And>c. records s c = None \<longleftrightarrow> q c = Free" and "\<And>c. record_role (q c)"
    and "node_list (records s) (nodes_to_reclaim s) {c. q c = On_stack} vs"
    and "\<And>c m. records s c = Some m \<Longrightarrow> \<exists>d. data m = Some d \<and> r d = Retired"
    and "\<And>c c' m m'. records s c = Some m \<Longrightarrow> records s c' = Some m' \<Longrightarrow> data m = data m' \<Longrightarrow> c = c'"
  shows "records_ok r q s"
  using assms unfolding records_ok_def by blast

lemma records_role: "records_ok r q s \<Longrightarrow> record_role (q c)"
  unfolding records_ok_def by blast

lemma records_inj:
  "records_ok r q s \<Longrightarrow> records s c = Some m \<Longrightarrow> records s c' = Some m' \<Longrightarrow> data m = data m' \<Longrightarrow> c = c'"
  unfolding records_ok_def by blast

lemma records_alive: "records_ok r q s \<Longrightarrow> records s c = None \<longleftrightarrow> q c = Free"
  unfolding records_ok_def by blast

lemma records_list: "records_ok r q s \<Longrightarrow> \<exists>vs. node_list (records s) (nodes_to_reclaim s) {c. q c = On_stack} vs"
  unfolding records_ok_def by blast

text \<open>The address of a node that is not retired is in no record.\<close>

lemma hz_new_inv:
  assumes ok: "hz_ok r q s" and pc: "hz_pcs s t = HZ_new a x" and step: "reclaim_later t alloc a x s = Some s'"
  shows "hz_inv s'"
proof -
  let ?r = "r(a := Retired)"
  have th: "hz_thread r q s t (HZ_new a x)" using hz_ok_thread [OF ok, of t] pc by simp
  then have own: "{b. r b = Batch t} = {a}" "{b. r b = Private t} = {}" "{b. q b = Batch t} = {}"
    and res: "res_ok x (last_op t (hist s))" by (simp_all add: hz_thread_def)
  then have a: "r a = Batch t" by blast
  have st: "stack_ok ?r s" using hz_ok_stack [OF ok] a by (intro stack_ok_role) auto
  have roles: "{b. ?r b = Batch t} = {}" "{b. ?r b = Private t} = {}" using own(1,2) a by auto
  have fresh: "data m \<noteq> Some a" if "records s c = Some m" for c m
    using records_retired [OF hz_ok_records [OF ok] that] a by auto
  show ?thesis
  proof (cases alloc)
    case None
    have "records_ok ?r q s" by (rule records_ok_same [OF hz_ok_records [OF ok]]) simp_all
    moreover have "hz_frame t r q s ?r q s" using a hz_ok_reading [OF ok] by (auto simp: hz_frame_def)
    moreover have "hz_thread ?r q s t (HZ_done HZ_bad_alloc)" unfolding hz_thread_def roles own(3) by simp
    ultimately have "hz_inv (hz_goto t (HZ_done HZ_bad_alloc) s)"
      using st hz_ok_slots [OF ok] by (intro hz_okI [OF ok]) simp_all
    with None step show ?thesis by (simp add: reclaim_later_def)
  next
    case (Some c)
    with step have c: "records s c = None"
      and s': "s' = hz_goto t (HZ_add Then_take x c) (put_record c \<lparr>data = Some a, nxt = None\<rparr> s)"
      by (auto simp: reclaim_later_def split: if_splits)
    let ?s = "put_record c \<lparr>data = Some a, nxt = None\<rparr> s" and ?q = "q(c := Batch t)"
    have rec: "records_ok r q s" by (rule hz_ok_records [OF ok])
    then have qc: "q c = Free" using c records_alive by blast
    from records_list [OF rec] obtain vs where list: "node_list (records s) (nodes_to_reclaim s) {c. q c = On_stack} vs" ..
    have on: "{b. ?q b = On_stack} = {b. q b = On_stack}" using qc by auto
    have "records_ok ?r ?q ?s"
    proof (rule records_okI)
      show "record_role (?q b)" for b using records_role [OF rec] by simp
      show "records ?s b = None \<longleftrightarrow> ?q b = Free" for b using records_alive [OF rec, of b] by simp
      show "node_list (records ?s) (nodes_to_reclaim ?s) {b. ?q b = On_stack} vs"
        unfolding on using node_list_frame [OF list] qc by simp
      show "\<exists>d. data m = Some d \<and> ?r d = Retired" if "records ?s b = Some m" for b m
        using that records_retired [OF rec, of b m] by (auto split: if_splits)
      show "b = b'" if "records ?s b = Some m" "records ?s b' = Some m'" "data m = data m'" for b b' m m'
        using that fresh [of b m] fresh [of b' m'] records_inj [OF rec _ _ that(3), of b b'] by (auto split: if_splits)
    qed
    moreover have "stack_ok ?r ?s" using st by (simp add: stack_ok_def)
    moreover have "slots_ok ?s" by (rule slots_ok_same [OF hz_ok_slots [OF ok]]) simp_all
    moreover have "hz_frame t r q s ?r ?q ?s" using a qc hz_ok_reading [OF ok] by (auto simp: hz_frame_def)
    moreover have "q b \<noteq> Batch t" for b using own(3) by blast
    then have "{b. ?q b = Batch t} = {c}" by auto
    then have "hz_thread ?r ?q ?s t (HZ_add Then_take x c)"
      using res unfolding hz_thread_def roles by (simp add: cons_list_def no_nodes)
    ultimately show ?thesis unfolding s' by (intro hz_okI [OF ok]) simp_all
  qed
qed

subsection \<open>\<open>add_to_reclaim_list\<close>\<close>

lemma hz_add_thread:
  assumes "hz_ok r q s" and "hz_pcs s t = HZ_add k x c \<or> hz_pcs s t = HZ_add_cas k x c"
  shows "hz_thread r q s t (HZ_add_cas k x c)" and "cons_list (records s) {b. q b = Batch t} c (after_rest k)"
    and "q c = Batch t" and "\<exists>m. records s c = Some m" and "res_ok x (last_op t (hist s))"
    and "{b. r b = Batch t} = {}" and "{b. r b = Private t} = {}"
proof -
  have th: "hz_thread r q s t (hz_pcs s t)" by (rule hz_ok_thread [OF assms(1)])
  then show "hz_thread r q s t (HZ_add_cas k x c)" using assms(2) by (auto simp: hz_thread_def)
  then show l: "cons_list (records s) {b. q b = Batch t} c (after_rest k)" and "res_ok x (last_op t (hist s))"
    and "{b. r b = Batch t} = {}" and "{b. r b = Private t} = {}" by (simp_all add: hz_thread_def)
  from l show c: "q c = Batch t" by (simp add: cons_list_def)
  then show "\<exists>m. records s c = Some m" using records_alive [OF hz_ok_records [OF assms(1)], of c] by auto
qed

lemma hz_write_inv:
  assumes ok: "hz_ok r q s" and pc: "hz_pcs s t = HZ_add k x c \<or> hz_pcs s t = HZ_add_cas k x c"
    and m: "records s c = Some m"
  shows "hz_inv (hz_goto t (HZ_add_cas k x c) (put_record c (m\<lparr>nxt := p\<rparr>) s))"
proof -
  let ?s = "put_record c (m\<lparr>nxt := p\<rparr>) s"
  note a = hz_add_thread [OF ok pc]
  have rec: "records_ok r q s" by (rule hz_ok_records [OF ok])
  from records_list [OF rec] obtain vs where list: "node_list (records s) (nodes_to_reclaim s) {c. q c = On_stack} vs" ..
  have "records_ok r q ?s"
  proof (rule records_okI)
    show "record_role (q b)" for b using records_role [OF rec] by simp
    show "records ?s b = None \<longleftrightarrow> q b = Free" for b using records_alive [OF rec, of b] a(3) by simp
    show "node_list (records ?s) (nodes_to_reclaim ?s) {b. q b = On_stack} vs"
      using node_list_frame [OF list] a(3) by simp
    show "\<exists>d. data n = Some d \<and> r d = Retired" if "records ?s b = Some n" for b n
      using that records_retired [OF rec, of b] m by (auto split: if_splits)
    show "b = b'" if "records ?s b = Some n" "records ?s b' = Some n'" "data n = data n'" for b b' n n'
    proof -
      from that(1) m obtain j where j: "records s b = Some j" "data j = data n" by (auto split: if_splits)
      from that(2) m obtain j' where j': "records s b' = Some j'" "data j' = data n'" by (auto split: if_splits)
      show ?thesis using j(2) j'(2) that(3) by (intro records_inj [OF rec j(1) j'(1)]) simp
    qed
  qed
  moreover have "cons_list (records ?s) {b. q b = Batch t} c (after_rest k)"
    using a(2) node_list_frame [of "records s" "after_rest k" "{b. q b = Batch t} - {c}" _ c] by (auto simp: cons_list_def)
  then have "hz_thread r q ?s t (HZ_add_cas k x c)" using a(1) by (simp add: hz_thread_def)
  moreover have "stack_ok r ?s" using hz_ok_stack [OF ok] by (simp add: stack_ok_def)
  moreover have "slots_ok ?s" by (rule slots_ok_same [OF hz_ok_slots [OF ok]]) simp_all
  moreover have "hz_frame t r q s r q ?s" using a(3) hz_ok_reading [OF ok] by (auto simp: hz_frame_def)
  ultimately show ?thesis by (intro hz_okI [OF ok]) simp_all
qed

lemma hz_linked_inv:
  assumes ok: "hz_ok r q s" and pc: "hz_pcs s t = HZ_add_cas k x c"
    and m: "records s c = Some m" "nxt m = nodes_to_reclaim s"
  shows "hz_inv (hz_goto t (case k of Then_take \<Rightarrow> HZ_take x | Then_list p \<Rightarrow> HZ_list x p) (s\<lparr>nodes_to_reclaim := Some c\<rparr>))"
    (is "hz_inv (hz_goto t ?c ?s)")
proof -
  let ?q = "q(c := On_stack)"
  note a = hz_add_thread [OF ok disjI2 [OF pc]]
  have rec: "records_ok r q s" by (rule hz_ok_records [OF ok])
  from records_list [OF rec] obtain vs where list: "node_list (records s) (nodes_to_reclaim s) {c. q c = On_stack} vs" ..
  have on: "{b. ?q b = On_stack} = insert c {b. q b = On_stack}" and batch: "{b. ?q b = Batch t} = {b. q b = Batch t} - {c}" by auto
  have "records_ok r ?q ?s"
  proof (rule records_okI)
    show "record_role (?q b)" for b using records_role [OF rec] by simp
    show "records ?s b = None \<longleftrightarrow> ?q b = Free" for b using records_alive [OF rec, of b] m by auto
    show "node_list (records ?s) (nodes_to_reclaim ?s) {b. ?q b = On_stack} (data m # vs)"
      unfolding on using node_list_cons [OF list _ m] a(3) by simp
    show "\<exists>d. data n = Some d \<and> r d = Retired" if "records ?s b = Some n" for b n
      using that records_retired [OF rec, of b n] by simp
    show "b = b'" if "records ?s b = Some n" "records ?s b' = Some n'" "data n = data n'" for b b' n n'
      using that(1,2) records_inj [OF rec _ _ that(3), of b b'] by simp
  qed
  moreover have "hz_thread r ?q ?s t ?c"
    unfolding hz_thread_def batch using a(2,5-7) by (cases k) (simp_all add: cons_list_def no_nodes)
  moreover have "stack_ok r ?s" using hz_ok_stack [OF ok] by (simp add: stack_ok_def)
  moreover have "slots_ok ?s" by (rule slots_ok_same [OF hz_ok_slots [OF ok]]) simp_all
  moreover have "hz_frame t r q s r ?q ?s" using a(3) hz_ok_reading [OF ok] by (auto simp: hz_frame_def)
  moreover have "reading ?c = None" "scanning (records ?s) ?c = None" by (cases k; simp)+
  ultimately show ?thesis by (intro hz_okI [OF ok]) simp_all
qed

lemma hz_add_inv:
  assumes ok: "hz_ok r q s"
  shows "hz_pcs s t = HZ_add k x c \<Longrightarrow> hz_inv (add_store t k x c s)"
    and "hz_pcs s t = HZ_add_cas k x c \<Longrightarrow> hz_inv (add_exchange t weak k x c s)"
proof -
  show "hz_inv (add_store t k x c s)" if pc: "hz_pcs s t = HZ_add k x c"
  proof -
    from hz_add_thread(4) [OF ok disjI1 [OF pc]] obtain m where m: "records s c = Some m" ..
    with hz_write_inv [OF ok disjI1 [OF pc] m] show ?thesis by (simp add: add_store_def with_record_def)
  qed
  show "hz_inv (add_exchange t weak k x c s)" if pc: "hz_pcs s t = HZ_add_cas k x c"
  proof -
    from hz_add_thread(4) [OF ok disjI2 [OF pc]] obtain m where m: "records s c = Some m" ..
    let ?s = "put_record c (m\<lparr>nxt := nodes_to_reclaim s\<rparr>) s"
    have "hz_goto t (HZ_add_cas k x c) ?s = ?s" using pc by (simp add: hz_goto_def put_record_def fun_upd_idem)
    with hz_write_inv [OF ok disjI2 [OF pc] m, of "nodes_to_reclaim s"] hz_linked_inv [OF ok pc m] m
    show ?thesis by (auto simp: add_exchange_def with_record_def)
  qed
qed

subsection \<open>\<open>delete_nodes_with_no_hazard\<close>\<close>

lemma hz_take_inv:
  assumes ok: "hz_ok r q s" and pc: "hz_pcs s t = HZ_take x"
  shows "hz_inv (hz_goto t (HZ_list x (nodes_to_reclaim s)) (s\<lparr>nodes_to_reclaim := None\<rparr>))"
proof -
  let ?s = "s\<lparr>nodes_to_reclaim := None\<rparr>" and ?q = "\<lambda>b. if q b = On_stack then Batch t else q b"
  have th: "hz_thread r q s t (HZ_take x)" using hz_ok_thread [OF ok, of t] pc by simp
  then have "{b. q b = Batch t} = {}" by (simp add: hz_thread_def)
  then have none: "q b \<noteq> Batch t" for b by blast
  have rec: "records_ok r q s" by (rule hz_ok_records [OF ok])
  have on: "{b. ?q b = On_stack} = {}" by auto
  have "?q b = Batch t \<longleftrightarrow> q b = On_stack" for b using none by simp
  then have batch: "{b. ?q b = Batch t} = {b. q b = On_stack}" by simp
  have "records_ok r ?q ?s"
  proof (rule records_okI)
    show "record_role (?q b)" for b using records_role [OF rec] by simp
    show "records ?s b = None \<longleftrightarrow> ?q b = Free" for b using records_alive [OF rec, of b] by simp
    show "node_list (records ?s) (nodes_to_reclaim ?s) {b. ?q b = On_stack} []" unfolding on by (simp add: node_list_null)
    show "\<exists>d. data n = Some d \<and> r d = Retired" if "records ?s b = Some n" for b n
      using that records_retired [OF rec, of b n] by simp
    show "b = b'" if "records ?s b = Some n" "records ?s b' = Some n'" "data n = data n'" for b b' n n'
      using that(1,2) records_inj [OF rec _ _ that(3), of b b'] by simp
  qed
  moreover have "hz_thread r ?q ?s t (HZ_list x (nodes_to_reclaim s))"
    unfolding hz_thread_def batch using th records_list [OF rec] by (simp add: hz_thread_def)
  moreover have "stack_ok r ?s" using hz_ok_stack [OF ok] by (simp add: stack_ok_def)
  moreover have "slots_ok ?s" by (rule slots_ok_same [OF hz_ok_slots [OF ok]]) simp_all
  moreover have "hz_frame t r q s r ?q ?s" using hz_ok_reading [OF ok] by (auto simp: hz_frame_def)
  ultimately show ?thesis by (intro hz_okI [OF ok]) simp_all
qed

lemma hz_list_inv:
  assumes ok: "hz_ok r q s" and pc: "hz_pcs s t = HZ_list x p" and step: "delete_nodes_with_no_hazard t s = Some s'"
  shows "hz_inv s'"
proof -
  have th: "hz_thread r q s t (HZ_list x p)" using hz_ok_thread [OF ok, of t] pc by simp
  show ?thesis
  proof (cases p)
    case None
    have "hz_thread r q s t (HZ_done (HZ_ptr x))" using th None by (simp add: hz_thread_def no_nodes)
    then have "hz_inv (hz_goto t (HZ_done (HZ_ptr x)) s)" by (intro hz_point_goto [OF ok]) simp_all
    with None pc step show ?thesis by (simp add: delete_nodes_with_no_hazard_def)
  next
    case (Some c)
    from th obtain vs where "node_list (records s) (Some c) {b. q b = Batch t} vs" unfolding hz_thread_def Some by auto
    from node_list_Some [OF this] obtain m ws where m: "records s c = Some m" "c \<in> {b. q b = Batch t}"
      "node_list (records s) (nxt m) ({b. q b = Batch t} - {c}) ws" by blast
    from records_retired [OF hz_ok_records [OF ok] m(1)] obtain d where d: "data m = Some d" by blast
    have "cons_list (records s) {b. q b = Batch t} c (nxt m)" using m(2,3) unfolding cons_list_def by blast
    then have "hz_thread r q s t (HZ_check x c d (nxt m) 0)" using th m(1) d by (simp add: hz_thread_def)
    then have "hz_inv (hz_goto t (HZ_check x c d (nxt m) 0) s)" by (intro hz_point_goto [OF ok]) auto
    with Some m(1) d pc step show ?thesis by (simp add: delete_nodes_with_no_hazard_def with_record_def)
  qed
qed

lemma hz_check_inv:
  assumes ok: "hz_ok r q s" and pc: "hz_pcs s t = HZ_check x c d p i"
  shows "hz_inv (case outstanding d i s of None \<Rightarrow> hz_goto t (HZ_check x c d p (i + 1)) s
     | Some True \<Rightarrow> hz_goto t (HZ_add (Then_list p) x c) s | Some False \<Rightarrow> hz_goto t (HZ_reclaim x c p) s)"
proof -
  have th: "hz_thread r q s t (HZ_check x c d p i)" using hz_ok_thread [OF ok, of t] pc by simp
  then obtain m where m: "records s c = Some m" "data m = Some d" by (auto simp: hz_thread_def)
  have le: "i \<le> j" if "reading (hz_pcs s u) = Some d" "hp_owner s u = Some j" for u j
    using hz_ok_scanning [OF ok _ that, of t i] pc by simp
  show ?thesis
  proof (cases "outstanding d i s")
    case None
    have empty: "hp_pointer s i \<noteq> Some d" using None by (auto simp: outstanding_def split: if_splits)
    have "i + 1 \<le> j" if "reading (hz_pcs s u) = Some d" "hp_owner s u = Some j" for u j
      using le [OF that] hz_ok_held [OF ok that(1)] that(2) empty by (cases "i = j") auto
    then have "hz_inv (hz_goto t (HZ_check x c d p (i + 1)) s)"
      using th by (intro hz_point_goto [OF ok]) (auto simp: hz_thread_def)
    with None show ?thesis by simp
  next
    case (Some b)
    have "hz_inv (hz_goto t (HZ_add (Then_list p) x c) s)" using th by (intro hz_point_goto [OF ok]) (auto simp: hz_thread_def)
    moreover have "hz_inv (hz_goto t (HZ_reclaim x c p) s)" if "i = MAX_PTR"
      using th le m that by (intro hz_point_goto [OF ok]) (auto simp: hz_thread_def)
    ultimately show ?thesis using Some by (auto simp: outstanding_def split: if_splits)
  qed
qed

lemma hz_reclaim_inv:
  assumes ok: "hz_ok r q s" and pc: "hz_pcs s t = HZ_reclaim x c p"
  shows "hz_inv (hz_goto t (HZ_list x p) (delete_record c s))"
proof -
  have th: "hz_thread r q s t (HZ_reclaim x c p)" using hz_ok_thread [OF ok, of t] pc by simp
  then have l: "cons_list (records s) {b. q b = Batch t} c p" by (simp add: hz_thread_def)
  then have c: "q c = Batch t" by (simp add: cons_list_def)
  have rec: "records_ok r q s" by (rule hz_ok_records [OF ok])
  obtain m where m: "records s c = Some m" using records_alive [OF rec, of c] c by auto
  obtain d where d: "data m = Some d" "r d = Retired" using records_retired [OF rec m] by blast
  have unread: "reading (hz_pcs s u) \<noteq> Some d" for u using hz_unread [OF ok, of t d u] pc m d by simp
  obtain n where n: "heap s d = Some n" using hz_ok_alive [OF ok, of d] d by auto
  let ?s = "delete_record c s" and ?r = "r(d := Free)" and ?q = "q(c := Free)"
  have s: "?s = (delete_node d s)\<lparr>records := (records s)(c := None)\<rparr>" using m d by (simp add: delete_record_def with_record_def)
  then have heap: "heap ?s = (heap s)(d := None)" and recs: "records ?s = (records s)(c := None)"
    and same: "nodes_to_reclaim ?s = nodes_to_reclaim s" "hp_owner ?s = hp_owner s" "hp_id ?s = hp_id s"
      "hp_pointer ?s = hp_pointer s" "hist ?s = hist s" "hz_pcs ?s = hz_pcs s"
    using n by (simp_all add: delete_node_def)
  have "stack_ok ?r (delete_node d s)" by (rule stack_ok_delete [OF hz_ok_stack [OF ok]]) (simp_all add: d n)
  then have st: "stack_ok ?r ?s" unfolding s by (simp add: stack_ok_def)
  from records_list [OF rec] obtain vs where list: "node_list (records s) (nodes_to_reclaim s) {c. q c = On_stack} vs" ..
  have on: "{b. ?q b = On_stack} = {b. q b = On_stack}" and batch: "{b. ?q b = Batch t} = {b. q b = Batch t} - {c}"
    using c by auto
  have rec': "records_ok ?r ?q ?s"
  proof (rule records_okI)
    show "record_role (?q b)" for b using records_role [OF rec] by simp
    show "records ?s b = None \<longleftrightarrow> ?q b = Free" for b using records_alive [OF rec, of b] by (simp add: recs)
    show "node_list (records ?s) (nodes_to_reclaim ?s) {b. ?q b = On_stack} vs"
      unfolding on recs same(1) using c by (intro node_list_frame [OF list]) simp
    show "\<exists>e. data k = Some e \<and> ?r e = Retired" if "records ?s b = Some k" for b k
    proof -
      from that have b: "b \<noteq> c" "records s b = Some k" by (auto simp: recs split: if_splits)
      then have "data k \<noteq> Some d" using records_inj [OF rec b(2) m] d by auto
      with records_retired [OF rec b(2)] show ?thesis by auto
    qed
    show "b = b'" if "records ?s b = Some k" "records ?s b' = Some k'" "data k = data k'" for b b' k k'
      using that(1,2) records_inj [OF rec _ _ that(3), of b b'] by (auto simp: recs split: if_splits)
  qed
  have "{b. ?r b = Private t} = {b. r b = Private t}" "{b. ?r b = Batch t} = {b. r b = Batch t}" using d by auto
  moreover have "\<exists>vs. node_list ((records s)(c := None)) p ({b. q b = Batch t} - {c}) vs"
    using l node_list_frame [of "records s" p "{b. q b = Batch t} - {c}" _ c None] unfolding cons_list_def by blast
  ultimately have "hz_thread ?r ?q ?s t (HZ_list x p)"
    using th unfolding hz_thread_def batch recs same by simp
  moreover have "slots_ok ?s" by (rule slots_ok_same [OF hz_ok_slots [OF ok]]) (simp_all add: same)
  moreover have "hz_frame t r q s ?r ?q ?s"
    using d c unread hz_ok_reading [OF ok] by (auto simp: hz_frame_def heap recs same)
  ultimately show ?thesis using st rec' by (intro hz_okI [OF ok]) (simp_all add: same)
qed

subsection \<open>Every step\<close>

lemma hz_pop_inv:
  assumes inv: "hz_inv s" and step: "hz_pop t alloc weak s = Some s'"
  shows "hz_inv s'"
proof -
  from inv obtain r q where ok: "hz_ok r q s" by (auto simp: hz_inv_def)
  show ?thesis
  proof (cases "hz_pcs s t")
    case (HZ_slot i)
    with step hz_slot_inv [OF ok HZ_slot] show ?thesis by (simp add: hz_pop_def)
  next
    case (HZ_clear x)
    with step hz_clear_inv [OF ok HZ_clear] show ?thesis by (simp add: hz_pop_def)
  next
    case (HZ_swap a)
    with step hz_swap_inv [OF ok HZ_swap] show ?thesis by (auto simp: hz_pop_def)
  next
    case (HZ_scan a x i)
    with step hz_scan_inv [OF ok HZ_scan] show ?thesis by (simp add: hz_pop_def)
  next
    case (HZ_new a x)
    with step hz_new_inv [OF ok HZ_new] show ?thesis by (simp add: hz_pop_def)
  next
    case (HZ_delete a x)
    with step hz_delete_inv [OF ok HZ_delete] show ?thesis by (simp add: hz_pop_def)
  next
    case (HZ_add k x c)
    with step hz_add_inv(1) [OF ok HZ_add] show ?thesis by (simp add: hz_pop_def)
  next
    case (HZ_add_cas k x c)
    with step hz_add_inv(2) [OF ok HZ_add_cas, of weak] show ?thesis by (simp add: hz_pop_def)
  next
    case (HZ_take x)
    with step hz_take_inv [OF ok HZ_take] show ?thesis by (simp add: hz_pop_def delete_nodes_with_no_hazard_def)
  next
    case (HZ_list x p)
    with step hz_list_inv [OF ok HZ_list] show ?thesis by (simp add: hz_pop_def)
  next
    case (HZ_check x c d p i)
    with step hz_check_inv [OF ok HZ_check] show ?thesis by (simp add: hz_pop_def delete_nodes_with_no_hazard_def)
  next
    case (HZ_reclaim x c p)
    with step hz_reclaim_inv [OF ok HZ_reclaim] show ?thesis by (simp add: hz_pop_def delete_nodes_with_no_hazard_def)
  qed (use step hz_loop_inv [OF ok, of t s'] in \<open>simp_all add: hz_pop_def\<close>)
qed

lemma hz_inv_move:
  assumes inv: "hz_inv s" and step: "hz_move False e s = Some s'"
  shows "hz_inv s'"
proof -
  from inv obtain r q where ok: "hz_ok r q s" by (auto simp: hz_inv_def)
  show ?thesis
  proof (cases e)
    case (HZ_push_step t alloc)
    with step hz_push_inv [OF inv] show ?thesis by simp
  next
    case (HZ_pop_step t alloc weak)
    with step hz_pop_inv [OF inv] show ?thesis by simp
  qed (use step hz_call_inv [OF ok] in \<open>auto split: if_splits\<close>)
qed

lemma hz_inv_start: "hz_init s \<Longrightarrow> hz_inv s"
  unfolding hz_init_def hz_inv_def
  by (rule exI [of _ "\<lambda>_. Free"], rule exI [of _ "\<lambda>_. Free"])
    (simp add: hz_ok_def stack_ok_def records_ok_def slots_ok_def protected_def hz_new_def hz_thread_def node_list_null no_nodes)

lemma hz_hist_simps [simp]:
  "hist (hp_store t p s) = hist s" "hist (acquire_slot t i s) = hist s" "hist (add_store t k x c s) = hist s"
  "hist (add_exchange t weak k x c s) = hist s" "hist (delete_record c s) = hist s"
  by (simp_all add: hp_store_def acquire_slot_def add_store_def add_exchange_def with_record_def delete_record_def Let_def
      split: option.split)

lemma reclaim_later_hist: "reclaim_later t alloc a x s = Some s' \<Longrightarrow> hist s' = hist s"
  by (auto simp: reclaim_later_def split: option.splits if_splits)

lemma delete_nodes_hist: "delete_nodes_with_no_hazard t s = Some s' \<Longrightarrow> hist s' = hist s"
  by (auto simp: delete_nodes_with_no_hazard_def with_record_def split: hz_pc.splits option.splits bool.splits)

lemma hz_loop_hist: "hz_loop t s = Some s' \<Longrightarrow> hist s' = hist s \<or> (\<exists>x. hist s' = hist s @ [x])"
  by (auto simp: hz_loop_def split: hz_pc.splits option.splits if_splits)

lemma hz_pop_hist:
  assumes "hz_pop t alloc weak s = Some s'"
  shows "hist s' = hist s \<or> (\<exists>x. hist s' = hist s @ [x])"
  using assms reclaim_later_hist [of t alloc] delete_nodes_hist [of t s s'] hz_loop_hist [of t s s']
  by (cases "hz_pcs s t") (auto simp: hz_pop_def split: option.splits)

lemma hz_grows:
  assumes "hz_move exits e s = Some s'"
  shows "hist s' = hist s \<or> (\<exists>x. hist s' = hist s @ [x])"
proof (cases e)
  case (HZ_push_step t alloc)
  with assms show ?thesis by (auto simp: hz_push_def dest: push_step_hist split: hz_pc.splits)
next
  case (HZ_pop_step t alloc weak)
  with assms hz_pop_hist show ?thesis by simp
next
  case (HZ_exit_step t)
  with assms show ?thesis by (auto simp: release_slot_def split: if_splits option.splits hz_pc.splits)
qed (use assms in \<open>auto split: if_splits\<close>)

interpretation hazard: linearizable_stack hz_init "hz_move False" hz_inv hist
proof unfold_locales
  show "hz_inv s \<Longrightarrow> \<exists>xs. run lifo_move (hist s) [] = Some xs" for s :: "'a hz"
    by (auto simp: hz_inv_def hz_ok_def stack_ok_def)
qed (fact hz_inv_start hz_inv_move hz_grows)+

subsection \<open>Whole loops\<close>

text \<open>The scan of a table that does not hold the node ends with the decision to delete it.\<close>

lemma hz_goto_goto [simp]: "hz_goto t c (hz_goto t c' s) = hz_goto t c s"
  by (simp add: hz_goto_def)

lemma scan_run:
  assumes "hz_pcs s t = HZ_scan a x i" and "\<And>j. hp_pointer s j \<noteq> Some a" and "i + n = MAX_PTR"
  shows "run (hz_move exits) (replicate (Suc n) (HZ_pop_step t None False)) s = Some (hz_goto t (HZ_delete a x) s)"
  using assms
proof (induction n arbitrary: s i)
  case 0
  then show ?case by (simp add: hz_pop_def outstanding_def)
next
  case (Suc n)
  let ?s = "hz_goto t (HZ_scan a x (i + 1)) s"
  have step: "hz_move exits (HZ_pop_step t None False) s = Some ?s"
    using Suc.prems by (simp add: hz_pop_def outstanding_def)
  have "run (hz_move exits) (replicate (Suc n) (HZ_pop_step t None False)) ?s = Some (hz_goto t (HZ_delete a x) ?s)"
    by (rule Suc.IH [where i = "i + 1"]) (use Suc.prems in simp_all)
  then show ?case by (simp only: replicate_Suc [of "Suc n"] run.simps step option.case) simp
qed

text \<open>The constructor of \<open>hp_owner\<close> when every slot is taken.\<close>

lemma slot_run:
  assumes "hz_pcs s t = HZ_slot i" and "\<And>j. j < MAX_PTR \<Longrightarrow> hp_id s j \<noteq> None" and "i + n = MAX_PTR"
  shows "run (hz_move exits) (replicate (Suc n) (HZ_pop_step t None False)) s
    = Some (hz_goto t (HZ_done HZ_no_hazard_pointer) s)"
  using assms
proof (induction n arbitrary: s i)
  case 0
  then show ?case by (simp add: hz_pop_def acquire_slot_def)
next
  case (Suc n)
  let ?s = "hz_goto t (HZ_slot (i + 1)) s"
  have step: "hz_move exits (HZ_pop_step t None False) s = Some ?s"
    using Suc.prems(1,3) Suc.prems(2) [of i] by (auto simp: hz_pop_def acquire_slot_def)
  have "run (hz_move exits) (replicate (Suc n) (HZ_pop_step t None False)) ?s
      = Some (hz_goto t (HZ_done HZ_no_hazard_pointer) ?s)"
    by (rule Suc.IH [where i = "i + 1"]) (use Suc.prems in simp_all)
  then show ?case by (simp only: replicate_Suc [of "Suc n"] run.simps step option.case) simp
qed

lemmas hz_eval = hz_new_def hz_goto_def hz_push_def hz_pop_def hz_loop_def acquire_slot_def release_slot_def hp_store_def
  push_step_def put_node_def effect_def delete_node_def delete_nodes_with_no_hazard_def MAX_PTR_def
  outstanding_def with_record_def put_record_def reclaim_later_def add_store_def add_exchange_def

subsection \<open>Properties\<close>

text \<open>C1. As long as no thread ends, the stack of \<open>hazard_ptr\<close> is linearizable for any number of threads
  and with reuse of addresses, and hazard pointers do their job: no node or record is read, written or
  deleted after it has been deleted, and none is deleted twice.\<close>

theorem hazard_stack_linearizable:
  assumes "reach hz_init (hz_move False) s"
  shows "\<not> fault s \<and> (\<exists>xs. run lifo_move (hist s) [] = Some xs \<and> pushes (hist s) = pops (hist s) + mset xs)
     \<and> (hz_pcs s t = HZ_done x \<longrightarrow> hz_result_ok x (last_op t (hist s)))"
proof -
  from hazard.reach_inv [OF assms] obtain r q where ok: "hz_ok r q s" by (auto simp: hz_inv_def)
  then have "\<not> fault s" by (simp add: hz_ok_def stack_ok_def)
  moreover have "hz_pcs s t = HZ_done x \<longrightarrow> hz_result_ok x (last_op t (hist s))"
    using hz_ok_thread [OF ok, of t] by (auto simp: hz_thread_def)
  ultimately show ?thesis using hazard.linearizable [OF assms] by blast
qed

theorem hazard_stack_linearizable_witness:
  "\<exists>s :: nat hz. reach hz_init (hz_move False) s \<and> hz_pcs s 2 = HZ_done (HZ_ptr (Some 7)) \<and> nodes_to_reclaim s = Some 9
     \<and> last_op 2 (hist s) = Some (Pop 7)"
proof -
  have "\<exists>s :: nat hz. reach hz_init (hz_move False) s \<and> (hz_pcs s 2 = HZ_done (HZ_ptr (Some 7)) \<and> nodes_to_reclaim s = Some 9)"
    by (rule reach_witness [where s = hz_new and es = "[HZ_call_push 0 7, HZ_push_step 0 (Some 5), HZ_push_step 0 None,
          HZ_push_step 0 None, HZ_call_pop 1] @ replicate 5 (HZ_pop_step 1 None False) @ [HZ_call_pop 2]
          @ replicate 19 (HZ_pop_step 2 (Some 9) False)"],
        simp add: hz_init_def, simp add: hz_eval numeral_nat)
  then obtain s :: "nat hz" where s: "reach hz_init (hz_move False) s" "hz_pcs s 2 = HZ_done (HZ_ptr (Some 7))"
    "nodes_to_reclaim s = Some 9" by blast
  from hazard_stack_linearizable [OF s(1), of 2 "HZ_ptr (Some 7)"] s(2) have "last_op 2 (hist s) = Some (Pop 7)" by simp
  with s show ?thesis by blast
qed

lemma next_kept:
  assumes move: "hz_move False e s = Some s'" and n: "heap s a = Some n" and new: "a \<notin> hz_new_nodes (hz_pcs s (hz_actor e))"
    and del: "\<nexists>x. hz_pcs s (hz_actor e) = HZ_delete a x"
    and rec: "\<And>x c p m. hz_pcs s (hz_actor e) = HZ_reclaim x c p \<Longrightarrow> records s c = Some m \<Longrightarrow> data m \<noteq> Some a"
  shows "\<exists>n'. heap s' a = Some n' \<and> nxt n' = nxt n"
proof (cases e)
  case (HZ_push_step t alloc)
  with move obtain pc where pc: "hz_pcs s t = HZ_push pc" by (auto simp: hz_push_def split: hz_pc.splits)
  with HZ_push_step move obtain pc' s1 where "push_step t alloc False pc s = Some (pc', s1)" "heap s' = heap s1"
    by (auto simp: hz_push_def)
  moreover have "a \<notin> push_nodes pc" using new HZ_push_step pc by simp
  ultimately have "heap s' a = Some n"
    using n by (cases pc) (auto simp: push_step_def put_node_def effect_def split: option.splits if_splits)
  then show ?thesis by simp
next
  case (HZ_pop_step t alloc weak)
  then show ?thesis using move n del rec
    by (cases "hz_pcs s t")
      (auto simp: hz_pop_def hz_loop_def delete_nodes_with_no_hazard_def acquire_slot_def hp_store_def reclaim_later_def add_store_def
        add_exchange_def with_record_def put_record_def delete_record_def delete_node_def put_node_def effect_def outstanding_def Let_def
        split: option.splits if_splits)
qed (use move n in \<open>auto split: if_splits option.splits\<close>)

text \<open>C31. The plain field \<open>next\<close> of the nodes of \<open>hazard_ptr\<close> has no data race with its readers, as long as no thread ends:
  while a thread is about to read \<open>old_head->next\<close>, no other thread is pushing that node (only a push writes \<open>next\<close>), is
  about to delete it, or is about to delete a record that holds it; no step of any thread frees the node or changes its
  \<open>next\<close>. The other field, \<open>data\<close>, may be swapped meanwhile; the read does not touch it.\<close>

theorem hazard_no_data_race:
  assumes "reach hz_init (hz_move False) s" and "hz_pcs s u = HZ_next a"
  shows "a \<notin> hz_new_nodes (hz_pcs s t) \<and> hz_pcs s t \<noteq> HZ_delete a x
     \<and> (hz_pcs s t = HZ_reclaim y c p \<longrightarrow> (\<exists>m. records s c = Some m \<and> data m \<noteq> Some a))
     \<and> (\<exists>n. heap s a = Some n
          \<and> (hz_move False e s = Some s' \<longrightarrow> (\<exists>n'. heap s' a = Some n' \<and> nxt n' = nxt n)))"
proof -
  from hazard.reach_inv [OF assms(1)] obtain r q where ok: "hz_ok r q s" by (auto simp: hz_inv_def)
  have u: "reading (hz_pcs s u) = Some a" using assms(2) by simp
  have new: "a \<notin> hz_new_nodes (hz_pcs s t)" for t
  proof -
    have "r a = Private t" if "a \<in> hz_new_nodes (hz_pcs s t)" using hz_ok_thread [OF ok, of t] that unfolding hz_thread_def by blast
    then show ?thesis using hz_ok_reading [OF ok u] by auto
  qed
  have del: "hz_pcs s t \<noteq> HZ_delete a x" for t x using hz_unread [OF ok, of t a u] u by auto
  have rec: "\<exists>m. records s c = Some m \<and> data m \<noteq> Some a" if pc: "hz_pcs s t = HZ_reclaim y c p" for t y c p
  proof -
    have "q c = Batch t" using hz_ok_thread [OF ok, of t] pc by (auto simp: hz_thread_def cons_list_def)
    then obtain m where m: "records s c = Some m" using records_alive [OF hz_ok_records [OF ok], of c] by auto
    with hz_unread [OF ok, of t a u] pc u show ?thesis by auto
  qed
  obtain n where n: "heap s a = Some n" using hz_ok_alive [OF ok] hz_ok_reading [OF ok u] by blast
  have "\<exists>n'. heap s' a = Some n' \<and> nxt n' = nxt n" if "hz_move False e s = Some s'"
    using that n new by (rule next_kept) (use del rec in fastforce)+
  with new del rec n show ?thesis by blast
qed

theorem hazard_no_data_race_witness:
  "\<exists>s :: nat hz. reach hz_init (hz_move False) s \<and> hz_pcs s 1 = HZ_next 5 \<and> hz_pcs s 2 = HZ_swap 5 \<and> (\<exists>n. heap s 5 = Some n)"
proof -
  have "\<exists>s :: nat hz. reach hz_init (hz_move False) s \<and> (hz_pcs s 1 = HZ_next 5 \<and> hz_pcs s 2 = HZ_swap 5)"
    by (rule reach_witness [where s = hz_new and es = "[HZ_call_push 0 7, HZ_push_step 0 (Some 5), HZ_push_step 0 None,
          HZ_push_step 0 None, HZ_call_pop 1] @ replicate 4 (HZ_pop_step 1 None False) @ [HZ_call_pop 2]
          @ replicate 8 (HZ_pop_step 2 (Some 9) False)"],
        simp add: hz_init_def, simp add: hz_eval numeral_nat)
  then obtain s :: "nat hz" where s: "reach hz_init (hz_move False) s" "hz_pcs s 1 = HZ_next 5" "hz_pcs s 2 = HZ_swap 5" by blast
  from hazard_no_data_race [OF s(1,2), of 2] s show ?thesis by blast
qed

text \<open>C32. When threads end, hazard pointers fail: \<open>~hp_owner\<close> gives the slot back before it clears the
  pointer, so the store clears the hazard pointer of the next owner of the slot, and a thread can be about
  to read a node that another one has deleted.\<close>

theorem hazard_exit_use_after_free:
  "\<exists>(s :: nat hz) a. reach hz_init (hz_move True) s \<and> hz_pcs s 1 = HZ_next a \<and> heap s a = None"
proof -
  have "\<exists>s :: nat hz. reach hz_init (hz_move True) s \<and> (hz_pcs s 2 = HZ_scan 5 (Some 7) 0 \<and> hz_pcs s 1 = HZ_next 5
      \<and> heap s 5 \<noteq> None \<and> (\<forall>j. hp_pointer s j = None))"
    by (rule reach_witness [where s = hz_new and es = "HZ_call_pop 0 # replicate 5 (HZ_pop_step 0 None False) @
          [HZ_call_push 2 7, HZ_push_step 2 (Some 5), HZ_push_step 2 None, HZ_push_step 2 None, HZ_exit_step 0, HZ_call_pop 1]
          @ replicate 4 (HZ_pop_step 1 None False) @ [HZ_exit_step 0, HZ_call_pop 2] @ replicate 9 (HZ_pop_step 2 None False)"],
        simp add: hz_init_def, simp add: hz_eval numeral_nat)
  then obtain s :: "nat hz" where s: "reach hz_init (hz_move True) s" "hz_pcs s 2 = HZ_scan 5 (Some 7) 0"
    "hz_pcs s 1 = HZ_next 5" "heap s 5 \<noteq> None" "\<And>j. hp_pointer s j \<noteq> Some 5" by auto
  from reach_run [OF s(1) scan_run [OF s(2,5)]] have d: "reach hz_init (hz_move True) (hz_goto 2 (HZ_delete 5 (Some 7)) s)"
    by simp
  let ?s = "hz_goto 2 (HZ_take (Some 7)) (delete_node 5 (hz_goto 2 (HZ_delete 5 (Some 7)) s))"
  have "hz_move True (HZ_pop_step 2 None False) (hz_goto 2 (HZ_delete 5 (Some 7)) s) = Some ?s" by (simp add: hz_pop_def)
  from reach_move [OF d this] have "reach hz_init (hz_move True) ?s" .
  moreover have "hz_pcs ?s 1 = HZ_next 5" "heap ?s 5 = None" using s(3,4) by (auto simp: delete_node_def)
  ultimately show ?thesis by blast
qed

text \<open>C33. When all slots are taken, \<open>pop\<close> throws after looking at every slot, and leaves everything as it was.\<close>

theorem hazard_no_slot:
  assumes "hz_quiet (hz_pcs s t)" and "hp_owner s t = None" and "\<And>i. i < MAX_PTR \<Longrightarrow> hp_id s i \<noteq> None"
  shows "run (hz_move exits) (HZ_call_pop t # replicate (Suc MAX_PTR) (HZ_pop_step t None False)) s
    = Some (hz_goto t (HZ_done HZ_no_hazard_pointer) s)"
proof -
  let ?s = "hz_goto t (HZ_slot 0) s"
  have "hz_move exits (HZ_call_pop t) s = Some ?s" using assms(1,2) by simp
  moreover have "run (hz_move exits) (replicate (Suc MAX_PTR) (HZ_pop_step t None False)) ?s
      = Some (hz_goto t (HZ_done HZ_no_hazard_pointer) ?s)"
    by (rule slot_run [where i = 0]) (use assms(3) in simp_all)
  ultimately show ?thesis by (simp only: run.simps option.case) simp
qed

theorem hazard_no_slot_witness:
  "\<exists>s' :: nat hz. run (hz_move False) (HZ_call_pop 5 # replicate (Suc MAX_PTR) (HZ_pop_step 5 None False))
     (hz_new\<lparr>hp_id := (\<lambda>i. Some (i + 10))\<rparr>) = Some s' \<and> hz_pcs s' 5 = HZ_done HZ_no_hazard_pointer"
proof -
  let ?s = "hz_new\<lparr>hp_id := (\<lambda>i. Some (i + 10))\<rparr> :: nat hz"
  have "run (hz_move False) (HZ_call_pop 5 # replicate (Suc MAX_PTR) (HZ_pop_step 5 None False)) ?s
      = Some (hz_goto 5 (HZ_done HZ_no_hazard_pointer) ?s)"
    by (rule hazard_no_slot) (simp_all add: hz_new_def)
  then show ?thesis by simp
qed

end
