(* ===== verification/Hazard_Progress.thy ===== *)
theory Hazard_Progress
  imports Stack_Progress Stack_Hazard
begin

text \<open>
  \<open>concurrent_structures/stack_lockfree.cpp\<close>, the namespace \<open>hazard_ptr\<close>: the stack is lock-free. Besides the loops on
  \<open>head\<close> there is the exchange of \<open>add_to_reclaim_list\<close>, which the changes of the list of nodes to reclaim send back;
  there are only so many of them, because every \<open>pop\<close> takes the list once.
\<close>

subsection \<open>What is left to do\<close>

text \<open>
  With \<open>n\<close> threads and at most \<open>m\<close> records: a record of the list takes a scan of the table, and an exchange that may
  send the others back once more.
\<close>

definition list_todo :: "nat \<Rightarrow> nat \<Rightarrow> nat" where
  "list_todo n k = k * (n + MAX_PTR + 4) + 1"

definition take_todo :: "nat \<Rightarrow> nat \<Rightarrow> nat" where
  "take_todo n m = n + 1 + list_todo n m"

fun after_todo :: "nat \<Rightarrow> nat \<Rightarrow> (nat \<Rightarrow> nat node option) \<Rightarrow> after_add \<Rightarrow> nat" where
  "after_todo n m R Then_take = take_todo n m"
| "after_todo n m R (Then_list p) = list_todo n (list_len R p)"

fun hz_todo :: "nat \<Rightarrow> nat \<Rightarrow> 'a hz \<Rightarrow> 'a hz_pc \<Rightarrow> nat" where
  "hz_todo n m s (HZ_push pc) = push_todo s pc"
| "hz_todo n m s (HZ_slot i) = MAX_PTR - i + 6"
| "hz_todo n m s HZ_load = 5"
| "hz_todo n m s (HZ_store p) = (if p = head s then 4 else 6)"
| "hz_todo n m s (HZ_reload p) = (if p = head s then 3 else 5)"
| "hz_todo n m s (HZ_next a) = (if Some a = head s then 2 else 6)"
| "hz_todo n m s (HZ_cas a p) = (if Some a = head s then 1 else 5)"
| "hz_todo n m s (HZ_clear x) = n + MAX_PTR + 6 + take_todo n m"
| "hz_todo n m s (HZ_swap a) = n + MAX_PTR + 5 + take_todo n m"
| "hz_todo n m s (HZ_scan a x i) = MAX_PTR - i + n + 4 + take_todo n m"
| "hz_todo n m s (HZ_new a x) = n + 3 + take_todo n m"
| "hz_todo n m s (HZ_delete a x) = 1 + take_todo n m"
| "hz_todo n m s (HZ_add k x c) = n + 2 + after_todo n m (records s) k"
| "hz_todo n m s (HZ_add_cas k x c) =
     (if map_option nxt (records s c) = Some (nodes_to_reclaim s) then n + 1 else n + 2) + after_todo n m (records s) k"
| "hz_todo n m s (HZ_take x) = take_todo n m"
| "hz_todo n m s (HZ_list x p) = list_todo n (list_len (records s) p)"
| "hz_todo n m s (HZ_check x c d p i) = MAX_PTR - i + n + 3 + list_todo n (list_len (records s) p)"
| "hz_todo n m s (HZ_reclaim x c p) = 1 + list_todo n (list_len (records s) p)"
| "hz_todo n m s _ = 0"

definition hz_few :: "nat \<Rightarrow> 'a hz \<Rightarrow> bool" where
  "hz_few m s \<longleftrightarrow> finite {c. records s c \<noteq> None} \<and> card {c. records s c \<noteq> None} \<le> m"

definition hz_len :: "nat \<Rightarrow> nat \<Rightarrow> nat" where
  "hz_len n m = n + MAX_PTR + 6 + take_todo n m"

lemma list_todo_mono: "k \<le> m \<Longrightarrow> list_todo n k \<le> list_todo n m"
  by (simp add: list_todo_def)

lemma list_len_few:
  assumes "hz_few m s" and "node_list (records s) p A vs"
  shows "list_len (records s) p \<le> m"
proof -
  have "A \<subseteq> {c. records s c \<noteq> None}" using node_list_alive [OF assms(2)] by auto
  then have "card A \<le> card {c. records s c \<noteq> None}" using assms(1) by (intro card_mono) (auto simp: hz_few_def)
  with assms(1) show ?thesis unfolding list_len_list [OF assms(2)] hz_few_def by linarith
qed

lemma cons_list_chain: "cons_list R B c p \<Longrightarrow> \<exists>vs. node_list R p (B - {c}) vs"
  by (auto simp: cons_list_def)

lemma hz_todo_le:
  assumes few: "hz_few m s" and recs: "hz_records (records s) B c" and "c = HZ_slot i \<longrightarrow> i \<le> MAX_PTR"
  shows "hz_todo n m s c \<le> hz_len n m"
proof -
  have list: "list_todo n (list_len (records s) p) \<le> list_todo n m" if "node_list (records s) p A vs" for p A vs
    using list_len_few [OF few that] by (rule list_todo_mono)
  have after: "after_todo n m (records s) k \<le> take_todo n m" if "cons_list (records s) B a (after_rest k)" for k a
  proof (cases k)
    case (Then_list p)
    with that obtain vs where "node_list (records s) p (B - {a}) vs" by (auto dest: cons_list_chain)
    from list [OF this] Then_list show ?thesis by (simp add: take_todo_def)
  qed simp
  show ?thesis
  proof (cases c)
    case (HZ_push pc)
    then show ?thesis by (cases pc) (auto simp: hz_len_def)
  next
    case (HZ_add k x a)
    with recs after [of a k] show ?thesis by (simp add: hz_len_def)
  next
    case (HZ_add_cas k x a)
    with recs after [of a k] show ?thesis by (simp add: hz_len_def)
  next
    case (HZ_list x p)
    with recs obtain vs where "node_list (records s) p B vs" by auto
    from list [OF this] HZ_list show ?thesis by (simp add: hz_len_def take_todo_def)
  next
    case (HZ_check x a d p i)
    with recs obtain vs where "node_list (records s) p (B - {a}) vs" by (auto dest: cons_list_chain)
    from list [OF this] HZ_check show ?thesis by (simp add: hz_len_def take_todo_def)
  next
    case (HZ_reclaim x a p)
    with recs obtain vs where "node_list (records s) p (B - {a}) vs" by (auto dest: cons_list_chain)
    from list [OF this] HZ_reclaim show ?thesis by (simp add: hz_len_def take_todo_def)
  qed (auto simp: hz_len_def take_todo_def list_todo_def)
qed


text \<open>The calls and the spurious failures; only the exchange of \<open>add_to_reclaim_list\<close> is a weak one.\<close>

fun hz_extra :: "'a hz_event \<Rightarrow> bool" where
  "hz_extra (HZ_pop_step t alloc weak) = weak"
| "hz_extra (HZ_push_step t alloc) = False"
| "hz_extra _ = True"

text \<open>A change of the list of nodes to reclaim may make the exchanges of the others fail.\<close>

definition hz_disturb :: "'a hz \<Rightarrow> 'a hz \<Rightarrow> nat" where
  "hz_disturb s s' = (if nodes_to_reclaim s' = nodes_to_reclaim s then 0 else 1)"

subsection \<open>The steps of the thread itself\<close>

lemma hz_loop_todo:
  assumes "hz_loop t s = Some s'" and "length (hist s') = length (hist s)" and "\<And>a. reading (hz_pcs s t) = Some a \<Longrightarrow> heap s a \<noteq> None"
    and "needs_slot (hz_pcs s t) \<Longrightarrow> hp_owner s t \<noteq> None"
  shows "hz_todo n m s' (hz_pcs s' t) < hz_todo n m s (hz_pcs s t)" and "nodes_to_reclaim s' = nodes_to_reclaim s"
    and "records s' = records s" and "head s' = head s" and "heap s' = heap s"
  using assms by (cases "hz_pcs s t"; force simp: hz_loop_def hp_store_def split: option.splits if_splits)+

lemma hz_list_step_todo:
  assumes rec: "hz_records (records s) B (hz_pcs s t)" and full: "\<And>c m. records s c = Some m \<Longrightarrow> data m \<noteq> None" and few: "hz_few m s"
    and step: "delete_nodes_with_no_hazard t s = Some s'" and le: "\<And>x c d p i. hz_pcs s t = HZ_check x c d p i \<Longrightarrow> i \<le> MAX_PTR"
    and one: "\<exists>vs. node_list (records s) (nodes_to_reclaim s) A vs" and alive: "\<And>b. b \<in> B \<Longrightarrow> records s b \<noteq> None"
  shows "hz_todo n m s' (hz_pcs s' t) + n * hz_disturb s s' < hz_todo n m s (hz_pcs s t)"
proof (cases "hz_pcs s t")
  case (HZ_take x)
  from one obtain vs where "node_list (records s) (nodes_to_reclaim s) A vs" ..
  from list_todo_mono [OF list_len_few [OF few this], of n] HZ_take step show ?thesis
    by (auto simp: delete_nodes_with_no_hazard_def hz_disturb_def take_todo_def)
next
  case (HZ_list x p)
  show ?thesis
  proof (cases p)
    case None
    with HZ_list step show ?thesis by (auto simp: delete_nodes_with_no_hazard_def hz_disturb_def list_todo_def)
  next
    case (Some c)
    with rec HZ_list obtain vs where list: "node_list (records s) (Some c) B vs" by auto
    from node_list_Some [OF this] obtain k ws where k: "records s c = Some k" "c \<in> B" "node_list (records s) (nxt k) (B - {c}) ws" by auto
    with full obtain d where d: "data k = Some d" by blast
    have "card B = Suc (card (B - {c}))" using k(2) node_list_card [OF list] by (metis card_Suc_Diff1)
    then have "list_len (records s) (Some c) = Suc (list_len (records s) (nxt k))" using list_len_list [OF list] list_len_list [OF k(3)] by simp
    with Some HZ_list step k(1) d show ?thesis
      by (auto simp: delete_nodes_with_no_hazard_def with_record_def hz_disturb_def list_todo_def)
  qed
next
  case (HZ_check x c d p i)
  with step le [OF HZ_check] show ?thesis
    by (auto simp: delete_nodes_with_no_hazard_def outstanding_def hz_disturb_def split: if_splits)
next
  case (HZ_reclaim x c p)
  with rec obtain vs where vs: "c \<in> B" "node_list (records s) p (B - {c}) vs" by (auto simp: cons_list_def)
  then have "list_len ((records s)(c := None)) p = list_len (records s) p" by (intro list_len_cong [OF vs(2)]) auto
  moreover have "\<exists>k. records s c = Some k" using alive [OF vs(1)] by auto
  ultimately show ?thesis using step HZ_reclaim full
    by (auto simp: delete_nodes_with_no_hazard_def delete_record_def with_record_def hz_disturb_def Let_def split: option.splits)
qed (use step in \<open>auto simp: delete_nodes_with_no_hazard_def\<close>)


lemma hz_add_todo:
  assumes own: "cons_list (records s) B c (after_rest k)" and alive: "records s c \<noteq> None"
  shows "hz_pcs s t = HZ_add k x c \<Longrightarrow> hz_todo n m (add_store t k x c s) (hz_pcs (add_store t k x c s) t)
      + n * hz_disturb s (add_store t k x c s) < hz_todo n m s (hz_pcs s t)"
    and "hz_pcs s t = HZ_add_cas k x c \<Longrightarrow> hz_todo n m (add_exchange t False k x c s) (hz_pcs (add_exchange t False k x c s) t)
      + n * hz_disturb s (add_exchange t False k x c s) < hz_todo n m s (hz_pcs s t)"
proof -
  from own obtain vs where vs: "node_list (records s) (after_rest k) (B - {c}) vs" by (auto simp: cons_list_def)
  have list_len: "list_len ((records s)(c \<mapsto> z)) p = list_len (records s) p" if "k = Then_list p" for z p
    using vs that by (intro list_len_cong [where A = "B - {c}"]) auto
  then have same: "after_todo n m ((records s)(c \<mapsto> z)) k = after_todo n m (records s) k" for z
    by (cases k) auto
  from alive obtain z where z: "records s c = Some z" by blast
  show "hz_todo n m (add_store t k x c s) (hz_pcs (add_store t k x c s) t)
      + n * hz_disturb s (add_store t k x c s) < hz_todo n m s (hz_pcs s t)" if "hz_pcs s t = HZ_add k x c"
    using that z by (simp add: add_store_def with_record_def hz_disturb_def same)
  show "hz_todo n m (add_exchange t False k x c s) (hz_pcs (add_exchange t False k x c s) t)
      + n * hz_disturb s (add_exchange t False k x c s) < hz_todo n m s (hz_pcs s t)" if "hz_pcs s t = HZ_add_cas k x c"
    using that z by (cases k) (auto simp: add_exchange_def with_record_def hz_disturb_def list_len)
qed

text \<open>A scan never passes the end of the table.\<close>

fun scan_at :: "'a hz_pc \<Rightarrow> nat" where
  "scan_at (HZ_scan a x i) = i"
| "scan_at (HZ_check x c d p i) = i"
| "scan_at _ = 0"

lemma hz_loop_scan_at: "hz_loop t s = Some s' \<Longrightarrow> scan_at (hz_pcs s' u) \<le> max MAX_PTR (scan_at (hz_pcs s u))"
  by (cases "hz_pcs s t") (auto simp: hz_loop_def hp_store_def split: option.splits if_splits)

lemma hz_list_scan_at:
  "delete_nodes_with_no_hazard t s = Some s' \<Longrightarrow> scan_at (hz_pcs s u) \<le> MAX_PTR \<Longrightarrow> scan_at (hz_pcs s t) \<le> MAX_PTR
    \<Longrightarrow> scan_at (hz_pcs s' u) \<le> MAX_PTR"
  by (cases "hz_pcs s t")
    (auto simp: delete_nodes_with_no_hazard_def with_record_def delete_record_def outstanding_def Let_def split: option.splits if_splits)

lemma hz_move_scan_at:
  assumes "hz_move False e s = Some s'" and "\<And>u. scan_at (hz_pcs s u) \<le> MAX_PTR"
  shows "scan_at (hz_pcs s' u) \<le> MAX_PTR"
proof (cases e)
  case (HZ_push_step t alloc)
  with assms show ?thesis
    by (auto simp: hz_push_def push_step_def split: hz_pc.splits push_pc.splits option.splits if_splits)
next
  case (HZ_pop_step t alloc weak)
  with assms have step: "hz_pop t alloc weak s = Some s'" by simp
  show ?thesis
  proof (cases "hz_pcs s t")
    case (HZ_scan a x i)
    with step assms(2) [of u] assms(2) [of t] show ?thesis
      by (auto simp: hz_pop_def outstanding_def split: if_splits)
  qed (use step assms(2) [of u] assms(2) [of t] hz_loop_scan_at [of t s s' u] hz_list_scan_at [of t s s' u] in
    \<open>auto simp: hz_pop_def acquire_slot_def hp_store_def reclaim_later_def add_store_def add_exchange_def with_record_def
      split: option.splits if_splits after_add.splits\<close>)
qed (use assms in \<open>auto split: if_splits option.splits\<close>)

lemma hz_pop_todo:
  assumes ok: "hz_ok r q s" and few: "hz_few m s" and step: "hz_pop t alloc False s = Some s'"
    and same: "length (hist s') = length (hist s)" and scan: "scan_at (hz_pcs s t) \<le> MAX_PTR"
  shows "hz_todo n m s' (hz_pcs s' t) + n * hz_disturb s s' < hz_todo n m s (hz_pcs s t)"
proof -
  let ?B = "{b. q b = Batch t}"
  note th = hz_ok_thread [OF ok, of t] and ro = hz_ok_records [OF ok]
  have recs: "hz_records (records s) ?B (hz_pcs s t)" using th by (simp add: hz_thread_def)
  have alive: "records s b \<noteq> None" if "b \<in> ?B" for b using that ro by (simp add: records_ok_def)
  have full: "records s c = Some k \<Longrightarrow> data k \<noteq> None" for c k using records_retired [OF ro] by fastforce
  have list: "\<exists>vs. node_list (records s) (nodes_to_reclaim s) {c. q c = On_stack} vs" using ro by (simp add: records_ok_def)
  have heap: "r a \<noteq> Free \<Longrightarrow> heap s a \<noteq> None" for a using hz_ok_alive [OF ok] by auto
  have loop: ?thesis if "hz_loop t s = Some s'"
  proof -
    have "reading (hz_pcs s t) = Some a \<Longrightarrow> heap s a \<noteq> None" for a using hz_ok_reading [OF ok, of t a] heap by blast
    moreover have "needs_slot (hz_pcs s t) \<Longrightarrow> hp_owner s t \<noteq> None" using th by (simp add: hz_thread_def)
    ultimately show ?thesis using hz_loop_todo(1,2) [OF that same] by (simp add: hz_disturb_def)
  qed
  have reclaim: ?thesis if "delete_nodes_with_no_hazard t s = Some s'"
    by (rule hz_list_step_todo [OF recs _ few that _ list]) (use full alive scan in auto)
  show ?thesis
  proof (cases "hz_pcs s t")
    case (HZ_slot i)
    moreover have "i \<le> MAX_PTR" using th HZ_slot by (simp add: hz_thread_def)
    ultimately show ?thesis using step by (auto simp: hz_pop_def acquire_slot_def hz_disturb_def)
  next
    case (HZ_clear x)
    then have "hp_owner s t \<noteq> None" using th by (simp add: hz_thread_def)
    with HZ_clear step show ?thesis
      by (cases x) (auto simp: hz_pop_def hp_store_def hz_disturb_def)
  next
    case (HZ_swap a)
    then have "r a = Batch t" using th by (auto simp: hz_thread_def)
    then have "heap s a \<noteq> None" by (intro heap) simp
    with HZ_swap step show ?thesis by (auto simp: hz_pop_def hz_disturb_def)
  next
    case (HZ_scan a x i)
    with step scan show ?thesis by (auto simp: hz_pop_def outstanding_def hz_disturb_def split: if_splits)
  next
    case (HZ_new a x)
    with step show ?thesis by (auto simp: hz_pop_def reclaim_later_def hz_disturb_def split: option.splits if_splits)
  next
    case (HZ_delete a x)
    with step show ?thesis by (auto simp: hz_pop_def hz_disturb_def)
  next
    case (HZ_add k x c)
    then have own: "cons_list (records s) ?B c (after_rest k)" using recs by simp
    then have "records s c \<noteq> None" using alive by (simp add: cons_list_def)
    from hz_add_todo(1) [OF own this HZ_add] HZ_add step show ?thesis by (auto simp: hz_pop_def)
  next
    case (HZ_add_cas k x c)
    then have own: "cons_list (records s) ?B c (after_rest k)" using recs by simp
    then have "records s c \<noteq> None" using alive by (simp add: cons_list_def)
    from hz_add_todo(2) [OF own this HZ_add_cas] HZ_add_cas step show ?thesis by (auto simp: hz_pop_def)
  qed (use step loop reclaim in \<open>simp_all add: hz_pop_def\<close>)
qed

subsection \<open>What a step does to the others\<close>

lemmas hz_pop_unfold = hz_pop_def hz_loop_def delete_nodes_with_no_hazard_def acquire_slot_def hp_store_def reclaim_later_def
  add_store_def add_exchange_def with_record_def delete_record_def delete_node_def outstanding_def Let_def

lemma hz_pop_pcs: "hz_pop t alloc weak s = Some s' \<Longrightarrow> u \<noteq> t \<Longrightarrow> hz_pcs s' u = hz_pcs s u"
  by (cases "hz_pcs s t") (auto simp: hz_pop_unfold split: option.splits if_splits)

lemma hz_pop_head: "hz_pop t alloc weak s = Some s' \<Longrightarrow> length (hist s') = length (hist s) \<Longrightarrow> head s' = head s"
  by (cases "hz_pcs s t") (auto simp: hz_pop_unfold split: option.splits if_splits)

text \<open>The nodes and the records it writes.\<close>

fun hz_writes :: "(nat \<Rightarrow> nat node option) \<Rightarrow> 'a hz_pc \<Rightarrow> nat set" where
  "hz_writes R (HZ_swap a) = {a}"
| "hz_writes R (HZ_delete a x) = {a}"
| "hz_writes R (HZ_reclaim x c p) = {d. \<exists>m. R c = Some m \<and> data m = Some d}"
| "hz_writes R _ = {}"

fun hz_record_writes :: "'a hz_pc \<Rightarrow> nat set" where
  "hz_record_writes (HZ_add k x c) = {c}"
| "hz_record_writes (HZ_add_cas k x c) = {c}"
| "hz_record_writes (HZ_reclaim x c p) = {c}"
| "hz_record_writes _ = {}"

lemma hz_pop_heap: "hz_pop t alloc weak s = Some s' \<Longrightarrow> a \<notin> hz_writes (records s) (hz_pcs s t) \<Longrightarrow> heap s' a = heap s a"
  by (cases "hz_pcs s t") (auto simp: hz_pop_unfold split: option.splits if_splits)

lemma hz_pop_records:
  "hz_pop t alloc weak s = Some s' \<Longrightarrow> b \<notin> hz_record_writes (hz_pcs s t) \<Longrightarrow> records s b \<noteq> None \<Longrightarrow> records s' b = records s b"
  by (cases "hz_pcs s t") (auto simp: hz_pop_unfold split: option.splits if_splits)

lemma hz_todo_other:
  assumes "head s' = head s" and "\<And>a. a \<in> hz_new_nodes c \<Longrightarrow> heap s' a = heap s a"
    and recs: "hz_records (records s) B c" and same: "\<And>b. b \<in> B \<Longrightarrow> records s' b = records s b"
  shows "hz_todo n m s' c \<le> hz_todo n m s c + hz_disturb s s'"
proof -
  have list_len: "list_len (records s') p = list_len (records s) p" if "node_list (records s) p A vs" "A \<subseteq> B" for p A vs
    using that(2) same by (intro list_len_cong [OF that(1)]) auto
  have rest: "list_len (records s') p = list_len (records s) p" if "cons_list (records s) B a p" for a p
  proof -
    from that obtain vs where "node_list (records s) p (B - {a}) vs" by (auto simp: cons_list_def)
    then show ?thesis by (rule list_len) auto
  qed
  have after: "after_todo n m (records s') k = after_todo n m (records s) k" if "cons_list (records s) B a (after_rest k)" for k a
    using rest [OF that] by (cases k) auto
  show ?thesis
  proof (cases c)
    case (HZ_push pc)
    with assms(1,2) push_todo_cong [of s' s pc] show ?thesis by simp
  next
    case (HZ_add_cas k x a)
    with recs have own: "cons_list (records s) B a (after_rest k)" "records s' a = records s a"
      using same by (auto simp: cons_list_def)
    with HZ_add_cas after [OF own(1)] show ?thesis by (auto simp: hz_disturb_def)
  next
    case (HZ_list x p)
    with recs list_len [of p B] show ?thesis by auto
  next
    case (HZ_check x a d p i)
    with recs rest [of a p] show ?thesis by simp
  next
    case (HZ_reclaim x a p)
    with recs rest [of a p] show ?thesis by simp
  next
    case (HZ_add k x a)
    with recs after [of a k] show ?thesis by simp
  qed (use assms(1) in simp_all)
qed

lemma hz_other_step:
  assumes ok: "hz_ok r q s" and step: "hz_move False e s = Some s'" and same: "length (hist s') = length (hist s)"
    and "\<not> hz_extra e" and u: "u \<noteq> hz_actor e"
  shows "hz_todo n m s' (hz_pcs s' u) \<le> hz_todo n m s (hz_pcs s u) + hz_disturb s s'"
proof -
  let ?B = "{b. q b = Batch u}"
  have th: "hz_thread r q s v (hz_pcs s v)" for v using ok by (rule hz_ok_thread)
  then have nodes: "hz_new_nodes (hz_pcs s v) = {b. r b = Private v}" and recs: "hz_records (records s) {b. q b = Batch v} (hz_pcs s v)"
    and own: "hz_own (hz_pcs s v) = {b. r b = Batch v}" for v
    by (auto simp: hz_thread_def)
  have alive: "records s b \<noteq> None" if "q b \<noteq> Free" for b using that hz_ok_records [OF ok] by (simp add: records_ok_def)
  have "head s' = head s \<and> hz_pcs s' u = hz_pcs s u \<and> (\<forall>a. r a = Private u \<longrightarrow> heap s' a = heap s a)
      \<and> (\<forall>b. q b = Batch u \<longrightarrow> records s' b = records s b)"
  proof (cases e)
    case (HZ_push_step t alloc)
    with step obtain pc pc' s1 where pc: "hz_pcs s t = HZ_push pc" "push_step t alloc False pc s = Some (pc', s1)"
      and s': "s' = hz_goto t (hz_after_push pc') s1"
      by (auto simp: hz_push_def split: hz_pc.splits)
    have mine: "push_nodes pc = {b. r b = Private t}" using nodes [of t] pc(1) by simp
    have heap: "heap s a \<noteq> None" if "r a \<noteq> Free" for a using that hz_ok_alive [OF ok] by auto
    have "head s1 = head s" using push_step_todo(2) [OF pc(2)] same s' heap mine by auto
    moreover have "heap s1 a = heap s a" if "r a = Private u" for a
      using push_step_writes [OF pc(2), of a] that u HZ_push_step mine heap by auto
    moreover have "hz_pcs s1 = hz_pcs s \<and> records s1 = records s"
      using pc(2) by (auto simp: push_step_def split: push_pc.splits option.splits if_splits)
    ultimately show ?thesis using s' u HZ_push_step by auto
  next
    case (HZ_pop_step t alloc weak)
    with step have pop: "hz_pop t alloc weak s = Some s'" by simp
    have "r a \<noteq> Private u" if "a \<in> hz_writes (records s) (hz_pcs s t)" for a
      using that own [of t] records_retired [OF hz_ok_records [OF ok]] by (cases "hz_pcs s t") force+
    moreover have "q b \<noteq> Batch u" if "b \<in> hz_record_writes (hz_pcs s t)" for b
      using that recs [of t] u HZ_pop_step by (cases "hz_pcs s t") (auto simp: cons_list_def)
    ultimately show ?thesis
      using hz_pop_head [OF pop same] hz_pop_pcs [OF pop, of u] hz_pop_heap [OF pop] hz_pop_records [OF pop] alive u HZ_pop_step
      by (metis hz_actor.simps(4) role.distinct(5))
  qed (use assms(4) step in simp_all)
  then show ?thesis using hz_todo_other [of s' s "hz_pcs s u" ?B n m] nodes [of u] recs [of u] by auto
qed

subsection \<open>The contract\<close>

definition hz_progress_inv :: "nat \<Rightarrow> 'a hz \<Rightarrow> bool" where
  "hz_progress_inv m s \<longleftrightarrow> hz_inv s \<and> hz_few m s \<and> (\<forall>u. scan_at (hz_pcs s u) \<le> MAX_PTR)"

lemma hz_own_step:
  assumes ok: "hz_ok r q s" and few: "hz_few m s" and scan: "\<And>u. scan_at (hz_pcs s u) \<le> MAX_PTR"
    and step: "hz_move False e s = Some s'" and same: "length (hist s') = length (hist s)" and "\<not> hz_extra e"
  shows "hz_todo n m s' (hz_pcs s' (hz_actor e)) + n * hz_disturb s s' < hz_todo n m s (hz_pcs s (hz_actor e))"
proof (cases e)
  case (HZ_push_step t alloc)
  with step obtain pc pc' s1 where pc: "hz_pcs s t = HZ_push pc" "push_step t alloc False pc s = Some (pc', s1)"
    and s': "s' = hz_goto t (hz_after_push pc') s1"
    by (auto simp: hz_push_def split: hz_pc.splits)
  have "push_nodes pc = {b. r b = Private t}" using hz_ok_thread [OF ok, of t] pc(1) by (simp add: hz_thread_def)
  then have "heap s a \<noteq> None" if "a \<in> push_nodes pc" for a using that hz_ok_alive [OF ok, of a] by auto
  with push_step_todo(1) [OF pc(2)] same s' have "push_todo s1 pc' < push_todo s pc" by auto
  moreover have "push_todo s' pc' = push_todo s1 pc'" by (rule push_todo_cong) (simp_all add: s')
  moreover have "hz_todo n m s' (hz_after_push pc') = push_todo s' pc'" by (cases pc') simp_all
  moreover have "hz_pcs s1 = hz_pcs s \<and> nodes_to_reclaim s1 = nodes_to_reclaim s"
    using pc(2) by (auto simp: push_step_def split: push_pc.splits option.splits if_splits)
  ultimately show ?thesis using s' pc(1) HZ_push_step by (simp add: hz_disturb_def)
next
  case (HZ_pop_step t alloc weak)
  with step assms(6) have "hz_pop t alloc False s = Some s'" by simp
  from hz_pop_todo [OF ok few this same scan] HZ_pop_step show ?thesis by simp
qed (use assms(6) step in simp_all)

lemma hz_progress_le: "hz_progress_inv m s \<Longrightarrow> hz_todo n m s (hz_pcs s u) \<le> hz_len n m"
proof -
  assume "hz_progress_inv m s"
  then obtain r q where ok: "hz_ok r q s" and few: "hz_few m s" by (auto simp: hz_progress_inv_def hz_inv_def)
  from hz_ok_thread [OF ok, of u] show ?thesis by (intro hz_todo_le [OF few]) (auto simp: hz_thread_def)
qed

lemma hz_progress_start: "hz_init s \<Longrightarrow> hz_progress_inv m s"
  using hazard.inv_init by (auto simp: hz_progress_inv_def hz_init_def hz_new_def hz_few_def)

lemma hz_progress_step: "hz_progress_inv m s \<Longrightarrow> within (hz_few m) (hz_move False) e s = Some s' \<Longrightarrow> hz_progress_inv m s'"
  using hazard.inv_move hz_move_scan_at [of e s s'] by (auto simp: hz_progress_inv_def)

interpretation hazard_progress: lock_free_system hz_init "within (hz_few m) (hz_move False)" "hz_progress_inv m" n hz_actor hz_extra
    "\<lambda>s. length (hist s)" "\<lambda>s u. hz_todo n m s (hz_pcs s u)" hz_disturb "hz_len n m" for m n
proof (unfold_locales, goal_cases)
  case (3 s e s')
  then show ?case using hazard.history_grows [of e s s'] by auto
next
  case (5 s e s')
  then obtain r q where "hz_ok r q s" by (auto simp: hz_progress_inv_def hz_inv_def)
  from hz_own_step [OF this, of m e s'] 5 show ?case by (simp add: hz_progress_inv_def)
next
  case (6 s e s' u)
  then obtain r q where "hz_ok r q s" by (auto simp: hz_progress_inv_def hz_inv_def)
  from hz_other_step [OF this, of e s' u n m] 6 show ?case by simp
qed (auto intro: hz_progress_start hz_progress_le hz_progress_step)

text \<open>C6. The stack of \<open>hazard_ptr\<close> is lock-free, with its scans of the table and its list of nodes to reclaim: however
  \<open>n\<close> threads are scheduled, as long as no thread ends and at most \<open>m\<close> records for nodes to reclaim are allocated, a bounded number of steps is taken for
  every operation that takes effect, every call and every spurious failure of an exchange.\<close>

theorem hazard_stack_lock_free:
  assumes "reach hz_init (within (hz_few m) (hz_move False)) s" and "run (within (hz_few m) (hz_move False)) es s = Some s'"
    and "list_all (\<lambda>e. hz_actor e < n) es"
  shows "length es \<le> n * hz_len n m + (n * hz_len n m + 1) * (length (hist s') - length (hist s) + length (filter hz_extra es))
     \<and> hz_len n m = 2 * n + 108 + m * (n + 104)"
  using hazard_progress.lock_free [OF hazard_progress.reach_inv [OF assms(1)] assms(2,3)]
  by (simp add: hz_len_def take_todo_def list_todo_def MAX_PTR_def)

text \<open>Two threads push at the same time, then one of them pops; the run stops in the scan of the table.\<close>

theorem hazard_stack_lock_free_witness:
  "\<exists>es s'. run (within (hz_few 0) (hz_move False)) es (hz_new :: nat hz) = Some s' \<and> hz_pcs s' 0 = HZ_scan 6 (Some 8) 1
     \<and> length es = 19 \<and> length es \<le> 2 * 112 + (2 * 112 + 1) * (length (hist s') + 3)"
proof -
  let ?es = "[HZ_call_push 0 7, HZ_call_push 1 8, HZ_push_step 0 (Some 5), HZ_push_step 1 (Some 6), HZ_push_step 0 None,
    HZ_push_step 1 None, HZ_push_step 0 None, HZ_push_step 1 None, HZ_push_step 1 None, HZ_call_pop 0]
    @ replicate 9 (HZ_pop_step 0 None False) :: nat hz_event list"
  have "\<exists>s'. run (within (hz_few 0) (hz_move False)) ?es (hz_new :: nat hz) = Some s' \<and> hz_pcs s' 0 = HZ_scan 6 (Some 8) 1"
    by (simp add: hz_eval within_def hz_few_def numeral_nat)
  then obtain s' :: "nat hz" where s': "run (within (hz_few 0) (hz_move False)) ?es hz_new = Some s'" "hz_pcs s' 0 = HZ_scan 6 (Some 8) 1"
    by blast
  have "reach hz_init (within (hz_few 0) (hz_move False)) (hz_new :: nat hz)" by (simp add: reach.start hz_init_def)
  from hazard_stack_lock_free [OF this s'(1), of 2]
  have "length ?es \<le> 2 * 112 + (2 * 112 + 1) * (length (hist s') + 3)"
    by (simp add: hz_new_def)
  with s' show ?thesis by (intro exI [of _ ?es] exI [of _ s']) simp
qed

end
