(* ===== verification/Stack_Hazard_Leaks.thy ===== *)
theory Stack_Hazard_Leaks
  imports Stack_Hazard
begin

text \<open>
  Nothing is lost in the stack of \<open>hazard_ptr\<close>: as long as \<open>new data_to_reclaim\<close> finds memory, every node
  that is allocated is on the stack, in the hands of a thread inside an operation, or in a record of the
  list of nodes to reclaim.
\<close>

subsection \<open>Where a node is\<close>

definition on_stack :: "'a hz \<Rightarrow> nat \<Rightarrow> bool" where
  "on_stack s a \<longleftrightarrow> (\<exists>A vs. node_list (heap s) (head s) A vs \<and> a \<in> A)"

definition in_record :: "'a hz \<Rightarrow> nat \<Rightarrow> bool" where
  "in_record s a \<longleftrightarrow> (\<exists>c m. records s c = Some m \<and> data m = Some a)"

definition lossless :: "'a hz \<Rightarrow> bool" where
  "lossless s \<longleftrightarrow> hz_inv s \<and> (\<forall>a. heap s a \<noteq> None \<longrightarrow>
     on_stack s a \<or> (\<exists>t. a \<in> hz_new_nodes (hz_pcs s t) \<union> hz_own (hz_pcs s t)) \<or> in_record s a)"

text \<open>The moves in which the allocation of a record does not throw.\<close>

definition hz_alloc_move :: "'a hz_event \<Rightarrow> 'a hz \<Rightarrow> 'a hz option" where
  "hz_alloc_move e s =
     (case e of
        HZ_pop_step t alloc weak \<Rightarrow>
          (case hz_pcs s t of
             HZ_new a x \<Rightarrow> if alloc = None then None else hz_move False e s
           | _ \<Rightarrow> hz_move False e s)
      | _ \<Rightarrow> hz_move False e s)"

lemma hz_alloc_moveD:
  assumes "hz_alloc_move e s = Some s'"
  shows "hz_move False e s = Some s'" and "e = HZ_pop_step t None weak \<Longrightarrow> hz_pcs s t \<noteq> HZ_new a x"
  using assms by (auto simp: hz_alloc_move_def split: hz_event.splits hz_pc.splits if_splits)

lemma on_stack_role:
  assumes "hz_ok r q s"
  shows "on_stack s a \<longleftrightarrow> r a = On_stack"
proof
  assume "r a = On_stack"
  with hz_ok_stack [OF assms] show "on_stack s a" by (auto simp: stack_ok_def on_stack_def)
next
  assume "on_stack s a"
  then obtain cs where cs: "seg (heap s) (head s) cs" "a \<in> set cs" by (auto simp: on_stack_def node_list_def)
  from hz_ok_stack [OF assms] obtain ds where "seg (heap s) (head s) ds" "set ds = {a. r a = On_stack}"
    by (auto simp: stack_ok_def node_list_def)
  with cs seg_unique [of "heap s" "head s" cs ds] show "r a = On_stack" by auto
qed

lemma on_stack_write:
  assumes "hz_ok r q s" and "r b \<noteq> On_stack" and "heap s' = (heap s)(b := y)" and "head s' = head s" and "on_stack s a"
  shows "on_stack s' a"
proof -
  from hz_ok_stack [OF assms(1)] obtain vs where vs: "node_list (heap s) (head s) {a. r a = On_stack} vs"
    by (auto simp: stack_ok_def)
  have "node_list (heap s') (head s') {a. r a = On_stack} vs"
    unfolding assms(3,4) using assms(2) by (intro node_list_frame [OF vs]) simp
  with assms(5) show ?thesis unfolding on_stack_role [OF assms(1)] unfolding on_stack_def by blast
qed

text \<open>A step keeps the nodes if those that a place loses are found in another one.\<close>

lemma lossless_step:
  assumes "lossless s" and "hz_inv s'" and "\<And>u. u \<noteq> t \<Longrightarrow> hz_pcs s' u = hz_pcs s u"
    and "\<And>a. heap s' a \<noteq> None \<Longrightarrow> heap s a = None \<Longrightarrow> a \<in> hz_new_nodes (hz_pcs s' t)"
    and "\<And>a. heap s' a \<noteq> None \<Longrightarrow> on_stack s a \<Longrightarrow> on_stack s' a \<or> a \<in> hz_own (hz_pcs s' t)"
    and "\<And>a. heap s' a \<noteq> None \<Longrightarrow> a \<in> hz_new_nodes (hz_pcs s t) \<union> hz_own (hz_pcs s t) \<Longrightarrow>
       a \<in> hz_new_nodes (hz_pcs s' t) \<union> hz_own (hz_pcs s' t) \<or> on_stack s' a \<or> in_record s' a"
    and "\<And>a. heap s' a \<noteq> None \<Longrightarrow> in_record s a \<Longrightarrow> in_record s' a"
  shows "lossless s'"
  unfolding lossless_def
proof (intro conjI allI impI)
  show "hz_inv s'" by fact
  fix a assume a: "heap s' a \<noteq> None"
  show "on_stack s' a \<or> (\<exists>t. a \<in> hz_new_nodes (hz_pcs s' t) \<union> hz_own (hz_pcs s' t)) \<or> in_record s' a"
  proof (cases "heap s a = None")
    case True
    with assms(4) [OF a] show ?thesis by blast
  next
    case False
    with assms(1) consider "on_stack s a" | u where "a \<in> hz_new_nodes (hz_pcs s u) \<union> hz_own (hz_pcs s u)" | "in_record s a"
      unfolding lossless_def by blast
    then show ?thesis
    proof cases
      case (2 u)
      show ?thesis
      proof (cases "u = t")
        case True
        with 2 have "a \<in> hz_new_nodes (hz_pcs s t) \<union> hz_own (hz_pcs s t)" by simp
        from assms(6) [OF a this] show ?thesis by blast
      next
        case False
        with 2 assms(3) [OF False] have "a \<in> hz_new_nodes (hz_pcs s' u) \<union> hz_own (hz_pcs s' u)" by simp
        then show ?thesis by blast
      qed
    qed (use assms(5,7) [OF a] in blast)+
  qed
qed

lemma lossless_same:
  assumes "lossless s" and "hz_inv s'" and "\<And>u. u \<noteq> t \<Longrightarrow> hz_pcs s' u = hz_pcs s u"
    and "heap s' = heap s" and "head s' = head s" and "\<And>a. in_record s a \<Longrightarrow> in_record s' a"
    and "hz_new_nodes (hz_pcs s t) \<union> hz_own (hz_pcs s t) \<subseteq> hz_new_nodes (hz_pcs s' t) \<union> hz_own (hz_pcs s' t)"
  shows "lossless s'"
  by (rule lossless_step [OF assms(1-3)]) (use assms(4-7) in \<open>auto simp: on_stack_def\<close>)

text \<open>A write to a node that is not on the stack, or its deletion.\<close>

lemma lossless_write:
  assumes "lossless s" and "hz_inv s'" and ok: "hz_ok r q s" and b: "r b \<noteq> On_stack"
    and s': "heap s' = (heap s)(b := y)" "head s' = head s" "hz_pcs s' = (hz_pcs s)(t := c)"
    and "\<And>a. a \<noteq> b \<or> y \<noteq> None \<Longrightarrow> in_record s a \<Longrightarrow> in_record s' a"
    and "heap s b = None \<Longrightarrow> y \<noteq> None \<Longrightarrow> b \<in> hz_new_nodes c"
    and "\<And>a. a \<in> hz_new_nodes (hz_pcs s t) \<union> hz_own (hz_pcs s t) \<Longrightarrow>
       a \<in> hz_new_nodes c \<union> hz_own c \<or> a = b \<and> y = None \<or> in_record s' a"
  shows "lossless s'"
proof (rule lossless_step [OF assms(1,2), of t])
  show "hz_pcs s' u = hz_pcs s u" if "u \<noteq> t" for u using that by (simp add: s')
  show "a \<in> hz_new_nodes (hz_pcs s' t)" if "heap s' a \<noteq> None" "heap s a = None" for a
    using that assms(9) by (auto simp: s' split: if_splits)
  show "on_stack s' a \<or> a \<in> hz_own (hz_pcs s' t)" if "on_stack s a" for a
    using on_stack_write [OF ok b s'(1,2) that] by simp
  show "a \<in> hz_new_nodes (hz_pcs s' t) \<union> hz_own (hz_pcs s' t) \<or> on_stack s' a \<or> in_record s' a"
    if "heap s' a \<noteq> None" "a \<in> hz_new_nodes (hz_pcs s t) \<union> hz_own (hz_pcs s t)" for a
    using that(1) assms(10) [OF that(2)] by (auto simp: s')
  show "in_record s' a" if "heap s' a \<noteq> None" "in_record s a" for a
    using that assms(8) [of a] by (cases "a = b") (auto simp: s')
qed

lemma lossless_push:
  assumes "lossless s" and inv': "hz_inv s'" and step: "hz_push t alloc s = Some s'"
  shows "lossless s'"
proof -
  from assms(1) obtain r q where ok: "hz_ok r q s" by (auto simp: lossless_def hz_inv_def)
  from step obtain pc pc' s1 where pc: "hz_pcs s t = HZ_push pc" and s1: "push_step t alloc False pc s = Some (pc', s1)"
    and s': "s' = hz_goto t (hz_after_push pc') s1" by (auto simp: hz_push_def split: hz_pc.splits)
  have priv: "r a = Private t" if "a \<in> push_nodes pc" for a
    using hz_ok_thread [OF ok, of t] pc that by (auto simp: hz_thread_def)
  have nofault: "\<not> fault s'" using inv' by (auto simp: hz_inv_def hz_ok_def stack_ok_def)
  show ?thesis
  proof (cases pc)
    case (New_node v)
    show ?thesis
    proof (cases alloc)
      case None
      with New_node s1 s' pc show ?thesis
        by (intro lossless_same [OF assms(1) inv', of t]) (auto simp: push_step_def in_record_def)
    next
      case (Some a)
      with New_node s1 have a: "heap s a = None" "pc' = Load_next a" "s1 = put_node a \<lparr>data = Some v, nxt = None\<rparr> s"
        by (auto simp: push_step_def split: if_splits)
      then have "r a \<noteq> On_stack" using stack_ok_alive [OF hz_ok_stack [OF ok], of a] by simp
      then show ?thesis
        by (rule lossless_write [OF assms(1) inv' ok, where t = t and c = "HZ_push (Load_next a)"])
          (use a s' pc New_node in \<open>auto simp: in_record_def\<close>)
    qed
  next
    case (Load_next a)
    with s1 s' nofault obtain n where n: "heap s a = Some n" "pc' = Cas_push a" "s1 = put_node a (n\<lparr>nxt := head s\<rparr>) s"
      by (auto simp: push_step_def split: option.splits)
    have "r a \<noteq> On_stack" using priv [of a] Load_next by simp
    then show ?thesis
      by (rule lossless_write [OF assms(1) inv' ok, where t = t and c = "HZ_push (Cas_push a)"])
        (use n s' pc Load_next in \<open>auto simp: in_record_def\<close>)
  next
    case (Cas_push a)
    have ra: "r a \<noteq> On_stack" using priv [of a] Cas_push by simp
    from Cas_push s1 s' nofault obtain n where n: "heap s a = Some n" by (auto simp: push_step_def split: option.splits)
    show ?thesis
    proof (cases "nxt n = head s")
      case False
      with Cas_push s1 n have s1': "pc' = Cas_push a" "s1 = put_node a (n\<lparr>nxt := head s\<rparr>) s" by (auto simp: push_step_def)
      from ra show ?thesis
        by (rule lossless_write [OF assms(1) inv' ok, where t = t and c = "HZ_push (Cas_push a)"])
          (use n s1' s' pc Cas_push in \<open>auto simp: in_record_def\<close>)
    next
      case True
      with Cas_push s1 n have s1': "pc' = Pushed" "heap s1 = heap s" "head s1 = Some a" "hz_pcs s1 = hz_pcs s" "records s1 = records s"
        by (auto simp: push_step_def)
      from hz_ok_stack [OF ok] obtain vs where vs: "node_list (heap s) (head s) {a. r a = On_stack} vs"
        by (auto simp: stack_ok_def)
      from node_list_cons [OF vs _ n True] ra
      have "node_list (heap s') (head s') (insert a {a. r a = On_stack}) (data n # vs)" by (simp add: s' s1')
      then have "on_stack s' b" if "b = a \<or> r b = On_stack" for b
        using that unfolding on_stack_def by blast
      then have "on_stack s' b" if "b = a \<or> on_stack s b" for b using that on_stack_role [OF ok, of b] by blast
      then show ?thesis
        by (intro lossless_step [OF assms(1) inv', of t]) (use s1' s' pc Cas_push in \<open>auto simp: in_record_def\<close>)
    qed
  qed (use s1 in \<open>simp_all add: push_step_def\<close>)
qed

definition record_data :: "(nat \<Rightarrow> nat node option) \<Rightarrow> nat \<Rightarrow> bool" where
  "record_data R a \<longleftrightarrow> (\<exists>c m. R c = Some m \<and> data m = Some a)"

lemma in_record_data: "in_record s = record_data (records s)"
  by (simp add: in_record_def record_data_def fun_eq_iff)

lemma record_data_new:
  assumes "R c = None"
  shows "record_data (R(c \<mapsto> m)) a \<longleftrightarrow> record_data R a \<or> data m = Some a"
  using assms unfolding record_data_def by (metis fun_upd_apply option.distinct(1) option.inject)

lemma record_data_link:
  assumes "R c = Some m" and "data m' = data m"
  shows "record_data (R(c \<mapsto> m')) = record_data R"
  using assms unfolding record_data_def fun_eq_iff by (metis fun_upd_apply option.inject)

lemma lossless_pop:
  assumes "lossless s" and inv': "hz_inv s'" and step: "hz_pop t alloc weak s = Some s'"
    and alloc: "\<And>a x. hz_pcs s t = HZ_new a x \<Longrightarrow> alloc \<noteq> None"
  shows "lossless s'"
proof -
  from assms(1) obtain r q where ok: "hz_ok r q s" by (auto simp: lossless_def hz_inv_def)
  have nofault: "\<not> fault s'" using inv' by (auto simp: hz_inv_def hz_ok_def stack_ok_def)
  have own: "r a = Batch t" if "a \<in> hz_own (hz_pcs s t)" for a
    using hz_ok_thread [OF ok, of t] that by (auto simp: hz_thread_def)
  note same = lossless_same [OF assms(1) inv', of t]
  show ?thesis
  proof (cases "hz_pcs s t")
    case (HZ_slot i)
    with step show ?thesis
      by (intro same) (auto simp: hz_pop_def acquire_slot_def in_record_data record_data_new record_data_link split: if_splits)
  next
    case HZ_load
    with step show ?thesis by (intro same) (auto simp: hz_pop_def hz_loop_def in_record_data record_data_new record_data_link)
  next
    case (HZ_store p)
    with step show ?thesis by (intro same) (auto simp: hz_pop_def hz_loop_def hp_store_def in_record_data record_data_new record_data_link split: option.splits)
  next
    case (HZ_reload p)
    with step show ?thesis
      by (intro same) (auto simp: hz_pop_def hz_loop_def in_record_data record_data_new record_data_link split: option.splits if_splits)
  next
    case (HZ_next a)
    with step show ?thesis by (intro same) (auto simp: hz_pop_def hz_loop_def in_record_data record_data_new record_data_link split: option.splits)
  next
    case (HZ_cas a n)
    show ?thesis
    proof (cases "head s = Some a")
      case False
      with HZ_cas step show ?thesis by (intro same) (auto simp: hz_pop_def hz_loop_def in_record_data record_data_new record_data_link)
    next
      case True
      with HZ_cas step have s': "heap s' = heap s" "head s' = n" "records s' = records s" "hz_pcs s' = (hz_pcs s)(t := HZ_clear (Some a))"
        by (auto simp: hz_pop_def hz_loop_def)
      from hz_ok_stack [OF ok] True obtain vs where vs: "node_list (heap s) (Some a) {a. r a = On_stack} vs"
        by (auto simp: stack_ok_def)
      from node_list_Some [OF this] obtain m ws where m: "heap s a = Some m" "node_list (heap s) (nxt m) ({a. r a = On_stack} - {a}) ws"
        by blast
      have "nxt m = n" using hz_ok_thread [OF ok, of t] HZ_cas m(1) by (auto simp: hz_thread_def)
      with m(2) have "on_stack s' b" if "on_stack s b" "b \<noteq> a" for b
        using that on_stack_role [OF ok, of b] unfolding on_stack_def s' by blast
      then show ?thesis
        by (intro lossless_step [OF assms(1) inv', of t]) (use s' HZ_cas in \<open>auto simp: in_record_data record_data_new record_data_link\<close>)
    qed
  next
    case (HZ_clear x)
    with step show ?thesis
      by (intro same; cases x) (auto simp: hz_pop_def hp_store_def in_record_data record_data_new record_data_link split: option.splits)
  next
    case (HZ_swap a)
    with step nofault obtain n where n: "heap s a = Some n" "s' = hz_goto t (HZ_scan a (data n) 0) (put_node a (n\<lparr>data := None\<rparr>) s)"
      by (auto simp: hz_pop_def split: option.splits)
    have "r a \<noteq> On_stack" using own [of a] HZ_swap by simp
    then show ?thesis
      by (rule lossless_write [OF assms(1) inv' ok, where t = t and c = "HZ_scan a (data n) 0"])
        (use n HZ_swap in \<open>auto simp: in_record_data record_data_new record_data_link\<close>)
  next
    case (HZ_scan a x i)
    with step show ?thesis
      by (intro same; cases "outstanding a i s") (auto simp: hz_pop_def in_record_data record_data_new record_data_link split: bool.splits)
  next
    case (HZ_new a x)
    with alloc step obtain c where c: "records s c = None"
      "s' = hz_goto t (HZ_add Then_take x c) (put_record c \<lparr>data = Some a, nxt = None\<rparr> s)"
      by (auto simp: hz_pop_def reclaim_later_def split: if_splits option.splits)
    then show ?thesis
      by (intro lossless_step [OF assms(1) inv', of t]) (use HZ_new in \<open>auto simp: in_record_data record_data_new record_data_link on_stack_def\<close>)
  next
    case (HZ_delete a x)
    have "r a \<noteq> On_stack" using own [of a] HZ_delete by simp
    moreover have "s' = hz_goto t (HZ_take x) (delete_node a s)" using HZ_delete step by (simp add: hz_pop_def)
    moreover from this nofault have "heap s' = (heap s)(a := None)" by (auto simp: delete_node_def split: if_splits)
    ultimately show ?thesis
      by (intro lossless_write [OF assms(1) inv' ok, where t = t and c = "HZ_take x" and b = a and y = None])
        (use HZ_delete in \<open>auto simp: in_record_data record_data_new record_data_link\<close>)
  next
    case (HZ_add k x c)
    with step nofault obtain m where "records s c = Some m"
      "s' = hz_goto t (HZ_add_cas k x c) (put_record c (m\<lparr>nxt := nodes_to_reclaim s\<rparr>) s)"
      by (auto simp: hz_pop_def add_store_def with_record_def split: option.splits)
    then show ?thesis using HZ_add by (intro same) (auto simp: in_record_data record_data_new record_data_link)
  next
    case (HZ_add_cas k x c)
    with step nofault obtain m where m: "records s c = Some m"
      "s' = (if nxt m = nodes_to_reclaim s \<and> \<not> weak
         then hz_goto t (case k of Then_take \<Rightarrow> HZ_take x | Then_list p \<Rightarrow> HZ_list x p) (s\<lparr>nodes_to_reclaim := Some c\<rparr>)
         else put_record c (m\<lparr>nxt := nodes_to_reclaim s\<rparr>) s)"
      by (auto simp: hz_pop_def add_exchange_def with_record_def split: option.splits)
    then show ?thesis using HZ_add_cas by (intro same) (auto simp: in_record_data record_data_new record_data_link split: after_add.splits)
  next
    case (HZ_take x)
    with step show ?thesis
      by (intro same) (auto simp: hz_pop_def delete_nodes_with_no_hazard_def in_record_data record_data_new record_data_link)
  next
    case (HZ_list x p)
    with step show ?thesis
      by (intro same; cases p) (auto simp: hz_pop_def delete_nodes_with_no_hazard_def with_record_def in_record_data record_data_new record_data_link split: option.splits)
  next
    case (HZ_check x c d p i)
    with step show ?thesis
      by (intro same; cases "outstanding d i s")
        (auto simp: hz_pop_def delete_nodes_with_no_hazard_def in_record_data record_data_new record_data_link split: bool.splits)
  next
    case (HZ_reclaim x c p)
    with step have s': "s' = hz_goto t (HZ_list x p) (delete_record c s)" by (simp add: hz_pop_def delete_nodes_with_no_hazard_def)
    with nofault obtain m where m: "records s c = Some m" by (auto simp: delete_record_def with_record_def split: option.splits)
    obtain d where d: "data m = Some d" "r d = Retired" using records_retired [OF hz_ok_records [OF ok] m] by blast
    then have "\<exists>n. heap s d = Some n" using hz_ok_alive [OF ok, of d] by simp
    then have eq: "heap s' = (heap s)(d := None)" "head s' = head s" "records s' = (records s)(c := None)"
      "hz_pcs s' = (hz_pcs s)(t := HZ_list x p)"
      using m d by (auto simp: s' delete_record_def with_record_def Let_def delete_node_def)
    have "r d \<noteq> On_stack" using d(2) by simp
    moreover have "in_record s' a" if "in_record s a" "a \<noteq> d" for a
      using that m d(1) unfolding in_record_data record_data_def eq by (metis fun_upd_other option.inject)
    ultimately show ?thesis
      by (intro lossless_write [OF assms(1) inv' ok, where t = t and c = "HZ_list x p" and b = d and y = None])
        (use HZ_reclaim eq in auto)
  qed (use step in \<open>simp_all add: hz_pop_def hz_loop_def\<close>)
qed

lemma lossless_call:
  assumes "lossless s" and "hz_inv (hz_goto t c s)" and "hz_quiet (hz_pcs s t)"
  shows "lossless (hz_goto t c s)"
proof (rule lossless_same [OF assms(1,2), of t])
  show "hz_new_nodes (hz_pcs s t) \<union> hz_own (hz_pcs s t) \<subseteq> hz_new_nodes (hz_pcs (hz_goto t c s) t) \<union> hz_own (hz_pcs (hz_goto t c s) t)"
    using assms(3) by (cases "hz_pcs s t") auto
qed (simp_all add: in_record_data)

lemma lossless_move:
  assumes "lossless s" and move: "hz_alloc_move e s = Some s'"
  shows "lossless s'"
proof -
  note m = hz_alloc_moveD [OF move]
  have inv': "hz_inv s'" using hz_inv_move [OF _ m(1)] assms(1) by (simp add: lossless_def)
  show ?thesis
  proof (cases e)
    case (HZ_call_push t v)
    with m(1) inv' show ?thesis by (auto intro: lossless_call [OF assms(1)] split: if_splits)
  next
    case (HZ_call_pop t)
    with m(1) inv' show ?thesis by (auto intro: lossless_call [OF assms(1)] split: if_splits)
  next
    case (HZ_push_step t alloc)
    with m(1) have "hz_push t alloc s = Some s'" by simp
    then show ?thesis by (rule lossless_push [OF assms(1) inv'])
  next
    case (HZ_pop_step t alloc weak)
    with m(1) have "hz_pop t alloc weak s = Some s'" by simp
    then show ?thesis
    proof (rule lossless_pop [OF assms(1) inv'])
      show "alloc \<noteq> None" if "hz_pcs s t = HZ_new a x" for a x using m(2) [of t weak a x] HZ_pop_step that by auto
    qed
  qed (use m(1) in simp)
qed

interpretation hazard_lossless: invariant_system hz_init hz_alloc_move lossless
proof
  fix s :: "'a hz" assume "hz_init s"
  then show "lossless s" using hz_inv_start by (auto simp: lossless_def hz_init_def hz_new_def)
next
  fix s t :: "'a hz" and e assume "lossless s" "hz_alloc_move e s = Some t"
  then show "lossless t" by (rule lossless_move)
qed

text \<open>A record of a thread is in one of the places of \<open>pop\<close>, so a quiet thread has none.\<close>

lemma quiet_places:
  assumes "hz_ok r q s" and "hz_quiet (hz_pcs s t)"
  shows "r a \<noteq> Private t" and "r a \<noteq> Batch t" and "q c \<noteq> Batch t"
proof -
  from hz_ok_thread [OF assms(1), of t] assms(2)
  have "{b. r b = Private t} = {}" "{b. r b = Batch t} = {}" "{b. q b = Batch t} = {}"
    unfolding hz_thread_def by (cases "hz_pcs s t"; simp)+
  then show "r a \<noteq> Private t" "r a \<noteq> Batch t" "q c \<noteq> Batch t" by blast+
qed

text \<open>C5. The stack of \<open>hazard_ptr\<close> loses nothing, as long as no thread ends and no allocation of a record fails: whenever no
  thread is inside an operation every node that is still allocated is on the stack or in a record of
  \<open>nodes_to_reclaim\<close> (never both), and every record that is allocated is on that list.\<close>

theorem hazard_no_leak:
  assumes "reach hz_init hz_alloc_move s" and quiet: "\<And>t. hz_quiet (hz_pcs s t)"
  shows "\<exists>A vs B ds. node_list (heap s) (head s) A vs \<and> node_list (records s) (nodes_to_reclaim s) B (map Some ds)
     \<and> {a. heap s a \<noteq> None} = A \<union> set ds \<and> A \<inter> set ds = {} \<and> {c. records s c \<noteq> None} = B"
proof -
  from hazard_lossless.reach_inv [OF assms(1)] have l: "lossless s" .
  then obtain r q where ok: "hz_ok r q s" by (auto simp: lossless_def hz_inv_def)
  note recs = hz_ok_records [OF ok]
  from hz_ok_stack [OF ok] obtain vs where A: "node_list (heap s) (head s) {a. r a = On_stack} vs"
    by (auto simp: stack_ok_def)
  from records_list [OF recs] obtain ws where B: "node_list (records s) (nodes_to_reclaim s) {c. q c = On_stack} ws" by blast
  have q: "q c = Free \<or> q c = On_stack" for c
    using records_role [OF recs, of c] quiet_places(3) [OF ok quiet] by (cases "q c") auto
  have all: "{c. records s c \<noteq> None} = {c. q c = On_stack}"
    using records_alive [OF recs] q by (metis role.distinct(1))
  have ws: "set ws = (\<lambda>c. Option.bind (records s c) data) ` {c. records s c \<noteq> None}"
    unfolding all using B by (auto simp: node_list_def)
  have "\<exists>d. w = Some d" if "w \<in> set ws" for w
    using that records_retired [OF recs] unfolding ws by fastforce
  then obtain ds where map: "ws = map Some ds"
    by (metis (no_types, lifting) ex_map_conv)
  have ds: "d \<in> set ds \<longleftrightarrow> in_record s d" for d
  proof -
    have "d \<in> set ds \<longleftrightarrow> Some d \<in> set ws" by (auto simp: map)
    also have "\<dots> \<longleftrightarrow> in_record s d" unfolding ws in_record_def by (force simp: Option.bind_eq_Some_conv image_iff)
    finally show ?thesis .
  qed
  have r: "r d = Retired" if "in_record s d" for d
    using that records_retired [OF recs] unfolding in_record_def by fastforce
  have "heap s a \<noteq> None" if "r a = On_stack \<or> r a = Retired" for a using hz_ok_alive [OF ok, of a] that by auto
  moreover have "on_stack s a \<or> in_record s a" if "heap s a \<noteq> None" for a
  proof -
    have "a \<notin> hz_new_nodes (hz_pcs s t) \<union> hz_own (hz_pcs s t)" for t
      using quiet [of t] by (cases "hz_pcs s t") auto
    with l that show ?thesis unfolding lossless_def by blast
  qed
  ultimately have "{a. heap s a \<noteq> None} = {a. r a = On_stack} \<union> set ds"
    using r unfolding on_stack_role [OF ok] ds [symmetric] by blast
  moreover have "{a. r a = On_stack} \<inter> set ds = {}" using r ds by fastforce
  ultimately show ?thesis using A B all unfolding map by blast
qed

theorem hazard_no_leak_witness:
  "\<exists>s :: nat hz. reach hz_init hz_alloc_move s \<and> nodes_to_reclaim s = Some 9
     \<and> (\<exists>A vs B ds. node_list (heap s) (head s) A vs \<and> node_list (records s) (Some 9) B (map Some ds)
       \<and> {a. heap s a \<noteq> None} = A \<union> set ds \<and> A \<inter> set ds = {} \<and> {c. records s c \<noteq> None} = B)"
proof -
  have "\<exists>s :: nat hz. reach hz_init hz_alloc_move s \<and> ((\<forall>t. hz_quiet (hz_pcs s t)) \<and> nodes_to_reclaim s = Some 9)"
    by (rule reach_witness [where s = hz_new and es = "[HZ_call_push 0 7, HZ_push_step 0 (Some 5), HZ_push_step 0 None,
          HZ_push_step 0 None, HZ_call_pop 1] @ replicate 5 (HZ_pop_step 1 None False) @ [HZ_call_pop 2]
          @ replicate 19 (HZ_pop_step 2 (Some 9) False) @ replicate 4 (HZ_pop_step 1 None False)"],
        simp add: hz_init_def, simp add: hz_alloc_move_def hz_eval numeral_nat)
  then obtain s :: "nat hz" where s: "reach hz_init hz_alloc_move s" "\<And>t. hz_quiet (hz_pcs s t)" "nodes_to_reclaim s = Some 9"
    by blast
  from hazard_no_leak [OF s(1,2)] s(1,3) show ?thesis by auto
qed

text \<open>The hypothesis is needed: when \<open>new data_to_reclaim\<close> throws, the node that has been taken off the stack
  is left allocated with nothing that refers to it.\<close>

theorem hazard_bad_alloc_leaks:
  "\<exists>s :: nat hz. reach hz_init (hz_move False) s \<and> (\<forall>t. hz_quiet (hz_pcs s t)) \<and> hz_pcs s 2 = HZ_done HZ_bad_alloc
     \<and> heap s 5 \<noteq> None \<and> head s = None \<and> nodes_to_reclaim s = None \<and> (\<forall>c. records s c = None)"
  by (rule reach_witness [where s = hz_new and es = "[HZ_call_push 0 7, HZ_push_step 0 (Some 5), HZ_push_step 0 None,
        HZ_push_step 0 None, HZ_call_pop 1] @ replicate 5 (HZ_pop_step 1 None False) @ [HZ_call_pop 2]
        @ replicate 11 (HZ_pop_step 2 None False) @ replicate 4 (HZ_pop_step 1 None False)"],
      simp add: hz_init_def, simp add: hz_eval numeral_nat)

end
