(* ===== verification/Threadsafe_Queue.thy ===== *)
theory Threadsafe_Queue
  imports Fifo_Spec
begin

text \<open>
  \<open>c++_features_experiment/threadsafe_queue.cpp\<close>: the unbounded queue on a mutex and a condition
  variable. A step is the acquisition of \<open>mut\<close>, or what a thread does with the mutex until it
  releases it, at the end of its scope or in \<open>wait\<close>.
\<close>

subsection \<open>State\<close>

datatype 'a ts_result = TS_unit | TS_value 'a | TS_bool bool | TS_throws

datatype 'a ts_pc =
    TS_idle
  | Add_lock 'a | Add_body 'a \<comment> \<open>\<open>add_elem\<close>: about to lock; holding the mutex\<close>
  | Pop_lock | Pop_body | Pop_sleep \<comment> \<open>\<open>wait_and_pop\<close>; asleep on \<open>empty_check\<close>\<close>
  | Empty_lock | Empty_body \<comment> \<open>\<open>empty\<close>\<close>
  | TS_returned "'a ts_result"

text \<open>
  The fields and the threads; a condition variable is the list of the threads asleep on it.
  \<open>ts_log\<close> and \<open>ts_taken\<close> are history variables that no step reads.
\<close>

record 'a tsq =
  safe_queue :: "'a list"
  empty_check :: "tid list"
  mut :: "tid option"
  ts_pcs :: "tid \<Rightarrow> 'a ts_pc"
  ts_log :: "'a list"
  ts_taken :: "'a list"

definition ts_new :: "'a tsq" where
  "ts_new = \<lparr>safe_queue = [], empty_check = [], mut = None, ts_pcs = (\<lambda>_. TS_idle), ts_log = [], ts_taken = []\<rparr>"

definition ts_init :: "'a tsq \<Rightarrow> bool" where
  "ts_init s \<longleftrightarrow> s = ts_new"

definition ts_goto :: "tid \<Rightarrow> 'a ts_pc \<Rightarrow> 'a tsq \<Rightarrow> 'a tsq" where
  "ts_goto t c s = s\<lparr>ts_pcs := (ts_pcs s)(t := c)\<rparr>"

definition ts_acquire :: "tid \<Rightarrow> 'a ts_pc \<Rightarrow> 'a tsq \<Rightarrow> 'a tsq option" where
  "ts_acquire t c s = (if mut s = None then Some (ts_goto t c (s\<lparr>mut := Some t\<rparr>)) else None)"

definition ts_return :: "tid \<Rightarrow> 'a ts_result \<Rightarrow> 'a tsq \<Rightarrow> 'a tsq" where
  "ts_return t r s = ts_goto t (TS_returned r) (s\<lparr>mut := None\<rparr>)"

text \<open>\<open>notify_one\<close> wakes the \<open>i\<close>-th sleeper, if there is one: which one is open.\<close>

definition ts_wake :: "tid \<Rightarrow> 'a tsq \<Rightarrow> 'a tsq" where
  "ts_wake u s = ts_goto u Pop_lock (s\<lparr>empty_check := remove1 u (empty_check s)\<rparr>)"

definition ts_notify_one :: "nat \<Rightarrow> 'a tsq \<Rightarrow> 'a tsq option" where
  "ts_notify_one i s =
     (if empty_check s = [] then Some s
      else if i < length (empty_check s) then Some (ts_wake (empty_check s ! i) s)
      else None)"

subsection \<open>Operations\<close>

text \<open>The push of the standard queue changes nothing when it throws (\<open>fits\<close> is false).\<close>

definition add_elem :: "tid \<Rightarrow> nat \<Rightarrow> bool \<Rightarrow> 'a tsq \<Rightarrow> 'a tsq option" where
  "add_elem t i fits s =
     (case ts_pcs s t of
        Add_lock v \<Rightarrow> ts_acquire t (Add_body v) s
      | Add_body v \<Rightarrow>
          (if \<not> fits then Some (ts_return t TS_throws s)
           else map_option (ts_return t TS_unit)
                  (ts_notify_one i (s\<lparr>safe_queue := safe_queue s @ [v], ts_log := ts_log s @ [v]\<rparr>)))
      | _ \<Rightarrow> None)"

text \<open>\<open>moves\<close> is false when the move constructor of the element throws.\<close>

definition wait_and_pop :: "tid \<Rightarrow> bool \<Rightarrow> 'a tsq \<Rightarrow> 'a tsq option" where
  "wait_and_pop t moves s =
     (case ts_pcs s t of
        Pop_lock \<Rightarrow> ts_acquire t Pop_body s
      | Pop_body \<Rightarrow>
          (case safe_queue s of
             [] \<Rightarrow> Some (ts_goto t Pop_sleep (s\<lparr>mut := None, empty_check := empty_check s @ [t]\<rparr>))
           | v # vs \<Rightarrow>
               if \<not> moves then Some (ts_return t TS_throws s)
               else Some (ts_return t (TS_value v) (s\<lparr>safe_queue := vs, ts_taken := ts_taken s @ [v]\<rparr>)))
      | _ \<Rightarrow> None)"

definition queue_empty :: "tid \<Rightarrow> 'a tsq \<Rightarrow> 'a tsq option" where
  "queue_empty t s =
     (case ts_pcs s t of
        Empty_lock \<Rightarrow> ts_acquire t Empty_body s
      | Empty_body \<Rightarrow> Some (ts_return t (TS_bool (safe_queue s \<noteq> [])) s)
      | _ \<Rightarrow> None)"

definition ts_spurious_wakeup :: "tid \<Rightarrow> 'a tsq \<Rightarrow> 'a tsq option" where
  "ts_spurious_wakeup t s = (if t \<in> set (empty_check s) then Some (ts_wake t s) else None)"

datatype 'a ts_event =
    TS_call tid "'a ts_pc" | TS_add tid nat bool | TS_pop tid bool | TS_empty tid | TS_spurious tid

fun ts_quiet :: "'a ts_pc \<Rightarrow> bool" where
  "ts_quiet TS_idle = True"
| "ts_quiet (TS_returned r) = True"
| "ts_quiet _ = False"

text \<open>A call puts an idle thread at the first point of an operation.\<close>

fun ts_entry :: "'a ts_pc \<Rightarrow> bool" where
  "ts_entry (Add_lock v) = True"
| "ts_entry Pop_lock = True"
| "ts_entry Empty_lock = True"
| "ts_entry _ = False"

fun ts_move :: "'a ts_event \<Rightarrow> 'a tsq \<Rightarrow> 'a tsq option" where
  "ts_move (TS_call t c) s = (if ts_quiet (ts_pcs s t) \<and> ts_entry c then Some (ts_goto t c s) else None)"
| "ts_move (TS_add t i fits) s = add_elem t i fits s"
| "ts_move (TS_pop t moves) s = wait_and_pop t moves s"
| "ts_move (TS_empty t) s = queue_empty t s"
| "ts_move (TS_spurious t) s = ts_spurious_wakeup t s"

subsection \<open>The invariant\<close>

fun ts_holds :: "'a ts_pc \<Rightarrow> bool" where
  "ts_holds (Add_body v) = True"
| "ts_holds Pop_body = True"
| "ts_holds Empty_body = True"
| "ts_holds _ = False"

text \<open>The threads that will look at the queue again before they leave \<open>wait_and_pop\<close>.\<close>

definition ts_popping :: "(tid \<Rightarrow> 'a ts_pc) \<Rightarrow> tid set" where
  "ts_popping P = {t. P t = Pop_lock \<or> P t = Pop_body}"

definition ts_inv :: "'a tsq \<Rightarrow> bool" where
  "ts_inv s \<longleftrightarrow> (\<forall>t. ts_holds (ts_pcs s t) \<longleftrightarrow> mut s = Some t)
     \<and> distinct (empty_check s) \<and> (\<forall>t. t \<in> set (empty_check s) \<longleftrightarrow> ts_pcs s t = Pop_sleep)
     \<and> ts_log s = ts_taken s @ safe_queue s"

lemma ts_goto_simps [simp]:
  "safe_queue (ts_goto t c s) = safe_queue s" "empty_check (ts_goto t c s) = empty_check s" "mut (ts_goto t c s) = mut s"
  "ts_pcs (ts_goto t c s) = (ts_pcs s)(t := c)" "ts_log (ts_goto t c s) = ts_log s" "ts_taken (ts_goto t c s) = ts_taken s"
  by (simp_all add: ts_goto_def)

lemma ts_wake_simps [simp]:
  "safe_queue (ts_wake t s) = safe_queue s" "empty_check (ts_wake t s) = remove1 t (empty_check s)" "mut (ts_wake t s) = mut s"
  "ts_pcs (ts_wake t s) = (ts_pcs s)(t := Pop_lock)" "ts_log (ts_wake t s) = ts_log s" "ts_taken (ts_wake t s) = ts_taken s"
  by (simp_all add: ts_wake_def)

lemma ts_return_simps [simp]:
  "safe_queue (ts_return t r s) = safe_queue s" "empty_check (ts_return t r s) = empty_check s" "mut (ts_return t r s) = None"
  "ts_pcs (ts_return t r s) = (ts_pcs s)(t := TS_returned r)" "ts_log (ts_return t r s) = ts_log s"
  "ts_taken (ts_return t r s) = ts_taken s"
  by (simp_all add: ts_return_def)

text \<open>Every move: a call, an acquisition, or the body of an operation.\<close>

lemma ts_move_cases [consumes 1, case_names Call Acquire Throws Add Sleep Pop Ask Wake]:
  assumes "ts_move e s = Some s'"
  obtains (Call) t c where "ts_quiet (ts_pcs s t)" "ts_entry c" "s' = ts_goto t c s"
  | (Acquire) t c where "mut s = None" "ts_holds c" "\<not> ts_holds (ts_pcs s t)" "ts_pcs s t \<noteq> Pop_sleep"
      "c = Pop_body \<longleftrightarrow> ts_pcs s t = Pop_lock" "s' = ts_goto t c (s\<lparr>mut := Some t\<rparr>)"
  | (Throws) t where "ts_holds (ts_pcs s t)" "ts_pcs s t = Pop_body \<Longrightarrow> e = TS_pop t False" "s' = ts_return t TS_throws s"
  | (Add) t v i s1 where "ts_pcs s t = Add_body v"
      "ts_notify_one i (s\<lparr>safe_queue := safe_queue s @ [v], ts_log := ts_log s @ [v]\<rparr>) = Some s1" "s' = ts_return t TS_unit s1"
  | (Sleep) t where "ts_pcs s t = Pop_body" "safe_queue s = []"
      "s' = ts_goto t Pop_sleep (s\<lparr>mut := None, empty_check := empty_check s @ [t]\<rparr>)"
  | (Pop) t v vs where "ts_pcs s t = Pop_body" "safe_queue s = v # vs"
      "s' = ts_return t (TS_value v) (s\<lparr>safe_queue := vs, ts_taken := ts_taken s @ [v]\<rparr>)"
  | (Ask) t where "ts_pcs s t = Empty_body" "s' = ts_return t (TS_bool (safe_queue s \<noteq> [])) s"
  | (Wake) t where "t \<in> set (empty_check s)" "s' = ts_wake t s"
proof -
  have acquire: thesis if "ts_acquire t c s = Some s'" "ts_holds c" "\<not> ts_holds (ts_pcs s t)" "ts_pcs s t \<noteq> Pop_sleep"
    "c = Pop_body \<longleftrightarrow> ts_pcs s t = Pop_lock" for t c
    using that Acquire [of c t] by (simp add: ts_acquire_def split: if_splits)
  show thesis
  proof (cases e)
    case (TS_call t c)
    with assms Call show ?thesis by (simp split: if_splits)
  next
    case (TS_add t i fits)
    with assms Throws [of t] Add [of t] show ?thesis
      by (cases "ts_pcs s t") (auto simp: add_elem_def split: if_splits intro: acquire)
  next
    case (TS_pop t moves)
    with assms Throws [of t] Sleep [of t] Pop [of t] show ?thesis
      by (cases "ts_pcs s t") (auto simp: wait_and_pop_def split: if_splits list.splits intro: acquire)
  next
    case (TS_empty t)
    with assms Ask [of t] show ?thesis
      by (cases "ts_pcs s t") (auto simp: queue_empty_def split: if_splits intro: acquire)
  next
    case (TS_spurious t)
    with assms Wake show ?thesis by (simp add: ts_spurious_wakeup_def split: if_splits)
  qed
qed

lemma ts_owner: "ts_inv s \<Longrightarrow> ts_holds (ts_pcs s t) \<longleftrightarrow> mut s = Some t"
  by (simp add: ts_inv_def)

lemma ts_asleep: "ts_inv s \<Longrightarrow> u \<in> set (empty_check s) \<Longrightarrow> ts_pcs s u = Pop_sleep \<and> mut s \<noteq> Some u"
  by (metis ts_owner ts_inv_def ts_holds.simps(7))

lemma ts_wake_inv:
  assumes "ts_inv s" and "u \<in> set (empty_check s)"
  shows "ts_inv (ts_wake u s)"
  using assms ts_asleep [OF assms] by (auto simp: ts_inv_def)

lemma ts_notify_inv: "ts_inv s \<Longrightarrow> ts_notify_one i s = Some s' \<Longrightarrow> ts_inv s'"
  by (auto simp: ts_notify_one_def split: if_splits intro: ts_wake_inv)

lemma ts_return_inv:
  assumes "ts_inv s" and "mut s = Some t"
  shows "ts_inv (ts_return t r s)"
proof -
  have "ts_pcs s t \<noteq> Pop_sleep" using assms ts_owner [OF assms(1), of t] by auto
  with assms show ?thesis by (auto simp: ts_inv_def)
qed

lemma ts_notify_keeps:
  "ts_notify_one i s = Some s' \<Longrightarrow> mut s' = mut s \<and> safe_queue s' = safe_queue s \<and> ts_log s' = ts_log s \<and> ts_taken s' = ts_taken s"
  by (auto simp: ts_notify_one_def split: if_splits)

lemma ts_inv_move:
  assumes inv: "ts_inv s" and "ts_move e s = Some s'"
  shows "ts_inv s'"
  using assms(2)
proof (cases rule: ts_move_cases)
  case (Call t c)
  then have "\<not> ts_holds c" "c \<noteq> Pop_sleep" "\<not> ts_holds (ts_pcs s t)" "ts_pcs s t \<noteq> Pop_sleep"
    by (cases c; cases "ts_pcs s t"; simp)+
  with inv Call show ?thesis by (auto simp: ts_inv_def)
next
  case (Acquire t c)
  then have "c \<noteq> Pop_sleep" by auto
  with inv Acquire show ?thesis by (auto simp: ts_inv_def)
next
  case (Throws t)
  with inv ts_owner [OF inv] show ?thesis by (simp add: ts_return_inv)
next
  case (Add t v i s1)
  let ?s = "s\<lparr>safe_queue := safe_queue s @ [v], ts_log := ts_log s @ [v]\<rparr>"
  have "ts_inv ?s" using inv by (simp add: ts_inv_def)
  with Add(2) have "ts_inv s1" by (rule ts_notify_inv [rotated])
  moreover have "mut s1 = Some t" using ts_notify_keeps [OF Add(2)] ts_owner [OF inv, of t] Add(1) by simp
  ultimately show ?thesis using Add(3) by (simp add: ts_return_inv)
next
  case (Sleep t)
  with inv show ?thesis by (auto simp: ts_inv_def)
next
  case (Pop t v vs)
  have "ts_inv (s\<lparr>safe_queue := vs, ts_taken := ts_taken s @ [v]\<rparr>)" using inv Pop by (simp add: ts_inv_def)
  then show ?thesis using Pop ts_owner [OF inv, of t] by (simp add: ts_return_inv)
next
  case (Ask t)
  with ts_owner [OF inv, of t] inv show ?thesis by (simp add: ts_return_inv)
next
  case (Wake t)
  with inv show ?thesis by (simp add: ts_wake_inv)
qed

lemma ts_inv_start: "ts_init s \<Longrightarrow> ts_inv s"
  by (simp add: ts_init_def ts_new_def ts_inv_def)

subsection \<open>Refinement of the queue\<close>

definition ts_abs :: "'a tsq \<Rightarrow> 'a fifo" where
  "ts_abs s = \<lparr>entered = ts_log s, left = ts_taken s\<rparr>"

lemma ts_contents: "ts_inv s \<Longrightarrow> contents (ts_abs s) = safe_queue s"
  by (simp add: ts_inv_def ts_abs_def contents_def)

lemma ts_simulates:
  assumes inv: "ts_inv s" and "ts_move e s = Some s'" and "length (safe_queue s') \<le> cap"
  shows "ts_abs s' = ts_abs s \<or> (\<exists>f. fifo_move cap f (ts_abs s) = Some (ts_abs s'))"
  using assms(2)
proof (cases rule: ts_move_cases)
  case (Add t v i s1)
  then have "ts_abs s' = (ts_abs s)\<lparr>entered := entered (ts_abs s) @ [v]\<rparr>" "safe_queue s' = safe_queue s @ [v]"
    using ts_notify_keeps [OF Add(2)] by (simp_all add: ts_abs_def)
  with assms(3) have "fifo_move cap (Enq v) (ts_abs s) = Some (ts_abs s')" by (simp add: ts_contents [OF inv])
  then show ?thesis by blast
next
  case (Pop t v vs)
  then have "fifo_move cap Deq (ts_abs s) = Some (ts_abs s')" by (simp add: ts_contents [OF inv]) (simp add: ts_abs_def)
  then show ?thesis by blast
qed (simp_all add: ts_abs_def)

lemma ts_abs_start: "ts_init s \<Longrightarrow> fifo_init (ts_abs s)"
  by (simp add: ts_abs_def ts_init_def ts_new_def fifo_init_def)

interpretation tsq: fifo_queue ts_init "within (\<lambda>s. length (safe_queue s) \<le> cap) ts_move" ts_inv cap ts_abs for cap
  by unfold_locales
    (auto intro: ts_inv_start ts_inv_move dest: ts_simulates simp: ts_abs_start)

interpretation tsq_mutex: lock_system ts_init ts_move ts_inv "\<lambda>s t. ts_holds (ts_pcs s t)"
  by unfold_locales (rule ts_inv_start, assumption, rule ts_inv_move, assumption+, simp add: ts_owner)

subsection \<open>No thread is left behind\<close>

fun ts_move_throws :: "'a ts_event \<Rightarrow> bool" where
  "ts_move_throws (TS_pop t moves) = (\<not> moves)"
| "ts_move_throws _ = False"

text \<open>The moves in which no move constructor of an element throws.\<close>

definition ts_nothrow_move :: "'a ts_event \<Rightarrow> 'a tsq \<Rightarrow> 'a tsq option" where
  "ts_nothrow_move e s = (if ts_move_throws e then None else ts_move e s)"

definition ts_served :: "'a tsq \<Rightarrow> bool" where
  "ts_served s \<longleftrightarrow> ts_inv s \<and> finite (ts_popping (ts_pcs s))
     \<and> (empty_check s = [] \<or> length (safe_queue s) \<le> card (ts_popping (ts_pcs s)))"

lemma ts_popping_upd:
  "ts_popping (P(t := c)) = (if c = Pop_lock \<or> c = Pop_body then insert t (ts_popping P) else ts_popping P - {t})"
  by (auto simp: ts_popping_def)

lemma ts_popping_idle: "P t \<noteq> Pop_lock \<Longrightarrow> P t \<noteq> Pop_body \<Longrightarrow> ts_popping P - {t} = ts_popping P"
  by (auto simp: ts_popping_def)

lemma ts_wake_popping:
  assumes "ts_inv s" and "u \<in> set (empty_check s)" and "finite (ts_popping (ts_pcs s))"
  shows "card (ts_popping (ts_pcs (ts_wake u s))) = Suc (card (ts_popping (ts_pcs s)))"
proof -
  have "u \<notin> ts_popping (ts_pcs s)" using ts_asleep [OF assms(1,2)] by (simp add: ts_popping_def)
  with assms(3) show ?thesis by (simp add: ts_popping_upd)
qed

lemma ts_notify_popping:
  assumes "ts_inv s" and "ts_notify_one i s = Some s'" and "finite (ts_popping (ts_pcs s))"
  shows "finite (ts_popping (ts_pcs s'))"
    and "empty_check s' = [] \<or> Suc (card (ts_popping (ts_pcs s))) = card (ts_popping (ts_pcs s'))"
    and "\<not> ts_holds (ts_pcs s t) \<or> ts_pcs s' t = ts_pcs s t"
proof -
  show "finite (ts_popping (ts_pcs s'))"
    using assms by (auto simp: ts_notify_one_def ts_popping_upd split: if_splits)
  show "empty_check s' = [] \<or> Suc (card (ts_popping (ts_pcs s))) = card (ts_popping (ts_pcs s'))"
    using assms(2) ts_wake_popping [OF assms(1) nth_mem assms(3), of i] by (auto simp: ts_notify_one_def split: if_splits)
  show "\<not> ts_holds (ts_pcs s t) \<or> ts_pcs s' t = ts_pcs s t"
    using assms(2) ts_asleep [OF assms(1) nth_mem, of i] by (auto simp: ts_notify_one_def split: if_splits)
qed

lemma ts_served_move:
  assumes served: "ts_served s" and "ts_nothrow_move e s = Some s'"
  shows "ts_served s'"
proof -
  from assms(2) have step: "ts_move e s = Some s'" and ok: "\<not> ts_move_throws e"
    by (auto simp: ts_nothrow_move_def split: if_splits)
  from served have inv: "ts_inv s" and fin: "finite (ts_popping (ts_pcs s))"
    and le: "empty_check s = [] \<or> length (safe_queue s) \<le> card (ts_popping (ts_pcs s))" by (auto simp: ts_served_def)
  have "finite (ts_popping (ts_pcs s')) \<and> (empty_check s' = [] \<or> length (safe_queue s') \<le> card (ts_popping (ts_pcs s')))"
    using step
  proof (cases rule: ts_move_cases)
    case (Call t c)
    then have "t \<notin> ts_popping (ts_pcs s)" by (auto simp: ts_popping_def)
    with Call fin le show ?thesis by (auto simp: ts_popping_upd)
  next
    case (Acquire t c)
    then have "c \<noteq> Pop_lock" by auto
    with Acquire have "ts_popping ((ts_pcs s)(t := c)) = ts_popping (ts_pcs s)" by (auto simp: ts_popping_def)
    with Acquire fin le show ?thesis by simp
  next
    case (Throws t)
    with ok have "ts_pcs s t \<noteq> Pop_body" "ts_pcs s t \<noteq> Pop_lock" by auto
    with Throws fin le show ?thesis by (simp add: ts_popping_upd ts_popping_idle)
  next
    case (Add t v i s1)
    let ?s = "s\<lparr>safe_queue := safe_queue s @ [v], ts_log := ts_log s @ [v]\<rparr>"
    have inv': "ts_inv ?s" using inv by (simp add: ts_inv_def)
    note n = ts_notify_popping [OF inv' Add(2)] ts_notify_keeps [OF Add(2)]
    have t: "ts_pcs s1 t = Add_body v" using n(3) [of t] fin Add(1) by simp
    have "empty_check s1 = [] \<or> empty_check s \<noteq> []" using Add(2) by (auto simp: ts_notify_one_def split: if_splits)
    with n fin le Add(3) t show ?thesis by (auto simp: ts_popping_upd ts_popping_idle)
  next
    case (Sleep t)
    with fin show ?thesis by (simp add: ts_popping_upd)
  next
    case (Pop t v vs)
    then have "t \<in> ts_popping (ts_pcs s)" by (simp add: ts_popping_def)
    with Pop fin le show ?thesis by (auto simp: ts_popping_upd card_Diff_singleton)
  next
    case (Ask t)
    with fin le show ?thesis by (simp add: ts_popping_upd ts_popping_idle)
  next
    case (Wake t)
    with ts_wake_popping [OF inv Wake(1) fin] fin le show ?thesis by (auto simp: ts_popping_upd)
  qed
  with ts_inv_move [OF inv step] show ?thesis by (simp add: ts_served_def)
qed

lemma ts_served_start: "ts_init s \<Longrightarrow> ts_served s"
  using ts_inv_start by (auto simp: ts_served_def ts_init_def ts_new_def ts_popping_def)

interpretation tsq_served: invariant_system ts_init ts_nothrow_move ts_served
  by unfold_locales (auto intro: ts_served_start ts_served_move)

lemmas ts_eval = ts_new_def add_elem_def wait_and_pop_def queue_empty_def ts_acquire_def ts_goto_def ts_return_def
  ts_notify_one_def ts_wake_def

subsection \<open>Properties\<close>



text \<open>C25. No thread is left behind in the thread-safe queue, as long as no move constructor throws: when
  a thread sleeps in \<open>wait_and_pop\<close>, every value in the queue has a thread inside \<open>wait_and_pop\<close> that
  is awake.\<close>

theorem threadsafe_queue_served:
  assumes "reach ts_init ts_nothrow_move s" and "ts_pcs s t = Pop_sleep"
  shows "length (safe_queue s) \<le> card {u. ts_pcs s u = Pop_lock \<or> ts_pcs s u = Pop_body}"
proof -
  have served: "ts_served s" using assms(1) by (rule tsq_served.reach_inv)
  with assms(2) have "empty_check s \<noteq> []" by (auto simp: ts_served_def ts_inv_def)
  with served show ?thesis by (simp add: ts_served_def ts_popping_def)
qed

theorem threadsafe_queue_served_witness:
  "\<exists>s :: nat tsq. reach ts_init ts_nothrow_move s \<and> ts_pcs s 3 = Pop_sleep \<and> safe_queue s = [7]
     \<and> 1 \<le> card {u. ts_pcs s u = Pop_lock \<or> ts_pcs s u = Pop_body}"
proof -
  have "\<exists>s :: nat tsq. reach ts_init ts_nothrow_move s \<and> (ts_pcs s 3 = Pop_sleep \<and> safe_queue s = [7])"
    by (rule reach_witness [where s = ts_new and es = "[TS_call 2 Pop_lock, TS_pop 2 True, TS_pop 2 True,
          TS_call 3 Pop_lock, TS_pop 3 True, TS_pop 3 True, TS_call 1 (Add_lock 7), TS_add 1 0 True, TS_add 1 0 True]"],
        simp add: ts_init_def, simp add: ts_eval ts_nothrow_move_def)
  then obtain s :: "nat tsq" where s: "reach ts_init ts_nothrow_move s" "ts_pcs s 3 = Pop_sleep" "safe_queue s = [7]"
    by blast
  with threadsafe_queue_served [OF s(1,2)] show ?thesis by (intro exI [of _ s]) simp
qed

text \<open>
  Without that hypothesis a wake-up can be lost: a thread whose move constructor throws leaves its value
  in the queue and does not pass the notification on.
\<close>

theorem threadsafe_queue_lost_wakeup:
  "\<exists>s :: nat tsq. reach ts_init ts_move s \<and> ts_pcs s 3 = Pop_sleep \<and> safe_queue s = [7] \<and> mut s = None
     \<and> (\<forall>t. t \<noteq> 3 \<longrightarrow> ts_quiet (ts_pcs s t))"
proof -
  have "\<exists>s :: nat tsq. reach ts_init ts_move s \<and> (ts_pcs s = (\<lambda>_. TS_idle)
        (2 := TS_returned TS_throws, 3 := Pop_sleep, 1 := TS_returned TS_unit) \<and> safe_queue s = [7] \<and> mut s = None)"
    by (rule reach_witness [where s = ts_new and es = "[TS_call 2 Pop_lock, TS_pop 2 True, TS_pop 2 True,
          TS_call 3 Pop_lock, TS_pop 3 True, TS_pop 3 True, TS_call 1 (Add_lock 7), TS_add 1 0 True, TS_add 1 0 True,
          TS_pop 2 True, TS_pop 2 False]"],
        simp add: ts_init_def, simp add: ts_eval fun_eq_iff)
  then show ?thesis by (elim exE conjE, intro exI conjI) (assumption, simp_all)
qed

text \<open>\<open>empty()\<close> answers the opposite of its name.\<close>

theorem queue_empty_inverted:
  "ts_pcs s t = Empty_body \<Longrightarrow> map_option (\<lambda>s'. ts_pcs s' t) (queue_empty t s) = Some (TS_returned (TS_bool (safe_queue s \<noteq> [])))"
  by (simp add: queue_empty_def)

end
