(* ===== verification/Threadsafe_Queue_Demo.thy ===== *)
theory Threadsafe_Queue_Demo
  imports Threadsafe_Queue "HOL-Library.Multiset"
begin

text \<open>
  The program of \<open>c++_features_experiment/threadsafe_queue.cpp\<close>: \<open>main\<close> starts ten threads in turn, the even
  ones run \<open>func_add\<close>, the odd ones \<open>func_rem\<close>, and joins them. It is a client of the queue in
  \<open>Threadsafe_Queue\<close>: every step of a call is a step of that model.
\<close>

subsection \<open>The program\<close>

text \<open>Where a thread is: not started, at its begin, inside a call, at its end with the number it has printed.\<close>

datatype func_pc = F_none | F_begin | F_add int | F_pop | F_end int

text \<open>
  \<open>td_started\<close> and \<open>td_joined\<close> are the counters of the two loops of \<open>main\<close>; \<open>td_added\<close> and \<open>td_popped\<close> are the
  numbers printed behind \<open>add\<close> and \<open>pop\<close>. \<open>td_dead\<close>: an exception has left a thread, which ends the program.
\<close>

record td =
  td_queue :: "int tsq"
  td_pcs :: "tid \<Rightarrow> func_pc"
  td_started :: nat
  td_joined :: nat
  td_added :: "int list"
  td_popped :: "int list"
  td_dead :: bool

definition td_new :: td where
  "td_new = \<lparr>td_queue = ts_new, td_pcs = (\<lambda>_. F_none), td_started = 0, td_joined = 0, td_added = [],
     td_popped = [], td_dead = False\<rparr>"

definition td_init :: "td \<Rightarrow> bool" where
  "td_init s \<longleftrightarrow> s = td_new"

definition td_goto :: "tid \<Rightarrow> func_pc \<Rightarrow> td \<Rightarrow> td" where
  "td_goto t c s = s\<lparr>td_pcs := (td_pcs s)(t := c)\<rparr>"

definition in_tsq :: "int ts_event \<Rightarrow> td \<Rightarrow> td option" where
  "in_tsq e s = map_option (\<lambda>q. s\<lparr>td_queue := q\<rparr>) (ts_move e (td_queue s))"

text \<open>\<open>r\<close> is what \<open>rand\<close> returns. Nothing catches the exception of \<open>add_elem\<close>; moving an \<open>int\<close> does not throw.\<close>

definition func_add :: "tid \<Rightarrow> int \<Rightarrow> nat \<Rightarrow> bool \<Rightarrow> td \<Rightarrow> td option" where
  "func_add t r n fits s =
     (case td_pcs s t of
        F_begin \<Rightarrow> in_tsq (TS_call t (Add_lock r)) (td_goto t (F_add r) (s\<lparr>td_added := td_added s @ [r]\<rparr>))
      | F_add v \<Rightarrow>
          (case ts_pcs (td_queue s) t of
             TS_returned res \<Rightarrow>
               if res = TS_throws then Some (s\<lparr>td_dead := True\<rparr>) else Some (td_goto t (F_end v) s)
           | _ \<Rightarrow> in_tsq (TS_add t n fits) s)
      | _ \<Rightarrow> None)"

definition func_rem :: "tid \<Rightarrow> td \<Rightarrow> td option" where
  "func_rem t s =
     (case td_pcs s t of
        F_begin \<Rightarrow> in_tsq (TS_call t Pop_lock) (td_goto t F_pop s)
      | F_pop \<Rightarrow>
          (case ts_pcs (td_queue s) t of
             TS_returned res \<Rightarrow>
               (case res of
                  TS_value v \<Rightarrow> Some (td_goto t (F_end v) (s\<lparr>td_popped := td_popped s @ [v]\<rparr>))
                | _ \<Rightarrow> None)
           | _ \<Rightarrow> in_tsq (TS_pop t True) s)
      | _ \<Rightarrow> None)"

fun func_ended :: "func_pc \<Rightarrow> bool" where
  "func_ended (F_end v) = True"
| "func_ended _ = False"

definition td_main :: "td \<Rightarrow> td option" where
  "td_main s =
     (if td_started s < 10 then Some (td_goto (td_started s) F_begin (s\<lparr>td_started := td_started s + 1\<rparr>))
      else if td_joined s < 10 then
        (if func_ended (td_pcs s (td_joined s)) then Some (s\<lparr>td_joined := td_joined s + 1\<rparr>) else None)
      else None)"

datatype td_event = TD_main | TD_thread tid int nat bool | TD_spurious tid

definition td_move :: "td_event \<Rightarrow> td \<Rightarrow> td option" where
  "td_move e s =
     (if td_dead s then None
      else case e of
        TD_main \<Rightarrow> td_main s
      | TD_thread t r n fits \<Rightarrow> if even t then func_add t r n fits s else func_rem t s
      | TD_spurious t \<Rightarrow> in_tsq (TS_spurious t) s)"

subsection \<open>What the threads have contributed\<close>

text \<open>For a thread at a program point with the point of its call: what it has put, taken and printed.\<close>

fun put_by :: "tid \<Rightarrow> func_pc \<Rightarrow> int ts_pc \<Rightarrow> int multiset" where
  "put_by t (F_add v) p = (if p = TS_returned TS_unit then {#v#} else {#})"
| "put_by t (F_end v) p = (if even t then {#v#} else {#})"
| "put_by t _ p = {#}"

fun value_of :: "int ts_pc \<Rightarrow> int multiset" where
  "value_of (TS_returned (TS_value v)) = {#v#}"
| "value_of _ = {#}"

fun taken_by :: "tid \<Rightarrow> func_pc \<Rightarrow> int ts_pc \<Rightarrow> int multiset" where
  "taken_by t F_pop p = value_of p"
| "taken_by t (F_end v) p = (if even t then {#} else {#v#})"
| "taken_by t _ p = {#}"

fun added_by :: "tid \<Rightarrow> func_pc \<Rightarrow> int ts_pc \<Rightarrow> int multiset" where
  "added_by t (F_add v) p = {#v#}"
| "added_by t (F_end v) p = (if even t then {#v#} else {#})"
| "added_by t _ p = {#}"

fun popped_by :: "tid \<Rightarrow> func_pc \<Rightarrow> int ts_pc \<Rightarrow> int multiset" where
  "popped_by t (F_end v) p = (if even t then {#} else {#v#})"
| "popped_by t _ p = {#}"

text \<open>The steps a thread has left, if it does not sleep again; the step that notifies pays for a wake-up.\<close>

fun func_rank :: "tid \<Rightarrow> func_pc \<Rightarrow> int ts_pc \<Rightarrow> nat" where
  "func_rank t (F_end v) p = 0"
| "func_rank t (F_add v) p = (case p of Add_lock w \<Rightarrow> 6 | Add_body w \<Rightarrow> 5 | _ \<Rightarrow> 1)"
| "func_rank t F_pop p = (case p of Pop_lock \<Rightarrow> 5 | Pop_body \<Rightarrow> 4 | Pop_sleep \<Rightarrow> 3 | _ \<Rightarrow> 1)"
| "func_rank t _ p = 7"

definition td_total :: "(tid \<Rightarrow> func_pc \<Rightarrow> int ts_pc \<Rightarrow> 'n) \<Rightarrow> (tid \<Rightarrow> func_pc) \<Rightarrow> (tid \<Rightarrow> int ts_pc) \<Rightarrow> 'n :: cancel_comm_monoid_add" where
  "td_total f cs ps = (\<Sum>t<10. f t (cs t) (ps t))"

lemma td_total_upd: "t < 10 \<Longrightarrow> td_total f (cs(t := c)) (ps(t := p)) + f t (cs t) (ps t) = td_total f cs ps + f t c p"
proof -
  assume "t < 10"
  then have split: "sum g {..<10} = g t + sum g ({..<10} - {t})" for g :: "nat \<Rightarrow> 'a" by (intro sum.remove) auto
  have "(\<Sum>i \<in> {..<10} - {t}. f i ((cs(t := c)) i) ((ps(t := p)) i)) = (\<Sum>i \<in> {..<10} - {t}. f i (cs i) (ps i))"
    by (rule sum.cong) auto
  then show ?thesis unfolding td_total_def split by (simp add: ac_simps)
qed

lemma td_total_wake: "ps u = Pop_sleep \<Longrightarrow> f u (cs u) Pop_lock = f u (cs u) Pop_sleep \<Longrightarrow> td_total f cs (ps(u := Pop_lock)) = td_total f cs ps"
  unfolding td_total_def by (rule sum.cong) auto

subsection \<open>The invariant\<close>

fun td_ok :: "tid \<Rightarrow> func_pc \<Rightarrow> int ts_pc \<Rightarrow> bool" where
  "td_ok t (F_add v) p \<longleftrightarrow> even t \<and> (p = Add_lock v \<or> p = Add_body v \<or> p = TS_returned TS_unit \<or> p = TS_returned TS_throws)"
| "td_ok t F_pop p \<longleftrightarrow> odd t \<and> (p = Pop_lock \<or> p = Pop_body \<or> p = Pop_sleep \<or> (\<exists>v. p = TS_returned (TS_value v)))"
| "td_ok t (F_end v) p \<longleftrightarrow> ts_quiet p"
| "td_ok t _ p \<longleftrightarrow> p = TS_idle"

definition td_inv :: "td \<Rightarrow> bool" where
  "td_inv s \<longleftrightarrow> ts_served (td_queue s) \<and> (\<forall>t. td_ok t (td_pcs s t) (ts_pcs (td_queue s) t))
     \<and> (\<forall>t. td_pcs s t = F_none \<longleftrightarrow> td_started s \<le> t) \<and> td_started s \<le> 10
     \<and> (\<forall>t. t < td_joined s \<longrightarrow> func_ended (td_pcs s t)) \<and> td_joined s \<le> 10
     \<and> mset (ts_log (td_queue s)) = td_total put_by (td_pcs s) (ts_pcs (td_queue s))
     \<and> mset (ts_taken (td_queue s)) = td_total taken_by (td_pcs s) (ts_pcs (td_queue s))
     \<and> mset (td_added s) = td_total added_by (td_pcs s) (ts_pcs (td_queue s))
     \<and> mset (td_popped s) = td_total popped_by (td_pcs s) (ts_pcs (td_queue s))"

definition td_rank :: "td \<Rightarrow> nat" where
  "td_rank s = (if td_dead s then 0 else (10 - td_started s) + (10 - td_joined s)
     + td_total func_rank (td_pcs s) (ts_pcs (td_queue s)))"

lemma td_inv_start: "td_inv td_new"
  by (simp add: td_inv_def td_new_def td_total_def ts_served_start ts_init_def) (simp add: ts_new_def)

lemma td_rank_start: "td_rank td_new = 90"
  by (simp add: td_rank_def td_new_def td_total_def)

lemma ts_served_inv: "ts_served q \<Longrightarrow> ts_inv q"
  by (simp add: ts_served_def)

text \<open>
  The step of a thread: its own points change, and in the queue perhaps those of a sleeper, which is not
  counted by any of the totals but the rank.
\<close>

lemma td_thread_ok:
  assumes inv: "td_inv s" "\<not> td_dead s" and t: "t < 10" "td_pcs s t \<noteq> F_none" "c \<noteq> F_none" "\<not> func_ended (td_pcs s t)"
    and served: "ts_served q'" and ok: "td_ok t c p"
    and P: "ts_pcs q' = (ts_pcs (td_queue s))(t := p)
      \<or> (\<exists>u. u \<noteq> t \<and> ts_pcs (td_queue s) u = Pop_sleep \<and> ts_pcs q' = (ts_pcs (td_queue s))(t := p, u := Pop_lock)
          \<and> func_rank t c p + 2 < func_rank t (td_pcs s t) (ts_pcs (td_queue s) t))"
    and rank: "func_rank t c p < func_rank t (td_pcs s t) (ts_pcs (td_queue s) t)"
    and put: "mset (ts_log q') + put_by t (td_pcs s t) (ts_pcs (td_queue s) t) = mset (ts_log (td_queue s)) + put_by t c p"
    and taken: "mset (ts_taken q') + taken_by t (td_pcs s t) (ts_pcs (td_queue s) t) = mset (ts_taken (td_queue s)) + taken_by t c p"
    and added: "mset a + added_by t (td_pcs s t) (ts_pcs (td_queue s) t) = mset (td_added s) + added_by t c p"
    and popped: "mset b + popped_by t (td_pcs s t) (ts_pcs (td_queue s) t) = mset (td_popped s) + popped_by t c p"
    and s': "s' = s\<lparr>td_queue := q', td_pcs := (td_pcs s)(t := c), td_added := a, td_popped := b\<rparr>"
  shows "td_inv s' \<and> td_rank s' < td_rank s"
proof -
  let ?cs = "td_pcs s" and ?ps = "ts_pcs (td_queue s)"
  let ?cs' = "?cs(t := c)" and ?pt = "?ps(t := p)"
  have oks: "td_ok u (?cs u) (?ps u)" for u using inv(1) by (simp add: td_inv_def)
  have sleeper: "?cs u = F_pop \<and> u < 10" if "?ps u = Pop_sleep" for u
  proof -
    have "?cs u = F_pop" using oks [of u] that by (cases "?cs u") auto
    moreover from this inv(1) have "\<not> td_started s \<le> u" "td_started s \<le> 10"
      by (auto simp: td_inv_def) (metis func_pc.distinct(5))
    ultimately show ?thesis by simp
  qed
  have same: "td_total f ?cs' (ts_pcs q') = td_total f ?cs' ?pt"
    if "\<And>u. f u F_pop Pop_lock = f u F_pop Pop_sleep" for f :: "tid \<Rightarrow> func_pc \<Rightarrow> int ts_pc \<Rightarrow> int multiset"
    using P
  proof (elim disjE exE conjE)
    fix u assume u: "u \<noteq> t" "?ps u = Pop_sleep" "ts_pcs q' = ?ps(t := p, u := Pop_lock)"
    with sleeper [of u] have "?pt u = Pop_sleep" "?cs' u = F_pop" by auto
    with u(3) that show ?thesis using td_total_wake [of ?pt u f ?cs'] by simp
  qed simp
  have upd: "td_total f ?cs' ?pt + f t (?cs t) (?ps t) = td_total f ?cs ?ps + f t c p"
    for f :: "tid \<Rightarrow> func_pc \<Rightarrow> int ts_pc \<Rightarrow> 'n :: cancel_comm_monoid_add"
    using t(1) by (rule td_total_upd)
  have total: "m' = td_total f ?cs' (ts_pcs q')"
    if "m' + f t (?cs t) (?ps t) = m + f t c p" "m = td_total f ?cs ?ps" "\<And>u. f u F_pop Pop_lock = f u F_pop Pop_sleep"
    for f :: "tid \<Rightarrow> func_pc \<Rightarrow> int ts_pc \<Rightarrow> int multiset" and m m'
    using that(1,2) upd [of f] same [of f, OF that(3)] by (metis add_right_cancel)
  have "mset (ts_log q') = td_total put_by ?cs' (ts_pcs q')"
    by (rule total [where m1 = "mset (ts_log (td_queue s))"]) (use put inv(1) in \<open>auto simp: td_inv_def\<close>)
  moreover have "mset (ts_taken q') = td_total taken_by ?cs' (ts_pcs q')"
    by (rule total [where m1 = "mset (ts_taken (td_queue s))"]) (use taken inv(1) in \<open>auto simp: td_inv_def\<close>)
  moreover have "mset a = td_total added_by ?cs' (ts_pcs q')"
    by (rule total [where m1 = "mset (td_added s)"]) (use added inv(1) in \<open>auto simp: td_inv_def\<close>)
  moreover have "mset b = td_total popped_by ?cs' (ts_pcs q')"
    by (rule total [where m1 = "mset (td_popped s)"]) (use popped inv(1) in \<open>auto simp: td_inv_def\<close>)
  ultimately have totals: "mset (ts_log q') = td_total put_by ?cs' (ts_pcs q')" "mset (ts_taken q') = td_total taken_by ?cs' (ts_pcs q')"
    "mset a = td_total added_by ?cs' (ts_pcs q')" "mset b = td_total popped_by ?cs' (ts_pcs q')" by simp_all
  have oks': "td_ok u (?cs' u) (ts_pcs q' u)" for u
    using P
  proof (elim disjE exE conjE)
    fix w assume w: "w \<noteq> t" "?ps w = Pop_sleep" "ts_pcs q' = ?ps(t := p, w := Pop_lock)"
    with sleeper [of w] oks [of u] oks [of w] ok show ?thesis by (cases "u = w"; cases "u = t") auto
  qed (use ok oks in auto)
  have "td_total func_rank ?cs' (ts_pcs q') < td_total func_rank ?cs ?ps"
    using P
  proof (elim disjE exE conjE)
    assume "ts_pcs q' = ?pt"
    with upd [of func_rank] rank show ?thesis by simp
  next
    fix u assume u: "u \<noteq> t" "?ps u = Pop_sleep" "ts_pcs q' = ?ps(t := p, u := Pop_lock)"
      "func_rank t c p + 2 < func_rank t (?cs t) (?ps t)"
    have "u < 10" using sleeper [OF u(2)] by simp
    from td_total_upd [OF this, of func_rank ?cs' "?cs' u" ?pt Pop_lock, unfolded fun_upd_triv]
    have "td_total func_rank ?cs' (?pt(u := Pop_lock)) + 3 = td_total func_rank ?cs' ?pt + 5"
      using u(1,2) sleeper [OF u(2)] by simp
    with u(3,4) upd [of func_rank] show ?thesis by simp
  qed
  with totals oks' served inv t show ?thesis by (auto simp: s' td_inv_def td_rank_def)
qed

lemma td_inv_thread:
  assumes "td_inv s" and "td_pcs s t \<noteq> F_none"
  shows "t < 10" and "td_ok t (td_pcs s t) (ts_pcs (td_queue s) t)" and "ts_served (td_queue s)"
proof -
  from assms have "\<not> td_started s \<le> t" "td_started s \<le> 10" by (auto simp: td_inv_def)
  then show "t < 10" by simp
qed (use assms(1) in \<open>auto simp: td_inv_def\<close>)

lemma ts_served_step: "ts_served q \<Longrightarrow> ts_move e q = Some q' \<Longrightarrow> \<not> ts_move_throws e \<Longrightarrow> ts_served q'"
  by (rule ts_served_move) (auto simp: ts_nothrow_move_def)

lemma ts_notify_shape:
  assumes "ts_inv q" and "ts_notify_one i q = Some q'"
  shows "q' = q \<or> (\<exists>u. ts_pcs q u = Pop_sleep \<and> q' = ts_wake u q)"
  using assms ts_asleep [OF assms(1) nth_mem, of i] by (auto simp: ts_notify_one_def split: if_splits)

lemma func_add_ok:
  assumes inv: "td_inv s" "\<not> td_dead s" and "even t" and step: "func_add t r n fits s = Some s'"
  shows "td_inv s' \<and> td_rank s' < td_rank s"
proof -
  let ?q = "td_queue s"
  have some: "td_pcs s t \<noteq> F_none" using step by (auto simp: func_add_def)
  note t = td_inv_thread [OF inv(1) some]
  show ?thesis
  proof (cases "td_pcs s t")
    case F_begin
    let ?q' = "ts_goto t (Add_lock r) ?q"
    have idle: "ts_pcs ?q t = TS_idle" using t(2) F_begin by simp
    then have e: "ts_move (TS_call t (Add_lock r)) ?q = Some ?q'" by simp
    have s': "s' = s\<lparr>td_queue := ?q', td_pcs := (td_pcs s)(t := F_add r), td_added := td_added s @ [r], td_popped := td_popped s\<rparr>"
      using step F_begin e by (auto simp: func_add_def in_tsq_def td_goto_def)
    show ?thesis
      by (rule td_thread_ok [OF inv t(1) some, where c = "F_add r" and p = "Add_lock r" and q' = ?q'
            and a = "td_added s @ [r]" and b = "td_popped s"])
        (use F_begin idle \<open>even t\<close> ts_served_step [OF t(3) e] s' in simp_all)
  next
    case (F_add v)
    consider (lock) "ts_pcs ?q t = Add_lock v" | (body) "ts_pcs ?q t = Add_body v" | (unit) "ts_pcs ?q t = TS_returned TS_unit"
      | (throws) "ts_pcs ?q t = TS_returned TS_throws" using t(2) F_add by auto
    then show ?thesis
    proof cases
      case lock
      then obtain q' where e: "ts_move (TS_add t n fits) ?q = Some q'" and s': "s' = s\<lparr>td_queue := q'\<rparr>"
        using step F_add by (auto simp: func_add_def in_tsq_def)
      from e lock have q': "q' = ts_goto t (Add_body v) (?q\<lparr>mut := Some t\<rparr>)"
        by (auto simp: add_elem_def ts_acquire_def split: if_splits)
      show ?thesis
        by (rule td_thread_ok [OF inv t(1) some, where c = "F_add v" and p = "Add_body v" and q' = q'
              and a = "td_added s" and b = "td_popped s"])
          (use F_add lock \<open>even t\<close> ts_served_step [OF t(3) e] s' in \<open>simp_all add: q' fun_upd_idem\<close>)
    next
      case body
      then obtain q' where e: "ts_move (TS_add t n fits) ?q = Some q'" and s': "s' = s\<lparr>td_queue := q'\<rparr>"
        using step F_add by (auto simp: func_add_def in_tsq_def)
      let ?q1 = "?q\<lparr>safe_queue := safe_queue ?q @ [v], ts_log := ts_log ?q @ [v]\<rparr>"
      show ?thesis
      proof (cases fits)
        case False
        with e body have q': "q' = ts_return t TS_throws ?q" by (simp add: add_elem_def)
        show ?thesis
          by (rule td_thread_ok [OF inv t(1) some, where c = "F_add v" and p = "TS_returned TS_throws" and q' = q'
                and a = "td_added s" and b = "td_popped s"])
            (use F_add body \<open>even t\<close> ts_served_step [OF t(3) e] s' in \<open>simp_all add: q' fun_upd_idem\<close>)
      next
        case True
        with e body obtain q2 where q2: "ts_notify_one n ?q1 = Some q2" "q' = ts_return t TS_unit q2"
          by (auto simp: add_elem_def)
        have "ts_inv ?q1" using t(3) by (simp add: ts_served_def ts_inv_def)
        from ts_notify_shape [OF this q2(1)]
        have q': "q' = ts_return t TS_unit ?q1 \<or> (\<exists>u. u \<noteq> t \<and> ts_pcs ?q u = Pop_sleep \<and> q' = ts_return t TS_unit (ts_wake u ?q1))"
        proof (elim disjE exE conjE)
          fix u assume u: "ts_pcs ?q1 u = Pop_sleep" "q2 = ts_wake u ?q1"
          with body have "u \<noteq> t" by auto
          with u q2(2) show ?thesis by auto
        qed (use q2(2) in simp)
        then have P: "ts_pcs q' = (ts_pcs ?q)(t := TS_returned TS_unit)
            \<or> (\<exists>u. u \<noteq> t \<and> ts_pcs ?q u = Pop_sleep \<and> ts_pcs q' = (ts_pcs ?q)(t := TS_returned TS_unit, u := Pop_lock))"
          by (auto simp: fun_upd_twist)
        from q' have log: "ts_log q' = ts_log ?q @ [v]" "ts_taken q' = ts_taken ?q" by auto
        show ?thesis
          by (rule td_thread_ok [OF inv t(1) some, where c = "F_add v" and p = "TS_returned TS_unit" and q' = q'
                and a = "td_added s" and b = "td_popped s"])
            (use F_add body \<open>even t\<close> ts_served_step [OF t(3) e] s' P in \<open>simp_all add: log fun_upd_idem\<close>)
      qed
    next
      case unit
      with step F_add have s': "s' = td_goto t (F_end v) s" by (simp add: func_add_def)
      show ?thesis
        by (rule td_thread_ok [OF inv t(1) some, where c = "F_end v" and p = "TS_returned TS_unit" and q' = ?q
              and a = "td_added s" and b = "td_popped s"])
          (use F_add unit \<open>even t\<close> t(3) s' in \<open>simp_all add: td_goto_def fun_upd_idem\<close>)
    next
      case throws
      with step F_add have s': "s' = s\<lparr>td_dead := True\<rparr>" by (simp add: func_add_def)
      have "func_rank t (td_pcs s t) (ts_pcs ?q t) = 1" using F_add throws by simp
      moreover have "func_rank t (td_pcs s t) (ts_pcs ?q t) \<le> td_total func_rank (td_pcs s) (ts_pcs ?q)"
        unfolding td_total_def using t(1) by (intro member_le_sum) auto
      ultimately show ?thesis using inv by (simp add: s' td_inv_def td_rank_def)
    qed
  qed (use step in \<open>simp_all add: func_add_def\<close>)
qed

lemma func_rem_ok:
  assumes inv: "td_inv s" "\<not> td_dead s" and "odd t" and step: "func_rem t s = Some s'"
  shows "td_inv s' \<and> td_rank s' < td_rank s"
proof -
  let ?q = "td_queue s"
  have some: "td_pcs s t \<noteq> F_none" using step by (auto simp: func_rem_def)
  note t = td_inv_thread [OF inv(1) some]
  show ?thesis
  proof (cases "td_pcs s t")
    case F_begin
    let ?q' = "ts_goto t Pop_lock ?q"
    have idle: "ts_pcs ?q t = TS_idle" using t(2) F_begin by simp
    then have e: "ts_move (TS_call t Pop_lock) ?q = Some ?q'" by simp
    have s': "s' = s\<lparr>td_queue := ?q', td_pcs := (td_pcs s)(t := F_pop), td_added := td_added s, td_popped := td_popped s\<rparr>"
      using step F_begin e by (auto simp: func_rem_def in_tsq_def td_goto_def)
    show ?thesis
      by (rule td_thread_ok [OF inv t(1) some, where c = F_pop and p = Pop_lock and q' = ?q'
            and a = "td_added s" and b = "td_popped s"])
        (use F_begin idle \<open>odd t\<close> ts_served_step [OF t(3) e] s' in simp_all)
  next
    case F_pop
    consider (lock) "ts_pcs ?q t = Pop_lock" | (body) "ts_pcs ?q t = Pop_body" | (sleep) "ts_pcs ?q t = Pop_sleep"
      | (ret) v where "ts_pcs ?q t = TS_returned (TS_value v)" using t(2) F_pop by auto
    then show ?thesis
    proof cases
      case lock
      then obtain q' where e: "ts_move (TS_pop t True) ?q = Some q'" and s': "s' = s\<lparr>td_queue := q'\<rparr>"
        using step F_pop by (auto simp: func_rem_def in_tsq_def)
      from e lock have q': "q' = ts_goto t Pop_body (?q\<lparr>mut := Some t\<rparr>)"
        by (auto simp: wait_and_pop_def ts_acquire_def split: if_splits)
      show ?thesis
        by (rule td_thread_ok [OF inv t(1) some, where c = F_pop and p = Pop_body and q' = q'
              and a = "td_added s" and b = "td_popped s"])
          (use F_pop lock \<open>odd t\<close> ts_served_step [OF t(3) e] s' in \<open>simp_all add: q' fun_upd_idem\<close>)
    next
      case body
      then obtain q' where e: "ts_move (TS_pop t True) ?q = Some q'" and s': "s' = s\<lparr>td_queue := q'\<rparr>"
        using step F_pop by (auto simp: func_rem_def in_tsq_def)
      show ?thesis
      proof (cases "safe_queue ?q")
        case Nil
        with e body have q': "q' = ts_goto t Pop_sleep (?q\<lparr>mut := None, empty_check := empty_check ?q @ [t]\<rparr>)"
          by (simp add: wait_and_pop_def)
        show ?thesis
          by (rule td_thread_ok [OF inv t(1) some, where c = F_pop and p = Pop_sleep and q' = q'
                and a = "td_added s" and b = "td_popped s"])
            (use F_pop body \<open>odd t\<close> ts_served_step [OF t(3) e] s' in \<open>simp_all add: q' fun_upd_idem\<close>)
      next
        case (Cons v vs)
        with e body have q': "q' = ts_return t (TS_value v) (?q\<lparr>safe_queue := vs, ts_taken := ts_taken ?q @ [v]\<rparr>)"
          by (simp add: wait_and_pop_def)
        show ?thesis
          by (rule td_thread_ok [OF inv t(1) some, where c = F_pop and p = "TS_returned (TS_value v)" and q' = q'
                and a = "td_added s" and b = "td_popped s"])
            (use F_pop body \<open>odd t\<close> ts_served_step [OF t(3) e] s' in \<open>simp_all add: q' fun_upd_idem\<close>)
      qed
    next
      case sleep
      with step F_pop show ?thesis by (simp add: func_rem_def in_tsq_def wait_and_pop_def)
    next
      case (ret v)
      with step F_pop have s': "s' = td_goto t (F_end v) (s\<lparr>td_popped := td_popped s @ [v]\<rparr>)" by (simp add: func_rem_def)
      show ?thesis
        by (rule td_thread_ok [OF inv t(1) some, where c = "F_end v" and p = "TS_returned (TS_value v)" and q' = ?q
              and a = "td_added s" and b = "td_popped s @ [v]"])
          (use F_pop ret \<open>odd t\<close> t(3) s' in \<open>simp_all add: td_goto_def fun_upd_idem\<close>)
    qed
  qed (use step in \<open>simp_all add: func_rem_def\<close>)
qed

text \<open>A thread that is started has contributed nothing.\<close>

lemma td_total_start:
  assumes "cs t = F_none"
  shows "td_total put_by (cs(t := F_begin)) ps = td_total put_by cs ps" "td_total taken_by (cs(t := F_begin)) ps = td_total taken_by cs ps"
    "td_total added_by (cs(t := F_begin)) ps = td_total added_by cs ps" "td_total popped_by (cs(t := F_begin)) ps = td_total popped_by cs ps"
    "td_total func_rank (cs(t := F_begin)) ps = td_total func_rank cs ps"
  unfolding td_total_def by (rule sum.cong; use assms in simp)+

lemma td_main_ok:
  assumes inv: "td_inv s" "\<not> td_dead s" and step: "td_main s = Some s'"
  shows "td_inv s' \<and> td_rank s' < td_rank s"
proof (cases "td_started s < 10")
  case True
  let ?t = "td_started s"
  from True step have s': "s' = td_goto ?t F_begin (s\<lparr>td_started := ?t + 1\<rparr>)" by (simp add: td_main_def)
  have none: "td_pcs s u = F_none \<longleftrightarrow> ?t \<le> u" for u using inv(1) by (simp add: td_inv_def)
  then have t: "td_pcs s ?t = F_none" by simp
  have "td_ok ?t (td_pcs s ?t) (ts_pcs (td_queue s) ?t)" using inv(1) by (simp add: td_inv_def)
  with t have idle: "ts_pcs (td_queue s) ?t = TS_idle" by simp
  have "\<not> ?t < td_joined s"
  proof
    assume "?t < td_joined s"
    then have "func_ended (td_pcs s ?t)" using inv(1) by (simp add: td_inv_def)
    with t show False by simp
  qed
  then show ?thesis
    using inv True none idle td_total_start [of "td_pcs s" ?t "ts_pcs (td_queue s)", OF t]
    by (auto simp: s' td_goto_def td_inv_def td_rank_def Suc_le_eq)
next
  case False
  with step have j: "td_joined s < 10" "func_ended (td_pcs s (td_joined s))" "s' = s\<lparr>td_joined := td_joined s + 1\<rparr>"
    by (auto simp: td_main_def split: if_splits)
  with inv show ?thesis by (auto simp: td_inv_def td_rank_def less_Suc_eq)
qed

lemma td_spurious_ok:
  assumes inv: "td_inv s" "\<not> td_dead s" and step: "in_tsq (TS_spurious u) s = Some s'"
  shows "td_inv s' \<and> td_rank s' \<le> td_rank s + 2"
proof -
  let ?q = "td_queue s"
  from step have e: "ts_move (TS_spurious u) ?q = Some (ts_wake u ?q)" and s': "s' = s\<lparr>td_queue := ts_wake u ?q\<rparr>"
    and u: "u \<in> set (empty_check ?q)" by (auto simp: in_tsq_def ts_spurious_wakeup_def split: if_splits)
  have served: "ts_served ?q" using inv(1) by (simp add: td_inv_def)
  then have sleep: "ts_pcs ?q u = Pop_sleep" using ts_asleep [OF _ u] by (simp add: ts_served_def)
  have oks: "td_ok t (td_pcs s t) (ts_pcs ?q t)" for t using inv(1) by (simp add: td_inv_def)
  from oks [of u] sleep have pop: "td_pcs s u = F_pop" "odd u" by (cases "td_pcs s u"; simp)+
  then have ten: "u < 10" using td_inv_thread [OF inv(1), of u] by simp
  note same = td_total_wake [of "ts_pcs ?q" u _ "td_pcs s", OF sleep]
  have "td_total func_rank (td_pcs s) ((ts_pcs ?q)(u := Pop_lock)) + 3 = td_total func_rank (td_pcs s) (ts_pcs ?q) + 5"
    using td_total_upd [OF ten, of func_rank "td_pcs s" "td_pcs s u" "ts_pcs ?q" Pop_lock, unfolded fun_upd_triv] pop(1) sleep by simp
  moreover have "td_ok t (td_pcs s t) (((ts_pcs ?q)(u := Pop_lock)) t)" for t using oks [of t] pop by simp
  ultimately show ?thesis
    using inv ts_served_step [OF served e] pop(1) same [of put_by] same [of taken_by] same [of added_by] same [of popped_by]
    by (simp add: s' td_inv_def td_rank_def)
qed

fun td_spurious :: "td_event \<Rightarrow> bool" where
  "td_spurious (TD_spurious t) = True"
| "td_spurious _ = False"

lemma td_move_ok:
  assumes "td_inv s" and "td_move e s = Some s'"
  shows "td_inv s'" and "td_rank s' + 1 \<le> td_rank s + (if td_spurious e then 3 else 0)"
proof -
  from assms(2) have alive: "\<not> td_dead s" by (simp add: td_move_def split: if_splits)
  with assms have "td_inv s' \<and> td_rank s' + 1 \<le> td_rank s + (if td_spurious e then 3 else 0)"
  proof (cases e)
    case TD_main
    with assms alive td_main_ok [of s s'] show ?thesis by (simp add: td_move_def)
  next
    case (TD_thread t r n fits)
    with assms alive func_add_ok [of s t r n fits s'] func_rem_ok [of s t s'] show ?thesis
      by (cases "even t") (simp_all add: td_move_def)
  next
    case (TD_spurious t)
    with assms alive td_spurious_ok [of s t s'] show ?thesis by (simp add: td_move_def)
  qed
  then show "td_inv s'" and "td_rank s' + 1 \<le> td_rank s + (if td_spurious e then 3 else 0)" by auto
qed

interpretation tsq_demo: ranked_system td_init td_move td_inv td_rank td_spurious 3
  by unfold_locales (auto simp: td_init_def td_inv_start simp del: td_spurious.simps dest: td_move_ok)

subsection \<open>No deadlock\<close>

lemma td_thread_enabled:
  assumes inv: "td_inv s" "\<not> td_dead s" and t: "td_pcs s t \<noteq> F_none" "\<not> func_ended (td_pcs s t)"
    and "ts_pcs (td_queue s) t \<noteq> Pop_sleep" and "ts_holds (ts_pcs (td_queue s) t) \<or> mut (td_queue s) = None"
  shows "td_move (TD_thread t 0 0 True) s \<noteq> None"
proof -
  have ok: "td_ok t (td_pcs s t) (ts_pcs (td_queue s) t)" using inv(1) by (simp add: td_inv_def)
  show ?thesis
  proof (cases "td_pcs s t")
    case F_begin
    with ok inv(2) show ?thesis by (simp add: td_move_def func_add_def func_rem_def in_tsq_def td_goto_def)
  next
    case (F_add v)
    with ok inv(2) assms(6) show ?thesis
      by (auto simp: td_move_def func_add_def in_tsq_def add_elem_def ts_acquire_def ts_notify_one_def)
  next
    case F_pop
    with ok inv(2) assms(5,6) show ?thesis
      by (auto simp: td_move_def func_rem_def in_tsq_def wait_and_pop_def ts_acquire_def split: list.splits)
  qed (use t in auto)
qed

lemma td_total_size: "size (td_total f cs ps) = (\<Sum>t<10. size (f t (cs t) (ps t)))" for f :: "tid \<Rightarrow> func_pc \<Rightarrow> int ts_pc \<Rightarrow> int multiset"
  by (simp add: td_total_def size_multiset_sum)

lemma even_below_ten: "(\<Sum>t<10 :: nat. if even t then 1 else 0) = (5 :: nat)" "(\<Sum>t<10 :: nat. if even t then 0 else 1) = (5 :: nat)"
  by (simp_all add: lessThan_nat_numeral pred_numeral_simps)

lemma td_all_stuck:
  assumes inv: "td_inv s" and "\<And>t. t < 10 \<Longrightarrow> func_ended (td_pcs s t) \<or> ts_pcs (td_queue s) t = Pop_sleep"
    and j: "j < 10" "\<not> func_ended (td_pcs s j)"
  shows False
proof -
  let ?q = "td_queue s" and ?cs = "td_pcs s" and ?ps = "ts_pcs (td_queue s)"
  have served: "ts_served ?q" and ok: "td_ok t (?cs t) (?ps t)" and none: "?cs t = F_none \<Longrightarrow> ?ps t = TS_idle" for t
    using inv by (simp_all add: td_inv_def) (metis td_ok.simps(4))
  have cs: "(\<exists>v. ?cs t = F_end v) \<or> ?cs t = F_pop \<and> ?ps t = Pop_sleep \<and> odd t" if "t < 10" for t
    using assms(2) [OF that] ok [of t] by (cases "?cs t") auto
  have sleep: "?ps j = Pop_sleep" using assms(2) [OF j(1)] j(2) by simp
  then have "empty_check ?q \<noteq> []" using served by (auto simp: ts_served_def ts_inv_def)
  moreover have "u \<notin> ts_popping ?ps" for u
  proof (cases "u < 10")
    case True
    with cs [OF True] ok [of u] show ?thesis by (auto simp: ts_popping_def)
  next
    case False
    with inv have "?cs u = F_none" by (auto simp: td_inv_def)
    with none show ?thesis by (simp add: ts_popping_def)
  qed
  then have "ts_popping ?ps = {}" by blast
  ultimately have "safe_queue ?q = []" using served by (simp add: ts_served_def)
  then have "length (ts_log ?q) = length (ts_taken ?q)" using served by (simp add: ts_served_def ts_inv_def)
  moreover have "td_total put_by ?cs ?ps = mset (ts_log ?q)" "td_total taken_by ?cs ?ps = mset (ts_taken ?q)"
    using inv by (simp_all add: td_inv_def)
  ultimately have "size (td_total put_by ?cs ?ps) = size (td_total taken_by ?cs ?ps)" by simp
  then have eq: "(\<Sum>t<10. size (put_by t (?cs t) (?ps t))) = (\<Sum>t<10. size (taken_by t (?cs t) (?ps t)))"
    by (simp only: td_total_size)
  have "(\<Sum>t<10. size (put_by t (?cs t) (?ps t))) = (\<Sum>t<10 :: nat. if even t then 1 else 0)"
  proof (rule sum.cong [OF refl])
    fix t assume "t \<in> {..<10 :: nat}"
    with cs [of t] show "size (put_by t (?cs t) (?ps t)) = (if even t then 1 else 0)" by auto
  qed
  moreover have "(\<Sum>t<10. size (taken_by t (?cs t) (?ps t))) < (\<Sum>t<10 :: nat. if even t then 0 else 1)"
  proof (rule sum_strict_mono_ex1)
    show "\<forall>t\<in>{..<10}. size (taken_by t (?cs t) (?ps t)) \<le> (if even t then 0 else 1)"
    proof
      fix t assume "t \<in> {..<10 :: nat}"
      with cs [of t] show "size (taken_by t (?cs t) (?ps t)) \<le> (if even t then 0 else 1)" by auto
    qed
    have "?cs j = F_pop" "odd j" using cs [OF j(1)] j(2) by auto
    with sleep j(1) show "\<exists>t\<in>{..<10}. size (taken_by t (?cs t) (?ps t)) < (if even t then 0 else 1)"
      by (intro bexI [of _ j]) simp_all
  qed simp
  ultimately show False using eq even_below_ten by simp
qed

lemma td_progress:
  assumes inv: "td_inv s" "\<not> td_dead s" and "td_joined s \<noteq> 10"
  shows "\<exists>e. \<not> td_spurious e \<and> td_move e s \<noteq> None"
proof (rule ccontr)
  assume stuck: "\<not> ?thesis"
  then have none: "td_move TD_main s = None" "td_move (TD_thread t 0 0 True) s = None" for t
    by (auto dest: spec [of _ TD_main] spec [of _ "TD_thread t 0 0 True"])
  from none(1) inv(2) have started: "\<not> td_started s < 10" by (auto simp: td_move_def td_main_def)
  have j: "td_joined s < 10" using assms(3) inv(1) by (simp add: td_inv_def)
  with none(1) inv(2) started have not_ended: "\<not> func_ended (td_pcs s (td_joined s))" by (auto simp: td_move_def td_main_def)
  have begun: "td_pcs s t \<noteq> F_none" if "t < 10" for t using inv(1) started that by (auto simp: td_inv_def)
  have tinv: "ts_inv (td_queue s)" using inv(1) by (simp add: td_inv_def ts_served_def)
  have "mut (td_queue s) = None"
  proof (rule ccontr)
    assume "mut (td_queue s) \<noteq> None"
    then obtain t where t: "ts_holds (ts_pcs (td_queue s) t)" using ts_owner [OF tinv] by auto
    have "td_ok t (td_pcs s t) (ts_pcs (td_queue s) t)" using inv(1) by (simp add: td_inv_def)
    with t have "td_pcs s t \<noteq> F_none" "\<not> func_ended (td_pcs s t)" by (cases "td_pcs s t"; auto elim: ts_quiet.elims)+
    moreover from t have "ts_pcs (td_queue s) t \<noteq> Pop_sleep" by auto
    ultimately show False using td_thread_enabled [OF inv, of t] t none(2) [of t] by blast
  qed
  then have "func_ended (td_pcs s t) \<or> ts_pcs (td_queue s) t = Pop_sleep" if "t < 10" for t
    using td_thread_enabled [OF inv begun [OF that]] none(2) [of t] by blast
  from td_all_stuck [OF inv(1) this j not_ended] show False .
qed

text \<open>When all threads have ended, what has been printed behind \<open>pop\<close> is what has been printed behind \<open>add\<close>.\<close>

lemma td_all_ended:
  assumes inv: "td_inv s" and "td_joined s = 10"
  shows "mset (td_popped s) = mset (td_added s)" and "length (td_added s) = 5"
proof -
  let ?q = "td_queue s" and ?cs = "td_pcs s" and ?ps = "ts_pcs (td_queue s)"
  have ended: "\<exists>v. ?cs t = F_end v" if "t < 10" for t
  proof -
    have "func_ended (?cs t)" using inv assms(2) that by (simp add: td_inv_def)
    then show ?thesis by (cases "?cs t") auto
  qed
  have "td_total put_by ?cs ?ps = td_total added_by ?cs ?ps" "td_total taken_by ?cs ?ps = td_total popped_by ?cs ?ps"
    unfolding td_total_def by (rule sum.cong; use ended in fastforce)+
  then have eq: "mset (ts_log ?q) = mset (td_added s)" "mset (ts_taken ?q) = mset (td_popped s)"
    using inv by (simp_all add: td_inv_def)
  have "size (mset (td_added s)) = (\<Sum>t<10. size (added_by t (?cs t) (?ps t)))"
    "size (mset (td_popped s)) = (\<Sum>t<10. size (popped_by t (?cs t) (?ps t)))"
    using inv unfolding td_total_size [symmetric] by (simp_all only: td_inv_def)
  moreover have "(\<Sum>t<10. size (added_by t (?cs t) (?ps t))) = (\<Sum>t<10 :: nat. if even t then 1 else 0)"
  proof (rule sum.cong [OF refl])
    fix t assume "t \<in> {..<10 :: nat}"
    with ended [of t] show "size (added_by t (?cs t) (?ps t)) = (if even t then 1 else 0)" by auto
  qed
  moreover have "(\<Sum>t<10. size (popped_by t (?cs t) (?ps t))) = (\<Sum>t<10 :: nat. if even t then 0 else 1)"
  proof (rule sum.cong [OF refl])
    fix t assume "t \<in> {..<10 :: nat}"
    with ended [of t] show "size (popped_by t (?cs t) (?ps t)) = (if even t then 0 else 1)" by auto
  qed
  ultimately have five: "length (td_added s) = 5" "length (td_popped s) = 5" by (simp_all add: even_below_ten)
  have "length (ts_log ?q) = length (ts_taken ?q)" using five eq by (metis size_mset)
  moreover have "ts_log ?q = ts_taken ?q @ safe_queue ?q" using inv by (simp add: td_inv_def ts_served_def ts_inv_def)
  ultimately show "mset (td_popped s) = mset (td_added s)" using eq by simp
  show "length (td_added s) = 5" by (rule five)
qed

subsection \<open>Only a failed allocation ends the program early\<close>

fun td_alloc_fails :: "td_event \<Rightarrow> bool" where
  "td_alloc_fails (TD_thread t r n fits) = (\<not> fits)"
| "td_alloc_fails _ = False"

fun ts_move_fits :: "'a ts_event \<Rightarrow> bool" where
  "ts_move_fits (TS_call t c) = True"
| "ts_move_fits (TS_add t i fits) = fits"
| "ts_move_fits (TS_pop t moves) = moves"
| "ts_move_fits (TS_empty t) = True"
| "ts_move_fits (TS_spurious t) = True"

definition no_throw :: "td \<Rightarrow> bool" where
  "no_throw s \<longleftrightarrow> \<not> td_dead s \<and> (\<forall>t. ts_pcs (td_queue s) t \<noteq> TS_returned TS_throws)"

lemma ts_move_no_throw:
  assumes "ts_move e q = Some q'" and "ts_move_fits e" and "\<forall>t. ts_pcs q t \<noteq> TS_returned TS_throws"
  shows "\<forall>t. ts_pcs q' t \<noteq> TS_returned TS_throws"
proof (cases e)
  case (TS_call t c)
  with assms show ?thesis by (cases c) (auto split: if_splits)
next
  case (TS_add t i fits)
  with assms show ?thesis
    by (cases "ts_pcs q t") (auto simp: add_elem_def ts_acquire_def ts_notify_one_def split: if_splits)
next
  case (TS_pop t moves)
  with assms show ?thesis
    by (cases "ts_pcs q t") (auto simp: wait_and_pop_def ts_acquire_def split: if_splits list.splits)
next
  case (TS_empty t)
  with assms show ?thesis by (cases "ts_pcs q t") (auto simp: queue_empty_def ts_acquire_def split: if_splits)
next
  case (TS_spurious t)
  with assms show ?thesis by (auto simp: ts_spurious_wakeup_def split: if_splits)
qed

lemma in_tsq_no_throw:
  assumes "in_tsq f u = Some s'" and "ts_move_fits f" and "no_throw u"
  shows "no_throw s'"
proof -
  from assms(1) obtain q where "ts_move f (td_queue u) = Some q" "s' = u\<lparr>td_queue := q\<rparr>" by (auto simp: in_tsq_def)
  with assms(2,3) ts_move_no_throw [of f "td_queue u" q] show ?thesis by (simp add: no_throw_def)
qed

lemma td_move_no_throw:
  assumes "td_move e s = Some s'" and "\<not> td_alloc_fails e" and no: "no_throw s"
  shows "no_throw s'"
proof -
  have goto: "no_throw (td_goto t c s)" "no_throw (td_goto t c (s\<lparr>td_added := a\<rparr>))" "no_throw (td_goto t c (s\<lparr>td_popped := a\<rparr>))"
    "no_throw (td_goto t c (s\<lparr>td_started := n\<rparr>))" "no_throw (s\<lparr>td_joined := n\<rparr>)" for t c a n
    using no by (simp_all add: no_throw_def td_goto_def)
  have alive: "\<not> td_dead s" and throws: "ts_pcs (td_queue s) t \<noteq> TS_returned TS_throws" for t
    using no by (simp_all add: no_throw_def)
  show ?thesis
  proof (cases e)
    case TD_main
    with assms(1) alive goto show ?thesis by (auto simp: td_move_def td_main_def split: if_splits)
  next
    case (TD_thread t r n fits)
    with assms(2) have fits: "fits = True" by simp
    consider "even t" "func_add t r n True s = Some s'" | "odd t" "func_rem t s = Some s'"
      using assms(1) TD_thread alive fits by (auto simp: td_move_def split: if_splits)
    then show ?thesis
    proof cases
      case 1
      show ?thesis
      proof (cases "td_pcs s t")
        case F_begin
        with 1 have "in_tsq (TS_call t (Add_lock r)) (td_goto t (F_add r) (s\<lparr>td_added := td_added s @ [r]\<rparr>)) = Some s'"
          by (simp add: func_add_def)
        then show ?thesis by (rule in_tsq_no_throw) (simp_all add: goto)
      next
        case (F_add v)
        with 1 no goto throws [of t] show ?thesis
          by (cases "ts_pcs (td_queue s) t") (auto simp: func_add_def intro: in_tsq_no_throw split: if_splits)
      qed (use 1 in \<open>simp_all add: func_add_def\<close>)
    next
      case 2
      show ?thesis
      proof (cases "td_pcs s t")
        case F_begin
        with 2 have "in_tsq (TS_call t Pop_lock) (td_goto t F_pop s) = Some s'" by (simp add: func_rem_def)
        then show ?thesis by (rule in_tsq_no_throw) (simp_all add: goto)
      next
        case F_pop
        with 2 no goto show ?thesis
          by (cases "ts_pcs (td_queue s) t") (auto simp: func_rem_def intro: in_tsq_no_throw split: ts_result.splits)
      qed (use 2 in \<open>simp_all add: func_rem_def\<close>)
    qed
  next
    case (TD_spurious t)
    with assms(1) alive have "in_tsq (TS_spurious t) s = Some s'" by (simp add: td_move_def)
    then show ?thesis by (rule in_tsq_no_throw) (use no in simp_all)
  qed
qed

lemma td_run_memory:
  assumes "run td_move es td_new = Some s" and "\<not> list_ex td_alloc_fails es"
  shows "\<not> td_dead s"
proof -
  have "no_throw s"
  proof (rule run_preserves_on [OF assms(1)])
    show "list_all (\<lambda>e. \<not> td_alloc_fails e) es" using assms(2) by (induction es) auto
    show "no_throw td_new" by (simp add: no_throw_def td_new_def ts_new_def)
  qed (rule td_move_no_throw)
  then show ?thesis by (simp add: no_throw_def)
qed

subsection \<open>Property\<close>

text \<open>C37. The program of the thread-safe queue ends, and it pops what it has added. A run has at most 90 steps
  and three more for every spurious wake-up; and a run that cannot be extended (but by spurious wake-ups) has
  joined all ten threads, five numbers are printed behind \<open>add\<close>, and the same numbers, in some order, behind
  \<open>pop\<close>; or an allocation has failed on the way.\<close>

theorem threadsafe_queue_demo_ends:
  assumes "run td_move es td_new = Some s"
  shows "length es \<le> 90 + 3 * length (filter td_spurious es)
    \<and> ((\<exists>e. \<not> td_spurious e \<and> td_move e s \<noteq> None)
       \<or> (td_joined s = 10 \<and> length (td_added s) = 5 \<and> mset (td_popped s) = mset (td_added s))
       \<or> (td_dead s \<and> list_ex td_alloc_fails es))"
proof
  have inv: "td_inv s" by (rule tsq_demo.run_inv [OF td_inv_start assms])
  show "length es \<le> 90 + 3 * length (filter td_spurious es)"
    using tsq_demo.run_rank [OF td_inv_start assms] td_rank_start by simp
  show "(\<exists>e. \<not> td_spurious e \<and> td_move e s \<noteq> None)
       \<or> (td_joined s = 10 \<and> length (td_added s) = 5 \<and> mset (td_popped s) = mset (td_added s))
       \<or> (td_dead s \<and> list_ex td_alloc_fails es)"
    using td_progress [OF inv] td_all_ended [OF inv] td_run_memory [OF assms] by blast
qed

theorem threadsafe_queue_demo_ends_witness:
  "\<exists>s es. run td_move es td_new = Some s \<and> td_added s = [41] \<and> td_popped s = [41]
     \<and> length es \<le> 90 + 3 * length (filter td_spurious es)"
proof -
  let ?r = "TD_thread 1 0 0 True" and ?a = "TD_thread 0 41 0 True"
  have "\<exists>s. run td_move [TD_main, TD_main, ?r, ?r, ?r, TD_spurious 1, ?a, ?a, ?a, ?a, ?r, ?r, ?r] td_new = Some s
      \<and> td_added s = [41] \<and> td_popped s = [41]"
    by (simp add: td_new_def td_move_def td_main_def func_add_def func_rem_def td_goto_def in_tsq_def ts_eval
        ts_spurious_wakeup_def)
  then obtain s where s: "run td_move [TD_main, TD_main, ?r, ?r, ?r, TD_spurious 1, ?a, ?a, ?a, ?a, ?r, ?r, ?r] td_new = Some s"
    "td_added s = [41]" "td_popped s = [41]" by blast
  with threadsafe_queue_demo_ends [OF s(1)] show ?thesis by blast
qed

end
