(* ===== verification/Threadpool.thy ===== *)
theory Threadpool
  imports DS_Prelude "HOL-Library.Multiset"
begin

text \<open>
  \<open>c++_features_experiment/threadpools.cpp\<close>: the workers, the threads that submit jobs and the
  destructor. A step is the acquisition of \<open>m\<close>, what a thread does with the mutex until it releases
  it, or one action outside the mutex (a notification, a job, a join). A job is a value; what it
  does is not modelled, except that it returns.
\<close>

subsection \<open>State\<close>

datatype agent = Worker nat | Caller nat | Destructor

datatype 'j worker_pc =
    W_unborn \<comment> \<open>not yet created by the constructor\<close>
  | W_lock | W_body | W_sleep \<comment> \<open>about to lock; holding the mutex; asleep on \<open>start\<close>\<close>
  | W_run 'j \<comment> \<open>has left the inner block with a job\<close>
  | W_exit \<comment> \<open>has returned from \<open>do_work\<close>\<close>

datatype 'j caller_pc = S_idle | S_lock 'j | S_body 'j | S_notify | S_returned | S_throws

datatype destructor_pc = D_before | D_lock | D_body | D_notify | D_join nat | D_done

text \<open>
  The fields, the threads, and as history variables the jobs pushed, those taken from the
  queue, and those that have been run.
\<close>

record 'j tp =
  stop :: bool
  tp_m :: "agent option"
  threads :: nat
  created :: nat
  jobs :: "'j list"
  start_cv :: "nat list"
  wpc :: "nat \<Rightarrow> 'j worker_pc"
  cpc :: "nat \<Rightarrow> 'j caller_pc"
  dpc :: destructor_pc
  submitted :: "'j list"
  taken :: "'j list"
  finished :: "'j list"

definition tp_new :: "nat \<Rightarrow> 'j tp" where
  "tp_new n = \<lparr>stop = False, tp_m = None, threads = n, created = 0, jobs = [], start_cv = [],
     wpc = (\<lambda>_. W_unborn), cpc = (\<lambda>_. S_idle), dpc = D_before, submitted = [], taken = [], finished = []\<rparr>"

definition tp_init :: "nat \<Rightarrow> 'j tp \<Rightarrow> bool" where
  "tp_init n s \<longleftrightarrow> s = tp_new n"

text \<open>One round of the constructor's loop.\<close>

definition create_worker :: "'j tp \<Rightarrow> 'j tp option" where
  "create_worker s =
     (if created s < threads s
      then Some (s\<lparr>wpc := (wpc s)(created s := W_lock), created := Suc (created s)\<rparr>)
      else None)"

subsection \<open>The workers\<close>

definition to_worker :: "nat \<Rightarrow> 'j worker_pc \<Rightarrow> 'j tp \<Rightarrow> 'j tp" where
  "to_worker w c s = s\<lparr>wpc := (wpc s)(w := c)\<rparr>"

definition do_work :: "nat \<Rightarrow> 'j tp \<Rightarrow> 'j tp option" where
  "do_work w s =
     (case wpc s w of
        W_lock \<Rightarrow> if tp_m s = None then Some (to_worker w W_body (s\<lparr>tp_m := Some (Worker w)\<rparr>)) else None
      | W_body \<Rightarrow>
          Some (if \<not> (stop s \<or> jobs s \<noteq> [])
                then to_worker w W_sleep (s\<lparr>tp_m := None, start_cv := start_cv s @ [w]\<rparr>)
                else case jobs s of
                    [] \<Rightarrow> to_worker w W_exit (s\<lparr>tp_m := None\<rparr>)
                  | j # js \<Rightarrow> to_worker w (W_run j) (s\<lparr>tp_m := None, jobs := js, taken := taken s @ [j]\<rparr>))
      | W_run j \<Rightarrow> Some (to_worker w W_lock (s\<lparr>finished := finished s @ [j]\<rparr>))
      | _ \<Rightarrow> None)"

definition tp_wake :: "nat \<Rightarrow> 'j tp \<Rightarrow> 'j tp" where
  "tp_wake w s = to_worker w W_lock (s\<lparr>start_cv := remove1 w (start_cv s)\<rparr>)"

definition start_spurious_wakeup :: "nat \<Rightarrow> 'j tp \<Rightarrow> 'j tp option" where
  "start_spurious_wakeup w s = (if w \<in> set (start_cv s) then Some (tp_wake w s) else None)"

text \<open>Which sleeper \<open>notify_one\<close> wakes is open: the \<open>i\<close>-th.\<close>

definition start_notify_one :: "nat \<Rightarrow> 'j tp \<Rightarrow> 'j tp option" where
  "start_notify_one i s =
     (if start_cv s = [] then Some s
      else if i < length (start_cv s) then Some (tp_wake (start_cv s ! i) s)
      else None)"

definition start_notify_all :: "'j tp \<Rightarrow> 'j tp" where
  "start_notify_all s = s\<lparr>start_cv := [], wpc := (\<lambda>w. if w \<in> set (start_cv s) then W_lock else wpc s w)\<rparr>"

subsection \<open>The other threads\<close>

definition to_caller :: "nat \<Rightarrow> 'j caller_pc \<Rightarrow> 'j tp \<Rightarrow> 'j tp" where
  "to_caller c p s = s\<lparr>cpc := (cpc s)(c := p)\<rparr>"

text \<open>A caller is an activation of \<open>submit_job\<close>, from outside or from a job.\<close>

definition submit_job :: "nat \<Rightarrow> nat \<Rightarrow> 'j tp \<Rightarrow> 'j tp option" where
  "submit_job c i s =
     (case cpc s c of
        S_lock j \<Rightarrow> if tp_m s = None then Some (to_caller c (S_body j) (s\<lparr>tp_m := Some (Caller c)\<rparr>)) else None
      | S_body j \<Rightarrow>
          Some (if stop s then to_caller c S_throws (s\<lparr>tp_m := None\<rparr>)
                else to_caller c S_notify
                       (s\<lparr>tp_m := None, jobs := jobs s @ [j], submitted := submitted s @ [j]\<rparr>))
      | S_notify \<Rightarrow> map_option (to_caller c S_returned) (start_notify_one i s)
      | _ \<Rightarrow> None)"

text \<open>The destructor; \<open>D_join k\<close> is the join of the \<open>k\<close>-th worker.\<close>

definition destroy_pool :: "'j tp \<Rightarrow> 'j tp option" where
  "destroy_pool s =
     (case dpc s of
        D_before \<Rightarrow> if created s = threads s then Some (s\<lparr>dpc := D_lock\<rparr>) else None
      | D_lock \<Rightarrow> if tp_m s = None then Some (s\<lparr>dpc := D_body, tp_m := Some Destructor\<rparr>) else None
      | D_body \<Rightarrow> Some (s\<lparr>dpc := D_notify, stop := True, tp_m := None\<rparr>)
      | D_notify \<Rightarrow> Some (start_notify_all s\<lparr>dpc := D_join 0\<rparr>)
      | D_join k \<Rightarrow>
          (if k = threads s then Some (s\<lparr>dpc := D_done\<rparr>)
           else if wpc s k = W_exit then Some (s\<lparr>dpc := D_join (Suc k)\<rparr>)
           else None)
      | D_done \<Rightarrow> None)"

datatype 'j tp_event =
    Create | Work nat | Spurious_start nat | Call_submit nat 'j | Submit nat nat | Destroy

fun tp_move :: "'j tp_event \<Rightarrow> 'j tp \<Rightarrow> 'j tp option" where
  "tp_move Create s = create_worker s"
| "tp_move (Work w) s = do_work w s"
| "tp_move (Spurious_start w) s = start_spurious_wakeup w s"
| "tp_move (Call_submit c j) s =
     (if created s = threads s \<and> dpc s \<noteq> D_done \<and> cpc s c \<in> {S_idle, S_returned, S_throws}
      then Some (to_caller c (S_lock j) s) else None)"
| "tp_move (Submit c i) s = submit_job c i s"
| "tp_move Destroy s = destroy_pool s"

subsection \<open>The invariant\<close>

fun load :: "'j worker_pc \<Rightarrow> 'j multiset" where
  "load (W_run j) = {#j#}"
| "load _ = {#}"

fun submitting :: "'j caller_pc \<Rightarrow> bool" where
  "submitting (S_body j) = True"
| "submitting _ = False"

text \<open>The jobs that the first \<open>n\<close> workers have taken and not finished.\<close>

definition running :: "(nat \<Rightarrow> 'j worker_pc) \<Rightarrow> nat \<Rightarrow> 'j multiset" where
  "running P n = (\<Sum>w<n. load (P w))"

definition tp_inv_lock :: "agent option \<Rightarrow> (nat \<Rightarrow> 'j worker_pc) \<Rightarrow> (nat \<Rightarrow> 'j caller_pc) \<Rightarrow> destructor_pc \<Rightarrow> bool" where
  "tp_inv_lock m P C d \<longleftrightarrow> (\<forall>w. P w = W_body \<longleftrightarrow> m = Some (Worker w))
     \<and> (\<forall>c. submitting (C c) \<longleftrightarrow> m = Some (Caller c)) \<and> (d = D_body \<longleftrightarrow> m = Some Destructor)"

definition tp_inv_sleep :: "nat list \<Rightarrow> (nat \<Rightarrow> 'j worker_pc) \<Rightarrow> nat \<Rightarrow> bool" where
  "tp_inv_sleep ws P n \<longleftrightarrow> distinct ws \<and> (\<forall>w. w \<in> set ws \<longleftrightarrow> P w = W_sleep) \<and> (\<forall>w. P w = W_unborn \<longleftrightarrow> n \<le> w)"

definition tp_inv_jobs :: "'j list \<Rightarrow> 'j list \<Rightarrow> 'j list \<Rightarrow> 'j list \<Rightarrow> 'j multiset \<Rightarrow> bool" where
  "tp_inv_jobs sub tak fin js busy \<longleftrightarrow> sub = tak @ js \<and> mset tak = mset fin + busy"

text \<open>What the destructor has reached, and what follows for the workers.\<close>

fun stopping :: "destructor_pc \<Rightarrow> bool" where
  "stopping D_notify = True"
| "stopping (D_join k) = True"
| "stopping D_done = True"
| "stopping _ = False"

definition tp_inv_stop :: "'j tp \<Rightarrow> bool" where
  "tp_inv_stop s \<longleftrightarrow> (stop s \<longleftrightarrow> stopping (dpc s)) \<and> created s \<le> threads s
     \<and> (dpc s \<noteq> D_before \<longrightarrow> created s = threads s)
     \<and> (stopping (dpc s) \<and> dpc s \<noteq> D_notify \<longrightarrow> start_cv s = [])
     \<and> (\<forall>k. dpc s = D_join k \<longrightarrow> k \<le> threads s \<and> (\<forall>w<k. wpc s w = W_exit))
     \<and> (dpc s = D_done \<longrightarrow> (\<forall>w<threads s. wpc s w = W_exit))
     \<and> (\<forall>w. wpc s w = W_exit \<longrightarrow> stopping (dpc s) \<and> jobs s = [])"

definition tp_inv :: "'j tp \<Rightarrow> bool" where
  "tp_inv s \<longleftrightarrow> tp_inv_lock (tp_m s) (wpc s) (cpc s) (dpc s) \<and> tp_inv_sleep (start_cv s) (wpc s) (created s)
     \<and> tp_inv_jobs (submitted s) (taken s) (finished s) (jobs s) (running (wpc s) (created s)) \<and> tp_inv_stop s"

lemma tp_stop_cong:
  "tp_inv_stop s \<Longrightarrow> stop s' = stop s \<Longrightarrow> dpc s' = dpc s \<Longrightarrow> created s' = created s \<Longrightarrow> threads s' = threads s \<Longrightarrow>
    start_cv s' = start_cv s \<Longrightarrow> wpc s' = wpc s \<Longrightarrow> jobs s' = jobs s \<Longrightarrow> tp_inv_stop s'"
  by (simp add: tp_inv_stop_def)

lemma running_upd:
  assumes "w < n"
  shows "running (P(w := c)) n + load (P w) = running P n + load c"
proof -
  have "(\<Sum>v\<in>{..<n} - {w}. load ((P(w := c)) v)) = (\<Sum>v\<in>{..<n} - {w}. load (P v))" by (intro sum.cong) auto
  with assms show ?thesis by (simp add: running_def sum.remove [of "{..<n}" w])
qed

lemma running_same: "w < n \<Longrightarrow> load c = load (P w) \<Longrightarrow> running (P(w := c)) n = running P n"
  using running_upd [of w n P c] by simp

lemma running_idle: "(\<And>w. w < n \<Longrightarrow> P w = W_exit) \<Longrightarrow> running P n = {#}"
  by (simp add: running_def)

lemma running_cong: "(\<And>w. load (P w) = load (Q w)) \<Longrightarrow> running P n = running Q n"
  by (simp add: running_def)

lemma to_worker_simps [simp]:
  "stop (to_worker w c s) = stop s" "tp_m (to_worker w c s) = tp_m s" "threads (to_worker w c s) = threads s"
  "created (to_worker w c s) = created s" "jobs (to_worker w c s) = jobs s" "start_cv (to_worker w c s) = start_cv s"
  "wpc (to_worker w c s) = (wpc s)(w := c)" "cpc (to_worker w c s) = cpc s" "dpc (to_worker w c s) = dpc s"
  "submitted (to_worker w c s) = submitted s" "taken (to_worker w c s) = taken s" "finished (to_worker w c s) = finished s"
  by (simp_all add: to_worker_def)

lemma to_caller_simps [simp]:
  "stop (to_caller c p s) = stop s" "tp_m (to_caller c p s) = tp_m s" "threads (to_caller c p s) = threads s"
  "created (to_caller c p s) = created s" "jobs (to_caller c p s) = jobs s" "start_cv (to_caller c p s) = start_cv s"
  "wpc (to_caller c p s) = wpc s" "cpc (to_caller c p s) = (cpc s)(c := p)" "dpc (to_caller c p s) = dpc s"
  "submitted (to_caller c p s) = submitted s" "taken (to_caller c p s) = taken s" "finished (to_caller c p s) = finished s"
  by (simp_all add: to_caller_def)

lemma tp_wake_simps [simp]:
  "stop (tp_wake w s) = stop s" "tp_m (tp_wake w s) = tp_m s" "threads (tp_wake w s) = threads s"
  "created (tp_wake w s) = created s" "jobs (tp_wake w s) = jobs s" "start_cv (tp_wake w s) = remove1 w (start_cv s)"
  "wpc (tp_wake w s) = (wpc s)(w := W_lock)" "cpc (tp_wake w s) = cpc s" "dpc (tp_wake w s) = dpc s"
  "submitted (tp_wake w s) = submitted s" "taken (tp_wake w s) = taken s" "finished (tp_wake w s) = finished s"
  by (simp_all add: tp_wake_def)

text \<open>A worker that is past its creation and does not sleep moves to a point of that kind.\<close>

lemma tp_sleep_keep:
  "tp_inv_sleep ws P n \<Longrightarrow> P w \<noteq> W_unborn \<Longrightarrow> P w \<noteq> W_sleep \<Longrightarrow> c \<noteq> W_unborn \<Longrightarrow> c \<noteq> W_sleep \<Longrightarrow> tp_inv_sleep ws (P(w := c)) n"
  by (auto simp: tp_inv_sleep_def)

lemma tp_born: "tp_inv_sleep ws P n \<Longrightarrow> P w \<noteq> W_unborn \<Longrightarrow> w < n"
  by (auto simp: tp_inv_sleep_def)

lemma tp_sleep_wake:
  assumes "tp_inv_sleep ws P n" and "w \<in> set ws"
  shows "tp_inv_sleep (remove1 w ws) (P(w := W_lock)) n"
proof -
  from assms have "P w = W_sleep" by (simp add: tp_inv_sleep_def)
  with tp_born [OF assms(1), of w] have "w < n" by simp
  with assms show ?thesis by (auto simp: tp_inv_sleep_def)
qed

lemma tp_sleep_sleep:
  assumes "tp_inv_sleep ws P n" and "P w = W_body"
  shows "tp_inv_sleep (ws @ [w]) (P(w := W_sleep)) n"
proof -
  from assms(2) tp_born [OF assms(1), of w] have "w < n" by simp
  with assms show ?thesis by (auto simp: tp_inv_sleep_def)
qed

lemma tp_lock_worker:
  "tp_inv_lock m P C d \<Longrightarrow> P w = W_body \<Longrightarrow> c \<noteq> W_body \<Longrightarrow> tp_inv_lock None (P(w := c)) C d"
  "tp_inv_lock None P C d \<Longrightarrow> tp_inv_lock (Some (Worker w)) (P(w := W_body)) C d"
  "tp_inv_lock m P C d \<Longrightarrow> P w \<noteq> W_body \<Longrightarrow> c \<noteq> W_body \<Longrightarrow> tp_inv_lock m (P(w := c)) C d"
  by (auto simp: tp_inv_lock_def)

lemma tp_lock_caller:
  "tp_inv_lock m P C d \<Longrightarrow> submitting (C c) \<Longrightarrow> \<not> submitting p \<Longrightarrow> tp_inv_lock None P (C(c := p)) d"
  "tp_inv_lock None P C d \<Longrightarrow> submitting p \<Longrightarrow> tp_inv_lock (Some (Caller c)) P (C(c := p)) d"
  "tp_inv_lock m P C d \<Longrightarrow> \<not> submitting (C c) \<Longrightarrow> \<not> submitting p \<Longrightarrow> tp_inv_lock m P (C(c := p)) d"
  by (auto simp: tp_inv_lock_def)

lemma tp_lock_destructor:
  "tp_inv_lock m P C D_body \<Longrightarrow> d \<noteq> D_body \<Longrightarrow> tp_inv_lock None P C d"
  "tp_inv_lock None P C d \<Longrightarrow> tp_inv_lock (Some Destructor) P C D_body"
  "tp_inv_lock m P C d \<Longrightarrow> d \<noteq> D_body \<Longrightarrow> d' \<noteq> D_body \<Longrightarrow> tp_inv_lock m P C d'"
  by (auto simp: tp_inv_lock_def)

lemma tp_wake_inv:
  assumes inv: "tp_inv s" and w: "w \<in> set (start_cv s)"
  shows "tp_inv (tp_wake w s)"
proof -
  from inv have sl: "tp_inv_sleep (start_cv s) (wpc s) (created s)" by (simp add: tp_inv_def)
  with w have P: "wpc s w = W_sleep" by (simp add: tp_inv_sleep_def)
  with tp_born [OF sl, of w] have "w < created s" by simp
  then have "running ((wpc s)(w := W_lock)) (created s) = running (wpc s) (created s)" using P by (intro running_same) simp_all
  moreover have "tp_inv_stop (tp_wake w s)" using inv P w by (auto simp: tp_inv_def tp_inv_stop_def)
  ultimately show ?thesis using inv w P by (auto simp: tp_inv_def intro: tp_lock_worker tp_sleep_wake)
qed

lemma start_notify_one_inv: "tp_inv s \<Longrightarrow> start_notify_one i s = Some s' \<Longrightarrow> tp_inv s'"
  by (auto simp: start_notify_one_def split: if_splits intro: tp_wake_inv)

lemma create_worker_inv: "tp_inv s \<Longrightarrow> create_worker s = Some s' \<Longrightarrow> tp_inv s'"
proof -
  assume inv: "tp_inv s" and "create_worker s = Some s'"
  then have n: "created s < threads s" and s': "s' = s\<lparr>wpc := (wpc s)(created s := W_lock), created := Suc (created s)\<rparr>"
    by (auto simp: create_worker_def split: if_splits)
  from inv have P: "wpc s (created s) = W_unborn" by (simp add: tp_inv_def tp_inv_sleep_def)
  have "running ((wpc s)(created s := W_lock)) (Suc (created s)) = running (wpc s) (created s)"
    by (simp add: running_def)
  moreover from inv have "tp_inv_lock (tp_m s) ((wpc s)(created s := W_lock)) (cpc s) (dpc s)"
    using P by (simp add: tp_inv_def tp_lock_worker(3))
  moreover from P have "wpc s (created s) \<noteq> W_sleep" by simp
  with inv have "tp_inv_sleep (start_cv s) ((wpc s)(created s := W_lock)) (Suc (created s))"
    by (auto simp: tp_inv_def tp_inv_sleep_def)
  moreover have "tp_inv_stop s'"
    using inv s' n unfolding tp_inv_def tp_inv_stop_def by auto
  ultimately show ?thesis using inv s' by (simp add: tp_inv_def)
qed

lemma do_work_inv:
  assumes inv: "tp_inv s" and "do_work w s = Some s'"
  shows "tp_inv s'"
proof -
  from inv have sl: "tp_inv_sleep (start_cv s) (wpc s) (created s)" and st: "tp_inv_stop s" by (auto simp: tp_inv_def)
  have n: "wpc s w \<noteq> W_unborn \<Longrightarrow> w < created s" using sl by (rule tp_born)
  show ?thesis
  proof (cases "wpc s w")
    case W_lock
    with assms have s': "tp_m s = None" "s' = to_worker w W_body (s\<lparr>tp_m := Some (Worker w)\<rparr>)"
      by (auto simp: do_work_def split: if_splits)
    have "running ((wpc s)(w := W_body)) (created s) = running (wpc s) (created s)"
      using W_lock n by (intro running_same) simp_all
    moreover have "tp_inv_stop s'" using st s' W_lock by (auto simp: tp_inv_stop_def)
    ultimately show ?thesis using inv s' W_lock by (auto simp: tp_inv_def intro: tp_lock_worker tp_sleep_keep)
  next
    case (W_run j)
    with assms have s': "s' = to_worker w W_lock (s\<lparr>finished := finished s @ [j]\<rparr>)" by (simp add: do_work_def)
    have "running (wpc s) (created s) = running ((wpc s)(w := W_lock)) (created s) + {#j#}"
      using running_upd [of w "created s" "wpc s" W_lock] n W_run by simp
    moreover have "tp_inv_stop s'" using st s' W_run by (auto simp: tp_inv_stop_def)
    ultimately show ?thesis using inv s' W_run
      by (auto simp: tp_inv_def tp_inv_jobs_def intro: tp_lock_worker tp_sleep_keep)
  next
    case W_body
    have keep: "running ((wpc s)(w := c)) (created s) = running (wpc s) (created s)" if "load c = {#}" for c
      using that W_body n by (intro running_same) simp_all
    consider (sleep) "\<not> stop s" "jobs s = []" "s' = to_worker w W_sleep (s\<lparr>tp_m := None, start_cv := start_cv s @ [w]\<rparr>)"
      | (exit) "stop s" "jobs s = []" "s' = to_worker w W_exit (s\<lparr>tp_m := None\<rparr>)"
      | (job) j js where "jobs s = j # js" "s' = to_worker w (W_run j) (s\<lparr>tp_m := None, jobs := js, taken := taken s @ [j]\<rparr>)"
      using assms(2) W_body by (auto simp: do_work_def split: if_splits list.splits)
    then show ?thesis
    proof cases
      case sleep
      then have "tp_inv_stop s'" using st W_body by (auto simp: tp_inv_stop_def)
      with inv sleep W_body show ?thesis by (auto simp: tp_inv_def keep intro: tp_lock_worker tp_sleep_sleep)
    next
      case exit
      then have "tp_inv_stop s'" using st W_body by (auto simp: tp_inv_stop_def)
      with inv exit W_body show ?thesis by (auto simp: tp_inv_def keep intro: tp_lock_worker tp_sleep_keep)
    next
      case job
      have "running ((wpc s)(w := W_run j)) (created s) = running (wpc s) (created s) + {#j#}"
        using running_upd [of w "created s" "wpc s" "W_run j"] n W_body by simp
      moreover have "tp_inv_stop s'" using st W_body job by (auto simp: tp_inv_stop_def)
      ultimately show ?thesis using inv job W_body
        by (auto simp: tp_inv_def tp_inv_jobs_def intro: tp_lock_worker tp_sleep_keep)
    qed
  qed (use assms in \<open>auto simp: do_work_def\<close>)
qed

lemma submit_job_inv:
  assumes inv: "tp_inv s" and "submit_job c i s = Some s'"
  shows "tp_inv s'"
proof (cases "cpc s c")
  case (S_lock j)
  with assms(2) have s': "tp_m s = None" "s' = to_caller c (S_body j) (s\<lparr>tp_m := Some (Caller c)\<rparr>)"
    by (auto simp: submit_job_def split: if_splits)
  then have "tp_inv_stop s'" using inv unfolding tp_inv_def by (auto elim!: tp_stop_cong)
  with inv s' show ?thesis by (simp add: tp_inv_def tp_lock_caller(2))
next
  case (S_body j)
  then have free: "tp_inv_lock None (wpc s) ((cpc s)(c := p)) (dpc s)" if "\<not> submitting p" for p
    using inv that by (intro tp_lock_caller(1) [of "tp_m s"]) (simp_all add: tp_inv_def)
  show ?thesis
  proof (cases "stop s")
    case True
    with S_body assms(2) have s': "s' = to_caller c S_throws (s\<lparr>tp_m := None\<rparr>)" by (simp add: submit_job_def)
    then have "tp_inv_stop s'" using inv unfolding tp_inv_def by (auto elim!: tp_stop_cong)
    with inv s' free show ?thesis by (simp add: tp_inv_def)
  next
    case False
    with S_body assms(2) have s': "s' = to_caller c S_notify
        (s\<lparr>tp_m := None, jobs := jobs s @ [j], submitted := submitted s @ [j]\<rparr>)" by (simp add: submit_job_def)
    then have "tp_inv_stop s'" using inv False by (auto simp: tp_inv_def tp_inv_stop_def)
    with inv s' free show ?thesis by (simp add: tp_inv_def tp_inv_jobs_def)
  qed
next
  case S_notify
  with assms(2) obtain s1 where s1: "start_notify_one i s = Some s1" "s' = to_caller c S_returned s1"
    by (auto simp: submit_job_def)
  then have "\<not> submitting (cpc s1 c)" using S_notify by (auto simp: start_notify_one_def split: if_splits)
  moreover have "tp_inv s1" using inv s1(1) by (rule start_notify_one_inv)
  ultimately show ?thesis using s1(2) by (simp add: tp_inv_def tp_inv_stop_def tp_lock_caller(3))
qed (use assms in \<open>auto simp: submit_job_def\<close>)

lemma start_notify_all_sleep:
  assumes "tp_inv_sleep ws P n"
  shows "tp_inv_sleep [] (\<lambda>w. if w \<in> set ws then W_lock else P w) n"
    and "tp_inv_lock m P C D_notify \<Longrightarrow> tp_inv_lock m (\<lambda>w. if w \<in> set ws then W_lock else P w) C (D_join 0)"
proof -
  have n: "w < n" if "P w = W_sleep" for w using tp_born [OF assms, of w] that by simp
  from assms have sl: "w \<in> set ws \<longleftrightarrow> P w = W_sleep" "P w = W_unborn \<longleftrightarrow> n \<le> w" for w by (simp_all add: tp_inv_sleep_def)
  show "tp_inv_sleep [] (\<lambda>w. if w \<in> set ws then W_lock else P w) n"
    unfolding tp_inv_sleep_def sl(1) using n by (auto simp: sl(2) not_le)
  assume "tp_inv_lock m P C D_notify"
  moreover have "m \<noteq> Some (Worker w)" if "P w = W_sleep" for w
  proof -
    from that have "P w \<noteq> W_body" by simp
    with \<open>tp_inv_lock m P C D_notify\<close> show ?thesis by (simp add: tp_inv_lock_def)
  qed
  ultimately show "tp_inv_lock m (\<lambda>w. if w \<in> set ws then W_lock else P w) C (D_join 0)"
    unfolding tp_inv_lock_def sl(1) by auto
qed

lemma destroy_pool_inv:
  assumes inv: "tp_inv s" and "destroy_pool s = Some s'"
  shows "tp_inv s'"
proof (cases "dpc s")
  case D_notify
  let ?P = "\<lambda>w. if w \<in> set (start_cv s) then W_lock else wpc s w"
  have sleepers: "w \<in> set (start_cv s) \<longleftrightarrow> wpc s w = W_sleep" for w using inv by (simp add: tp_inv_def tp_inv_sleep_def)
  then have "running ?P (created s) = running (wpc s) (created s)" by (intro running_cong) simp
  moreover have "tp_inv_lock (tp_m s) ?P (cpc s) (D_join 0)" "tp_inv_sleep [] ?P (created s)"
    using inv D_notify start_notify_all_sleep [of "start_cv s" "wpc s" "created s"] by (simp_all add: tp_inv_def)
  moreover have "tp_inv_stop s'" using inv D_notify assms(2)
    by (auto simp: destroy_pool_def start_notify_all_def tp_inv_def tp_inv_stop_def split: if_splits)
  ultimately show ?thesis using inv D_notify assms(2)
    by (auto simp: destroy_pool_def start_notify_all_def tp_inv_def)
qed (use assms in \<open>auto simp: destroy_pool_def tp_inv_def tp_inv_stop_def less_Suc_eq split: if_splits intro: tp_lock_destructor\<close>)

lemma tp_inv_move: "tp_inv s \<Longrightarrow> tp_move e s = Some s' \<Longrightarrow> tp_inv s'"
proof (cases e)
  case (Call_submit c j)
  assume inv: "tp_inv s" and "tp_move e s = Some s'"
  with Call_submit have s': "s' = to_caller c (S_lock j) s" "\<not> submitting (cpc s c)" by (auto split: if_splits)
  then have "tp_inv_stop s'" using inv unfolding tp_inv_def by (auto elim!: tp_stop_cong)
  with inv s' show ?thesis by (simp add: tp_inv_def tp_lock_caller(3))
qed (auto simp: start_spurious_wakeup_def split: if_splits
    intro: create_worker_inv do_work_inv tp_wake_inv submit_job_inv destroy_pool_inv)

lemma tp_inv_start: "tp_init n s \<Longrightarrow> tp_inv s"
  by (simp add: tp_init_def tp_new_def tp_inv_def tp_inv_lock_def tp_inv_sleep_def tp_inv_jobs_def tp_inv_stop_def running_def)

interpretation tpool: invariant_system "tp_init n" tp_move tp_inv for n
  by unfold_locales (auto intro: tp_inv_start tp_inv_move)

interpretation tpool_mutex: lock_system "tp_init n" tp_move tp_inv
    "\<lambda>s w. wpc s w = W_body" for n
  by unfold_locales (auto simp: tp_inv_def tp_inv_lock_def)

subsection \<open>No job is left behind\<close>

text \<open>The workers that will look at the queue before they sleep, and the notifications on their way.\<close>

definition looking :: "(nat \<Rightarrow> 'j worker_pc) \<Rightarrow> nat set" where
  "looking P = {w. P w = W_lock \<or> P w = W_body}"

definition notifying :: "(nat \<Rightarrow> 'j caller_pc) \<Rightarrow> nat set" where
  "notifying C = {c. C c = S_notify}"

definition tp_served :: "'j tp \<Rightarrow> bool" where
  "tp_served s \<longleftrightarrow> tp_inv s \<and> finite (notifying (cpc s))
     \<and> (start_cv s = [] \<or> length (jobs s) \<le> card (looking (wpc s)) + card (notifying (cpc s)))"

lemma looking_finite: "tp_inv s \<Longrightarrow> finite (looking (wpc s))"
  by (rule finite_subset [of _ "{..<created s}"]) (auto simp: looking_def tp_inv_def dest!: tp_born)

lemma looking_upd: "looking (P(w := c)) = (if c = W_lock \<or> c = W_body then insert w (looking P) else looking P - {w})"
  by (auto simp: looking_def)

lemma looking_idle: "P w \<noteq> W_lock \<Longrightarrow> P w \<noteq> W_body \<Longrightarrow> looking P - {w} = looking P"
  by (auto simp: looking_def)

lemma notifying_upd: "notifying (C(c := p)) = (if p = S_notify then insert c (notifying C) else notifying C - {c})"
  by (auto simp: notifying_def)

lemma notifying_idle: "C c \<noteq> S_notify \<Longrightarrow> notifying C - {c} = notifying C"
  by (auto simp: notifying_def)

lemma wake_looking:
  assumes "tp_inv s" and "w \<in> set (start_cv s)"
  shows "card (looking (wpc (tp_wake w s))) = Suc (card (looking (wpc s)))"
proof -
  have "w \<notin> looking (wpc s)" using assms by (auto simp: tp_inv_def tp_inv_sleep_def looking_def)
  then show ?thesis using looking_finite [OF assms(1)] by (simp add: looking_upd)
qed

lemma notify_looking:
  assumes "tp_inv s" and "start_notify_one i s = Some s'"
  shows "start_cv s' = [] \<or> card (looking (wpc s')) = Suc (card (looking (wpc s)))"
    and "start_cv s = [] \<Longrightarrow> s' = s"
    and "jobs s' = jobs s \<and> cpc s' = cpc s"
  using assms(2) wake_looking [OF assms(1) nth_mem, of i] by (auto simp: start_notify_one_def split: if_splits)

lemma do_work_served:
  assumes served: "tp_served s" and step: "do_work w s = Some s'"
  shows "start_cv s' = [] \<or> length (jobs s') \<le> card (looking (wpc s')) + card (notifying (cpc s'))"
proof -
  from served have inv: "tp_inv s" and le: "start_cv s = [] \<or> length (jobs s) \<le> card (looking (wpc s)) + card (notifying (cpc s))"
    by (auto simp: tp_served_def)
  note fin = looking_finite [OF inv]
  show ?thesis
  proof (cases "wpc s w")
    case W_lock
    then have "w \<in> looking (wpc s)" by (simp add: looking_def)
    with W_lock step le show ?thesis by (auto simp: do_work_def looking_upd insert_absorb split: if_splits)
  next
    case (W_run j)
    then have "w \<notin> looking (wpc s)" by (simp add: looking_def)
    with W_run step le fin show ?thesis by (auto simp: do_work_def looking_upd)
  next
    case W_body
    then have "w \<in> looking (wpc s)" by (simp add: looking_def)
    with W_body step le fin show ?thesis
      by (auto simp: do_work_def looking_upd card_Diff_singleton split: if_splits list.splits)
  qed (use step in \<open>auto simp: do_work_def\<close>)
qed

lemma submit_job_served:
  assumes served: "tp_served s" and step: "submit_job c i s = Some s'"
  shows "finite (notifying (cpc s')) \<and> (start_cv s' = [] \<or> length (jobs s') \<le> card (looking (wpc s')) + card (notifying (cpc s')))"
proof -
  from served have inv: "tp_inv s" and fin: "finite (notifying (cpc s))"
    and le: "start_cv s = [] \<or> length (jobs s) \<le> card (looking (wpc s)) + card (notifying (cpc s))"
    by (auto simp: tp_served_def)
  show ?thesis
  proof (cases "cpc s c")
    case (S_lock j)
    with step le fin show ?thesis by (auto simp: submit_job_def notifying_upd notifying_idle split: if_splits)
  next
    case (S_body j)
    then have "c \<notin> notifying (cpc s)" by (simp add: notifying_def)
    with S_body step le fin show ?thesis by (auto simp: submit_job_def notifying_upd notifying_idle split: if_splits)
  next
    case S_notify
    then have c: "c \<in> notifying (cpc s)" by (simp add: notifying_def)
    then have "card (notifying (cpc s)) = Suc (card (notifying (cpc s) - {c}))"
      using fin by (metis card_Suc_Diff1)
    moreover from S_notify step obtain s1 where s1: "start_notify_one i s = Some s1" "s' = to_caller c S_returned s1"
      by (auto simp: submit_job_def)
    ultimately show ?thesis using notify_looking [OF inv s1(1)] le fin by (auto simp: notifying_upd)
  qed (use step in \<open>auto simp: submit_job_def\<close>)
qed

lemma tp_served_move:
  assumes served: "tp_served s" and step: "tp_move e s = Some s'"
  shows "tp_served s'"
proof -
  from served have inv: "tp_inv s" and fin: "finite (notifying (cpc s))"
    and le: "start_cv s = [] \<or> length (jobs s) \<le> card (looking (wpc s)) + card (notifying (cpc s))"
    by (auto simp: tp_served_def)
  have "finite (notifying (cpc s')) \<and> (start_cv s' = [] \<or> length (jobs s') \<le> card (looking (wpc s')) + card (notifying (cpc s')))"
  proof (cases e)
    case Create
    then have "wpc s (created s) = W_unborn" using inv by (simp add: tp_inv_def tp_inv_sleep_def)
    then have "created s \<notin> looking (wpc s)" by (simp add: looking_def)
    with Create step le fin looking_finite [OF inv] show ?thesis
      by (auto simp: create_worker_def looking_upd split: if_splits)
  next
    case (Work w)
    have "cpc s' = cpc s" using Work step by (auto simp: do_work_def split: worker_pc.splits if_splits list.splits)
    moreover have "do_work w s = Some s'" using Work step by simp
    ultimately show ?thesis using do_work_served [OF served] fin by metis
  next
    case (Spurious_start w)
    with step have w: "w \<in> set (start_cv s)" "s' = tp_wake w s" by (auto simp: start_spurious_wakeup_def split: if_splits)
    with wake_looking [OF inv w(1)] le fin show ?thesis by auto
  next
    case (Call_submit c j)
    then have "s' = to_caller c (S_lock j) s" "cpc s c \<noteq> S_notify" using step by (auto split: if_splits)
    with le fin show ?thesis by (auto simp: notifying_upd notifying_idle)
  next
    case (Submit c i)
    with step submit_job_served [OF served] show ?thesis by simp
  next
    case Destroy
    with step le fin show ?thesis
      by (auto simp: destroy_pool_def start_notify_all_def split: destructor_pc.splits if_splits)
  qed
  with tp_inv_move [OF inv step] show ?thesis by (simp add: tp_served_def)
qed

lemma tp_served_start: "tp_init n s \<Longrightarrow> tp_served s"
  using tp_inv_start [of n s] by (auto simp: tp_served_def tp_init_def tp_new_def notifying_def)

interpretation tpool_served: invariant_system "tp_init n" tp_move tp_served for n
  by unfold_locales (auto intro: tp_served_start tp_served_move)

subsection \<open>The shutdown ends\<close>

text \<open>
  A measure of what is left to do once the destructor has been called: what the workers do until they sleep or
  exit, what the threads inside \<open>submit_job\<close> do (the job they add, and the worker they wake), and what the
  destructor does (it wakes all workers and joins them).
\<close>

fun weight :: "'j worker_pc \<Rightarrow> nat" where
  "weight W_lock = 2"
| "weight W_body = 1"
| "weight (W_run j) = 3"
| "weight _ = 0"

fun chores :: "'j caller_pc \<Rightarrow> nat" where
  "chores (S_lock j) = 8"
| "chores (S_body j) = 7"
| "chores S_notify = 3"
| "chores _ = 0"

fun stages :: "nat \<Rightarrow> destructor_pc \<Rightarrow> nat" where
  "stages n D_lock = 3 * n + 4"
| "stages n D_body = 3 * n + 3"
| "stages n D_notify = 3 * n + 2"
| "stages n (D_join k) = Suc n - k"
| "stages n _ = 0"

definition in_submit :: "(nat \<Rightarrow> 'j caller_pc) \<Rightarrow> nat set" where
  "in_submit C = {c. 0 < chores (C c)}"

definition all_chores :: "(nat \<Rightarrow> 'j caller_pc) \<Rightarrow> nat" where
  "all_chores C = (\<Sum>c\<in>in_submit C. chores (C c))"

definition tp_work :: "'j tp \<Rightarrow> nat" where
  "tp_work s = (\<Sum>w<threads s. weight (wpc s w)) + 3 * length (jobs s) + all_chores (cpc s) + stages (threads s) (dpc s)"

definition tp_closing :: "'j tp \<Rightarrow> bool" where
  "tp_closing s \<longleftrightarrow> tp_inv s \<and> dpc s \<noteq> D_before \<and> finite (in_submit (cpc s))"

text \<open>What a new call of \<open>submit_job\<close> and a spurious wake-up add to it.\<close>

fun extra_work :: "'j tp_event \<Rightarrow> nat" where
  "extra_work (Call_submit c j) = 9"
| "extra_work (Spurious_start w) = 3"
| "extra_work _ = 0"

lemma weight_upd:
  fixes P :: "nat \<Rightarrow> 'j worker_pc"
  assumes "w < n"
  shows "(\<Sum>v<n. weight ((P(w := c)) v)) + weight (P w) = (\<Sum>v<n. weight (P v)) + weight c"
proof -
  have "(\<Sum>v\<in>{..<n} - {w}. weight ((P(w := c)) v)) = (\<Sum>v\<in>{..<n} - {w}. weight (P v))" by (intro sum.cong) auto
  with assms show ?thesis by (simp add: sum.remove [of "{..<n}" w])
qed

lemma in_submit_finite: "finite (in_submit C) \<Longrightarrow> finite (in_submit (C(c := p)))"
  by (rule finite_subset [of _ "insert c (in_submit C)"]) (auto simp: in_submit_def split: if_splits)

lemma chores_upd:
  fixes C :: "nat \<Rightarrow> 'j caller_pc"
  assumes "finite (in_submit C)"
  shows "all_chores (C(c := p)) + chores (C c) = all_chores C + chores p"
proof -
  let ?A = "insert c (in_submit C)"
  have all: "all_chores D = (\<Sum>d\<in>?A. chores (D d))" if "in_submit D \<subseteq> ?A" for D :: "nat \<Rightarrow> 'j caller_pc"
    unfolding all_chores_def using assms that by (intro sum.mono_neutral_left) (auto simp: in_submit_def)
  have rest: "(\<Sum>d\<in>?A - {c}. chores ((C(c := p)) d)) = (\<Sum>d\<in>?A - {c}. chores (C d))" by (intro sum.cong) auto
  have "in_submit (C(c := p)) \<subseteq> ?A" by (auto simp: in_submit_def split: if_splits)
  with rest show ?thesis using all [of "C(c := p)"] all [of C] assms by (simp add: sum.remove [of ?A c] subset_insertI)
qed

lemma tp_born_threads: "tp_closing s \<Longrightarrow> wpc s w \<noteq> W_unborn \<Longrightarrow> w < threads s"
  using tp_born [of "start_cv s" "wpc s" "created s" w] by (auto simp: tp_closing_def tp_inv_def tp_inv_stop_def)

lemma wake_work:
  assumes "tp_closing s" and "w \<in> set (start_cv s)"
  shows "tp_work (tp_wake w s) = tp_work s + 2"
proof -
  have sleep: "wpc s w = W_sleep" using assms by (auto simp: tp_closing_def tp_inv_def tp_inv_sleep_def)
  then have "w < threads s" using tp_born_threads [OF assms(1)] by simp
  from weight_upd [OF this, of "wpc s" W_lock] sleep show ?thesis by (simp add: tp_work_def)
qed

lemma do_work_less:
  assumes "tp_closing s" and "do_work w s = Some s'"
  shows "tp_work s' < tp_work s"
proof -
  have "wpc s w \<noteq> W_unborn" using assms(2) by (auto simp: do_work_def)
  then have w: "w < threads s" by (rule tp_born_threads [OF assms(1)])
  have upd: "(\<Sum>v<threads s. weight (((wpc s)(w := c)) v)) + weight (wpc s w) = (\<Sum>v<threads s. weight (wpc s v)) + weight c"
    for c using w by (rule weight_upd)
  show ?thesis
  proof (cases "wpc s w")
    case W_lock
    with assms(2) upd [of W_body] show ?thesis by (auto simp: do_work_def tp_work_def split: if_splits)
  next
    case (W_run j)
    with assms(2) upd [of W_lock] show ?thesis by (auto simp: do_work_def tp_work_def)
  next
    case W_body
    with assms(2) upd [of W_exit] upd [of W_sleep] upd [of "W_run j" for j] show ?thesis
      by (auto simp: do_work_def tp_work_def split: list.splits if_splits)
  qed (use assms(2) in \<open>auto simp: do_work_def\<close>)
qed

lemma submit_job_less:
  assumes closing: "tp_closing s" and step: "submit_job c i s = Some s'"
  shows "tp_work s' < tp_work s"
proof -
  have fin: "finite (in_submit (cpc s))" using closing by (simp add: tp_closing_def)
  note upd = chores_upd [OF fin, of c]
  show ?thesis
  proof (cases "cpc s c")
    case (S_lock j)
    with step upd [of "S_body j"] show ?thesis by (auto simp: submit_job_def tp_work_def split: if_splits)
  next
    case (S_body j)
    with step upd [of S_throws] upd [of S_notify] show ?thesis by (auto simp: submit_job_def tp_work_def split: if_splits)
  next
    case S_notify
    with step obtain s1 where s1: "start_notify_one i s = Some s1" "s' = to_caller c S_returned s1"
      by (auto simp: submit_job_def)
    have "tp_work s1 \<le> tp_work s + 2"
      using s1(1) wake_work [OF closing nth_mem, of i] by (auto simp: start_notify_one_def split: if_splits)
    moreover have same: "cpc s1 = cpc s" using s1(1) by (auto simp: start_notify_one_def split: if_splits)
    have "tp_work s' + 3 = tp_work s1" using upd [of S_returned] S_notify by (simp add: tp_work_def s1(2) same)
    ultimately show ?thesis by linarith
  qed (use step in \<open>auto simp: submit_job_def\<close>)
qed

lemma notify_all_work:
  "(\<Sum>w<n. weight (if w \<in> A then W_lock else P w)) \<le> (\<Sum>w<n. weight (P w)) + 2 * n" for P :: "nat \<Rightarrow> 'j worker_pc"
proof -
  have "(\<Sum>w<n. weight (if w \<in> A then W_lock else P w)) \<le> (\<Sum>w<n. weight (P w) + 2)" by (intro sum_mono) auto
  then show ?thesis by (simp add: sum.distrib del: add_2_eq_Suc')
qed

lemma destroy_pool_less:
  assumes "tp_closing s" and "destroy_pool s = Some s'"
  shows "tp_work s' < tp_work s"
proof (cases "dpc s")
  case D_notify
  with assms(2) notify_all_work [of "set (start_cv s)" "wpc s" "threads s"] show ?thesis
    by (auto simp: destroy_pool_def start_notify_all_def tp_work_def)
next
  case (D_join k)
  with assms(1) have "k \<le> threads s" by (simp add: tp_closing_def tp_inv_def tp_inv_stop_def)
  with D_join assms(2) show ?thesis by (auto simp: destroy_pool_def tp_work_def split: if_splits)
qed (use assms in \<open>auto simp: destroy_pool_def tp_work_def tp_closing_def split: if_splits\<close>)

lemma move_cpc: "tp_move e s = Some s' \<Longrightarrow> \<exists>c p. cpc s' = (cpc s)(c := p)"
proof -
  assume step: "tp_move e s = Some s'"
  define c where "c = (case e of Submit c i \<Rightarrow> c | Call_submit c j \<Rightarrow> c | _ \<Rightarrow> 0)"
  have "cpc s' d = cpc s d" if "d \<noteq> c" for d
    using step that by (cases e) (auto simp: c_def create_worker_def do_work_def start_spurious_wakeup_def submit_job_def
        start_notify_one_def destroy_pool_def start_notify_all_def split: worker_pc.splits caller_pc.splits destructor_pc.splits if_splits list.splits)
  then have "cpc s' = (cpc s)(c := cpc s' c)" by (auto simp: fun_eq_iff)
  then show ?thesis by blast
qed

lemma tp_closing_move:
  assumes closing: "tp_closing s" and step: "tp_move e s = Some s'"
  shows "tp_closing s' \<and> tp_work s' < tp_work s + extra_work e"
proof -
  from closing have inv: "tp_inv s" and d: "dpc s \<noteq> D_before" and fin: "finite (in_submit (cpc s))" by (auto simp: tp_closing_def)
  have "dpc s' \<noteq> D_before"
    using step d by (cases e) (auto simp: create_worker_def do_work_def start_spurious_wakeup_def submit_job_def start_notify_one_def
        destroy_pool_def start_notify_all_def split: worker_pc.splits caller_pc.splits destructor_pc.splits if_splits list.splits)
  moreover have "finite (in_submit (cpc s'))" using move_cpc [OF step] in_submit_finite [OF fin] by metis
  moreover have "tp_work s' < tp_work s + extra_work e"
  proof (cases e)
    case Create
    with step inv d show ?thesis by (auto simp: create_worker_def tp_inv_def tp_inv_stop_def split: if_splits)
  next
    case (Spurious_start w)
    with step have "w \<in> set (start_cv s)" "s' = tp_wake w s" by (auto simp: start_spurious_wakeup_def split: if_splits)
    with wake_work [OF closing, of w] Spurious_start show ?thesis by simp
  next
    case (Call_submit c j)
    with step have "s' = to_caller c (S_lock j) s" "chores (cpc s c) = 0" by (auto split: if_splits)
    with chores_upd [OF fin, of c "S_lock j"] Call_submit show ?thesis by (simp add: tp_work_def)
  qed (use step do_work_less [OF closing] submit_job_less [OF closing] destroy_pool_less [OF closing] in \<open>auto\<close>)
  ultimately show ?thesis using tp_inv_move [OF inv step] by (simp add: tp_closing_def)
qed

lemma tp_closing_run:
  "tp_closing s \<Longrightarrow> run tp_move es s = Some s' \<Longrightarrow> tp_closing s' \<and> length es + tp_work s' \<le> tp_work s + sum_list (map extra_work es)"
proof (induction es arbitrary: s)
  case (Cons e es)
  then obtain u where u: "tp_move e s = Some u" "run tp_move es u = Some s'" by (auto split: option.splits)
  have "1 + tp_work u \<le> tp_work s + extra_work e"
    using tp_closing_move [OF Cons.prems(1) u(1)] by simp
  with Cons.IH [OF _ u(2)] tp_closing_move [OF Cons.prems(1) u(1)] show ?case by auto
qed simp

text \<open>Until the destructor has returned, a worker, a caller or the destructor can go on by itself.\<close>

lemma tp_closing_enabled:
  assumes closing: "tp_closing s" and "dpc s \<noteq> D_done"
  shows "\<exists>e s'. extra_work e = 0 \<and> tp_move e s = Some s'"
proof (cases "tp_m s")
  case (Some a)
  from closing have "tp_inv_lock (Some a) (wpc s) (cpc s) (dpc s)" using Some by (simp add: tp_closing_def tp_inv_def)
  then have "(\<exists>w. wpc s w = W_body) \<or> (\<exists>c. submitting (cpc s c)) \<or> dpc s = D_body"
    by (cases a) (auto simp: tp_inv_lock_def)
  moreover have "\<exists>s'. tp_move (Work w) s = Some s'" if "wpc s w = W_body" for w using that by (simp add: do_work_def)
  moreover have "\<exists>s'. tp_move (Submit c 0) s = Some s'" if "submitting (cpc s c)" for c
    using that by (cases "cpc s c") (simp_all add: submit_job_def)
  moreover have "\<exists>s'. tp_move Destroy s = Some s'" if "dpc s = D_body" using that by (simp add: destroy_pool_def)
  moreover have "extra_work (Work w :: 'a tp_event) = 0" "extra_work (Submit w i :: 'a tp_event) = 0" "extra_work (Destroy :: 'a tp_event) = 0"
    for w i by simp_all
  ultimately show ?thesis by blast
next
  case None
  show ?thesis
  proof (cases "\<exists>s'. tp_move Destroy s = Some s'")
    case True
    moreover have "extra_work (Destroy :: 'a tp_event) = 0" by simp
    ultimately show ?thesis by blast
  next
    case False
    with None assms obtain k where k: "dpc s = D_join k" "k \<noteq> threads s" "wpc s k \<noteq> W_exit"
      by (cases "dpc s") (auto simp: destroy_pool_def tp_closing_def split: if_splits)
    with closing have cv: "start_cv s = []" and n: "created s = threads s" "k < threads s"
      and lock: "tp_inv_lock None (wpc s) (cpc s) (D_join k)" and sl: "tp_inv_sleep [] (wpc s) (threads s)"
      using None by (auto simp: tp_closing_def tp_inv_def tp_inv_stop_def)
    have "wpc s k \<noteq> W_body" using lock by (simp add: tp_inv_lock_def)
    with sl n(2) k(3) have "wpc s k = W_lock \<or> (\<exists>j. wpc s k = W_run j)" by (cases "wpc s k") (auto simp: tp_inv_sleep_def)
    then have "\<exists>s'. tp_move (Work k) s = Some s'" using None by (auto simp: do_work_def)
    moreover have "extra_work (Work k :: 'a tp_event) = 0" by simp
    ultimately show ?thesis by blast
  qed
qed

lemma in_submit_reach: "reach (tp_init n) tp_move s \<Longrightarrow> finite (in_submit (cpc s))"
proof (induction rule: reach.induct)
  case (start s)
  then show ?case by (simp add: tp_init_def tp_new_def in_submit_def)
next
  case (move s t)
  then obtain e where "tp_move e s = Some t" by (auto simp: steps_of_iff)
  from move_cpc [OF this] show ?case using in_submit_finite [OF move.IH] by metis
qed

lemma tp_threads: "reach (tp_init n) tp_move s \<Longrightarrow> threads s = n"
proof (induction rule: reach.induct)
  case (start s)
  then show ?case by (simp add: tp_init_def tp_new_def)
next
  case (move s t)
  then obtain e where "tp_move e s = Some t" by (auto simp: steps_of_iff)
  then have "threads t = threads s"
    by (cases e) (auto simp: create_worker_def do_work_def start_spurious_wakeup_def submit_job_def start_notify_one_def
        destroy_pool_def start_notify_all_def split: worker_pc.splits caller_pc.splits destructor_pc.splits if_splits list.splits)
  with move.IH show ?case by simp
qed

lemma tp_done:
  assumes "tp_inv s" and "dpc s = D_done" and "0 < threads s"
  shows "jobs s = []" and "mset (finished s) = mset (submitted s)"
proof -
  from assms have exit: "wpc s w = W_exit" if "w < threads s" for w
    using that by (auto simp: tp_inv_def tp_inv_stop_def)
  with assms show jobs: "jobs s = []" by (auto simp: tp_inv_def tp_inv_stop_def)
  have "created s \<le> threads s" using assms(1) by (simp add: tp_inv_def tp_inv_stop_def)
  with exit have "running (wpc s) (created s) = {#}" by (intro running_idle) simp
  with assms(1) jobs show "mset (finished s) = mset (submitted s)" by (simp add: tp_inv_def tp_inv_jobs_def)
qed

lemmas tp_eval = tp_new_def create_worker_def do_work_def to_worker_def submit_job_def to_caller_def start_notify_one_def
  tp_wake_def destroy_pool_def start_notify_all_def

subsection \<open>Properties\<close>

text \<open>C11. The pool starts the jobs in the order of their submission and runs each job once: what has been
  taken is a prefix of what has been submitted, nothing is run that was not taken, and when the
  destructor of a pool with workers has returned, every job that was accepted has been run, exactly once.\<close>

theorem threadpool_runs_every_job:
  assumes "reach (tp_init n) tp_move s"
  shows "submitted s = taken s @ jobs s \<and> mset (finished s) \<subseteq># mset (taken s)
     \<and> (dpc s = D_done \<and> 0 < n \<longrightarrow> jobs s = [] \<and> mset (finished s) = mset (submitted s))"
proof -
  have inv: "tp_inv s" using assms by (rule tpool.reach_inv)
  then have "submitted s = taken s @ jobs s" "mset (finished s) \<subseteq># mset (taken s)"
    by (simp_all add: tp_inv_def tp_inv_jobs_def)
  moreover have "jobs s = [] \<and> mset (finished s) = mset (submitted s)" if "dpc s = D_done" "0 < n"
    using tp_done [OF inv that(1)] that(2) tp_threads [OF assms] by simp
  ultimately show ?thesis by blast
qed

theorem threadpool_runs_every_job_witness:
  "\<exists>s :: nat tp. reach (tp_init 1) tp_move s \<and> dpc s = D_done \<and> submitted s = [7, 8] \<and> mset (finished s) = {#7, 8#}"
proof -
  let ?submit = "\<lambda>j :: nat. [Call_submit 0 j, Submit 0 0, Submit 0 0, Submit 0 0]"
  let ?work = "[Work 0, Work 0, Work 0]"
  have "\<exists>s :: nat tp. reach (tp_init 1) tp_move s \<and> (dpc s = D_done \<and> submitted s = [7, 8])"
    by (rule reach_witness [where s = "tp_new 1" and es = "[Create, Work 0, Work 0] @ ?submit 7 @ ?submit 8
          @ [Destroy, Destroy, Destroy, Destroy] @ ?work @ ?work @ [Work 0, Work 0, Destroy, Destroy]"],
        simp add: tp_init_def, simp add: tp_eval)
  then obtain s :: "nat tp" where s: "reach (tp_init 1) tp_move s" "dpc s = D_done" "submitted s = [7, 8]" by blast
  with threadpool_runs_every_job [OF s(1)] show ?thesis by (intro exI [of _ s]) simp
qed

text \<open>C26. No job is left behind by the pool, although \<open>submit_job\<close> notifies after it has released the
  mutex: while a worker sleeps, every job in the queue has a worker that will look at the queue before it
  sleeps, or a notification on its way.\<close>

theorem threadpool_served:
  assumes "reach (tp_init n) tp_move s" and "wpc s w = W_sleep"
  shows "length (jobs s) \<le> card {v. wpc s v = W_lock \<or> wpc s v = W_body} + card {c. cpc s c = S_notify}"
proof -
  have served: "tp_served s" using assms(1) by (rule tpool_served.reach_inv)
  with assms(2) have "start_cv s \<noteq> []" by (auto simp: tp_served_def tp_inv_def tp_inv_sleep_def)
  with served show ?thesis by (simp add: tp_served_def looking_def notifying_def)
qed

theorem threadpool_served_witness:
  "\<exists>s :: nat tp. reach (tp_init 2) tp_move s \<and> wpc s 1 = W_sleep \<and> jobs s = [7]
     \<and> 1 \<le> card {v. wpc s v = W_lock \<or> wpc s v = W_body} + card {c. cpc s c = S_notify}"
proof -
  have "\<exists>s :: nat tp. reach (tp_init 2) tp_move s \<and> (wpc s 1 = W_sleep \<and> jobs s = [7])"
    by (rule reach_witness [where s = "tp_new 2" and es = "[Create, Create, Work 0, Work 0, Work 1, Work 1,
          Call_submit 0 7, Submit 0 0, Submit 0 0]"], simp add: tp_init_def, simp add: tp_eval)
  then obtain s :: "nat tp" where s: "reach (tp_init 2) tp_move s" "wpc s 1 = W_sleep" "jobs s = [7]" by blast
  with threadpool_served [OF s(1,2)] show ?thesis by (intro exI [of _ s]) simp
qed

text \<open>C27. The destructor of the pool returns. From any state in which it has been called (its lock, the
  notification and the joins are still ahead, and threads may be inside \<open>submit_job\<close>) all threads together make a
  bounded number of steps, whatever their order; only a new call of \<open>submit_job\<close> and a spurious wake-up of a worker
  allow a few more. And until the destructor has returned some thread can always make a step, without a new call and
  without a spurious wake-up. The jobs are assumed to return.\<close>

theorem threadpool_shutdown_ends:
  assumes "reach (tp_init n) tp_move s" and "dpc s \<noteq> D_before" and "run tp_move es s = Some s'"
  shows "length es \<le> 6 * n + 3 * length (jobs s) + 8 * card {c. \<exists>j. cpc s c \<in> {S_lock j, S_body j, S_notify}} + 4
        + sum_list (map extra_work es)
     \<and> (dpc s' = D_done \<or> (\<exists>e s''. extra_work e = 0 \<and> tp_move e s' = Some s''))"
proof -
  have closing: "tp_closing s" using tpool.reach_inv [OF assms(1)] in_submit_reach [OF assms(1)] assms(2) by (simp add: tp_closing_def)
  from tp_closing_run [OF closing assms(3)] have run: "tp_closing s'" "length es \<le> tp_work s + sum_list (map extra_work es)" by auto
  have "weight (wpc s w) \<le> 3" for w by (cases "wpc s w") simp_all
  then have "(\<Sum>w<n. weight (wpc s w)) \<le> (\<Sum>w<n. 3)" by (intro sum_mono)
  moreover have "chores (cpc s c) \<le> 8" for c by (cases "cpc s c") simp_all
  then have "all_chores (cpc s) \<le> (\<Sum>c\<in>in_submit (cpc s). 8)" unfolding all_chores_def by (intro sum_mono)
  moreover have "0 < chores p \<longleftrightarrow> (\<exists>j. p \<in> {S_lock j, S_body j, S_notify})" for p :: "'a caller_pc" by (cases p) auto
  then have "in_submit (cpc s) = {c. \<exists>j. cpc s c \<in> {S_lock j, S_body j, S_notify}}" by (simp add: in_submit_def)
  moreover have "stages n (dpc s) \<le> 3 * n + 4" by (cases "dpc s") simp_all
  ultimately have "tp_work s \<le> 6 * n + 3 * length (jobs s) + 8 * card {c. \<exists>j. cpc s c \<in> {S_lock j, S_body j, S_notify}} + 4"
    using tp_threads [OF assms(1)] by (simp add: tp_work_def)
  with run tp_closing_enabled [OF run(1)] show ?thesis by (meson add_le_mono1 le_trans)
qed

text \<open>The destructor is called while a thread is about to submit a job.\<close>

theorem threadpool_shutdown_ends_witness:
  "\<exists>s s' :: nat tp. reach (tp_init 1) tp_move s \<and> dpc s = D_lock \<and> cpc s = (\<lambda>_. S_idle)(0 := S_lock 7)
     \<and> run tp_move [Submit 0 0, Submit 0 0, Destroy, Destroy] s = Some s'
     \<and> (dpc s' = D_done \<or> (\<exists>e s''. extra_work e = 0 \<and> tp_move e s' = Some s''))"
proof -
  let ?es = "[Submit 0 0, Submit 0 0, Destroy, Destroy] :: nat tp_event list"
  have "\<exists>s :: nat tp. reach (tp_init 1) tp_move s \<and> (dpc s = D_lock \<and> cpc s = (\<lambda>_. S_idle)(0 := S_lock 7)
      \<and> (case run tp_move ?es s of None \<Rightarrow> False | Some s' \<Rightarrow> True))"
    by (rule reach_witness [where s = "tp_new 1" and es = "[Create, Call_submit 0 7, Destroy]"],
        simp add: tp_init_def, simp add: tp_eval)
  then obtain s s' :: "nat tp" where s: "reach (tp_init 1) tp_move s" "dpc s = D_lock" "cpc s = (\<lambda>_. S_idle)(0 := S_lock 7)"
    "run tp_move ?es s = Some s'"
    by (metis (no_types, lifting) option.case_eq_if option.exhaust_sel)
  from threadpool_shutdown_ends [OF s(1) _ s(4)] s show ?thesis by auto
qed

text \<open>A pool without workers accepts jobs, and its destructor drops them.\<close>

theorem threadpool_without_workers:
  "\<exists>s :: nat tp. reach (tp_init 0) tp_move s \<and> dpc s = D_done \<and> cpc s 0 = S_returned \<and> submitted s = [7] \<and> finished s = []"
proof -
  have "\<exists>s :: nat tp. reach (tp_init 0) tp_move s \<and> (dpc s = D_done \<and> cpc s 0 = S_returned \<and> submitted s = [7] \<and> finished s = [])"
    by (rule reach_witness [where s = "tp_new 0" and es = "[Call_submit 0 7, Submit 0 0, Submit 0 0, Submit 0 0,
          Destroy, Destroy, Destroy, Destroy, Destroy]"], simp add: tp_init_def, simp add: tp_eval)
  then show ?thesis .
qed

end
