(* ===== verification/Raw_Memory.thy ===== *)
theory Raw_Memory
  imports DS_Prelude
begin

text \<open>
  The storage the containers manage by hand: \<open>operator new\<close> and \<open>operator delete\<close>, placement
  new and explicit destructor calls on the cells of a block, and the loops over a range of a block
  that the containers share. An element type is what its copy constructor does (\<open>None\<close> when it
  throws); moves do not throw.
\<close>

subsection \<open>Blocks\<close>

datatype fault = Bad_alloc | Copy_throws | Undefined

text \<open>The blocks that are allocated, the next fresh one, and how many cells are still free.\<close>

record 'a mem =
  blocks :: "nat \<Rightarrow> 'a cell list option"
  fresh :: nat
  room :: nat

text \<open>\<open>::operator new(n * sizeof(T))\<close>\<close>

definition mem_new :: "nat \<Rightarrow> 'a mem \<Rightarrow> (nat \<times> 'a mem) option" where
  "mem_new n m =
     (if n \<le> room m
      then Some (fresh m, m\<lparr>blocks := (blocks m)(fresh m \<mapsto> replicate n Raw), fresh := fresh m + 1,
                            room := room m - n\<rparr>)
      else None)"

text \<open>\<open>::operator delete(p)\<close>; deleting the null pointer does nothing, a dangling one is undefined.\<close>

definition mem_delete :: "nat option \<Rightarrow> 'a mem \<Rightarrow> 'a mem option" where
  "mem_delete p m =
     (case p of
        None \<Rightarrow> Some m
      | Some b \<Rightarrow>
          (case blocks m b of
             None \<Rightarrow> None
           | Some cs \<Rightarrow> Some (m\<lparr>blocks := (blocks m)(b := None), room := room m + length cs\<rparr>)))"

definition mem_cell :: "nat \<Rightarrow> nat \<Rightarrow> 'a mem \<Rightarrow> 'a cell option" where
  "mem_cell b i m =
     (case blocks m b of None \<Rightarrow> None | Some cs \<Rightarrow> if i < length cs then Some (cs ! i) else None)"

definition mem_set :: "nat \<Rightarrow> nat \<Rightarrow> 'a cell \<Rightarrow> 'a mem \<Rightarrow> 'a mem" where
  "mem_set b i c m =
     (case blocks m b of None \<Rightarrow> m | Some cs \<Rightarrow> m\<lparr>blocks := (blocks m)(b \<mapsto> cs[i := c])\<rparr>)"

text \<open>
  Placement new in raw storage, reading a live object, moving out of one, the destructor.
  Everything else is undefined (constructing over an object that was not destroyed is counted
  as undefined as well, though C++ only leaks what the object owns).
\<close>

definition construct :: "nat \<Rightarrow> nat \<Rightarrow> 'a \<Rightarrow> 'a mem \<Rightarrow> 'a mem option" where
  "construct b i v m = (if mem_cell b i m = Some Raw then Some (mem_set b i (Live v) m) else None)"

definition read_object :: "nat \<Rightarrow> nat \<Rightarrow> 'a mem \<Rightarrow> 'a option" where
  "read_object b i m = (case mem_cell b i m of Some (Live v) \<Rightarrow> Some v | _ \<Rightarrow> None)"

definition move_object :: "nat \<Rightarrow> nat \<Rightarrow> 'a mem \<Rightarrow> ('a \<times> 'a mem) option" where
  "move_object b i m =
     (case read_object b i m of None \<Rightarrow> None | Some v \<Rightarrow> Some (v, mem_set b i Husk m))"

definition destroy :: "nat \<Rightarrow> nat \<Rightarrow> 'a mem \<Rightarrow> 'a mem option" where
  "destroy b i m =
     (case mem_cell b i m of
        None \<Rightarrow> None
      | Some Raw \<Rightarrow> None
      | Some _ \<Rightarrow> Some (mem_set b i Raw m))"

subsection \<open>Loops over a range\<close>

text \<open>A step that can throw: the fault, if there is one, and the memory it leaves.\<close>

type_synonym 'a effect = "fault option \<times> 'a mem"

text \<open>
  \<open>for (; i < i + k; i++) new (ptr + i) T(...)\<close>, where each construction gives \<open>mk\<close>: a copy of
  the same value, or a default-constructed object.
\<close>

fun fill_range :: "'a option \<Rightarrow> nat \<Rightarrow> nat \<Rightarrow> nat \<Rightarrow> 'a mem \<Rightarrow> 'a effect" where
  "fill_range mk b i 0 m = (None, m)"
| "fill_range mk b i (Suc k) m =
     (case mk of
        None \<Rightarrow> (Some Copy_throws, m)
      | Some w \<Rightarrow>
          (case construct b i w m of
             None \<Rightarrow> (Some Undefined, m)
           | Some m' \<Rightarrow> fill_range mk b (Suc i) k m'))"

text \<open>\<open>for (; i < i + k; i++) new (dst + i) T(src[i])\<close>\<close>

fun copy_range :: "('a \<Rightarrow> 'a option) \<Rightarrow> nat \<Rightarrow> nat \<Rightarrow> nat \<Rightarrow> nat \<Rightarrow> 'a mem \<Rightarrow> 'a effect" where
  "copy_range copy src dst i 0 m = (None, m)"
| "copy_range copy src dst i (Suc k) m =
     (case read_object src i m of
        None \<Rightarrow> (Some Undefined, m)
      | Some v \<Rightarrow>
          (case copy v of
             None \<Rightarrow> (Some Copy_throws, m)
           | Some w \<Rightarrow>
               (case construct dst i w m of
                  None \<Rightarrow> (Some Undefined, m)
                | Some m' \<Rightarrow> copy_range copy src dst (Suc i) k m')))"

text \<open>\<open>for (; i < i + k; i++) new (dst + i) T(std::move(src[i]))\<close>\<close>

fun move_range :: "nat \<Rightarrow> nat \<Rightarrow> nat \<Rightarrow> nat \<Rightarrow> 'a mem \<Rightarrow> 'a mem option" where
  "move_range src dst i 0 m = Some m"
| "move_range src dst i (Suc k) m =
     (case move_object src i m of
        None \<Rightarrow> None
      | Some (v, m') \<Rightarrow>
          (case construct dst i v m' of None \<Rightarrow> None | Some m'' \<Rightarrow> move_range src dst (Suc i) k m''))"

text \<open>\<open>for (; i < i + k; i++) ptr[i].~T()\<close>\<close>

fun destroy_range :: "nat \<Rightarrow> nat \<Rightarrow> nat \<Rightarrow> 'a mem \<Rightarrow> 'a mem option" where
  "destroy_range b i 0 m = Some m"
| "destroy_range b i (Suc k) m =
     (case destroy b i m of None \<Rightarrow> None | Some m' \<Rightarrow> destroy_range b (Suc i) k m')"

subsection \<open>What the operations do on a block that is known\<close>

definition with_block :: "'a mem \<Rightarrow> nat \<Rightarrow> 'a cell list \<Rightarrow> 'a mem" where
  "with_block m b cs = m\<lparr>blocks := (blocks m)(b \<mapsto> cs)\<rparr>"

lemma with_block_simps [simp]:
  "blocks (with_block m b cs) = (blocks m)(b \<mapsto> cs)" "fresh (with_block m b cs) = fresh m"
  "room (with_block m b cs) = room m" "with_block (with_block m b cs) b ds = with_block m b ds"
  by (simp_all add: with_block_def)

lemma with_block_self: "blocks m b = Some cs \<Longrightarrow> with_block m b cs = m"
  by (simp add: with_block_def fun_upd_idem)

lemma with_block_swap: "b \<noteq> c \<Longrightarrow> with_block (with_block m b xs) c ys = with_block (with_block m c ys) b xs"
  by (simp add: with_block_def fun_upd_twist)

lemma cell_at [simp]: "mem_cell b i (with_block m b cs) = (if i < length cs then Some (cs ! i) else None)"
  by (simp add: mem_cell_def)

lemma cell_other [simp]: "b \<noteq> c \<Longrightarrow> mem_cell b i (with_block m c cs) = mem_cell b i m"
  by (simp add: mem_cell_def)

lemma set_at [simp]: "mem_set b i c (with_block m b cs) = with_block m b (cs[i := c])"
  by (simp add: mem_set_def with_block_def)

lemma set_other [simp]: "b \<noteq> c \<Longrightarrow> mem_set b i d (with_block m c cs) = with_block (mem_set b i d m) c cs"
  by (auto simp: mem_set_def with_block_def fun_upd_twist split: option.splits)

lemma middle [simp]: "(xs @ c # ys)[length xs := d] = xs @ d # ys" "(xs @ c # ys) ! length xs = c"
  by simp_all

text \<open>The loops, on a block that is the part done, the range and the rest.\<close>

lemma fill_range_ok:
  "fill_range (Some w) b (length xs) k (with_block m b (xs @ replicate k Raw @ ys))
     = (None, with_block m b (xs @ replicate k (Live w) @ ys))"
proof (induction k arbitrary: xs)
  case (Suc k)
  have "construct b (length xs) w (with_block m b (xs @ replicate (Suc k) Raw @ ys))
      = Some (with_block m b ((xs @ [Live w]) @ replicate k Raw @ ys))"
    by (simp add: construct_def)
  with Suc.IH [of "xs @ [Live w]"] show ?case by simp
qed simp

lemma fill_range_throws: "0 < k \<Longrightarrow> fill_range None b i k m = (Some Copy_throws, m)"
  by (cases k) simp_all

text \<open>Copying a range: every element is copied, or the first one whose copy throws stops it.\<close>

fun copy_all :: "('a \<Rightarrow> 'a option) \<Rightarrow> 'a list \<Rightarrow> 'a list \<times> bool" where
  "copy_all copy [] = ([], True)"
| "copy_all copy (v # vs) =
     (case copy v of None \<Rightarrow> ([], False) | Some w \<Rightarrow> (case copy_all copy vs of (ws, ok) \<Rightarrow> (w # ws, ok)))"

lemma copy_all_length: "length (fst (copy_all copy vs)) \<le> length vs"
  by (induction vs) (auto split: option.splits prod.splits)

lemma copy_all_ok: "snd (copy_all copy vs) \<Longrightarrow> length (fst (copy_all copy vs)) = length vs"
  by (induction vs) (auto split: option.splits prod.splits)

lemma copy_range_ok:
  assumes "src \<noteq> dst" and "blocks m src = Some (us @ map Live vs @ zs)" and "length xs = length us"
  shows "copy_range copy src dst (length xs) (length vs) (with_block m dst (xs @ replicate (length vs) Raw @ ys))
     = (if snd (copy_all copy vs) then None else Some Copy_throws,
        with_block m dst (xs @ map Live (fst (copy_all copy vs))
          @ replicate (length vs - length (fst (copy_all copy vs))) Raw @ ys))"
  using assms(2,3)
proof (induction vs arbitrary: us xs)
  case (Cons v vs)
  have read: "read_object src (length xs) (with_block m dst zs') = Some v" for zs'
    using Cons.prems assms(1) by (simp add: read_object_def mem_cell_def nth_append)
  show ?case
  proof (cases "copy v")
    case (Some w)
    have "construct dst (length xs) w (with_block m dst (xs @ replicate (length (v # vs)) Raw @ ys))
        = Some (with_block m dst ((xs @ [Live w]) @ replicate (length vs) Raw @ ys))"
      by (simp add: construct_def)
    moreover have "blocks m src = Some ((us @ [Live v]) @ map Live vs @ zs)" using Cons.prems(1) by simp
    note IH = Cons.IH [OF this, of "xs @ [Live w]"]
    ultimately show ?thesis using Cons.prems(2) Some read by (simp split: prod.splits)
  next
    case None
    with read show ?thesis by simp
  qed
qed simp

lemma move_range_ok:
  assumes "src \<noteq> dst" and "length xs = length us"
  shows "move_range src dst (length us) (length vs)
       (with_block (with_block m src (us @ map Live vs @ zs)) dst (xs @ replicate (length vs) Raw @ ys))
     = Some (with_block (with_block m src (us @ replicate (length vs) Husk @ zs)) dst (xs @ map Live vs @ ys))"
  using assms(2)
proof (induction vs arbitrary: us xs)
  case (Cons v vs)
  let ?m = "with_block (with_block m src (us @ map Live (v # vs) @ zs)) dst (xs @ replicate (length (v # vs)) Raw @ ys)"
  have "move_object src (length us) ?m = Some (v, with_block (with_block m src ((us @ [Husk]) @ map Live vs @ zs)) dst
      (xs @ replicate (length (v # vs)) Raw @ ys))"
    using assms(1) by (simp add: move_object_def read_object_def)
  moreover have "construct dst (length us) v (with_block (with_block m src ((us @ [Husk]) @ map Live vs @ zs)) dst
      (xs @ replicate (length (v # vs)) Raw @ ys))
      = Some (with_block (with_block m src ((us @ [Husk]) @ map Live vs @ zs)) dst ((xs @ [Live v]) @ replicate (length vs) Raw @ ys))"
    by (simp add: construct_def flip: Cons.prems)
  ultimately show ?case
    using Cons.IH [of "xs @ [Live v]" "us @ [Husk]"] Cons.prems by simp
qed simp

lemma destroy_range_ok:
  assumes "Raw \<notin> set cs"
  shows "destroy_range b (length xs) (length cs) (with_block m b (xs @ cs @ ys))
     = Some (with_block m b (xs @ replicate (length cs) Raw @ ys))"
  using assms
proof (induction cs arbitrary: xs)
  case (Cons c cs)
  have "destroy b (length xs) (with_block m b (xs @ (c # cs) @ ys)) = Some (with_block m b ((xs @ [Raw]) @ cs @ ys))"
    using Cons.prems by (cases c) (simp_all add: destroy_def)
  with Cons show ?case using Cons.IH [of "xs @ [Raw]"] by simp
qed simp

end
