(* ===== verification/Vector.thy ===== *)
theory Vector
  imports Raw_Memory
begin

text \<open>
  \<open>dsa_from_scratch/data_structures/vector.cpp\<close>: the growing array on raw storage. A state is
  the storage and the vectors of the program by name; the sizes are below the storage's, so
  they are natural numbers.
\<close>

subsection \<open>State\<close>

record vec =
  ptr :: "nat option"
  sz :: nat
  cp :: nat

record 'a vstate =
  vmem :: "'a mem"
  vecs :: "nat \<Rightarrow> vec"

text \<open>What a call returns: the fault it throws or runs into, if any, and the state it leaves.\<close>

type_synonym 'a voutcome = "fault option \<times> 'a vstate"

text \<open>What a reference parameter refers to: an object outside the vectors, or a cell of a block.\<close>

datatype 'a reference = Outside 'a | Inside nat nat

fun deref :: "'a reference \<Rightarrow> 'a mem \<Rightarrow> 'a option" where
  "deref (Outside v) m = Some v"
| "deref (Inside b i) m = read_object b i m"

definition set_vec :: "nat \<Rightarrow> vec \<Rightarrow> 'a mem \<Rightarrow> 'a vstate \<Rightarrow> 'a vstate" where
  "set_vec x v m s = s\<lparr>vmem := m, vecs := (vecs s)(x := v)\<rparr>"

subsection \<open>Constructors, assignment, destructor\<close>

definition vec_empty :: vec where
  "vec_empty = \<lparr>ptr = None, sz = 0, cp = 0\<rparr>"

definition vector_new :: "nat \<Rightarrow> 'a vstate \<Rightarrow> 'a vstate" where
  "vector_new x s = set_vec x vec_empty (vmem s) s"

text \<open>
  \<open>vector(n, val)\<close> with \<open>mk\<close> a copy of \<open>val\<close>, and \<open>vector(n)\<close> with \<open>mk\<close> a default-constructed
  object. When a construction throws, the vector does not exist and its block is not freed.
\<close>

definition vector_filled :: "'a option \<Rightarrow> nat \<Rightarrow> nat \<Rightarrow> 'a vstate \<Rightarrow> 'a voutcome" where
  "vector_filled mk x n s =
     (case mem_new n (vmem s) of
        None \<Rightarrow> (Some Bad_alloc, s)
      | Some (b, m) \<Rightarrow>
          (case fill_range mk b 0 n m of
             (None, m') \<Rightarrow> (None, set_vec x \<lparr>ptr = Some b, sz = n, cp = n\<rparr> m' s)
           | (Some e, m') \<Rightarrow> (Some e, s\<lparr>vmem := m'\<rparr>)))"

text \<open>The copy of a vector: as many cells as its capacity, its elements copied one by one.\<close>

definition vec_clone :: "('a \<Rightarrow> 'a option) \<Rightarrow> vec \<Rightarrow> 'a mem \<Rightarrow> (fault + vec) \<times> 'a mem" where
  "vec_clone copy other m =
     (case mem_new (cp other) m of
        None \<Rightarrow> (Inl Bad_alloc, m)
      | Some (b, m1) \<Rightarrow>
          (case (case ptr other of
                   None \<Rightarrow> ((if sz other = 0 then None else Some Undefined), m1)
                 | Some src \<Rightarrow> copy_range copy src b 0 (sz other) m1) of
             (None, m2) \<Rightarrow> (Inr \<lparr>ptr = Some b, sz = sz other, cp = cp other\<rparr>, m2)
           | (Some e, m2) \<Rightarrow> (Inl e, m2)))"

definition vector_copy :: "('a \<Rightarrow> 'a option) \<Rightarrow> nat \<Rightarrow> nat \<Rightarrow> 'a vstate \<Rightarrow> 'a voutcome" where
  "vector_copy copy x y s =
     (case vec_clone copy (vecs s y) (vmem s) of
        (Inl e, m) \<Rightarrow> (Some e, s\<lparr>vmem := m\<rparr>)
      | (Inr v, m) \<Rightarrow> (None, set_vec x v m s))"

text \<open>The destructor's work on a vector's storage; \<open>None\<close> when it is undefined.\<close>

definition vec_free :: "vec \<Rightarrow> 'a mem \<Rightarrow> 'a mem option" where
  "vec_free v m =
     (case (case ptr v of
              None \<Rightarrow> (if sz v = 0 then Some m else None)
            | Some b \<Rightarrow> destroy_range b 0 (sz v) m) of
        None \<Rightarrow> None
      | Some m' \<Rightarrow> mem_delete (ptr v) m')"

definition vector_destroy :: "nat \<Rightarrow> 'a vstate \<Rightarrow> 'a voutcome" where
  "vector_destroy x s =
     (case vec_free (vecs s x) (vmem s) of
        None \<Rightarrow> (Some Undefined, s)
      | Some m \<Rightarrow> (None, s\<lparr>vmem := m\<rparr>))"

text \<open>Copy assignment: copy, swap with the copy, and destroy the old contents as the copy dies.\<close>

definition vector_assign :: "('a \<Rightarrow> 'a option) \<Rightarrow> nat \<Rightarrow> nat \<Rightarrow> 'a vstate \<Rightarrow> 'a voutcome" where
  "vector_assign copy x y s =
     (if x = y then (None, s)
      else case vec_clone copy (vecs s y) (vmem s) of
        (Inl e, m) \<Rightarrow> (Some e, s\<lparr>vmem := m\<rparr>)
      | (Inr tmp, m) \<Rightarrow>
          (case vec_free (vecs s x) m of
             None \<Rightarrow> (Some Undefined, s\<lparr>vmem := m\<rparr>)
           | Some m' \<Rightarrow> (None, set_vec x tmp m' s)))"

definition vector_move :: "nat \<Rightarrow> nat \<Rightarrow> 'a vstate \<Rightarrow> 'a vstate" where
  "vector_move x y s = s\<lparr>vecs := (vecs s)(x := vecs s y, y := vec_empty)\<rparr>"

definition vector_move_assign :: "nat \<Rightarrow> nat \<Rightarrow> 'a vstate \<Rightarrow> 'a vstate" where
  "vector_move_assign x y s =
     (if x = y then s else s\<lparr>vecs := (vecs s)(x := vecs s y, y := vecs s x)\<rparr>)"

subsection \<open>Growing\<close>

text \<open>
  \<open>re_alloc\<close>: allocate, move the elements over, destroy what is left of them in the old block and
  free it.
\<close>

definition re_alloc :: "nat \<Rightarrow> nat \<Rightarrow> 'a vstate \<Rightarrow> 'a voutcome" where
  "re_alloc new_cap x s =
     (let v = vecs s x in
      case mem_new new_cap (vmem s) of
        None \<Rightarrow> (Some Bad_alloc, s)
      | Some (b, m1) \<Rightarrow>
          (case (case ptr v of
                   None \<Rightarrow> (if sz v = 0 then Some m1 else None)
                 | Some old \<Rightarrow>
                     (case move_range old b 0 (sz v) m1 of
                        None \<Rightarrow> None
                      | Some m2 \<Rightarrow> destroy_range old 0 (sz v) m2)) of
             None \<Rightarrow> (Some Undefined, s\<lparr>vmem := m1\<rparr>)
           | Some m3 \<Rightarrow>
               (case mem_delete (ptr v) m3 of
                  None \<Rightarrow> (Some Undefined, s\<lparr>vmem := m3\<rparr>)
                | Some m4 \<Rightarrow> (None, set_vec x (v\<lparr>ptr := Some b, cp := new_cap\<rparr>) m4 s))))"

text \<open>The first statement of \<open>push_back\<close> and \<open>emplace_back\<close>.\<close>

definition make_room :: "nat \<Rightarrow> 'a vstate \<Rightarrow> 'a voutcome" where
  "make_room x s =
     (let v = vecs s x in
      if sz v = cp v then re_alloc (if 0 < cp v then 2 * cp v else 1) x s else (None, s))"

text \<open>The rest of them: construct at \<open>ptr_ + size_\<close> and count.\<close>

definition append_object :: "nat \<Rightarrow> 'a \<Rightarrow> 'a vstate \<Rightarrow> 'a voutcome" where
  "append_object x w s =
     (let v = vecs s x in
      case ptr v of
        None \<Rightarrow> (Some Undefined, s)
      | Some b \<Rightarrow>
          (case construct b (sz v) w (vmem s) of
             None \<Rightarrow> (Some Undefined, s)
           | Some m \<Rightarrow> (None, set_vec x (v\<lparr>sz := sz v + 1\<rparr>) m s)))"

definition push_back :: "('a \<Rightarrow> 'a option) \<Rightarrow> nat \<Rightarrow> 'a reference \<Rightarrow> 'a vstate \<Rightarrow> 'a voutcome" where
  "push_back copy x val s =
     (case make_room x s of
        (Some e, s') \<Rightarrow> (Some e, s')
      | (None, s') \<Rightarrow>
          (case deref val (vmem s') of
             None \<Rightarrow> (Some Undefined, s')
           | Some v \<Rightarrow>
               (case copy v of
                  None \<Rightarrow> (Some Copy_throws, s')
                | Some w \<Rightarrow> append_object x w s')))"

text \<open>\<open>push_back(T&&)\<close> moves out of the object that \<open>val\<close> refers to.\<close>

definition push_back_move :: "nat \<Rightarrow> 'a reference \<Rightarrow> 'a vstate \<Rightarrow> 'a voutcome" where
  "push_back_move x val s =
     (case make_room x s of
        (Some e, s') \<Rightarrow> (Some e, s')
      | (None, s') \<Rightarrow>
          (case val of
             Outside v \<Rightarrow> append_object x v s'
           | Inside b i \<Rightarrow>
               (case move_object b i (vmem s') of
                  None \<Rightarrow> (Some Undefined, s')
                | Some (v, m) \<Rightarrow> append_object x v (s'\<lparr>vmem := m\<rparr>))))"

text \<open>\<open>mk\<close> is what \<open>T(args...)\<close> constructs.\<close>

definition emplace_back :: "nat \<Rightarrow> 'a option \<Rightarrow> 'a vstate \<Rightarrow> 'a voutcome" where
  "emplace_back x mk s =
     (case make_room x s of
        (Some e, s') \<Rightarrow> (Some e, s')
      | (None, s') \<Rightarrow>
          (case mk of None \<Rightarrow> (Some Copy_throws, s') | Some w \<Rightarrow> append_object x w s'))"

subsection \<open>Shrinking and reading\<close>

text \<open>On an empty vector \<open>pop_back\<close> destroys \<open>ptr_[SIZE_MAX]\<close>.\<close>

definition pop_back :: "nat \<Rightarrow> 'a vstate \<Rightarrow> 'a voutcome" where
  "pop_back x s =
     (let v = vecs s x in
      case ptr v of
        None \<Rightarrow> (Some Undefined, s)
      | Some b \<Rightarrow>
          (if sz v = 0 then (Some Undefined, s)
           else case destroy b (sz v - 1) (vmem s) of
                  None \<Rightarrow> (Some Undefined, s)
                | Some m \<Rightarrow> (None, set_vec x (v\<lparr>sz := sz v - 1\<rparr>) m s)))"

definition clear :: "nat \<Rightarrow> 'a vstate \<Rightarrow> 'a voutcome" where
  "clear x s =
     (let v = vecs s x in
      case (case ptr v of
              None \<Rightarrow> (if sz v = 0 then Some (vmem s) else None)
            | Some b \<Rightarrow> destroy_range b 0 (sz v) (vmem s)) of
        None \<Rightarrow> (Some Undefined, s)
      | Some m \<Rightarrow> (None, set_vec x (v\<lparr>sz := 0\<rparr>) m s))"

text \<open>The object that \<open>v[index]\<close> refers to.\<close>

definition vector_at :: "nat \<Rightarrow> nat \<Rightarrow> 'a vstate \<Rightarrow> 'a option" where
  "vector_at x index s =
     (case ptr (vecs s x) of None \<Rightarrow> None | Some b \<Rightarrow> read_object b index (vmem s))"

text \<open>The loop of \<open>operator==\<close> from index \<open>i\<close> on; \<open>None\<close> when it reads an object that is not there.\<close>

fun equal_from :: "nat \<Rightarrow> nat \<Rightarrow> nat \<Rightarrow> nat \<Rightarrow> 'a vstate \<Rightarrow> bool option" where
  "equal_from x y i 0 s = Some True"
| "equal_from x y i (Suc k) s =
     (case (vector_at x i s, vector_at y i s) of
        (Some v, Some w) \<Rightarrow> if v \<noteq> w then Some False else equal_from x y (Suc i) k s
      | _ \<Rightarrow> None)"

definition vector_equal :: "nat \<Rightarrow> nat \<Rightarrow> 'a vstate \<Rightarrow> bool option" where
  "vector_equal x y s =
     (if sz (vecs s x) \<noteq> sz (vecs s y) then Some False
      else if cp (vecs s x) \<noteq> cp (vecs s y) then Some False
      else equal_from x y 0 (sz (vecs s x)) s)"

subsection \<open>What a state means\<close>

text \<open>The vector \<open>v\<close> holds the list \<open>xs\<close>.\<close>

definition vec_rep :: "vec \<Rightarrow> 'a mem \<Rightarrow> 'a list \<Rightarrow> bool" where
  "vec_rep v m xs \<longleftrightarrow> sz v = length xs \<and> sz v \<le> cp v
     \<and> (case ptr v of
          None \<Rightarrow> cp v = 0
        | Some b \<Rightarrow> blocks m b = Some (map Live xs @ replicate (cp v - sz v) Raw))"

text \<open>
  The vectors that exist are those with \<open>f x \<noteq> None\<close>, and \<open>f x\<close> is what they hold; no two share a
  block, and every block that is allocated belongs to one of them: nothing is leaked.
\<close>

definition vec_state :: "'a vstate \<Rightarrow> (nat \<Rightarrow> 'a list option) \<Rightarrow> bool" where
  "vec_state s f \<longleftrightarrow>
     (\<forall>x xs. f x = Some xs \<longrightarrow> vec_rep (vecs s x) (vmem s) xs)
   \<and> (\<forall>x y b. f x \<noteq> None \<longrightarrow> f y \<noteq> None \<longrightarrow> ptr (vecs s x) = Some b \<longrightarrow> ptr (vecs s y) = Some b \<longrightarrow> x = y)
   \<and> (\<forall>b. blocks (vmem s) b \<noteq> None \<longrightarrow> b < fresh (vmem s) \<and> (\<exists>x. f x \<noteq> None \<and> ptr (vecs s x) = Some b))"

lemma vec_stateD:
  assumes "vec_state s f"
  shows "f x = Some xs \<Longrightarrow> vec_rep (vecs s x) (vmem s) xs"
    and "f x \<noteq> None \<Longrightarrow> f y \<noteq> None \<Longrightarrow> ptr (vecs s x) = Some b \<Longrightarrow> ptr (vecs s y) = Some b \<Longrightarrow> x = y"
    and "blocks (vmem s) b \<noteq> None \<Longrightarrow> b < fresh (vmem s)"
    and "blocks (vmem s) b \<noteq> None \<Longrightarrow> \<exists>x. f x \<noteq> None \<and> ptr (vecs s x) = Some b"
  using assms unfolding vec_state_def by blast+

lemma vec_rep_cong: "(\<And>b. ptr v = Some b \<Longrightarrow> blocks m' b = blocks m b) \<Longrightarrow> vec_rep v m' xs = vec_rep v m xs"
  by (auto simp: vec_rep_def split: option.splits)

lemma vec_rep_block: "vec_rep v m xs \<Longrightarrow> ptr v = Some b \<Longrightarrow> blocks m b = Some (map Live xs @ replicate (cp v - sz v) Raw)"
  by (simp add: vec_rep_def)

text \<open>
  One vector changes: it keeps its block or gets a fresh one, its old block is freed if it is
  another one, and the blocks of the others are as before.
\<close>

lemma vec_state_update:
  assumes st: "vec_state s f" and rep: "vec_rep v m ys"
    and old: "old = (if f x = None then None else ptr (vecs s x))"
    and same: "\<And>b. old \<noteq> Some b \<Longrightarrow> ptr v \<noteq> Some b \<Longrightarrow> blocks m b = blocks (vmem s) b"
    and new: "\<And>b. ptr v = Some b \<Longrightarrow> b < fresh m \<and> (old = Some b \<or> fresh (vmem s) \<le> b)"
    and gone: "\<And>b. old = Some b \<Longrightarrow> ptr v \<noteq> Some b \<Longrightarrow> blocks m b = None"
    and grow: "fresh (vmem s) \<le> fresh m"
  shows "vec_state (set_vec x v m s) (f(x \<mapsto> ys))"
proof -
  note D = vec_stateD [OF st]
  have others: "old \<noteq> Some b \<and> ptr v \<noteq> Some b" if "y \<noteq> x" "f y = Some zs" "ptr (vecs s y) = Some b" for y zs b
  proof -
    have "old \<noteq> Some b" using D(2) [of x y b] that old by (auto split: if_splits)
    moreover have "blocks (vmem s) b \<noteq> None" using vec_rep_block [OF D(1) [OF that(2)] that(3)] by simp
    then have "b < fresh (vmem s)" by (rule D(3))
    ultimately show ?thesis using new [of b] by auto
  qed
  have reps: "vec_rep (vecs s y) m zs" if "y \<noteq> x" "f y = Some zs" for y zs
    using D(1) [OF that(2)] others [OF that] same by (subst vec_rep_cong [where m = "vmem s"]) auto
  have own: "b < fresh m \<and> (\<exists>y. (f(x \<mapsto> ys)) y \<noteq> None \<and> ptr (((vecs s)(x := v)) y) = Some b)"
    if b: "blocks m b \<noteq> None" for b
  proof (cases "ptr v = Some b")
    case True
    then show ?thesis using new by (intro conjI exI [of _ x]) auto
  next
    case False
    with b gone have "old \<noteq> Some b" by auto
    with False b same have "blocks (vmem s) b \<noteq> None" by auto
    with D(3,4) grow obtain y where "b < fresh m" "f y \<noteq> None" "ptr (vecs s y) = Some b" by force
    with \<open>old \<noteq> Some b\<close> old show ?thesis by (intro conjI exI [of _ y]) auto
  qed
  show ?thesis
    unfolding vec_state_def
  proof (intro conjI allI impI)
    show "vec_rep (vecs (set_vec x v m s) y) (vmem (set_vec x v m s)) zs" if "(f(x \<mapsto> ys)) y = Some zs" for y zs
      using that reps rep by (auto simp: set_vec_def split: if_splits)
    show "y = z" if "(f(x \<mapsto> ys)) y \<noteq> None" "(f(x \<mapsto> ys)) z \<noteq> None"
      "ptr (vecs (set_vec x v m s) y) = Some b" "ptr (vecs (set_vec x v m s) z) = Some b" for y z b
      using that others D(2) [of y z b] by (auto simp: set_vec_def split: if_splits)
  qed (use own in \<open>auto simp: set_vec_def\<close>)
qed

text \<open>The same when a vector ceases to exist, its block freed.\<close>

lemma vec_state_remove:
  assumes st: "vec_state s f" and x: "f x = Some xs"
    and same: "\<And>b. ptr (vecs s x) \<noteq> Some b \<Longrightarrow> blocks m b = blocks (vmem s) b"
    and gone: "\<And>b. ptr (vecs s x) = Some b \<Longrightarrow> blocks m b = None"
    and grow: "fresh m = fresh (vmem s)"
  shows "vec_state (s\<lparr>vmem := m\<rparr>) (f(x := None))"
proof -
  note D = vec_stateD [OF st]
  have reps: "vec_rep (vecs s y) m zs" if "y \<noteq> x" "f y = Some zs" for y zs
  proof -
    have "ptr (vecs s x) \<noteq> Some b" if "ptr (vecs s y) = Some b" for b
      using D(2) [of x y b] x \<open>f y = Some zs\<close> that \<open>y \<noteq> x\<close> by auto
    with D(1) [OF that(2)] same show ?thesis by (subst vec_rep_cong [where m = "vmem s"]) auto
  qed
  have own: "b < fresh (vmem s) \<and> (\<exists>y. y \<noteq> x \<and> f y \<noteq> None \<and> ptr (vecs s y) = Some b)" if "blocks m b \<noteq> None" for b
  proof -
    have b: "ptr (vecs s x) \<noteq> Some b" using that gone by auto
    with that same have "blocks (vmem s) b \<noteq> None" by auto
    with D(3) [of b] D(4) [of b] b show ?thesis by metis
  qed
  have own': "b < fresh m \<and> (\<exists>y. (f(x := None)) y \<noteq> None \<and> ptr (vecs s y) = Some b)" if "blocks m b \<noteq> None" for b
    using own [OF that] grow by (metis fun_upd_apply)
  show ?thesis
    unfolding vec_state_def
  proof (intro conjI allI impI)
    show "y = z" if "(f(x := None)) y \<noteq> None" "(f(x := None)) z \<noteq> None"
      "ptr (vecs (s\<lparr>vmem := m\<rparr>) y) = Some b" "ptr (vecs (s\<lparr>vmem := m\<rparr>) z) = Some b" for y z b
      using that D(2) [of y z b] by (auto split: if_splits)
  qed (use reps own' in \<open>auto split: if_splits\<close>)
qed

subsection \<open>The operations on a state that makes sense\<close>

lemma mem_new_eq:
  "mem_new n m = (if n \<le> room m
     then Some (fresh m, with_block (m\<lparr>fresh := fresh m + 1, room := room m - n\<rparr>) (fresh m) (replicate n Raw)) else None)"
  by (simp add: mem_new_def with_block_def)

lemma destroy_all_ok:
  "Raw \<notin> set cs \<Longrightarrow> destroy_range b 0 (length cs) (with_block m b (cs @ ys))
     = Some (with_block m b (replicate (length cs) Raw @ ys))"
  using destroy_range_ok [of cs b "[]"] by simp

lemma vec_rep_fresh: "vec_state s f \<Longrightarrow> f x = Some xs \<Longrightarrow> ptr (vecs s x) = Some b \<Longrightarrow> b < fresh (vmem s)"
  using vec_rep_block [OF vec_stateD(1)] vec_stateD(3) by (metis option.distinct(1))

lemma re_alloc_eq:
  assumes st: "vec_state s f" and x: "f x = Some xs" and n: "length xs \<le> n"
  shows "if room (vmem s) < n then re_alloc n x s = (Some Bad_alloc, s)
    else \<exists>m. re_alloc n x s = (None, set_vec x ((vecs s x)\<lparr>ptr := Some (fresh (vmem s)), cp := n\<rparr>) m s)
      \<and> blocks m (fresh (vmem s)) = Some (map Live xs @ replicate (n - length xs) Raw)
      \<and> (\<forall>b. b \<noteq> fresh (vmem s) \<longrightarrow> blocks m b = (if ptr (vecs s x) = Some b then None else blocks (vmem s) b))
      \<and> fresh m = fresh (vmem s) + 1 \<and> room m = room (vmem s) - n + cp (vecs s x)"
proof -
  let ?v = "vecs s x" and ?m = "vmem s" let ?b = "fresh ?m"
  have rep: "vec_rep ?v ?m xs" using st x by (rule vec_stateD(1))
  then have size: "sz ?v = length xs" "sz ?v \<le> cp ?v" by (auto simp: vec_rep_def)
  let ?m1 = "?m\<lparr>fresh := ?b + 1, room := room ?m - n\<rparr>"
  have split: "replicate n Raw = replicate (length xs) Raw @ replicate (n - length xs) Raw"
    using n by (simp flip: replicate_add)
  show ?thesis
  proof (cases "ptr ?v")
    case None
    with rep have "xs = []" "cp ?v = 0" by (auto simp: vec_rep_def)
    with None size show ?thesis
      by (auto simp: re_alloc_def Let_def mem_new_eq mem_delete_def not_less intro!: exI)
  next
    case (Some old)
    then have old: "old < ?b" using st x by (intro vec_rep_fresh)
    let ?rest = "replicate (cp ?v - sz ?v) Raw"
    have m1: "?m1 = with_block ?m1 old (map Live xs @ ?rest)"
      using vec_rep_block [OF rep Some] by (simp add: with_block_self)
    have move: "move_range old ?b 0 (sz ?v) (with_block ?m1 ?b (replicate n Raw))
       = Some (with_block (with_block ?m1 old (replicate (length xs) Husk @ ?rest)) ?b (map Live xs @ replicate (n - length xs) Raw))"
      using move_range_ok [of old ?b "[]" "[]" xs ?m1 ?rest "replicate (n - length xs) Raw"] old size(1)
      by (subst m1) (simp add: split)
    have "with_block (with_block ?m1 old (replicate (length xs) Husk @ ?rest)) ?b (map Live xs @ replicate (n - length xs) Raw)
       = with_block (with_block ?m1 ?b (map Live xs @ replicate (n - length xs) Raw)) old (replicate (length xs) Husk @ ?rest)"
      using old by (intro with_block_swap) simp
    then have destroy: "destroy_range old 0 (sz ?v)
        (with_block (with_block ?m1 old (replicate (length xs) Husk @ ?rest)) ?b (map Live xs @ replicate (n - length xs) Raw))
       = Some (with_block (with_block ?m1 ?b (map Live xs @ replicate (n - length xs) Raw)) old (replicate (length xs) Raw @ ?rest))"
      using destroy_all_ok [of "replicate (length xs) Husk" old] size(1) by simp
    show ?thesis
      using Some move destroy size old
      by (auto simp: re_alloc_def Let_def mem_new_eq mem_delete_def not_less)
  qed
qed

definition grown :: "nat \<Rightarrow> nat" where
  "grown c = (if 0 < c then 2 * c else 1)"

text \<open>After \<open>make_room\<close> the vector holds what it held, and there is a free cell behind it.\<close>

lemma make_room_cases:
  assumes st: "vec_state s f" and x: "f x = Some xs"
  obtains (Room) "length xs < cp (vecs s x)" "make_room x s = (None, s)"
  | (Bad) "length xs = cp (vecs s x)" "room (vmem s) < grown (cp (vecs s x))" "make_room x s = (Some Bad_alloc, s)"
  | (Grown) s' where "length xs = cp (vecs s x)" "make_room x s = (None, s')" "vec_state s' f"
      "cp (vecs s' x) = grown (cp (vecs s x))" "room (vmem s') + grown (cp (vecs s x)) = room (vmem s) + cp (vecs s x)"
      "\<And>b. ptr (vecs s x) = Some b \<Longrightarrow> blocks (vmem s') b = None"
proof -
  let ?v = "vecs s x" let ?n = "grown (cp ?v)"
  have rep: "vec_rep ?v (vmem s) xs" using st x by (rule vec_stateD(1))
  then have size: "sz ?v = length xs" "sz ?v \<le> cp ?v" by (auto simp: vec_rep_def)
  show thesis
  proof (cases "length xs = cp ?v")
    case False
    with size show ?thesis by (intro Room) (simp_all add: make_room_def Let_def)
  next
    case True
    then have n: "length xs \<le> ?n" by (simp add: grown_def)
    show ?thesis
    proof (cases "room (vmem s) < ?n")
      case small: True
      with re_alloc_eq [OF st x n] size True show ?thesis
        by (intro Bad) (simp_all add: make_room_def Let_def grown_def)
    next
      case False
      with re_alloc_eq [OF st x n] obtain m where m:
        "re_alloc ?n x s = (None, set_vec x (?v\<lparr>ptr := Some (fresh (vmem s)), cp := ?n\<rparr>) m s)"
        "blocks m (fresh (vmem s)) = Some (map Live xs @ replicate (?n - length xs) Raw)"
        "\<And>b. b \<noteq> fresh (vmem s) \<Longrightarrow> blocks m b = (if ptr ?v = Some b then None else blocks (vmem s) b)"
        "fresh m = fresh (vmem s) + 1" "room m = room (vmem s) - ?n + cp ?v" by auto
      have "vec_state (set_vec x (?v\<lparr>ptr := Some (fresh (vmem s)), cp := ?n\<rparr>) m s) (f(x \<mapsto> xs))"
      proof (rule vec_state_update [OF st])
        show "vec_rep (?v\<lparr>ptr := Some (fresh (vmem s)), cp := ?n\<rparr>) m xs"
          using m(2) n size by (simp add: vec_rep_def)
        show "ptr ?v = (if f x = None then None else ptr ?v)" using x by simp
      qed (use m(3,4) in auto)
      moreover have "f(x \<mapsto> xs) = f" using x by auto
      moreover have "blocks m b = None" if "ptr ?v = Some b" for b
        using m(3) [of b] that vec_rep_fresh [OF st x that] by auto
      ultimately show ?thesis using m False size True
        by (intro Grown [of "set_vec x (?v\<lparr>ptr := Some (fresh (vmem s)), cp := ?n\<rparr>) m s"])
          (simp_all add: make_room_def Let_def set_vec_def grown_def)
    qed
  qed
qed

lemma vec_state_block:
  assumes "vec_state s f" and "f x = Some xs" and "length xs < cp (vecs s x)"
  obtains b where "ptr (vecs s x) = Some b"
    "blocks (vmem s) b = Some (map Live xs @ Raw # replicate (cp (vecs s x) - Suc (length xs)) Raw)"
proof -
  have rep: "vec_rep (vecs s x) (vmem s) xs" using assms(1,2) by (rule vec_stateD(1))
  with assms(3) obtain b where b: "ptr (vecs s x) = Some b" by (cases "ptr (vecs s x)") (auto simp: vec_rep_def)
  moreover have "replicate (cp (vecs s x) - length xs) Raw = Raw # replicate (cp (vecs s x) - Suc (length xs)) Raw"
    using assms(3) by (simp flip: replicate_Suc add: Suc_diff_Suc)
  ultimately show thesis using vec_rep_block [OF rep b] rep by (intro that) (auto simp: vec_rep_def)
qed

text \<open>A change of one vector within its block.\<close>

lemma vec_state_inside:
  assumes st: "vec_state s f" and x: "f x = Some xs" and b: "ptr (vecs s x) = Some b"
    and v: "ptr v = Some b" "sz v = length ys" "length ys \<le> cp v"
  shows "vec_state (set_vec x v (with_block (vmem s) b (map Live ys @ replicate (cp v - length ys) Raw)) s) (f(x \<mapsto> ys))"
proof (rule vec_state_update [OF st])
  show "vec_rep v (with_block (vmem s) b (map Live ys @ replicate (cp v - length ys) Raw)) ys"
    using v by (simp add: vec_rep_def)
  show "ptr (vecs s x) = (if f x = None then None else ptr (vecs s x))" using x by simp
qed (use v b vec_rep_fresh [OF st x b] in auto)

lemma append_object_ok:
  assumes st: "vec_state s f" and x: "f x = Some xs" and free: "length xs < cp (vecs s x)"
  shows "\<exists>s'. append_object x w s = (None, s') \<and> vec_state s' (f(x \<mapsto> xs @ [w]))
     \<and> cp (vecs s' x) = cp (vecs s x) \<and> room (vmem s') = room (vmem s)"
proof -
  let ?v = "vecs s x"
  obtain b where b: "ptr ?v = Some b"
    "blocks (vmem s) b = Some (map Live xs @ Raw # replicate (cp ?v - Suc (length xs)) Raw)"
    using vec_state_block [OF st x free] .
  have size: "sz ?v = length xs" using vec_stateD(1) [OF st x] by (simp add: vec_rep_def)
  have "vmem s = with_block (vmem s) b (map Live xs @ Raw # replicate (cp ?v - Suc (length xs)) Raw)"
    using b(2) by (simp add: with_block_self)
  then have "construct b (sz ?v) w (vmem s)
      = construct b (sz ?v) w (with_block (vmem s) b (map Live xs @ Raw # replicate (cp ?v - Suc (length xs)) Raw))" by simp
  also have "\<dots> = Some (with_block (vmem s) b (map Live (xs @ [w]) @ replicate (cp ?v - length (xs @ [w])) Raw))"
    using middle [of "map Live xs"] by (simp add: construct_def size)
  finally have "append_object x w s = (None, set_vec x (?v\<lparr>sz := sz ?v + 1\<rparr>)
      (with_block (vmem s) b (map Live (xs @ [w]) @ replicate (cp (?v\<lparr>sz := sz ?v + 1\<rparr>) - length (xs @ [w])) Raw)) s)"
    using b(1) by (simp add: append_object_def Let_def)
  moreover have "vec_state (set_vec x (?v\<lparr>sz := sz ?v + 1\<rparr>)
      (with_block (vmem s) b (map Live (xs @ [w]) @ replicate (cp (?v\<lparr>sz := sz ?v + 1\<rparr>) - length (xs @ [w])) Raw)) s)
      (f(x \<mapsto> xs @ [w]))"
    by (rule vec_state_inside [OF st x b(1)]) (use b(1) size free in simp_all)
  ultimately show ?thesis by (simp add: set_vec_def)
qed

text \<open>Appending with a value that is there when the room has been made.\<close>

lemma emplace_back_ok:
  assumes st: "vec_state s f" and x: "f x = Some xs"
  shows "case emplace_back x mk s of
      (None, s') \<Rightarrow> (\<exists>w. mk = Some w \<and> vec_state s' (f(x \<mapsto> xs @ [w])))
        \<and> cp (vecs s' x) = (if length xs = cp (vecs s x) then grown (cp (vecs s x)) else cp (vecs s x))
    | (Some e, s') \<Rightarrow> vec_state s' f \<and>
        (e = Bad_alloc \<and> length xs = cp (vecs s x) \<and> room (vmem s) < grown (cp (vecs s x)) \<or> e = Copy_throws \<and> mk = None)"
  using st x
proof (cases rule: make_room_cases)
  case Room
  show ?thesis
  proof (cases mk)
    case (Some w)
    with append_object_ok [OF st x Room(1), of w] Room show ?thesis by (auto simp: emplace_back_def)
  qed (use Room st in \<open>simp add: emplace_back_def\<close>)
next
  case Bad
  with st show ?thesis by (simp add: emplace_back_def)
next
  case (Grown s')
  then have "length xs < cp (vecs s' x)" by (simp add: grown_def)
  note ok = append_object_ok [OF Grown(3) x this]
  show ?thesis
  proof (cases mk)
    case (Some w)
    with ok [of w] Grown show ?thesis by (auto simp: emplace_back_def)
  qed (use Grown in \<open>simp add: emplace_back_def\<close>)
qed


lemma push_back_move_outside: "push_back_move x (Outside v) s = emplace_back x (Some v) s"
  by (auto simp: push_back_move_def emplace_back_def split: prod.splits option.splits)

text \<open>A reference into the vector itself.\<close>

lemma read_inside:
  assumes "vec_state s f" and "f x = Some xs" and "i < length xs" and "ptr (vecs s x) = Some b"
  shows "read_object b i (vmem s) = Some (xs ! i)"
  using vec_rep_block [OF vec_stateD(1) [OF assms(1,2)] assms(4)] assms(3)
  by (simp add: read_object_def mem_cell_def nth_append)

lemma push_back_own:
  assumes st: "vec_state s f" and x: "f x = Some xs" and i: "i < length xs" and b: "ptr (vecs s x) = Some b"
    and room: "grown (cp (vecs s x)) \<le> room (vmem s)"
  shows "if length xs < cp (vecs s x) then push_back copy x (Inside b i) s = push_back copy x (Outside (xs ! i)) s
    else fst (push_back copy x (Inside b i) s) = Some Undefined"
  using st x
proof (cases rule: make_room_cases)
  case Room
  with read_inside [OF st x i b] show ?thesis by (simp add: push_back_def)
next
  case Bad
  with room show ?thesis by simp
next
  case (Grown s')
  from Grown(6) [OF b] have "read_object b i (vmem s') = None" by (simp add: read_object_def mem_cell_def)
  with Grown(1,2) show ?thesis by (simp add: push_back_def)
qed

subsection \<open>Copies\<close>

lemma vec_clone_eq:
  assumes st: "vec_state s f" and y: "f y = Some ys" and n: "cp (vecs s y) \<le> room (vmem s)"
  shows "\<exists>m. vec_clone copy (vecs s y) (vmem s)
      = ((if snd (copy_all copy ys) then Inr \<lparr>ptr = Some (fresh (vmem s)), sz = length ys, cp = cp (vecs s y)\<rparr>
          else Inl Copy_throws), m)
     \<and> blocks m = (blocks (vmem s))(fresh (vmem s) \<mapsto> map Live (fst (copy_all copy ys))
          @ replicate (cp (vecs s y) - length (fst (copy_all copy ys))) Raw)
     \<and> fresh m = fresh (vmem s) + 1 \<and> room m = room (vmem s) - cp (vecs s y)"
proof -
  let ?v = "vecs s y" and ?m = "vmem s" let ?b = "fresh ?m"
  let ?m1 = "?m\<lparr>fresh := ?b + 1, room := room ?m - cp ?v\<rparr>"
  have rep: "vec_rep ?v ?m ys" using st y by (rule vec_stateD(1))
  then have size: "sz ?v = length ys" "length ys \<le> cp ?v" by (auto simp: vec_rep_def)
  have split: "replicate (cp ?v) Raw = replicate (length ys) Raw @ replicate (cp ?v - length ys) Raw"
    using size by (simp flip: replicate_add)
  show ?thesis
  proof (cases "ptr ?v")
    case None
    with rep have "ys = []" "cp ?v = 0" by (auto simp: vec_rep_def)
    with None n size show ?thesis by (simp add: vec_clone_def mem_new_eq)
  next
    case (Some src)
    then have src: "src < ?b" using st y by (intro vec_rep_fresh)
    have "blocks ?m1 src = Some ([] @ map Live ys @ replicate (cp ?v - sz ?v) Raw)"
      using vec_rep_block [OF rep Some] by simp
    note copied = copy_range_ok [OF _ this, of ?b "[]"]
    have sum: "replicate (length ys - length (fst (copy_all copy ys))) Raw @ replicate (cp ?v - length ys) Raw
      = replicate (cp ?v - length (fst (copy_all copy ys))) Raw"
      using size copy_all_length [of copy ys] by (simp flip: replicate_add)
    from copied src
    have "copy_range copy src ?b 0 (sz ?v) (with_block ?m1 ?b (replicate (cp ?v) Raw))
      = (if snd (copy_all copy ys) then None else Some Copy_throws,
         with_block ?m1 ?b (map Live (fst (copy_all copy ys))
           @ replicate (cp ?v - length (fst (copy_all copy ys))) Raw))"
      by (simp add: size split sum)
    then show ?thesis using Some n size by (simp add: vec_clone_def mem_new_eq)
  qed
qed

lemma vec_free_eq:
  assumes "vec_rep v m xs"
  shows "\<exists>m'. vec_free v m = Some m' \<and> (\<forall>b. blocks m' b = (if ptr v = Some b then None else blocks m b))
    \<and> fresh m' = fresh m \<and> room m' = room m + cp v"
proof (cases "ptr v")
  case None
  with assms show ?thesis by (auto simp: vec_rep_def vec_free_def mem_delete_def)
next
  case (Some b)
  have size: "sz v = length xs" "length xs \<le> cp v" using assms by (auto simp: vec_rep_def)
  have "m = with_block m b (map Live xs @ replicate (cp v - sz v) Raw)"
    using vec_rep_block [OF assms Some] by (simp add: with_block_self)
  then have "destroy_range b 0 (sz v) m
      = destroy_range b 0 (length (map Live xs)) (with_block m b (map Live xs @ replicate (cp v - sz v) Raw))"
    using size by simp
  also have "\<dots> = Some (with_block m b (replicate (length xs) Raw @ replicate (cp v - sz v) Raw))"
    by (subst destroy_all_ok) auto
  finally show ?thesis using Some size by (auto simp: vec_free_def mem_delete_def)
qed

text \<open>The outcome of a copy into a vector that does not exist yet, or instead of the old contents.\<close>

lemma vector_copy_ok:
  assumes st: "vec_state s f" and y: "f y = Some ys" and new: "f x = None" and ok: "snd (copy_all copy ys)"
    and n: "cp (vecs s y) \<le> room (vmem s)"
  shows "\<exists>s'. vector_copy copy x y s = (None, s') \<and> vec_state s' (f(x \<mapsto> fst (copy_all copy ys)))"
proof -
  let ?v = "\<lparr>ptr = Some (fresh (vmem s)), sz = length ys, cp = cp (vecs s y)\<rparr>"
  have size: "length ys \<le> cp (vecs s y)" using vec_stateD(1) [OF st y] by (simp add: vec_rep_def)
  obtain m where m: "vec_clone copy (vecs s y) (vmem s) = (Inr ?v, m)"
    "blocks m = (blocks (vmem s))(fresh (vmem s) \<mapsto> map Live (fst (copy_all copy ys))
          @ replicate (cp (vecs s y) - length ys) Raw)" "fresh m = fresh (vmem s) + 1"
    using vec_clone_eq [OF st y n, of copy] ok copy_all_ok [OF ok] by auto
  have "vec_state (set_vec x ?v m s) (f(x \<mapsto> fst (copy_all copy ys)))"
  proof (rule vec_state_update [OF st])
    show "None = (if f x = None then None else ptr (vecs s x))" using new by simp
    show "vec_rep ?v m (fst (copy_all copy ys))" using m(2) size copy_all_ok [OF ok] by (simp add: vec_rep_def)
  qed (use m in auto)
  with m(1) show ?thesis by (simp add: vector_copy_def)
qed

lemma vector_assign_ok:
  assumes st: "vec_state s f" and x: "f x = Some xs" and y: "f y = Some ys" and "x \<noteq> y" and ok: "snd (copy_all copy ys)"
    and n: "cp (vecs s y) \<le> room (vmem s)"
  shows "\<exists>s'. vector_assign copy x y s = (None, s') \<and> vec_state s' (f(x \<mapsto> fst (copy_all copy ys)))"
proof -
  let ?v = "\<lparr>ptr = Some (fresh (vmem s)), sz = length ys, cp = cp (vecs s y)\<rparr>"
  have size: "length ys \<le> cp (vecs s y)" using vec_stateD(1) [OF st y] by (simp add: vec_rep_def)
  obtain m where m: "vec_clone copy (vecs s y) (vmem s) = (Inr ?v, m)"
    "blocks m = (blocks (vmem s))(fresh (vmem s) \<mapsto> map Live (fst (copy_all copy ys))
          @ replicate (cp (vecs s y) - length ys) Raw)" "fresh m = fresh (vmem s) + 1"
    using vec_clone_eq [OF st y n, of copy] ok copy_all_ok [OF ok] by auto
  have lt: "b < fresh (vmem s)" if "ptr (vecs s x) = Some b" for b using vec_rep_fresh [OF st x that] .
  have "vec_rep (vecs s x) m xs"
    using vec_stateD(1) [OF st x] lt m(2) by (subst vec_rep_cong [where m = "vmem s"]) force+
  from vec_free_eq [OF this] obtain m' where m': "vec_free (vecs s x) m = Some m'"
    "\<And>b. blocks m' b = (if ptr (vecs s x) = Some b then None else blocks m b)" "fresh m' = fresh m" by auto
  have "vec_state (set_vec x ?v m' s) (f(x \<mapsto> fst (copy_all copy ys)))"
  proof (rule vec_state_update [OF st])
    show "ptr (vecs s x) = (if f x = None then None else ptr (vecs s x))" using x by simp
    show "vec_rep ?v m' (fst (copy_all copy ys))"
      using m(2) m'(2) size copy_all_ok [OF ok] lt by (auto simp: vec_rep_def)
  qed (use m m' lt in auto)
  with m(1) m'(1) \<open>x \<noteq> y\<close> show ?thesis by (simp add: vector_assign_def)
qed

lemma vec_clone_bad: "room m < cp v \<Longrightarrow> vec_clone copy v m = (Inl Bad_alloc, m)"
  by (simp add: vec_clone_def mem_new_def)

text \<open>When the copy of an element throws, every vector holds what it held, but the new block stays.\<close>

lemma vec_clone_throws:
  assumes st: "vec_state s f" and y: "f y = Some ys" and bad: "\<not> snd (copy_all copy ys)" and n: "cp (vecs s y) \<le> room (vmem s)"
  shows "\<exists>m. vec_clone copy (vecs s y) (vmem s) = (Inl Copy_throws, m)
     \<and> (\<forall>z zs. f z = Some zs \<longrightarrow> vec_rep (vecs s z) m zs \<and> ptr (vecs s z) \<noteq> Some (fresh (vmem s)))
     \<and> blocks m (fresh (vmem s)) \<noteq> None \<and> room m = room (vmem s) - cp (vecs s y)"
proof -
  obtain m where m: "vec_clone copy (vecs s y) (vmem s) = (Inl Copy_throws, m)"
    "\<And>b. b \<noteq> fresh (vmem s) \<Longrightarrow> blocks m b = blocks (vmem s) b" "blocks m (fresh (vmem s)) \<noteq> None"
    "room m = room (vmem s) - cp (vecs s y)"
    using vec_clone_eq [OF st y n, of copy] bad by auto
  have "vec_rep (vecs s z) m zs \<and> ptr (vecs s z) \<noteq> Some (fresh (vmem s))" if z: "f z = Some zs" for z zs
  proof -
    have ne: "ptr (vecs s z) = Some b \<Longrightarrow> b \<noteq> fresh (vmem s)" for b using vec_rep_fresh [OF st z] by fastforce
    with vec_stateD(1) [OF st z] m(2) show ?thesis by (subst vec_rep_cong [where m = "vmem s"]) auto
  qed
  with m show ?thesis by blast
qed

lemma vector_new_ok:
  assumes st: "vec_state s f" and new: "f x = None"
  shows "vec_state (vector_new x s) (f(x \<mapsto> []))"
  unfolding vector_new_def
proof (rule vec_state_update [OF st])
  show "None = (if f x = None then None else ptr (vecs s x))" using new by simp
qed (simp_all add: vec_rep_def vec_empty_def)

text \<open>Swapping two vectors is renaming them.\<close>

lemma vec_state_rename:
  assumes st: "vec_state s f" and inv: "\<And>z. p (p z) = z"
  shows "vec_state (s\<lparr>vecs := \<lambda>z. vecs s (p z)\<rparr>) (\<lambda>z. f (p z))"
proof -
  note D = vec_stateD [OF st]
  have "\<exists>z. f (p z) \<noteq> None \<and> ptr (vecs s (p z)) = Some b" if "blocks (vmem s) b \<noteq> None" for b
    using D(4) [OF that] inv by metis
  moreover have "z = z'" if "f (p z) \<noteq> None" "f (p z') \<noteq> None" "ptr (vecs s (p z)) = Some b" "ptr (vecs s (p z')) = Some b"
    for z z' b
    using D(2) [OF that] inv by metis
  ultimately show ?thesis using D(1,3) unfolding vec_state_def by simp
qed

definition swapped :: "nat \<Rightarrow> nat \<Rightarrow> nat \<Rightarrow> nat" where
  "swapped x y z = (if z = x then y else if z = y then x else z)"

lemma vector_move_assign_ok:
  assumes st: "vec_state s f" and x: "f x = Some xs" and y: "f y = Some ys"
  shows "vec_state (vector_move_assign x y s) (f(x \<mapsto> ys, y \<mapsto> xs))"
proof (cases "x = y")
  case True
  then have "f(x \<mapsto> ys, y \<mapsto> xs) = f" using x by auto
  with True st show ?thesis by (simp add: vector_move_assign_def)
next
  case False
  have "vec_state (s\<lparr>vecs := \<lambda>z. vecs s (swapped x y z)\<rparr>) (\<lambda>z. f (swapped x y z))"
    by (rule vec_state_rename [OF st]) (simp add: swapped_def)
  moreover have "(\<lambda>z. vecs s (swapped x y z)) = (vecs s)(x := vecs s y, y := vecs s x)"
    using False by (auto simp: swapped_def)
  moreover have "(\<lambda>z. f (swapped x y z)) = f(x \<mapsto> ys, y \<mapsto> xs)" using False x y by (auto simp: swapped_def)
  ultimately show ?thesis using False by (simp add: vector_move_assign_def)
qed

lemma vector_move_ok:
  assumes st: "vec_state s f" and y: "f y = Some ys" and "f x = None"
  shows "vec_state (vector_move x y s) (f(x \<mapsto> ys, y \<mapsto> []))"
proof -
  have xy: "x \<noteq> y" using assms(2,3) by auto
  then have "vector_move x y s = vector_move_assign x y (vector_new x s)"
    by (simp add: vector_move_def vector_move_assign_def vector_new_def set_vec_def)
  moreover have "(f(x \<mapsto> [])) y = Some ys" "(f(x \<mapsto> [])) x = Some []" using xy y by simp_all
  ultimately show ?thesis
    using vector_move_assign_ok [OF vector_new_ok [OF st assms(3)], of x "[]" y ys] by simp
qed

lemma vector_destroy_ok:
  assumes st: "vec_state s f" and x: "f x = Some xs"
  shows "\<exists>s'. vector_destroy x s = (None, s') \<and> vec_state s' (f(x := None))
     \<and> room (vmem s') = room (vmem s) + cp (vecs s x)"
proof -
  from vec_free_eq [OF vec_stateD(1) [OF st x]] obtain m where m: "vec_free (vecs s x) (vmem s) = Some m"
    "\<And>b. blocks m b = (if ptr (vecs s x) = Some b then None else blocks (vmem s) b)" "fresh m = fresh (vmem s)"
    "room m = room (vmem s) + cp (vecs s x)" by auto
  have "vec_state (s\<lparr>vmem := m\<rparr>) (f(x := None))"
    by (rule vec_state_remove [OF st x]) (use m in auto)
  with m show ?thesis by (simp add: vector_destroy_def)
qed

lemma vector_at_ok:
  assumes "vec_state s f" and "f x = Some xs" and "i < length xs"
  shows "vector_at x i s = Some (xs ! i)"
proof -
  have "ptr (vecs s x) \<noteq> None"
    using vec_stateD(1) [OF assms(1,2)] assms(3) by (auto simp: vec_rep_def split: option.splits)
  then show ?thesis using read_inside [OF assms] by (auto simp: vector_at_def)
qed

lemma equal_from_ok:
  assumes st: "vec_state s f" and x: "f x = Some xs" and y: "f y = Some ys" and len: "length xs = length ys"
  shows "i + k = length xs \<Longrightarrow> equal_from x y i k s = Some (drop i xs = drop i ys)"
proof (induction k arbitrary: i)
  case (Suc k)
  then have i: "i < length xs" "i < length ys" using len by simp_all
  have "drop i xs = xs ! i # drop (Suc i) xs" "drop i ys = ys ! i # drop (Suc i) ys"
    using i by (simp_all add: Cons_nth_drop_Suc)
  with Suc vector_at_ok [OF st x i(1)] vector_at_ok [OF st y i(2)] show ?case by simp
qed (simp add: len)

lemma vector_equal_ok:
  assumes st: "vec_state s f" and x: "f x = Some xs" and y: "f y = Some ys"
  shows "vector_equal x y s = Some (xs = ys \<and> cp (vecs s x) = cp (vecs s y))"
proof -
  have "sz (vecs s x) = length xs" "sz (vecs s y) = length ys"
    using vec_stateD(1) [OF st x] vec_stateD(1) [OF st y] by (auto simp: vec_rep_def)
  then show ?thesis using equal_from_ok [OF st x y, of 0 "length xs"] by (auto simp: vector_equal_def)
qed

lemma clear_ok:
  assumes st: "vec_state s f" and x: "f x = Some xs"
  shows "\<exists>s'. clear x s = (None, s') \<and> vec_state s' (f(x \<mapsto> [])) \<and> cp (vecs s' x) = cp (vecs s x)"
proof (cases "ptr (vecs s x)")
  case None
  let ?v = "vecs s x"
  have rep: "vec_rep ?v (vmem s) xs" using st x by (rule vec_stateD(1))
  with None have e: "sz ?v = 0" "xs = []" by (auto simp: vec_rep_def)
  then have "?v\<lparr>sz := 0\<rparr> = ?v" by (cases ?v) simp
  moreover have "clear x s = (None, set_vec x (?v\<lparr>sz := 0\<rparr>) (vmem s) s)"
    using e None by (simp add: clear_def Let_def)
  ultimately have "clear x s = (None, set_vec x ?v (vmem s) s)" by metis
  moreover have "set_vec x ?v (vmem s) s = s" by (simp add: set_vec_def)
  moreover have "f(x \<mapsto> []) = f" using x e by auto
  ultimately show ?thesis using st by simp
next
  case (Some b)
  let ?v = "vecs s x"
  have rep: "vec_rep ?v (vmem s) xs" using st x by (rule vec_stateD(1))
  then have size: "sz ?v = length xs" "length xs \<le> cp ?v" by (auto simp: vec_rep_def)
  have "vmem s = with_block (vmem s) b (map Live xs @ replicate (cp ?v - sz ?v) Raw)"
    using vec_rep_block [OF rep Some] by (simp add: with_block_self)
  then have "destroy_range b 0 (sz ?v) (vmem s)
      = destroy_range b 0 (length (map Live xs)) (with_block (vmem s) b (map Live xs @ replicate (cp ?v - sz ?v) Raw))"
    using size by simp
  also have "\<dots> = Some (with_block (vmem s) b (replicate (length xs) Raw @ replicate (cp ?v - sz ?v) Raw))"
    by (subst destroy_all_ok) auto
  also have "replicate (length xs) Raw @ replicate (cp ?v - sz ?v) Raw = replicate (cp ?v) Raw"
    using size by (simp flip: replicate_add)
  finally have "clear x s = (None, set_vec x (?v\<lparr>sz := 0\<rparr>) (with_block (vmem s) b (replicate (cp ?v) Raw)) s)"
    using Some by (simp add: clear_def Let_def)
  moreover have "vec_state (set_vec x (?v\<lparr>sz := 0\<rparr>) (with_block (vmem s) b (replicate (cp ?v) Raw)) s) (f(x \<mapsto> []))"
    using vec_state_inside [OF st x Some, of "?v\<lparr>sz := 0\<rparr>" "[]"] Some by simp
  ultimately show ?thesis by (simp add: set_vec_def)
qed

lemma pop_back_ok:
  assumes st: "vec_state s f" and x: "f x = Some (xs @ [w])"
  shows "\<exists>s'. pop_back x s = (None, s') \<and> vec_state s' (f(x \<mapsto> xs)) \<and> cp (vecs s' x) = cp (vecs s x)"
proof -
  let ?v = "vecs s x"
  have rep: "vec_rep ?v (vmem s) (xs @ [w])" using st x by (rule vec_stateD(1))
  then have size: "sz ?v = Suc (length xs)" "Suc (length xs) \<le> cp ?v" by (auto simp: vec_rep_def)
  with rep obtain b where b: "ptr ?v = Some b" by (cases "ptr ?v") (auto simp: vec_rep_def)
  have "vmem s = with_block (vmem s) b (map Live xs @ Live w # replicate (cp ?v - sz ?v) Raw)"
    using vec_rep_block [OF rep b] by (simp add: with_block_self)
  then have "destroy b (sz ?v - 1) (vmem s)
      = destroy b (length xs) (with_block (vmem s) b (map Live xs @ Live w # replicate (cp ?v - sz ?v) Raw))"
    using size by simp
  also have "\<dots> = Some (with_block (vmem s) b (map Live xs @ Raw # replicate (cp ?v - sz ?v) Raw))"
    using middle [of "map Live xs"] by (simp add: destroy_def)
  also have "Raw # replicate (cp ?v - sz ?v) Raw = replicate (cp (?v\<lparr>sz := sz ?v - 1\<rparr>) - length xs) Raw"
    using size by (simp flip: replicate_Suc add: Suc_diff_le)
  finally have "pop_back x s = (None, set_vec x (?v\<lparr>sz := sz ?v - 1\<rparr>)
      (with_block (vmem s) b (map Live xs @ replicate (cp (?v\<lparr>sz := sz ?v - 1\<rparr>) - length xs) Raw)) s)"
    using b size by (simp add: pop_back_def Let_def)
  moreover have "vec_state (set_vec x (?v\<lparr>sz := sz ?v - 1\<rparr>)
      (with_block (vmem s) b (map Live xs @ replicate (cp (?v\<lparr>sz := sz ?v - 1\<rparr>) - length xs) Raw)) s) (f(x \<mapsto> xs))"
    by (rule vec_state_inside [OF st x b]) (use b size in simp_all)
  ultimately show ?thesis by (simp add: set_vec_def)
qed

text \<open>Appending one value after the other, and how many elements \<open>re_alloc\<close> moves meanwhile.\<close>

fun push_all :: "nat \<Rightarrow> 'a list \<Rightarrow> 'a vstate \<Rightarrow> nat \<times> 'a voutcome" where
  "push_all x [] s = (0, None, s)"
| "push_all x (v # vs) s =
     (let moved = (if sz (vecs s x) = cp (vecs s x) then sz (vecs s x) else 0) in
      case push_back_move x (Outside v) s of
        (Some e, s') \<Rightarrow> (0, Some e, s')
      | (None, s') \<Rightarrow> (case push_all x vs s' of (n, r) \<Rightarrow> (moved + n, r)))"

lemma push_all_ok:
  assumes "vec_state s f" and "f x = Some xs" and "push_all x vs s = (n, None, s')"
    and "cp (vecs s x) \<le> 2 * length xs"
  shows "vec_state s' (f(x \<mapsto> xs @ vs)) \<and> n + cp (vecs s x) \<le> cp (vecs s' x)
     \<and> cp (vecs s' x) \<le> 2 * length (xs @ vs)"
  using assms
proof (induction vs arbitrary: s f xs n)
  case (Cons v vs)
  let ?c = "cp (vecs s x)"
  have size: "sz (vecs s x) = length xs" "length xs \<le> ?c" using vec_stateD(1) [OF Cons.prems(1,2)] by (auto simp: vec_rep_def)
  from Cons.prems(3) obtain s1 k where s1: "push_back_move x (Outside v) s = (None, s1)" "push_all x vs s1 = (k, None, s')"
    and n: "n = (if length xs = ?c then length xs else 0) + k"
    using size by (auto simp: Let_def split: prod.splits option.splits)
  from emplace_back_ok [OF Cons.prems(1,2), of "Some v"] s1(1)
  have st1: "vec_state s1 (f(x \<mapsto> xs @ [v]))" and c1: "cp (vecs s1 x) = (if length xs = ?c then grown ?c else ?c)"
    by (auto simp: push_back_move_outside)
  have "cp (vecs s1 x) \<le> 2 * length (xs @ [v])" using c1 Cons.prems(4) by (auto simp: grown_def)
  note Cons.IH [OF st1 _ s1(2) this]
  then have IH: "vec_state s' (f(x \<mapsto> (xs @ [v]) @ vs))"
    "k + cp (vecs s1 x) \<le> cp (vecs s' x)" "cp (vecs s' x) \<le> 2 * length ((xs @ [v]) @ vs)"
    by (simp_all del: fun_upd_apply add: fun_upd_same)
  have "n + ?c \<le> k + cp (vecs s1 x)" using c1 n by (auto simp: grown_def)
  with IH show ?case by (simp del: fun_upd_apply)
qed (simp add: fun_upd_idem)

lemma vector_filled_ok:
  assumes st: "vec_state s f" and new: "f x = None" and n: "n \<le> room (vmem s)"
  shows "\<exists>s'. vector_filled (Some w) x n s = (None, s') \<and> vec_state s' (f(x \<mapsto> replicate n w))
     \<and> room (vmem s') + n = room (vmem s) \<and> cp (vecs s' x) = n"
proof -
  let ?m = "(vmem s)\<lparr>fresh := fresh (vmem s) + 1, room := room (vmem s) - n\<rparr>" let ?b = "fresh (vmem s)"
  let ?v = "\<lparr>ptr = Some ?b, sz = n, cp = n\<rparr>" let ?m' = "with_block ?m ?b (replicate n (Live w))"
  have "fill_range (Some w) ?b 0 n (with_block ?m ?b (replicate n Raw)) = (None, ?m')"
    using fill_range_ok [of w ?b "[]" n ?m "[]"] by simp
  then have "vector_filled (Some w) x n s = (None, set_vec x ?v ?m' s)"
    using n by (simp add: vector_filled_def mem_new_eq)
  moreover have "vec_state (set_vec x ?v ?m' s) (f(x \<mapsto> replicate n w))"
  proof (rule vec_state_update [OF st])
    show "None = (if f x = None then None else ptr (vecs s x))" using new by simp
  qed (simp_all add: vec_rep_def)
  moreover have "room (vmem (set_vec x ?v ?m' s)) + n = room (vmem s)" "cp (vecs (set_vec x ?v ?m' s) x) = n"
    using n by (simp_all add: set_vec_def)
  ultimately show ?thesis by blast
qed

text \<open>A program with the vectors 0 and 1, both full, and room for \<open>r\<close> cells.\<close>

definition two_vectors :: "nat \<Rightarrow> 'a list \<Rightarrow> 'a list \<Rightarrow> 'a vstate" where
  "two_vectors r xs ys =
     \<lparr>vmem = \<lparr>blocks = (\<lambda>_. None)(0 \<mapsto> map Live xs, 1 \<mapsto> map Live ys), fresh = 2, room = r\<rparr>,
      vecs = (\<lambda>_. vec_empty)(0 := \<lparr>ptr = Some 0, sz = length xs, cp = length xs\<rparr>,
                             1 := \<lparr>ptr = Some 1, sz = length ys, cp = length ys\<rparr>)\<rparr>"

definition two_lists :: "'a list \<Rightarrow> 'a list \<Rightarrow> nat \<Rightarrow> 'a list option" where
  "two_lists xs ys = (\<lambda>_. None)(0 \<mapsto> xs, 1 \<mapsto> ys)"

lemma two_vectors_state: "vec_state (two_vectors r xs ys) (two_lists xs ys)"
  by (auto simp: vec_state_def two_vectors_def two_lists_def vec_rep_def vec_empty_def split: if_splits)

lemma two_lists_simps [simp]:
  "two_lists xs ys 0 = Some xs" "two_lists xs ys (Suc 0) = Some ys" "two_lists xs ys (Suc (Suc n)) = None"
  "(two_lists xs ys)(0 \<mapsto> zs) = two_lists zs ys" "(two_lists xs ys)(Suc 0 \<mapsto> zs) = two_lists xs zs"
  by (auto simp: two_lists_def fun_upd_twist)

lemma two_vectors_simps [simp]:
  "cp (vecs (two_vectors r xs ys) 0) = length xs" "cp (vecs (two_vectors r xs ys) (Suc 0)) = length ys"
  "ptr (vecs (two_vectors r xs ys) 0) = Some 0" "room (vmem (two_vectors r xs ys)) = r"
  "fresh (vmem (two_vectors r xs ys)) = 2"
  by (simp_all add: two_vectors_def)

lemmas vector_eval = Let_def push_back_move_def make_room_def re_alloc_def append_object_def vector_new_def set_vec_def
  vec_empty_def two_vectors_def mem_new_def mem_delete_def mem_cell_def mem_set_def construct_def move_object_def
  read_object_def destroy_def numeral_2_eq_2 numeral_3_eq_3

subsection \<open>Properties\<close>




text \<open>\<open>push_back\<close> of an element of the vector itself is fine while there is room and undefined when
  the vector is full: \<open>re_alloc\<close> has destroyed and freed the element before it is copied.\<close>

theorem vector_push_back_own_element:
  assumes "vec_state s f" and "f x = Some xs" and "i < length xs" and "ptr (vecs s x) = Some b"
    and "grown (cp (vecs s x)) \<le> room (vmem s)"
  shows "if length xs < cp (vecs s x) then push_back copy x (Inside b i) s = push_back copy x (Outside (xs ! i)) s
    else fst (push_back copy x (Inside b i) s) = Some Undefined"
  by (rule push_back_own [OF assms])

theorem vector_push_back_own_element_witness:
  "fst (push_back Some 0 (Inside 0 0) (two_vectors 6 [7, 8 :: nat] [])) = Some Undefined"
proof -
  have "two_lists [7, 8 :: nat] [] 0 = Some [7, 8]" by simp
  from vector_push_back_own_element [OF two_vectors_state [of 6] this, of 0 0 Some] show ?thesis
    by (simp add: grown_def)
qed

text \<open>What is left when the copy of an element has thrown: every vector, and a block that belongs to none of them.\<close>

definition block_leaked :: "(nat \<Rightarrow> 'a list option) \<Rightarrow> 'a vstate \<Rightarrow> bool" where
  "block_leaked f s \<longleftrightarrow> (\<forall>z zs. f z = Some zs \<longrightarrow> vec_rep (vecs s z) (vmem s) zs)
     \<and> (\<exists>b. blocks (vmem s) b \<noteq> None \<and> (\<forall>z. f z = None \<or> ptr (vecs s z) \<noteq> Some b))"

lemma vec_clone_leaks:
  assumes "vec_state s f" and "f y = Some ys" and "\<not> snd (copy_all copy ys)" and "cp (vecs s y) \<le> room (vmem s)"
  shows "\<exists>m. vec_clone copy (vecs s y) (vmem s) = (Inl Copy_throws, m) \<and> block_leaked f (s\<lparr>vmem := m\<rparr>)"
proof -
  from vec_clone_throws [OF assms] obtain m where
    m: "vec_clone copy (vecs s y) (vmem s) = (Inl Copy_throws, m)"
    "\<And>z zs. f z = Some zs \<Longrightarrow> vec_rep (vecs s z) m zs \<and> ptr (vecs s z) \<noteq> Some (fresh (vmem s))"
    "blocks m (fresh (vmem s)) \<noteq> None" by auto
  have "f z = None \<or> ptr (vecs s z) \<noteq> Some (fresh (vmem s))" for z using m(2) by (cases "f z") auto
  with m have "block_leaked f (s\<lparr>vmem := m\<rparr>)" unfolding block_leaked_def by auto
  with m(1) show ?thesis by blast
qed

text \<open>C20. Copying. The copy constructor makes a new vector \<open>z\<close> with copies of the elements of \<open>y\<close>. Copy assignment
  gives \<open>x\<close> copies of them, destroys and frees what \<open>x\<close> held, and does nothing on self-assignment. Without memory everything
  is as before. When the copy of an element throws, all vectors hold what they held, but the block allocated for the
  copy is leaked: it belongs to no vector.\<close>

theorem vector_copy_assignment:
  assumes "vec_state s f" and "f x = Some xs" and "f y = Some ys" and "f z = None"
  shows "(if room (vmem s) < cp (vecs s y) then vector_copy copy z y s = (Some Bad_alloc, s)
     else case vector_copy copy z y s of
        (None, s') \<Rightarrow> snd (copy_all copy ys) \<and> vec_state s' (f(z \<mapsto> fst (copy_all copy ys)))
      | (Some e, s') \<Rightarrow> e = Copy_throws \<and> \<not> snd (copy_all copy ys) \<and> vecs s' = vecs s \<and> block_leaked f s')
   \<and> (if x = y then vector_assign copy x y s = (None, s)
     else if room (vmem s) < cp (vecs s y) then vector_assign copy x y s = (Some Bad_alloc, s)
     else case vector_assign copy x y s of
        (None, s') \<Rightarrow> snd (copy_all copy ys) \<and> vec_state s' (f(x \<mapsto> fst (copy_all copy ys)))
      | (Some e, s') \<Rightarrow> e = Copy_throws \<and> \<not> snd (copy_all copy ys) \<and> vecs s' = vecs s \<and> block_leaked f s')"
proof (cases "room (vmem s) < cp (vecs s y)")
  case True
  then show ?thesis by (auto simp: vector_assign_def vector_copy_def vec_clone_bad)
next
  case False
  then have n: "cp (vecs s y) \<le> room (vmem s)" by simp
  show ?thesis
  proof (cases "snd (copy_all copy ys)")
    case True
    from vector_assign_ok [OF assms(1-3) _ True n] vector_copy_ok [OF assms(1,3,4) True n] n True show ?thesis
      by (cases "x = y") (auto simp: vector_assign_def)
  next
    case bad: False
    from vec_clone_leaks [OF assms(1,3) bad n] n bad show ?thesis by (auto simp: vector_assign_def vector_copy_def)
  qed
qed

theorem vector_copy_assignment_witness:
  "\<exists>s' :: nat vstate. vector_assign Some 0 1 (two_vectors 2 [7] [8, 9]) = (None, s') \<and> vec_state s' (two_lists [8, 9] [8, 9])"
proof -
  have f: "two_lists [7 :: nat] [8, 9] 0 = Some [7]" "two_lists [7 :: nat] [8, 9] 1 = Some [8, 9]"
    "two_lists [7 :: nat] [8, 9] 2 = None" by (simp_all add: numeral_2_eq_2)
  from vector_copy_assignment [OF two_vectors_state [of 2] f, of Some] show ?thesis
    by (auto split: prod.splits option.splits)
qed

text \<open>The rest of a vector's life, without leaks and without copies: the move constructor takes the
  elements and leaves an empty vector, move assignment swaps, \<open>clear\<close> and \<open>pop_back\<close> destroy all
  elements and the last one and keep the capacity, and the destructor destroys and frees everything.\<close>

theorem vector_moves_and_destruction:
  assumes "vec_state s f" and "f x = Some xs" and "f y = Some ys" and "f z = None"
  shows "vec_state (vector_move z x s) (f(z \<mapsto> xs, x \<mapsto> [])) \<and> vmem (vector_move z x s) = vmem s
    \<and> vec_state (vector_move_assign x y s) (f(x \<mapsto> ys, y \<mapsto> xs)) \<and> vmem (vector_move_assign x y s) = vmem s
    \<and> (\<exists>s'. clear x s = (None, s') \<and> vec_state s' (f(x \<mapsto> [])) \<and> cp (vecs s' x) = cp (vecs s x))
    \<and> (if xs = [] then fst (pop_back x s) = Some Undefined
       else \<exists>s'. pop_back x s = (None, s') \<and> vec_state s' (f(x \<mapsto> butlast xs)) \<and> cp (vecs s' x) = cp (vecs s x))
    \<and> (\<exists>s'. vector_destroy x s = (None, s') \<and> vec_state s' (f(x := None))
         \<and> room (vmem s') = room (vmem s) + cp (vecs s x))"
proof -
  have "fst (pop_back x s) = Some Undefined" if "xs = []"
    using vec_stateD(1) [OF assms(1,2)] that by (auto simp: pop_back_def Let_def vec_rep_def split: option.splits)
  moreover have "\<exists>s'. pop_back x s = (None, s') \<and> vec_state s' (f(x \<mapsto> butlast xs)) \<and> cp (vecs s' x) = cp (vecs s x)"
    if "xs \<noteq> []"
    using pop_back_ok [OF assms(1), of x "butlast xs" "last xs"] assms(2) that by simp
  ultimately show ?thesis
    using vector_move_ok [OF assms(1,2,4)] vector_move_assign_ok [OF assms(1-3)] clear_ok [OF assms(1,2)]
      vector_destroy_ok [OF assms(1,2)]
    by (simp add: vector_move_def vector_move_assign_def)
qed

theorem vector_moves_and_destruction_witness:
  "\<exists>s' :: nat vstate. pop_back 0 (two_vectors 2 [7, 8] [9]) = (None, s') \<and> vec_state s' (two_lists [7] [9]) \<and> cp (vecs s' 0) = 2"
proof -
  have f: "two_lists [7, 8 :: nat] [9] 0 = Some [7, 8]" "two_lists [7, 8 :: nat] [9] 1 = Some [9]"
    "two_lists [7, 8 :: nat] [9] 2 = None" by (simp_all add: numeral_2_eq_2)
  from vector_moves_and_destruction [OF two_vectors_state [of 2] f] show ?thesis by (simp add: numeral_2_eq_2)
qed

text \<open>Growth is amortised: appending \<open>n\<close> values to a new vector moves at most \<open>2 * n\<close> elements
  altogether, and leaves a capacity of at most \<open>2 * n\<close>.\<close>

theorem vector_amortised_growth:
  assumes "vec_state s f" and "f x = None" and "push_all x vs (vector_new x s) = (n, None, s')"
  shows "vec_state s' (f(x \<mapsto> vs)) \<and> n \<le> 2 * length vs \<and> cp (vecs s' x) \<le> 2 * length vs"
proof -
  have "cp (vecs (vector_new x s) x) = 0" by (simp add: vector_new_def set_vec_def vec_empty_def)
  with push_all_ok [OF vector_new_ok [OF assms(1,2)] _ assms(3), of "[]"] show ?thesis by simp
qed

theorem vector_amortised_growth_witness:
  "\<exists>s' :: nat vstate. push_all 2 [1, 2, 3] (vector_new 2 (two_vectors 9 [] [])) = (3, None, s') \<and> cp (vecs s' 2) \<le> 6"
proof -
  have f: "two_lists ([] :: nat list) [] 2 = None" by (simp add: numeral_2_eq_2)
  have "fst (push_all 2 [1, 2, 3 :: nat] (vector_new 2 (two_vectors 9 [] []))) = 3"
    "fst (snd (push_all 2 [1, 2, 3 :: nat] (vector_new 2 (two_vectors 9 [] [])))) = None"
    by (simp_all add: vector_eval)
  then obtain s' where s': "push_all 2 [1, 2, 3 :: nat] (vector_new 2 (two_vectors 9 [] [])) = (3, None, s')"
    by (cases "push_all 2 [1, 2, 3 :: nat] (vector_new 2 (two_vectors 9 [] []))") auto
  with vector_amortised_growth [OF two_vectors_state [of 9] f s'] show ?thesis by simp
qed

text \<open>\<open>operator==\<close> compares the capacities as well as the elements, so vectors with the same
  elements can be unequal.\<close>

theorem vector_equality:
  assumes "vec_state s f" and "f x = Some xs" and "f y = Some ys"
  shows "vector_equal x y s = Some (xs = ys \<and> cp (vecs s x) = cp (vecs s y))"
  by (rule vector_equal_ok [OF assms])

theorem vector_equality_witness:
  "vector_equal 0 1 (two_vectors 0 [7 :: nat, 8] [7, 8]) = Some True"
proof -
  have f: "two_lists [7, 8 :: nat] [7, 8] 0 = Some [7, 8]" "two_lists [7, 8 :: nat] [7, 8] 1 = Some [7, 8]" by simp_all
  from vector_equality [OF two_vectors_state [of 0] f] show ?thesis by simp
qed

end
