(* ===== verification/Vector_Demo.thy ===== *)
theory Vector_Demo
  imports Vector
begin

text \<open>
  Iteration over a vector of \<open>dsa_from_scratch/data_structures/vector.cpp\<close>: \<open>begin\<close>, \<open>end\<close>, \<open>size\<close>, the
  range-based \<open>for\<close> over them, and the second part of \<open>main\<close>.
\<close>

subsection \<open>Iterators\<close>

text \<open>An iterator is a pointer: null, or a block with the number of a cell.\<close>

type_synonym pointer = "(nat \<times> nat) option"

definition vector_begin :: "nat \<Rightarrow> 'a vstate \<Rightarrow> pointer" where
  "vector_begin x s = map_option (\<lambda>b. (b, 0)) (ptr (vecs s x))"

definition vector_end :: "nat \<Rightarrow> 'a vstate \<Rightarrow> pointer" where
  "vector_end x s = map_option (\<lambda>b. (b, sz (vecs s x))) (ptr (vecs s x))"

definition vector_size :: "nat \<Rightarrow> 'a vstate \<Rightarrow> nat" where
  "vector_size x s = sz (vecs s x)"

text \<open>
  \<open>for (auto &v : x)\<close>: the objects it visits. \<open>None\<close> is a read of an object that is not there; a loop that
  runs past \<open>e\<close> comes to one.
\<close>

definition read_at :: "'a mem \<Rightarrow> pointer \<Rightarrow> 'a option" where
  "read_at m p = Option.bind p (\<lambda>(b, i). read_object b i m)"

partial_function (option) range_for :: "'a mem \<Rightarrow> pointer \<Rightarrow> pointer \<Rightarrow> 'a list option" where
  "range_for m p e =
     (if p = e then Some []
      else case read_at m p of
             None \<Rightarrow> None
           | Some v \<Rightarrow> Option.bind (range_for m (map_option (\<lambda>(b, i). (b, i + 1)) p) e) (\<lambda>vs. Some (v # vs)))"

text \<open>
  The end of \<open>main\<close>: the vectors \<open>a\<close> (10 copies of 5) and \<open>b\<close> (moved from \<open>a\<close>), the loop over \<open>a\<close>, and the
  destructors in reverse order. The result is what the loop prints.
\<close>

definition vector_main :: "nat \<Rightarrow> nat \<Rightarrow> int vstate \<Rightarrow> (fault + int list) \<times> int vstate" where
  "vector_main a b s =
     (case vector_filled (Some 5) a 10 s of
        (Some e, s1) \<Rightarrow> (Inl e, s1)
      | (None, s1) \<Rightarrow>
          (let s2 = vector_move b a s1 in
           case range_for (vmem s2) (vector_begin a s2) (vector_end a s2) of
             None \<Rightarrow> (Inl Undefined, s2)
           | Some printed \<Rightarrow>
               (case vector_destroy b s2 of
                  (Some e, s3) \<Rightarrow> (Inl e, s3)
                | (None, s3) \<Rightarrow>
                    (case vector_destroy a s3 of
                       (Some e, s4) \<Rightarrow> (Inl e, s4)
                     | (None, s4) \<Rightarrow> (Inr printed, s4)))))"

lemma range_for_live:
  assumes "blocks m b = Some (map Live xs @ zs)"
  shows "i \<le> length xs \<Longrightarrow> range_for m (Some (b, i)) (Some (b, length xs)) = Some (drop i xs)"
proof (induction "length xs - i" arbitrary: i)
  case 0
  then show ?case by (subst range_for.simps) simp
next
  case (Suc k)
  then have i: "i < length xs" by simp
  with assms have "read_at m (Some (b, i)) = Some (xs ! i)"
    by (simp add: read_at_def read_object_def mem_cell_def nth_append)
  moreover have "range_for m (Some (b, i + 1)) (Some (b, length xs)) = Some (drop (i + 1) xs)"
    using Suc i by simp
  ultimately show ?case using i by (subst range_for.simps) (simp add: Cons_nth_drop_Suc)
qed

text \<open>A range-based \<open>for\<close> reads exactly the elements, in order, and \<open>size()\<close> counts them.\<close>

lemma vector_range_for:
  assumes "vec_state s f" and "f x = Some xs"
  shows "range_for (vmem s) (vector_begin x s) (vector_end x s) = Some xs" and "vector_size x s = length xs"
proof -
  note rep = vec_stateD(1) [OF assms]
  then show "vector_size x s = length xs" by (simp add: vector_size_def vec_rep_def)
  show "range_for (vmem s) (vector_begin x s) (vector_end x s) = Some xs"
  proof (cases "ptr (vecs s x)")
    case None
    with rep have "xs = []" by (auto simp: vec_rep_def)
    with None show ?thesis by (subst range_for.simps) (simp add: vector_begin_def vector_end_def)
  next
    case (Some b)
    with rep have "blocks (vmem s) b = Some (map Live xs @ replicate (cp (vecs s x) - sz (vecs s x)) Raw)" "sz (vecs s x) = length xs"
      by (simp_all add: vec_rep_def)
    with Some range_for_live [of "vmem s" b xs _ 0] show ?thesis by (simp add: vector_begin_def vector_end_def)
  qed
qed

subsection \<open>Property\<close>

text \<open>\<open>main\<close>, in any program in which its two vectors are not in use, ends without a fault, prints nothing,
  since \<open>a\<close> has been moved from, and gives back all the memory it has taken; it throws exactly when there is
  no room for ten cells.\<close>

theorem vector_main_ends:
  assumes "vec_state t g" and "g a = None" and "g b = None" and "a \<noteq> b"
  shows "case vector_main a b t of
         (Inl e, t') \<Rightarrow> e = Bad_alloc \<and> room (vmem t) < 10 \<and> t' = t
       | (Inr printed, t') \<Rightarrow> 10 \<le> room (vmem t) \<and> printed = [] \<and> vec_state t' g \<and> room (vmem t') = room (vmem t)"
proof (cases "10 \<le> room (vmem t)")
  case True
  from vector_filled_ok [OF assms(1,2) True, of 5] obtain t1 where t1: "vector_filled (Some 5) a 10 t = (None, t1)"
    "vec_state t1 (g(a \<mapsto> replicate 10 5))" "room (vmem t1) + 10 = room (vmem t)" "cp (vecs t1 a) = 10" by blast
  define t2 where "t2 = vector_move b a t1"
  have t2: "vec_state t2 (g(a \<mapsto> [], b \<mapsto> replicate 10 5))" "vmem t2 = vmem t1" "cp (vecs t2 b) = 10" "cp (vecs t2 a) = 0"
    using vector_move_ok [OF t1(2), of a "replicate 10 5" b] assms(3,4) t1(4)
    by (simp_all add: t2_def vector_move_def fun_upd_twist vec_empty_def)
  have ab: "(g(a \<mapsto> [], b \<mapsto> replicate 10 5)) a = Some []" "(g(a \<mapsto> [], b \<mapsto> replicate 10 5)) b = Some (replicate 10 5)"
    using assms(4) by simp_all
  have eq: "(g(a \<mapsto> [], b \<mapsto> replicate 10 5))(b := None) = g(a \<mapsto> [])"
    using assms(3,4) by (auto simp: fun_eq_iff)
  note loop = vector_range_for(1) [OF t2(1) ab(1)]
  from vector_destroy_ok [OF t2(1) ab(2)] obtain t3 where t3: "vector_destroy b t2 = (None, t3)" "vec_state t3 (g(a \<mapsto> []))" "room (vmem t3) = room (vmem t)"
    using t1(3) t2(2,3) unfolding eq by auto
  have "vecs t3 = vecs t2" using t3(1) by (auto simp: vector_destroy_def split: option.splits)
  with vector_destroy_ok [OF t3(2), of a "[]"] t2(4) t3(3) assms(2)
  obtain t4 where t4: "vector_destroy a t3 = (None, t4)" "vec_state t4 g" "room (vmem t4) = room (vmem t)"
    by (auto simp: fun_upd_idem)
  show ?thesis using t1(1) loop t3(1) t4 True by (simp add: vector_main_def Let_def flip: t2_def)
qed (simp add: vector_main_def vector_filled_def mem_new_def)

theorem vector_main_ends_witness: "fst (vector_main 2 3 (two_vectors 12 [4] [])) = Inr []"
proof -
  have "two_lists [4 :: int] [] 2 = None" "two_lists [4 :: int] [] 3 = None" by (simp_all add: numeral_2_eq_2 numeral_3_eq_3)
  from vector_main_ends [OF two_vectors_state [of 12 "[4 :: int]" "[]"] this] show ?thesis
    by (auto split: prod.splits sum.splits)
qed

end
