(* ===== verification/Trace_Object.thy ===== *)
theory Trace_Object
  imports DS_Prelude
begin

text \<open>
  \<open>dsa_from_scratch/data_structures/trace.h\<close>: the class whose operations print what they are. The objects
  are numbered; a new object gets the next number. \<open>std::swap\<close>, which the assignments call because there
  is no other \<open>swap\<close>, is the one of the standard: move construction and two move assignments.
\<close>

datatype message = Ctor | Parameter_ctor | Copy_ctor | Move_ctor | Copy_assignment | Move_assignment | Dtor

record trace =
  tx :: int
  ty :: int
  tz :: "nat option"

record tworld =
  traces :: "nat \<Rightarrow> trace option"
  fresh :: nat
  printed :: "message list"

definition say :: "message \<Rightarrow> tworld \<Rightarrow> tworld" where
  "say m s = s\<lparr>printed := printed s @ [m]\<rparr>"

definition new_trace :: "trace \<Rightarrow> tworld \<Rightarrow> tworld" where
  "new_trace v s = s\<lparr>traces := (traces s)(fresh s \<mapsto> v), fresh := fresh s + 1\<rparr>"

definition trace_ctor :: "tworld \<Rightarrow> tworld" where
  "trace_ctor s = say Ctor (new_trace \<lparr>tx = 1, ty = 1, tz = None\<rparr> s)"

definition trace_parameters :: "int \<Rightarrow> int \<Rightarrow> nat option \<Rightarrow> tworld \<Rightarrow> tworld" where
  "trace_parameters a b c s = say Parameter_ctor (new_trace \<lparr>tx = a, ty = b, tz = c\<rparr> s)"

text \<open>A reference to an object that does not exist is undefined: \<open>None\<close>.\<close>

definition trace_copy :: "nat \<Rightarrow> tworld \<Rightarrow> tworld option" where
  "trace_copy other s = map_option (\<lambda>v. say Copy_ctor (new_trace v s)) (traces s other)"

text \<open>Moving a number or a pointer leaves it as it is.\<close>

definition trace_move :: "nat \<Rightarrow> tworld \<Rightarrow> tworld option" where
  "trace_move other s = map_option (\<lambda>v. say Move_ctor (new_trace v s)) (traces s other)"

definition clear_z :: "nat \<Rightarrow> tworld \<Rightarrow> tworld option" where
  "clear_z a s = map_option (\<lambda>v. s\<lparr>traces := (traces s)(a \<mapsto> v\<lparr>tz := None\<rparr>)\<rparr>) (traces s a)"

definition trace_dtor :: "nat \<Rightarrow> tworld \<Rightarrow> tworld option" where
  "trace_dtor a s = map_option (\<lambda>s'. say Dtor (s'\<lparr>traces := (traces s')(a := None)\<rparr>)) (clear_z a s)"

text \<open>The move assignment, with \<open>swap(other, *this)\<close> written out; \<open>fresh s\<close> is the temporary of \<open>swap\<close>.\<close>

partial_function (option) trace_move_assign :: "nat \<Rightarrow> nat \<Rightarrow> tworld \<Rightarrow> tworld option" where
  "trace_move_assign this other s =
     (if this = other then Some (say Move_assignment s)
      else Option.bind (clear_z this s) (\<lambda>s1.
           Option.bind (trace_move other s1) (\<lambda>s2.
           Option.bind (trace_move_assign other this s2) (\<lambda>s3.
           Option.bind (trace_move_assign this (fresh s1) s3) (\<lambda>s4.
           Option.bind (trace_dtor (fresh s1) s4) (\<lambda>s5. Some (say Move_assignment s5)))))))"

definition std_swap :: "nat \<Rightarrow> nat \<Rightarrow> tworld \<Rightarrow> tworld option" where
  "std_swap a b s =
     Option.bind (trace_move a s) (\<lambda>s1.
     Option.bind (trace_move_assign a b s1) (\<lambda>s2.
     Option.bind (trace_move_assign b (fresh s) s2) (\<lambda>s3. trace_dtor (fresh s) s3)))"

definition trace_copy_assign :: "nat \<Rightarrow> nat \<Rightarrow> tworld \<Rightarrow> tworld option" where
  "trace_copy_assign this other s =
     (if this = other then Some (say Copy_assignment s)
      else Option.bind (trace_copy other s) (\<lambda>s1.
           Option.bind (std_swap (fresh s) this s1) (\<lambda>s2.
           Option.bind (trace_dtor (fresh s) s2) (\<lambda>s3. Some (say Copy_assignment s3)))))"

subsection \<open>Properties\<close>

lemma move_assign_returns:
  assumes "trace_move_assign this other s = Some s'"
  shows "this = other"
proof (rule trace_move_assign.raw_induct [OF _ assms, where P = "\<lambda>this other s s'. this = other"])
  fix f :: "nat \<Rightarrow> nat \<Rightarrow> tworld \<Rightarrow> tworld option" and this other s s'
  assume IH: "\<And>a b u v. f a b u = Some v \<Longrightarrow> a = b"
    and step: "(if this = other then Some (say Move_assignment s)
      else Option.bind (clear_z this s) (\<lambda>s1. Option.bind (trace_move other s1) (\<lambda>s2.
           Option.bind (f other this s2) (\<lambda>s3. Option.bind (f this (fresh s1) s3) (\<lambda>s4.
           Option.bind (trace_dtor (fresh s1) s4) (\<lambda>s5. Some (say Move_assignment s5))))))) = Some s'"
  show "this = other"
  proof (rule ccontr)
    assume "this \<noteq> other"
    with step obtain s2 s3 where "f other this s2 = Some s3" by (auto simp: bind_eq_Some_conv)
    from IH [OF this] \<open>this \<noteq> other\<close> show False by simp
  qed
qed

text \<open>Neither assignment of \<open>trace\<close> ever returns when it is given two different objects: \<open>std::swap\<close>
  uses the move assignment, which calls \<open>std::swap\<close>. The assignment of an object to itself returns and
  prints its message.\<close>

theorem trace_assignment_diverges:
  assumes "this \<noteq> other" and "this < fresh s"
  shows "trace_move_assign this other s = None \<and> trace_copy_assign this other s = None
     \<and> trace_move_assign this this s = Some (say Move_assignment s) \<and> trace_copy_assign this this s = Some (say Copy_assignment s)"
proof -
  have move: "trace_move_assign a b s = None" if "a \<noteq> b" for a b s
    using move_assign_returns [of a b s] that by (cases "trace_move_assign a b s") auto
  have "std_swap (fresh s) this s1 = None" for s1
    using move [of "fresh s" this] assms(2) by (auto simp: std_swap_def bind_eq_None_conv)
  then have "trace_copy_assign this other s = None"
    using assms(1) by (auto simp: trace_copy_assign_def bind_eq_None_conv)
  moreover have "trace_move_assign this this s = Some (say Move_assignment s)"
    by (subst trace_move_assign.simps) simp
  ultimately show ?thesis using move [OF assms(1)] by (simp add: trace_copy_assign_def)
qed

theorem trace_assignment_diverges_witness:
  "trace_copy_assign 0 1 (trace_ctor (trace_parameters 3 4 (Some 9) \<lparr>traces = (\<lambda>_. None), fresh = 0, printed = []\<rparr>)) = None"
  using trace_assignment_diverges [of 0 1 "trace_ctor (trace_parameters 3 4 (Some 9) \<lparr>traces = (\<lambda>_. None), fresh = 0, printed = []\<rparr>)"]
  by (simp add: trace_ctor_def trace_parameters_def new_trace_def say_def)

end
