(* ===== verification/Vector_Main.thy ===== *)
theory Vector_Main
  imports Vector_Demo Trace_Object
begin

text \<open>
  The whole of \<open>main\<close> in \<open>dsa_from_scratch/data_structures/vector.cpp\<close>. Its first part watches \<open>std::vector<trace>\<close> copy
  and move objects of the class of \<open>trace.h\<close>. Of the standard's vector it uses \<open>push_back\<close> and the destructor: when the
  capacity is used up there is a new one, which the library chooses (\<open>grow\<close>, a parameter, \<open>None\<close> when the allocation
  fails); the new object is constructed in place, and as the move constructor of \<open>trace\<close> does not throw, the elements
  are moved and the old ones destroyed.
\<close>

subsection \<open>\<open>std::vector<trace>\<close>\<close>

text \<open>The numbers of the elements, and the capacity.\<close>

type_synonym std_vector = "nat list \<times> nat"

fun relocate :: "nat list \<Rightarrow> tworld \<Rightarrow> (nat list \<times> tworld) option" where
  "relocate [] w = Some ([], w)"
| "relocate (x # xs) w =
     Option.bind (trace_move x w) (\<lambda>w1. Option.bind (trace_dtor x w1) (\<lambda>w2.
     Option.bind (relocate xs w2) (\<lambda>(ys, w3). Some (fresh w # ys, w3))))"

definition std_push_back :: "(nat \<Rightarrow> nat option) \<Rightarrow> nat \<Rightarrow> std_vector \<Rightarrow> tworld \<Rightarrow> fault + (std_vector \<times> tworld)" where
  "std_push_back grow obj v w =
     (case v of (xs, capacity) \<Rightarrow>
       (case (if length xs < capacity then Some capacity else grow capacity) of
          None \<Rightarrow> Inl Bad_alloc
        | Some capacity' \<Rightarrow>
            (case Option.bind (trace_copy obj w) (\<lambda>w1. if length xs < capacity then Some (xs, w1) else relocate xs w1) of
               None \<Rightarrow> Inl Undefined
             | Some (ys, w2) \<Rightarrow> Inr ((ys @ [fresh w], capacity'), w2))))"

fun destroy_objects :: "nat list \<Rightarrow> tworld \<Rightarrow> tworld option" where
  "destroy_objects [] w = Some w"
| "destroy_objects (x # xs) w = Option.bind (trace_dtor x w) (destroy_objects xs)"

subsection \<open>\<open>main\<close>\<close>

text \<open>The three calls, \<open>k\<close> of them left.\<close>

fun push_copies :: "nat \<Rightarrow> (nat \<Rightarrow> nat option) \<Rightarrow> nat \<Rightarrow> std_vector \<Rightarrow> tworld \<Rightarrow> fault + (std_vector \<times> tworld)" where
  "push_copies 0 grow obj v w = Inr (v, w)"
| "push_copies (Suc k) grow obj v w =
     (case std_push_back grow obj v w of Inl e \<Rightarrow> Inl e | Inr (v', w') \<Rightarrow> push_copies k grow obj v' w')"

text \<open>The loop over \<open>v1\<close> from index \<open>i\<close> on, with \<open>k\<close> rounds left: what it prints, and the vector it leaves.\<close>

fun show_loop :: "nat \<Rightarrow> nat \<Rightarrow> nat \<Rightarrow> trace vstate \<Rightarrow> (int list \<times> trace vstate) option" where
  "show_loop x i 0 s = Some ([], s)"
| "show_loop x i (Suc k) s =
     (case (vector_at x i s, ptr (vecs s x)) of
        (Some v, Some b) \<Rightarrow>
          map_option (\<lambda>(out, s'). (tx v # 3 # out, s'))
            (show_loop x (Suc i) k (s\<lparr>vmem := mem_set b i (Live (v\<lparr>tx := 3\<rparr>)) (vmem s)\<rparr>))
      | _ \<Rightarrow> None)"

text \<open>\<open>v1\<close>, \<open>v2\<close>, \<open>obj\<close> and the loop; the number of \<open>obj\<close>, what is printed, and the vectors.\<close>

definition trace_part :: "(nat \<Rightarrow> nat option) \<Rightarrow> nat \<Rightarrow> nat \<Rightarrow> trace vstate \<Rightarrow> tworld
    \<Rightarrow> fault + (nat \<times> int list \<times> std_vector \<times> trace vstate \<times> tworld)" where
  "trace_part grow v1 z s w =
     (let s1 = vector_new v1 s; obj = fresh w; w1 = trace_ctor w;
          w2 = w1\<lparr>traces := (traces w1)(obj \<mapsto> \<lparr>tx = 1, ty = 2, tz = Some z\<rparr>)\<rparr>
      in case push_copies 3 grow obj ([], 0) w2 of
           Inl e \<Rightarrow> Inl e
         | Inr (v2, w3) \<Rightarrow>
             (case show_loop v1 0 (vector_size v1 s1) s1 of
                None \<Rightarrow> Inl Undefined
              | Some (out, s2) \<Rightarrow> Inr (obj, out, v2, s2, w3)))"

text \<open>\<open>main\<close>: the part above, the one with \<open>a\<close> and \<open>b\<close>, and the destructors of \<open>obj\<close>, \<open>v2\<close> and \<open>v1\<close>.\<close>

definition vector_whole_main :: "(nat \<Rightarrow> nat option) \<Rightarrow> nat \<Rightarrow> nat \<Rightarrow> nat \<Rightarrow> nat \<Rightarrow> trace vstate \<Rightarrow> tworld \<Rightarrow> int vstate
    \<Rightarrow> fault + (int list \<times> trace vstate \<times> tworld \<times> int vstate)" where
  "vector_whole_main grow v1 z a b s w si =
     (case trace_part grow v1 z s w of
        Inl e \<Rightarrow> Inl e
      | Inr (obj, out, v2, s1, w1) \<Rightarrow>
          (case vector_main a b si of
             (Inl e, si') \<Rightarrow> Inl e
           | (Inr shown, si') \<Rightarrow>
               (case Option.bind (trace_dtor obj w1) (destroy_objects (fst v2)) of
                  None \<Rightarrow> Inl Undefined
                | Some w2 \<Rightarrow>
                    (case vector_destroy v1 s1 of
                       (Some e, s2) \<Rightarrow> Inl e
                     | (None, s2) \<Rightarrow> Inr (out @ shown, s2, w2, si')))))"

subsection \<open>Property\<close>

text \<open>How often a message is printed.\<close>

abbreviation said :: "message \<Rightarrow> tworld \<Rightarrow> nat" where
  "said m w \<equiv> length (filter (\<lambda>x. x = m) (printed w))"

abbreviation no_traces :: tworld where
  "no_traces \<equiv> \<lparr>traces = (\<lambda>_. None), fresh = 0, printed = []\<rparr>"

lemmas trace_eval = trace_copy_def trace_move_def trace_dtor_def clear_z_def trace_ctor_def new_trace_def say_def

lemma push_three:
  fixes v :: trace
  assumes grow: "\<And>c c'. grow c = Some c' \<Longrightarrow> c < c'"
  defines "w \<equiv> (trace_ctor no_traces)\<lparr>traces := (\<lambda>_. None)(0 \<mapsto> v)\<rparr>"
  shows "case push_copies 3 grow 0 ([], 0) w of
      Inl e \<Rightarrow> e = Bad_alloc
    | Inr ((xs, c), w') \<Rightarrow> (\<exists>w''. Option.bind (trace_dtor 0 w') (destroy_objects xs) = Some w'' \<and> traces w'' = (\<lambda>_. None)
        \<and> said Ctor w'' = 1 \<and> said Copy_ctor w'' = 3 \<and> said Move_ctor w'' \<le> 3 \<and> said Dtor w'' = 4 + said Move_ctor w''
        \<and> said Copy_assignment w'' = 0 \<and> said Move_assignment w'' = 0)"
proof (cases "grow 0")
  case None
  then show ?thesis by (simp add: numeral_3_eq_3 std_push_back_def)
next
  case (Some c1)
  with grow have "0 < c1" by blast
  then consider "c1 = 1" | "c1 = 2" | "2 < c1" by linarith
  then show ?thesis
  proof cases
    case 1
    show ?thesis
    proof (cases "grow 1")
      case None
      then show ?thesis using Some 1 by (simp add: numeral_3_eq_3 std_push_back_def w_def trace_eval)
    next
      case c2: (Some c2)
      with grow have "1 < c2" by blast
      then consider "c2 = 2" | "2 < c2" by linarith
      then show ?thesis
        using Some 1 c2 by cases (simp_all add: numeral_3_eq_3 std_push_back_def w_def trace_eval split: option.splits)
    qed
  next
    case 2
    then show ?thesis using Some by (simp add: numeral_3_eq_3 std_push_back_def w_def trace_eval split: option.splits)
  next
    case 3
    then show ?thesis using Some by (simp add: numeral_3_eq_3 std_push_back_def w_def trace_eval)
  qed
qed

text \<open>\<open>main\<close> ends, or an allocation has thrown. The loop over \<open>v1\<close>, which is empty, and the one over \<open>a\<close> print nothing. The
  vector of the standard copies \<open>obj\<close> three times, moves at most three times whatever capacities the library chooses, and
  assigns nothing; every object of the class \<open>trace\<close> that was constructed is destroyed once.\<close>

theorem vector_whole_main_ends:
  assumes grow: "\<And>c c'. grow c = Some c' \<Longrightarrow> c < c'"
    and "vec_state si g" and "g a = None" and "g b = None" and "a \<noteq> b"
  shows "case vector_whole_main grow v1 z a b s no_traces si of
      Inl e \<Rightarrow> e = Bad_alloc
    | Inr (out, s', w', si') \<Rightarrow> out = [] \<and> vmem s' = vmem s \<and> vec_state si' g \<and> traces w' = (\<lambda>_. None) \<and> said Ctor w' = 1
        \<and> said Copy_ctor w' = 3 \<and> said Move_ctor w' \<le> 3 \<and> said Dtor w' = 4 + said Move_ctor w'
        \<and> said Copy_assignment w' = 0 \<and> said Move_assignment w' = 0"
proof -
  let ?w = "(trace_ctor no_traces)\<lparr>traces := (\<lambda>_. None)(0 \<mapsto> \<lparr>tx = 1, ty = 2, tz = Some z\<rparr>)\<rparr>"
  have w: "(trace_ctor no_traces)\<lparr>traces := (traces (trace_ctor no_traces))(0 \<mapsto> \<lparr>tx = 1, ty = 2, tz = Some z\<rparr>)\<rparr> = ?w"
    by (simp add: trace_eval)
  have v1: "vector_size v1 (vector_new v1 s) = 0" "vector_destroy v1 (vector_new v1 s) = (None, vector_new v1 s)"
    "vmem (vector_new v1 s) = vmem s"
    by (simp_all add: vector_size_def vector_new_def set_vec_def vec_empty_def vector_destroy_def vec_free_def mem_delete_def)
  note main = vector_main_ends [OF assms(2-5)]
  note pushed = push_three [of grow, OF grow, where v = "\<lparr>tx = 1, ty = 2, tz = Some z\<rparr>"]
  show ?thesis
  proof (cases "push_copies 3 grow 0 ([], 0) ?w")
    case (Inl e)
    with pushed show ?thesis by (simp add: vector_whole_main_def trace_part_def Let_def w)
  next
    case (Inr r)
    with pushed obtain xs c w' w'' where r: "r = ((xs, c), w')" "Option.bind (trace_dtor 0 w') (destroy_objects xs) = Some w''"
      "traces w'' = (\<lambda>_. None)" "said Ctor w'' = 1 \<and> said Copy_ctor w'' = 3 \<and> said Move_ctor w'' \<le> 3
        \<and> said Dtor w'' = 4 + said Move_ctor w'' \<and> said Copy_assignment w'' = 0 \<and> said Move_assignment w'' = 0"
      by (auto split: prod.splits)
    with Inr main v1 show ?thesis
      by (auto simp: vector_whole_main_def trace_part_def Let_def w split: prod.splits sum.splits)
  qed
qed

text \<open>With capacities that double, three objects are moved.\<close>

theorem vector_whole_main_ends_witness:
  "case vector_whole_main (\<lambda>c. Some (2 * c + 1)) 0 9 2 3 (two_vectors 0 [] []) no_traces (two_vectors 12 [4] []) of
     Inl e \<Rightarrow> e = Bad_alloc | Inr (out, s', w', si') \<Rightarrow> out = [] \<and> said Copy_ctor w' = 3"
proof -
  have "two_lists [4 :: int] [] 2 = None" "two_lists [4 :: int] [] 3 = None" by (simp_all add: numeral_2_eq_2 numeral_3_eq_3)
  from vector_whole_main_ends [OF _ two_vectors_state [of 12 "[4 :: int]" "[]"] this, where grow = "\<lambda>c. Some (2 * c + 1)"
      and s = "two_vectors 0 [] []" and ?v1.0 = 0 and z = 9]
  show ?thesis by (auto split: sum.splits prod.splits)
qed

end
