(* ===== verification/Layout.thy ===== *)
theory Layout
  imports DS_Prelude
begin

text \<open>
  How objects are laid out in memory: sizes, alignments, offsets. The programs rely on it where they keep two atomics
  on different cache lines (\<open>spsc_lockfree.cpp\<close>, \<open>mpmc_lockfree.cpp\<close>), save the room of an empty deleter
  (\<open>unique_ptr.cpp\<close>), keep objects in raw chunks (\<open>prac.cpp\<close>), walk page tables (\<open>memory_management_unit.cpp\<close>) and print
  sizes (\<open>string.cpp\<close>). The rules are those of the common ABI for 64-bit machines: members in order, each at the next
  address that fits its alignment, an empty base class at no cost, and a size that is a multiple of the alignment. The
  types of the programs have no virtual functions, and no member of the type of an empty base.
\<close>

subsection \<open>Types\<close>

text \<open>
  A scalar with its size and alignment; arrays; unions; classes with their base classes and members. The number beside
  a member is the one of its \<open>alignas\<close>, 1 if there is none.
\<close>

datatype ctype =
    Scalar nat nat
  | Array nat ctype
  | Union "(nat \<times> ctype) list"
  | Class "ctype list" "(nat \<times> ctype) list"

definition align_up :: "nat \<Rightarrow> nat \<Rightarrow> nat" where
  "align_up n a = (n + a - 1) div a * a"

text \<open>The offsets of items, given by their sizes and alignments, from \<open>off\<close> on, and the first offset after them.\<close>

fun place :: "nat \<Rightarrow> (nat \<times> nat) list \<Rightarrow> nat list" where
  "place off [] = []"
| "place off ((s, a) # items) = align_up off a # place (align_up off a + s) items"

fun place_end :: "nat \<Rightarrow> (nat \<times> nat) list \<Rightarrow> nat" where
  "place_end off [] = off"
| "place_end off ((s, a) # items) = place_end (align_up off a + s) items"

fun empty_class :: "ctype \<Rightarrow> bool" where
  "empty_class (Class bs ms) \<longleftrightarrow> ms = [] \<and> list_all empty_class bs"
| "empty_class _ \<longleftrightarrow> False"

text \<open>The size and the alignment of a type.\<close>

fun size_align :: "ctype \<Rightarrow> nat \<times> nat" where
  "size_align (Scalar s a) = (s, a)"
| "size_align (Array n t) = (n * fst (size_align t), snd (size_align t))"
| "size_align (Union ms) =
     (let items = map (\<lambda>(a, t). (fst (size_align t), max a (snd (size_align t)))) ms;
          al = foldr max (map snd items) 1
      in (align_up (max 1 (foldr max (map fst items) 0)) al, al))"
| "size_align (Class bs ms) =
     (let items = map (\<lambda>b. (if empty_class b then 0 else fst (size_align b), snd (size_align b))) bs
            @ map (\<lambda>(a, t). (fst (size_align t), max a (snd (size_align t)))) ms;
          al = foldr max (map snd items) 1
      in (align_up (max 1 (place_end 0 items)) al, al))"

definition size_of :: "ctype \<Rightarrow> nat" where
  "size_of t = fst (size_align t)"

definition align_of :: "ctype \<Rightarrow> nat" where
  "align_of t = snd (size_align t)"

definition member_items :: "(nat \<times> ctype) list \<Rightarrow> (nat \<times> nat) list" where
  "member_items ms = map (\<lambda>(a, t). (size_of t, max a (align_of t))) ms"

text \<open>The offsets of the members of a class.\<close>

fun member_offsets :: "ctype \<Rightarrow> nat list" where
  "member_offsets (Class bs ms) =
     (let bases = map (\<lambda>b. (if empty_class b then 0 else size_of b, align_of b)) bs
      in place (place_end 0 bases) (member_items ms))"
| "member_offsets (Union ms) = map (\<lambda>_. 0) ms"
| "member_offsets _ = []"

subsection \<open>Laws of the layout\<close>

lemma align_up_le: "0 < a \<Longrightarrow> n \<le> align_up n a"
  unfolding align_up_def using div_mult_mod_eq [of "n + a - 1" a] mod_less_divisor [of a "n + a - 1"] by linarith

lemma align_up_dvd: "a dvd align_up n a"
  by (simp add: align_up_def)

lemma align_up_less: "0 < a \<Longrightarrow> align_up n a < n + a"
  using div_times_less_eq_dividend [of "n + a - 1" a] unfolding align_up_def by linarith

lemma align_up_same [simp]: "0 < a \<Longrightarrow> a dvd n \<Longrightarrow> align_up n a = n"
proof -
  assume a: "0 < a" "a dvd n"
  then obtain k where k: "n = a * k" by blast
  have "a * k + a - 1 = (a - 1) + a * k" using a(1) by simp
  then have "(a * k + a - 1) div a = k" using a(1) by (simp only: div_mult_self2) simp
  then show ?thesis by (simp add: align_up_def k mult.commute)
qed

text \<open>Items are placed one after the other, each at a multiple of its alignment.\<close>

lemma place_length [simp]: "length (place off items) = length items"
  by (induction items arbitrary: off) auto

lemma place_end_mono: "\<forall>x \<in> set items. 0 < snd x \<Longrightarrow> off \<le> place_end off items"
proof (induction items arbitrary: off)
  case (Cons x items)
  obtain s a where x: "x = (s, a)" by (cases x)
  with Cons.prems have "off \<le> align_up off a + s" using align_up_le [of a off] by (simp add: trans_le_add1)
  with Cons x show ?case by (auto intro: order_trans)
qed simp

lemma place_lower: "\<forall>x \<in> set items. 0 < snd x \<Longrightarrow> i < length items \<Longrightarrow> off \<le> place off items ! i"
proof (induction items arbitrary: off i)
  case (Cons x items)
  obtain s a where x: "x = (s, a)" by (cases x)
  with Cons.prems have "off \<le> align_up off a" by (intro align_up_le) simp
  with Cons x show ?case
    by (cases i) (auto intro: order_trans [OF _ order_trans [OF le_add1 [of "align_up off a" s]]])
qed simp

lemma place_dvd: "i < length items \<Longrightarrow> snd (items ! i) dvd place off items ! i"
proof (induction items arbitrary: off i)
  case (Cons x items)
  then show ?case by (cases x; cases i) (auto simp: align_up_dvd)
qed simp

lemma place_before_end:
  "\<forall>x \<in> set items. 0 < snd x \<Longrightarrow> i < length items \<Longrightarrow> place off items ! i + fst (items ! i) \<le> place_end off items"
proof (induction items arbitrary: off i)
  case (Cons x items)
  obtain s a where x: "x = (s, a)" by (cases x)
  from Cons x place_end_mono [of items "align_up off a + s"] show ?case by (cases i) auto
qed simp

lemma place_before:
  "\<forall>x \<in> set items. 0 < snd x \<Longrightarrow> i < j \<Longrightarrow> j < length items \<Longrightarrow> place off items ! i + fst (items ! i) \<le> place off items ! j"
proof (induction items arbitrary: off i j)
  case (Cons x items)
  obtain s a where x: "x = (s, a)" by (cases x)
  from Cons.prems obtain k where k: "j = Suc k" by (cases j) auto
  from Cons k x place_lower [of items k "align_up off a + s"] show ?case by (cases i) auto
qed simp

lemma place_append: "place off (xs @ ys) = place off xs @ place (place_end off xs) ys"
  by (induction xs arbitrary: off) auto

lemma place_end_append: "place_end off (xs @ ys) = place_end (place_end off xs) ys"
  by (induction xs arbitrary: off) auto

text \<open>Alignments are powers of two, so the larger of two is a multiple of the other.\<close>

definition pow2 :: "nat \<Rightarrow> bool" where
  "pow2 a \<longleftrightarrow> (\<exists>k. a = 2 ^ k)"

lemma pow2_simps [simp]: "pow2 1" "pow2 (Suc 0)" "pow2 2" "pow2 4" "pow2 8" "pow2 (2 ^ k)"
  unfolding pow2_def by (metis power_0) (metis One_nat_def power_0, metis power_one_right, rule exI [of _ 2], simp, rule exI [of _ 3], simp, blast)

lemma pow2_pos: "pow2 a \<Longrightarrow> 0 < a"
  by (auto simp: pow2_def)

lemma pow2_dvd: "pow2 a \<Longrightarrow> pow2 b \<Longrightarrow> a \<le> b \<Longrightarrow> a dvd b"
  by (auto simp: pow2_def le_imp_power_dvd)

lemma pow2_max: "pow2 a \<Longrightarrow> pow2 b \<Longrightarrow> pow2 (max a b)"
  by (simp add: max_def)

lemma foldr_max_pow2: "\<forall>a \<in> set as. pow2 a \<Longrightarrow> pow2 (foldr max as 1)"
  by (induction as) (auto intro: pow2_max)

lemma foldr_max_ge: "a \<in> set as \<Longrightarrow> a \<le> foldr max as (z :: nat)"
  by (induction as) (auto simp: le_max_iff_disj)

lemma foldr_max_dvd: "\<forall>a \<in> set as. pow2 a \<Longrightarrow> a \<in> set as \<Longrightarrow> a dvd foldr max as 1"
  by (intro pow2_dvd foldr_max_pow2 foldr_max_ge) auto

fun wf_type :: "ctype \<Rightarrow> bool" where
  "wf_type (Scalar s a) \<longleftrightarrow> 0 < s \<and> pow2 a \<and> a dvd s"
| "wf_type (Array n t) \<longleftrightarrow> 0 < n \<and> wf_type t"
| "wf_type (Union ms) \<longleftrightarrow> list_all (\<lambda>(a, t). pow2 a \<and> wf_type t) ms"
| "wf_type (Class bs ms) \<longleftrightarrow> list_all wf_type bs \<and> list_all (\<lambda>(a, t). pow2 a \<and> wf_type t) ms"

definition base_items :: "ctype list \<Rightarrow> (nat \<times> nat) list" where
  "base_items bs = map (\<lambda>b. (if empty_class b then 0 else size_of b, align_of b)) bs"

text \<open>The equations of the size and the alignment.\<close>

lemma scalar_layout [simp]: "size_of (Scalar s a) = s" "align_of (Scalar s a) = a"
  by (simp_all add: size_of_def align_of_def)

lemma array_layout [simp]: "size_of (Array n t) = n * size_of t" "align_of (Array n t) = align_of t"
  by (simp_all add: size_of_def align_of_def)

lemma union_layout:
  "align_of (Union ms) = foldr max (map snd (member_items ms)) 1"
  "size_of (Union ms) = align_up (max 1 (foldr max (map fst (member_items ms)) 0)) (align_of (Union ms))"
  by (simp_all add: size_of_def align_of_def member_items_def Let_def)

lemma class_layout:
  "align_of (Class bs ms) = foldr max (map snd (base_items bs @ member_items ms)) 1"
  "size_of (Class bs ms) = align_up (max 1 (place_end 0 (base_items bs @ member_items ms))) (align_of (Class bs ms))"
  "member_offsets (Class bs ms) = drop (length bs) (place 0 (base_items bs @ member_items ms))"
proof -
  show "align_of (Class bs ms) = foldr max (map snd (base_items bs @ member_items ms)) 1"
    "size_of (Class bs ms) = align_up (max 1 (place_end 0 (base_items bs @ member_items ms))) (align_of (Class bs ms))"
    unfolding size_of_def align_of_def base_items_def member_items_def by (simp_all add: Let_def)
  have "member_offsets (Class bs ms) = place (place_end 0 (base_items bs)) (member_items ms)"
    by (simp add: base_items_def Let_def)
  moreover have "length (base_items bs) = length bs" by (simp add: base_items_def)
  ultimately show "member_offsets (Class bs ms) = drop (length bs) (place 0 (base_items bs @ member_items ms))"
    by (simp add: place_append)
qed

lemma align_up_pos: "0 < a \<Longrightarrow> 0 < n \<Longrightarrow> 0 < align_up n a"
  using align_up_le [of a n] by simp

lemma wf_layout: "wf_type t \<Longrightarrow> pow2 (align_of t) \<and> align_of t dvd size_of t \<and> 0 < size_of t"
proof (induction t)
  case (Union ms)
  have "\<forall>a \<in> set (map snd (member_items ms)). pow2 a"
    using Union by (fastforce simp: member_items_def list_all_iff intro: pow2_max)
  then have "pow2 (align_of (Union ms))" unfolding union_layout by (rule foldr_max_pow2)
  then show ?case by (simp add: union_layout(2) align_up_dvd align_up_pos pow2_pos)
next
  case (Class bs ms)
  have "\<forall>a \<in> set (map snd (base_items bs @ member_items ms)). pow2 a"
    using Class by (fastforce simp: base_items_def member_items_def list_all_iff intro: pow2_max)
  then have "pow2 (align_of (Class bs ms))" unfolding class_layout by (rule foldr_max_pow2)
  then show ?case by (simp add: class_layout(2) align_up_dvd align_up_pos pow2_pos)
qed auto

text \<open>The members of an object: each is aligned, they lie one after the other, and inside the object.\<close>

lemma class_members:
  assumes wf: "wf_type (Class bs ms)" and i: "i < length ms"
  defines "offs \<equiv> member_offsets (Class bs ms)"
  shows "align_of (Class bs ms) dvd base \<Longrightarrow> max (fst (ms ! i)) (align_of (snd (ms ! i))) dvd base + offs ! i"
    and "offs ! i + size_of (snd (ms ! i)) \<le> size_of (Class bs ms)"
    and "i < j \<Longrightarrow> j < length ms \<Longrightarrow> offs ! i + size_of (snd (ms ! i)) \<le> offs ! j"
proof -
  let ?items = "base_items bs @ member_items ms" and ?k = "length bs + i"
  have len: "length (base_items bs) = length bs" "length (member_items ms) = length ms"
    by (simp_all add: base_items_def member_items_def)
  have item: "(base_items bs @ member_items ms) ! (length bs + m) = (size_of (snd (ms ! m)), max (fst (ms ! m)) (align_of (snd (ms ! m))))"
    if "m < length ms" for m using that len by (simp add: nth_append member_items_def case_prod_beta)
  have off: "offs ! m = place 0 ?items ! (length bs + m)" if "m < length ms" for m
    using that len by (simp add: offs_def class_layout(3) del: member_offsets.simps)
  have al: "\<forall>a \<in> set (map snd ?items). pow2 a"
    using wf wf_layout by (fastforce simp: base_items_def member_items_def list_all_iff intro: pow2_max)
  then have pos: "\<forall>x \<in> set ?items. 0 < snd x" by (auto intro: pow2_pos)
  have k: "?k < length ?items" using i len by simp
  show "max (fst (ms ! i)) (align_of (snd (ms ! i))) dvd base + offs ! i" if "align_of (Class bs ms) dvd base"
  proof -
    have "snd (?items ! ?k) \<in> set (map snd ?items)" using k by (metis length_map nth_map nth_mem)
    from foldr_max_dvd [OF al this] that have "snd (?items ! ?k) dvd base" unfolding class_layout(1) by (rule dvd_trans)
    then show ?thesis using place_dvd [OF k, of 0] item [OF i] off [OF i] by simp
  qed
  show "offs ! i + size_of (snd (ms ! i)) \<le> size_of (Class bs ms)"
  proof -
    have "0 < align_of (Class bs ms)" using wf_layout [OF wf] pow2_pos by blast
    from align_up_le [OF this] have "place_end 0 ?items \<le> size_of (Class bs ms)"
      unfolding class_layout(2) by (meson max.bounded_iff order_refl order_trans)
    with place_before_end [OF pos k, of 0] item [OF i] off [OF i] show ?thesis by simp
  qed
  show "offs ! i + size_of (snd (ms ! i)) \<le> offs ! j" if "i < j" "j < length ms"
    using place_before [OF pos, of ?k "length bs + j" 0] that len item [OF i] off [OF i] off [OF that(2)] by simp
qed

lemma align_up_next: "k * a < n \<Longrightarrow> n \<le> Suc k * a \<Longrightarrow> align_up n a = Suc k * a"
proof -
  assume "k * a < n" "n \<le> Suc k * a"
  then have "a * k < n" "n \<le> a + a * k" by (simp_all add: mult.commute)
  then have "(n + a - 1) div a = Suc k" by (intro div_nat_eqI) auto
  then show ?thesis by (simp add: align_up_def)
qed

lemma align_up_first: "0 < n \<Longrightarrow> n \<le> a \<Longrightarrow> align_up n a = a"
  using align_up_next [of 0 a n] by simp

subsection \<open>The types of the programs\<close>

definition pointer_type :: ctype where "pointer_type = Scalar 8 8"
definition size_type :: ctype where "size_type = Scalar 8 8"
definition byte_type :: ctype where "byte_type = Scalar 1 1"
definition word_type :: ctype where "word_type = Scalar 4 4"

text \<open>
  \<open>SPSC\<close> and \<open>mpmc_bounded_queue\<close>; \<open>line\<close> is \<open>std::hardware_destructive_interference_size\<close>, the atomics are lock-free
  and as large as the integers in them.
\<close>

definition spsc_layout :: "nat \<Rightarrow> ctype" where
  "spsc_layout line = Class [] [(1, size_type), (1, pointer_type), (line, size_type), (line, size_type)]"

definition mpmc_layout :: "nat \<Rightarrow> ctype" where
  "mpmc_layout line = Class [] [(1, pointer_type), (1, size_type), (line, size_type), (line, size_type)]"

text \<open>\<open>default_delete\<close>, a class without members; \<open>compressed_obj\<close> and its specialisation; \<open>unique_ptr\<close>.\<close>

definition default_delete_layout :: ctype where
  "default_delete_layout = Class [] []"

definition compressed_layout :: "ctype \<Rightarrow> ctype" where
  "compressed_layout deleter =
     (if empty_class deleter then Class [deleter] [(1, pointer_type)] else Class [] [(1, pointer_type), (1, deleter)])"

definition unique_ptr_layout :: "ctype \<Rightarrow> ctype" where
  "unique_ptr_layout deleter = Class [] [(1, compressed_layout deleter)]"

text \<open>\<open>prat::string\<close> with its union.\<close>

definition str_layout :: ctype where
  "str_layout = Union [(1, Array 15 byte_type), (1, pointer_type)]"

definition string_layout :: ctype where
  "string_layout = Class [] [(1, str_layout), (1, size_type), (1, size_type)]"

text \<open>The chunk of a pool for objects of the type \<open>t\<close>, and the address of the chunk \<open>i\<close>.\<close>

definition chunk_layout :: "ctype \<Rightarrow> ctype" where
  "chunk_layout t = Union [(align_of t, Array (size_of t) byte_type), (1, pointer_type)]"

definition chunk_address :: "ctype \<Rightarrow> nat \<Rightarrow> nat \<Rightarrow> nat" where
  "chunk_address t blocks i = blocks + i * size_of (chunk_layout t)"

text \<open>The structures of the page tables.\<close>

definition page_directory_entry_layout :: ctype where
  "page_directory_entry_layout = Class [] [(1, byte_type), (1, word_type)]"

definition page_table_entry_layout :: ctype where
  "page_table_entry_layout = Class [] [(1, byte_type), (1, byte_type), (1, word_type), (1, byte_type)]"

lemmas basic_types = pointer_type_def size_type_def byte_type_def word_type_def

lemma basic_layout [simp]:
  "size_of pointer_type = 8" "align_of pointer_type = 8" "size_of size_type = 8" "align_of size_type = 8"
  "size_of byte_type = 1" "align_of byte_type = 1" "size_of word_type = 4" "align_of word_type = 4"
  by (simp_all add: basic_types)

lemma basic_wf [simp]: "wf_type pointer_type" "wf_type size_type" "wf_type byte_type" "wf_type word_type"
  by (simp_all add: basic_types)

subsection \<open>Cache lines\<close>

definition cache_line :: "nat \<Rightarrow> nat \<Rightarrow> nat" where
  "cache_line line address = address div line"

text \<open>The addresses of member \<open>i\<close> of an object at \<open>base\<close>.\<close>

fun member_bytes :: "ctype \<Rightarrow> nat \<Rightarrow> nat \<Rightarrow> nat set" where
  "member_bytes (Class bs ms) base i =
     {base + member_offsets (Class bs ms) ! i ..< base + member_offsets (Class bs ms) ! i + size_of (snd (ms ! i))}"
| "member_bytes _ base i = {}"

lemma queue_layout:
  assumes "pow2 line" and "16 \<le> line" and "{a, b} \<subseteq> {size_type, pointer_type}"
  defines "q \<equiv> Class [] [(1, a), (1, b), (line, size_type), (line, size_type)]"
  shows "member_offsets q = [0, 8, line, 2 * line]" and "size_of q = 3 * line" and "align_of q = line"
proof -
  have d: "8 dvd line" using assms(1,2) by (intro pow2_dvd) auto
  have ab: "size_of a = 8" "align_of a = 8" "size_of b = 8" "align_of b = 8" using assms(3) by auto
  have items: "base_items [] @ member_items [(1, a), (1, b), (line, size_type), (line, size_type)] = [(8, 8), (8, 8), (8, line), (8, line)]"
    using assms(2) ab by (simp add: base_items_def member_items_def max_def)
  have up: "align_up 16 line = line" "align_up (line + 8) line = 2 * line" "align_up (2 * line + 8) line = 3 * line"
    using assms(2) align_up_first [of 16 line] align_up_next [of 1 line "line + 8"] align_up_next [of 2 line "2 * line + 8"]
    by simp_all
  have zero: "align_up 0 8 = 0" "align_up 8 8 = 8" by simp_all
  show "align_of q = line" unfolding q_def class_layout(1) items using assms(2) by (simp add: max_def)
  then show "size_of q = 3 * line" unfolding q_def class_layout(2) items using up zero by (simp add: max_def)
  show "member_offsets q = [0, 8, line, 2 * line]" unfolding q_def class_layout(3) items using up zero by simp
qed


lemma own_line:
  assumes "pow2 line" and "16 \<le> line" and "{a, b} \<subseteq> {size_type, pointer_type}"
  defines "q \<equiv> Class [] [(1, a), (1, b), (line, size_type), (line, size_type)]"
  assumes "align_of q dvd base" and i: "i \<in> {2, 3}" and x: "x \<in> member_bytes q base i" and same: "cache_line line y = cache_line line x"
  shows "base \<le> y" and "y < base + size_of q" and "j < 4 \<Longrightarrow> j \<noteq> i \<Longrightarrow> y \<notin> member_bytes q base j"
proof -
  note layout = queue_layout [OF assms(1-3), folded q_def]
  have sizes: "size_of a = 8" "size_of b = 8" using assms(3) by auto
  have bytes: "member_bytes q base k = {base + [0, 8, line, 2 * line] ! k ..< base + [0, 8, line, 2 * line] ! k + 8}" if "k < 4" for k
  proof -
    have "size_of (snd ([(1, a), (1, b), (line, size_type), (line, size_type)] ! k)) = 8"
      using that sizes by (auto simp: less_Suc_eq numeral_eq_Suc)
    with layout(1) show ?thesis
      using member_bytes.simps(1) [of "[]" "[(1, a), (1, b), (line, size_type), (line, size_type)]" base k, folded q_def] by simp
  qed
  obtain c where c: "base = line * c" using assms(5) layout(3) by auto
  have pos: "0 < line" using assms(2) by simp
  have line: "y div line = c + (i - 1)"
  proof -
    have "x div line = c + (i - 1)"
      by (rule div_nat_eqI) (use i x bytes [of i] assms(2) c in \<open>auto simp: algebra_simps\<close>)
    with same show ?thesis by (simp add: cache_line_def)
  qed
  have y: "line * (c + (i - 1)) \<le> y" "y < line * (c + (i - 1)) + line"
    using line div_mult_mod_eq [of y line] mod_less_divisor [OF pos, of y] by (simp_all add: mult.commute)
  from y(1) i show "base \<le> y" by (auto simp: c algebra_simps)
  from y(2) i show "y < base + size_of q" by (auto simp: c layout(2) algebra_simps)
  show "y \<notin> member_bytes q base j" if "j < 4" "j \<noteq> i"
    using y i that(2) assms(2) bytes [OF that(1)] \<open>j < 4\<close> by (auto simp: c less_Suc_eq numeral_eq_Suc algebra_simps)
qed

subsection \<open>Empty deleters, chunks, strings\<close>

lemma empty_class_layout: "empty_class t \<Longrightarrow> align_of t = 1 \<and> size_of t = 1"
proof (induction t rule: empty_class.induct)
  case (1 bs ms)
  then have ms: "ms = []" and bs: "\<forall>b \<in> set bs. align_of b = 1 \<and> empty_class b" by (auto simp: list_all_iff)
  from bs have items: "base_items bs = replicate (length bs) (0, 1)"
    unfolding base_items_def by (intro replicate_eqI) auto
  have al: "foldr max (replicate n (1 :: nat)) 1 = 1" for n by (induction n) auto
  have en: "place_end 0 (replicate n (0, 1)) = 0" for n
  proof (induction n)
    case (Suc n)
    have "align_up 0 1 = 0" by simp
    with Suc show ?case by simp
  qed simp
  have a: "align_of (Class bs ms) = 1" unfolding class_layout(1) using al by (simp add: ms items member_items_def)
  have "place_end 0 (base_items bs @ member_items ms) = 0" using en by (simp add: ms items member_items_def)
  then have "size_of (Class bs ms) = align_up 1 1" unfolding class_layout(2) a by simp
  with a show ?case by simp
qed simp_all

lemma compressed_sizes:
  "empty_class d \<Longrightarrow> size_of (compressed_layout d) = 8 \<and> align_of (compressed_layout d) = 8"
  "wf_type d \<Longrightarrow> \<not> empty_class d \<Longrightarrow> 8 + size_of d \<le> size_of (compressed_layout d)"
proof -
  assume e: "empty_class d"
  have items: "base_items [d] @ member_items [(1, pointer_type)] = [(0, 1), (8, 8)]"
    using empty_class_layout [OF e] e by (simp add: base_items_def member_items_def max_def)
  have a: "align_of (compressed_layout d) = 8" using e unfolding compressed_layout_def by (simp only: if_True class_layout(1) items) simp
  have up: "align_up 0 1 = 0" "align_up 0 8 = 0" "align_up 8 8 = 8" by simp_all
  have "size_of (compressed_layout d) = align_up (max 1 (place_end 0 [(0, 1), (8, 8)])) (align_of (compressed_layout d))"
    using e unfolding compressed_layout_def by (simp only: if_True class_layout(2) items)
  with a up show "size_of (compressed_layout d) = 8 \<and> align_of (compressed_layout d) = 8" by (simp add: max_def)
next
  assume d: "wf_type d" "\<not> empty_class d"
  let ?c = "Class [] [(1, pointer_type), (1, d)]"
  have wf: "wf_type ?c" using d(1) by simp
  from class_members(3) [OF wf, of 0 1] class_members(2) [OF wf, of 1] show "8 + size_of d \<le> size_of (compressed_layout d)"
    using d(2) by (simp add: compressed_layout_def del: member_offsets.simps)
qed

lemma single_member: "wf_type t \<Longrightarrow> size_of (Class [] [(1, t)]) = size_of t \<and> align_of (Class [] [(1, t)]) = align_of t"
proof -
  assume "wf_type t"
  then have t: "pow2 (align_of t)" "align_of t dvd size_of t" "0 < size_of t" using wf_layout by auto
  then have pos: "0 < align_of t" by (simp add: pow2_pos)
  then have items: "base_items [] @ member_items [(1, t)] = [(size_of t, align_of t)]"
    by (simp add: base_items_def member_items_def max_def)
  have a: "align_of (Class [] [(1, t)]) = align_of t" unfolding class_layout(1) items using pos by (simp add: max_def)
  have "align_up 0 (align_of t) = 0" using pos by simp
  then have "size_of (Class [] [(1, t)]) = align_up (size_of t) (align_of t)"
    unfolding class_layout(2) items a using t(3) by (simp add: max_def)
  with a t(2) pos show ?thesis by simp
qed

lemma compressed_wf: "wf_type d \<Longrightarrow> wf_type (compressed_layout d)"
  by (simp add: compressed_layout_def)

lemma chunk_size: "wf_type t \<Longrightarrow> size_of t \<le> size_of (chunk_layout t) \<and> 8 \<le> size_of (chunk_layout t) \<and> align_of t dvd align_of (chunk_layout t)
    \<and> 8 dvd align_of (chunk_layout t) \<and> align_of (chunk_layout t) dvd size_of (chunk_layout t)"
proof -
  assume wf: "wf_type t"
  then have t: "pow2 (align_of t)" "0 < size_of t" using wf_layout by auto
  let ?ms = "[(align_of t, Array (size_of t) byte_type), (1, pointer_type)]"
  have items: "member_items ?ms = [(size_of t, align_of t), (8, 8)]" using pow2_pos [OF t(1)] by (simp add: member_items_def max_def)
  have wf': "wf_type (chunk_layout t)" using t by (simp add: chunk_layout_def)
  have a: "align_of (chunk_layout t) = max (align_of t) 8"
    unfolding chunk_layout_def union_layout(1) items by simp
  have "max (size_of t) 8 \<le> align_up (max (size_of t) 8) (max (align_of t) 8)" by (rule align_up_le) simp
  moreover have "size_of (chunk_layout t) = align_up (max (size_of t) 8) (max (align_of t) 8)"
    using a unfolding chunk_layout_def union_layout(2) items by (simp add: max_def)
  moreover have "align_of t dvd max (align_of t) 8" "8 dvd max (align_of t) 8"
    using t(1) by (auto intro!: pow2_dvd pow2_max)
  ultimately show ?thesis using a wf_layout [OF wf'] by simp
qed

lemmas layout_eval = class_layout union_layout base_items_def member_items_def align_up_def

lemma string_layout_size: "size_of string_layout = 32" "member_offsets string_layout = [0, 16, 24]" "align_of string_layout = 8"
proof -
  have "size_of str_layout = 16" "align_of str_layout = 8" by (simp_all add: str_layout_def layout_eval max_def)
  then show "size_of string_layout = 32" "member_offsets string_layout = [0, 16, 24]" "align_of string_layout = 8"
    by (simp_all add: string_layout_def layout_eval max_def del: member_offsets.simps)
qed

lemma page_table_layout:
  "size_of page_directory_entry_layout = 8" "member_offsets page_directory_entry_layout = [0, 4]"
  "size_of page_table_entry_layout = 12" "member_offsets page_table_entry_layout = [0, 1, 4, 8]"
  by (simp_all add: page_directory_entry_layout_def page_table_entry_layout_def layout_eval max_def del: member_offsets.simps)

text \<open>\<open>main\<close> of \<open>string.cpp\<close>: the two numbers it prints, with \<open>std::string\<close> as the library has it.\<close>

definition string_main :: "ctype \<Rightarrow> nat list" where
  "string_main std_string = [size_of std_string, size_of string_layout]"

lemma string_main_prints: "string_main std_string = [size_of std_string, 32]"
  by (simp add: string_main_def string_layout_size)

subsection \<open>Properties\<close>

text \<open>C38. No false sharing: in the two lock-free queues the counter of the producers and the counter of the consumers lie on
  cache lines of their own. Every address on the line of such a counter is inside the object, and belongs to no other
  member of it.\<close>

theorem counters_on_own_cache_lines:
  assumes "pow2 line" and "16 \<le> line" and q: "q \<in> {spsc_layout line, mpmc_layout line}" and "align_of q dvd base"
    and "i \<in> {2, 3}" and "x \<in> member_bytes q base i" and "cache_line line y = cache_line line x"
  shows "base \<le> y \<and> y < base + size_of q \<and> (\<forall>j < 4. j \<noteq> i \<longrightarrow> y \<notin> member_bytes q base j)"
proof -
  obtain a b where ab: "{a, b} \<subseteq> {size_type, pointer_type}" "q = Class [] [(1, a), (1, b), (line, size_type), (line, size_type)]"
    using q unfolding spsc_layout_def mpmc_layout_def by blast
  from own_line [OF assms(1,2) ab(1), folded ab(2), OF assms(4-7)] show ?thesis by blast
qed

theorem counters_on_own_cache_lines_witness:
  "320 \<in> member_bytes (spsc_layout 64) 256 2 \<and> 383 \<notin> member_bytes (spsc_layout 64) 256 3 \<and> 384 \<in> member_bytes (spsc_layout 64) 256 3"
proof -
  have p: "pow2 64" using pow2_simps(6) [of 6] by simp
  have layout: "member_offsets (spsc_layout 64) = [0, 8, 64, 128]" "align_of (spsc_layout 64) = 64"
    using queue_layout [OF p, of size_type pointer_type] by (simp_all add: spsc_layout_def)
  then have x: "320 \<in> member_bytes (spsc_layout 64) 256 2" and y: "384 \<in> member_bytes (spsc_layout 64) 256 3"
    by (simp_all add: spsc_layout_def del: member_offsets.simps)
  have "cache_line 64 383 = cache_line 64 320" by (simp add: cache_line_def)
  from counters_on_own_cache_lines [OF p _ _ _ _ x this] x y show ?thesis using layout(2) by auto
qed

text \<open>A \<open>unique_ptr\<close> with an empty deleter, one without data of its own, is as large as a pointer; any other deleter
  costs its size.\<close>

theorem unique_ptr_size:
  assumes "wf_type deleter"
  shows "if empty_class deleter then size_of (unique_ptr_layout deleter) = size_of pointer_type
         else size_of pointer_type + size_of deleter \<le> size_of (unique_ptr_layout deleter)"
proof -
  have "size_of (unique_ptr_layout deleter) = size_of (compressed_layout deleter)"
    using single_member [OF compressed_wf [OF assms]] by (simp add: unique_ptr_layout_def)
  with compressed_sizes assms show ?thesis by simp
qed

text \<open>The deleters of the notes at the top of the file: the default one, a function pointer, and a \<open>std::function\<close> of 32 bytes.\<close>

theorem unique_ptr_size_witness:
  "size_of (unique_ptr_layout default_delete_layout) = 8 \<and> 16 \<le> size_of (unique_ptr_layout pointer_type)
     \<and> 40 \<le> size_of (unique_ptr_layout (Scalar 32 8))"
  using unique_ptr_size [of default_delete_layout] unique_ptr_size [of pointer_type] unique_ptr_size [of "Scalar 32 8"]
  by (simp add: default_delete_layout_def pointer_type_def)

text \<open>Every chunk of a pool holds an object of its type: the object is aligned, it fits, it overlaps no other chunk; and
  the link of the free list fits as well.\<close>

theorem chunk_holds_object:
  assumes "wf_type t" and "align_of (chunk_layout t) dvd blocks" and "i < j"
  shows "align_of t dvd chunk_address t blocks i \<and> align_of pointer_type dvd chunk_address t blocks i
     \<and> chunk_address t blocks i + size_of t \<le> chunk_address t blocks j
     \<and> chunk_address t blocks i + size_of pointer_type \<le> chunk_address t blocks j"
proof -
  note c = chunk_size [OF assms(1)]
  let ?s = "size_of (chunk_layout t)"
  have "align_of (chunk_layout t) dvd chunk_address t blocks i"
    using assms(2) c by (auto simp: chunk_address_def intro!: dvd_add dvd_mult)
  moreover have "chunk_address t blocks i + ?s \<le> chunk_address t blocks j"
    using mult_le_mono1 [of "Suc i" j ?s] assms(3) by (simp add: chunk_address_def)
  ultimately show ?thesis using c by (auto intro: dvd_trans)
qed

text \<open>Chunks for objects of a class with an \<open>int\<close> and a \<open>bool\<close>.\<close>

theorem chunk_holds_object_witness:
  "chunk_address (Class [] [(1, word_type), (1, byte_type)]) 64 2 = 80
     \<and> 80 + size_of (Class [] [(1, word_type), (1, byte_type)]) \<le> chunk_address (Class [] [(1, word_type), (1, byte_type)]) 64 3"
proof -
  let ?t = "Class [] [(1, word_type), (1, byte_type)]"
  have t: "size_of ?t = 8" "align_of ?t = 4" by (simp_all add: layout_eval max_def)
  then have c: "size_of (chunk_layout ?t) = 8" "align_of (chunk_layout ?t) = 8"
    by (simp_all add: chunk_layout_def layout_eval max_def)
  then have "align_of (chunk_layout ?t) dvd 64" by simp
  from chunk_holds_object [of ?t 64 2 3, OF _ this] show ?thesis using c(1) by (simp add: chunk_address_def)
qed

end
