(* ===== verification/Mmu.thy ===== *)
theory Mmu
  imports Layout
begin

text \<open>
  \<open>memory_management_unit.cpp\<close>: the address translation of a 24-bit virtual address through a
  translation lookaside buffer and, on a miss, a page directory and a page table that are read from
  memory, byte by byte as the structures are laid out.
\<close>

subsection \<open>State\<close>

definition PAGE_DIRECTORY_SHIFT :: nat where "PAGE_DIRECTORY_SHIFT = 19"
definition OFFSET_SHIFT :: nat where "OFFSET_SHIFT = 12"
definition OFFSET_MASK :: u32 where "OFFSET_MASK = 0xFFF"
definition VPN_MASK :: u32 where "VPN_MASK = 0xFFF000"
definition PAGE_DIR_MASK :: u32 where "PAGE_DIR_MASK = 0xF80000"
definition PAGE_TABLE_MASK :: u32 where "PAGE_TABLE_MASK = 0x7F000"

record page_directory_entry =
  pde_valid :: bool
  page_frame_Next_PageTable :: u32

record page_table_entry =
  pte_valid :: bool
  protection_bits :: u8
  Physical_page_frame_number :: u32
  present_bit :: u8

text \<open>The sizes of the two structures with their padding, \<open>sizeof\<close> in the code.\<close>

definition size_pde :: u32 where "size_pde = of_nat (size_of page_directory_entry_layout)"
definition size_pte :: u32 where "size_pte = of_nat (size_of page_table_entry_layout)"

lemma sizes_of_entries: "size_pde = 8" "size_pte = 12"
  by (simp_all add: size_pde_def size_pte_def page_table_layout)

text \<open>The bytes of memory; \<open>None\<close> where no object may be accessed, as at the null pointer.\<close>

type_synonym memory = "u32 \<Rightarrow> u8 option"

text \<open>The globals \<open>TLB\<close> and \<open>CR3\<close>, and the memory.\<close>

record mmu =
  TLB :: "u32 \<Rightarrow> (u32 \<times> u8) option"
  CR3 :: u32
  bytes :: memory

subsection \<open>Memory\<close>

text \<open>The bytes of an object of \<open>n\<close> bytes at an address.\<close>

fun read_bytes :: "memory \<Rightarrow> u32 \<Rightarrow> nat \<Rightarrow> u8 list option" where
  "read_bytes m a 0 = Some []"
| "read_bytes m a (Suc n) =
     (case m a of None \<Rightarrow> None | Some b \<Rightarrow> map_option (\<lambda>bs. b # bs) (read_bytes m (a + 1) n))"

text \<open>The value of a number of four bytes, the lowest first.\<close>

definition word_of_bytes :: "u8 list \<Rightarrow> u32" where
  "word_of_bytes bs = foldr (\<lambda>b w. ucast b + 256 * w) bs 0"

definition decode_pde :: "u8 list \<Rightarrow> page_directory_entry" where
  "decode_pde bs = \<lparr>pde_valid = (bs ! 0 \<noteq> 0), page_frame_Next_PageTable = word_of_bytes (take 4 (drop 4 bs))\<rparr>"

definition decode_pte :: "u8 list \<Rightarrow> page_table_entry" where
  "decode_pte bs = \<lparr>pte_valid = (bs ! 0 \<noteq> 0), protection_bits = bs ! 1,
     Physical_page_frame_number = word_of_bytes (take 4 (drop 4 bs)), present_bit = bs ! 8\<rparr>"

text \<open>\<open>Access_Memory<T>\<close>, for the type with this layout and this reading of its bytes.\<close>

definition Access_Memory :: "ctype \<Rightarrow> (u8 list \<Rightarrow> 'a) \<Rightarrow> memory \<Rightarrow> u32 \<Rightarrow> 'a option" where
  "Access_Memory t decode m addr = map_option decode (read_bytes m addr (size_of t))"

definition pde_at :: "mmu \<Rightarrow> u32 \<Rightarrow> page_directory_entry option" where
  "pde_at s = Access_Memory page_directory_entry_layout decode_pde (bytes s)"

definition pte_at :: "mmu \<Rightarrow> u32 \<Rightarrow> page_table_entry option" where
  "pte_at s = Access_Memory page_table_entry_layout decode_pte (bytes s)"

subsection \<open>Operations\<close>

definition TLB_Lookup :: "mmu \<Rightarrow> u32 \<Rightarrow> u32 option" where
  "TLB_Lookup s virtual_address = map_option fst (TLB s virtual_address)"

text \<open>\<open>TLB[virtual_address]\<close> inserts a zero entry when there is none.\<close>

definition permission_check :: "mmu \<Rightarrow> u32 \<Rightarrow> bool \<times> mmu" where
  "permission_check s virtual_address =
     (case TLB s virtual_address of
        Some (_, bits) \<Rightarrow> (bits mod 2 \<noteq> 0, s)
      | None \<Rightarrow> (False, s\<lparr>TLB := (TLB s)(virtual_address \<mapsto> (0, 0))\<rparr>))"

definition Can_access :: "u8 \<Rightarrow> bool" where
  "Can_access bits \<longleftrightarrow> bits mod 2 = 0"

text \<open>Both have an empty body.\<close>

definition TLB_Insert :: "u32 \<Rightarrow> u32 \<Rightarrow> u8 \<Rightarrow> mmu \<Rightarrow> mmu" where
  "TLB_Insert virtual_page_no page_frame_number bits s = s"

definition page_fault_handler :: "mmu \<Rightarrow> mmu" where
  "page_fault_handler s = s"

definition PDE_Addr :: "mmu \<Rightarrow> u32 \<Rightarrow> u32" where
  "PDE_Addr s virtual_page_no =
     (let page_directory_no = drop_bit PAGE_DIRECTORY_SHIFT (virtual_page_no AND PAGE_DIR_MASK)
      in CR3 s + page_directory_no * size_pde)"

definition PTE_Addr :: "page_directory_entry \<Rightarrow> u32 \<Rightarrow> u32" where
  "PTE_Addr pde virtual_page_no =
     (let PTE_index = drop_bit OFFSET_SHIFT (virtual_page_no AND PAGE_TABLE_MASK)
      in push_bit OFFSET_SHIFT (page_frame_Next_PageTable pde) + size_pte * PTE_index)"

text \<open>
  What a call of \<open>Address_Lookup\<close> ends with: a physical address, the end of the function without a
  \<open>return\<close>, or the read of a page table entry where there is no object; the last two are undefined. The
  code constructs its exceptions without throwing them, so every fault is of the second kind.
\<close>

datatype lookup = Returned u32 | Off_the_end | Bad_access

partial_function (option) Address_Lookup :: "mmu \<Rightarrow> u32 \<Rightarrow> lookup option" where
  "Address_Lookup s virtual_page_no =
     (case TLB_Lookup s virtual_page_no of
        Some tlb_entry \<Rightarrow>
          (if fst (permission_check s virtual_page_no)
           then Some (Returned (push_bit OFFSET_SHIFT tlb_entry OR (virtual_page_no AND OFFSET_MASK)))
           else Some Off_the_end)
      | None \<Rightarrow>
          (case pde_at s (PDE_Addr s virtual_page_no) of
             None \<Rightarrow> Some Bad_access
           | Some pde \<Rightarrow>
               if \<not> pde_valid pde then Some Off_the_end
               else
                 (case pte_at s (PTE_Addr pde virtual_page_no) of
                    None \<Rightarrow> Some Bad_access
                  | Some pte \<Rightarrow>
                      if \<not> pte_valid pte then Some Off_the_end
                      else if \<not> Can_access (protection_bits pte) then Some Off_the_end
                      else if present_bit pte = 0
                      then Option.bind (Address_Lookup (page_fault_handler s) virtual_page_no) (\<lambda>ans. Some Off_the_end)
                      else Address_Lookup (TLB_Insert virtual_page_no (Physical_page_frame_number pte)
                             (protection_bits pte) s) virtual_page_no)))"

text \<open>What \<open>main\<close> passes: the page number of the address, already shifted.\<close>

definition main_argument :: "u32 \<Rightarrow> u32" where
  "main_argument virtual_address = drop_bit OFFSET_SHIFT (virtual_address AND VPN_MASK)"

text \<open>\<open>main\<close>: the globals as they are initialised, and the address of its variable, cut to 32 bits.\<close>

definition mmu_main :: "memory \<Rightarrow> u64 \<Rightarrow> lookup option" where
  "mmu_main m x = Address_Lookup \<lparr>TLB = (\<lambda>_. None), CR3 = 0, bytes = m\<rparr> (main_argument (ucast x))"

subsection \<open>The parts of an address\<close>

lemmas mmu_consts = PAGE_DIRECTORY_SHIFT_def OFFSET_SHIFT_def OFFSET_MASK_def VPN_MASK_def PAGE_DIR_MASK_def PAGE_TABLE_MASK_def

text \<open>A mask that covers the bits from \<open>k\<close> up to \<open>k + n\<close>, shifted down.\<close>

lemma unat_field:
  "unat (drop_bit k (w AND push_bit k (mask n))) = unat w div 2 ^ k mod 2 ^ n" for w :: "'a::len word"
proof -
  have "drop_bit k (w AND push_bit k (mask n)) = take_bit n (drop_bit k w)"
    by (rule bit_eqI) (auto simp: bit_simps dest: bit_imp_le_length)
  then have "unat (drop_bit k (w AND push_bit k (mask n))) = take_bit n (drop_bit k (unat w))"
    by (simp only: unsigned_take_bit_eq unsigned_drop_bit_eq) (simp add: take_bit_nat_eq_self)
  then show ?thesis by (simp only: take_bit_eq_mod drop_bit_eq_div)
qed

lemma mask_fields:
  "OFFSET_MASK = mask 12" "PAGE_DIR_MASK = push_bit 19 (mask 5)" "PAGE_TABLE_MASK = push_bit 12 (mask 7)"
  "VPN_MASK = push_bit 12 (mask 12)"
  by (simp_all add: mmu_consts mask_eq_exp_minus_1 push_bit_eq_mult)

lemma offset_nat: "unat (va AND OFFSET_MASK) = unat va mod 2 ^ 12"
  by (simp add: mask_fields unat_and_mask del: power_numeral)

lemma page_directory_nat: "unat (drop_bit PAGE_DIRECTORY_SHIFT (va AND PAGE_DIR_MASK)) = unat va div 2 ^ 19 mod 2 ^ 5"
  unfolding mask_fields PAGE_DIRECTORY_SHIFT_def by (rule unat_field)

lemma page_table_nat: "unat (drop_bit OFFSET_SHIFT (va AND PAGE_TABLE_MASK)) = unat va div 2 ^ 12 mod 2 ^ 7"
  unfolding mask_fields OFFSET_SHIFT_def by (rule unat_field)

lemma main_argument_nat: "unat (main_argument va) = unat va div 2 ^ 12 mod 2 ^ 12"
  unfolding main_argument_def mask_fields OFFSET_SHIFT_def by (rule unat_field)

text \<open>An address is the sum of its three fields.\<close>

lemma address_fields:
  "unat va mod 2 ^ 24 = unat (drop_bit PAGE_DIRECTORY_SHIFT (va AND PAGE_DIR_MASK)) * 2 ^ 19
     + unat (drop_bit OFFSET_SHIFT (va AND PAGE_TABLE_MASK)) * 2 ^ 12 + unat (va AND OFFSET_MASK)"
proof -
  have "n mod 2 ^ 24 = n div 2 ^ 19 mod 2 ^ 5 * 2 ^ 19 + n div 2 ^ 12 mod 2 ^ 7 * 2 ^ 12 + n mod 2 ^ 12" for n :: nat
  proof -
    have "n mod (2 ^ 12 * 2 ^ 12) = 2 ^ 12 * (n div 2 ^ 12 mod 2 ^ 12) + n mod 2 ^ 12" by (rule mod_mult2_eq)
    moreover have "n div 2 ^ 12 mod (2 ^ 7 * 2 ^ 5) = 2 ^ 7 * (n div 2 ^ 12 div 2 ^ 7 mod 2 ^ 5) + n div 2 ^ 12 mod 2 ^ 7"
      by (rule mod_mult2_eq)
    moreover have "n div 2 ^ 12 div 2 ^ 7 = n div 2 ^ 19" by (simp flip: div_mult2_eq)
    ultimately show ?thesis by simp
  qed
  then show ?thesis by (simp only: page_directory_nat page_table_nat offset_nat)
qed

lemma physical_address_nat:
  assumes "unat pfn < 2 ^ 20"
  shows "unat (push_bit OFFSET_SHIFT pfn OR (va AND OFFSET_MASK)) = unat pfn * 2 ^ 12 + unat va mod 2 ^ 12"
proof -
  have "push_bit 12 pfn OR (va AND mask 12) = push_bit 12 pfn + (va AND mask 12)"
    by (rule disjunctive_add [symmetric]) (simp add: bit_simps)
  moreover have "unat (push_bit 12 pfn) = unat pfn * 2 ^ 12"
    using assms by (simp only: unsigned_push_bit_eq) (simp add: push_bit_eq_mult take_bit_eq_mod)
  moreover have "unat (va AND mask 12) = unat va mod 2 ^ 12" by (rule unat_and_mask)
  ultimately have "unat (push_bit 12 pfn OR (va AND mask 12)) = (unat pfn * 2 ^ 12 + unat va mod 2 ^ 12) mod 2 ^ 32"
    by (simp add: unat_word_ariths)
  also have "\<dots> = unat pfn * 2 ^ 12 + unat va mod 2 ^ 12" using assms by simp
  finally show ?thesis by (simp add: mask_fields OFFSET_SHIFT_def)
qed

subsection \<open>What a lookup can end with\<close>

text \<open>
  How the page walk for an address ends: with a read of what is no object, at an entry that is not valid or not
  accessible, or (\<open>None\<close>) at an entry for the page.
\<close>

definition page_walk :: "mmu \<Rightarrow> u32 \<Rightarrow> lookup option" where
  "page_walk s va =
     (case pde_at s (PDE_Addr s va) of
        None \<Rightarrow> Some Bad_access
      | Some pde \<Rightarrow>
          if \<not> pde_valid pde then Some Off_the_end
          else
            (case pte_at s (PTE_Addr pde va) of
               None \<Rightarrow> Some Bad_access
             | Some pte \<Rightarrow> if pte_valid pte \<and> Can_access (protection_bits pte) then None else Some Off_the_end))"

lemma lookup_hit:
  "TLB s va = Some (pfn, bits) \<Longrightarrow> Address_Lookup s va
     = Some (if bits mod 2 \<noteq> 0 then Returned (push_bit OFFSET_SHIFT pfn OR (va AND OFFSET_MASK)) else Off_the_end)"
  by (subst Address_Lookup.simps) (simp add: TLB_Lookup_def permission_check_def)

lemma lookup_fault: "TLB s va = None \<Longrightarrow> page_walk s va \<noteq> None \<Longrightarrow> Address_Lookup s va = page_walk s va"
  by (subst Address_Lookup.simps) (auto simp: TLB_Lookup_def page_walk_def split: option.splits)

text \<open>Nothing the recursive calls do changes the state, so they never come to an end.\<close>

lemma lookup_returns:
  assumes some: "Address_Lookup s va = Some r"
  shows "TLB s va \<noteq> None \<or> page_walk s va \<noteq> None"
proof (rule Address_Lookup.raw_induct [OF _ some, where P = "\<lambda>s va r. TLB s va \<noteq> None \<or> page_walk s va \<noteq> None"])
  fix lookup s va r
  assume IH: "\<And>s va r. lookup s va = Some r \<Longrightarrow> TLB s va \<noteq> None \<or> page_walk s va \<noteq> None"
    and body: "(case TLB_Lookup s va of
        Some tlb_entry \<Rightarrow>
          (if fst (permission_check s va)
           then Some (Returned (push_bit OFFSET_SHIFT tlb_entry OR (va AND OFFSET_MASK)))
           else Some Off_the_end)
      | None \<Rightarrow>
          (case pde_at s (PDE_Addr s va) of
             None \<Rightarrow> Some Bad_access
           | Some pde \<Rightarrow>
               if \<not> pde_valid pde then Some Off_the_end
               else
                 (case pte_at s (PTE_Addr pde va) of
                    None \<Rightarrow> Some Bad_access
                  | Some pte \<Rightarrow>
                      if \<not> pte_valid pte then Some Off_the_end
                      else if \<not> Can_access (protection_bits pte) then Some Off_the_end
                      else if present_bit pte = 0
                      then Option.bind (lookup (page_fault_handler s) va) (\<lambda>ans. Some Off_the_end)
                      else lookup (TLB_Insert va (Physical_page_frame_number pte) (protection_bits pte) s) va))) = Some r"
  show "TLB s va \<noteq> None \<or> page_walk s va \<noteq> None"
  proof (rule ccontr)
    assume a: "\<not> (TLB s va \<noteq> None \<or> page_walk s va \<noteq> None)"
    then have miss: "TLB s va = None" "page_walk s va = None" by blast+
    with body have "lookup s va \<noteq> None"
      by (auto simp: TLB_Lookup_def page_walk_def TLB_Insert_def page_fault_handler_def
          split: if_splits bind_splits option.splits)
    with a IH [of s va] show False by auto
  qed
qed

lemma lookup_diverges: "TLB s va = None \<Longrightarrow> page_walk s va = None \<Longrightarrow> Address_Lookup s va = None"
  using lookup_returns [of s va] by (cases "Address_Lookup s va") auto

subsection \<open>Properties\<close>

text \<open>C21. What \<open>Address_Lookup\<close> does for every state and every address. On a TLB hit it returns the
  entry's frame with the offset of the address, or runs off its end without the permission bit. On a
  TLB miss it never returns an address: it ends as the page walk does when that meets a fault, and it calls
  itself for ever when the page walk finds the page, present or not, because \<open>TLB_Insert\<close> and
  \<open>page_fault_handler\<close> do nothing and so the retry misses again.\<close>

theorem mmu_lookup_outcome:
  "Address_Lookup s va =
     (case TLB s va of
        Some (pfn, bits) \<Rightarrow>
          Some (if bits mod 2 \<noteq> 0 then Returned (push_bit OFFSET_SHIFT pfn OR (va AND OFFSET_MASK)) else Off_the_end)
      | None \<Rightarrow> page_walk s va)"
  by (cases "page_walk s va") (auto simp: lookup_hit lookup_fault lookup_diverges split: option.split)

text \<open>The address that a hit returns is the byte of the frame at the offset of the virtual address:
  for frames of a 32-bit space the shifted frame number and the offset do not overlap, nothing is cut
  off, and addresses of one page are mapped in order.\<close>

theorem mmu_hit_address:
  assumes "TLB s va = Some (pfn, bits)" and "bits mod 2 \<noteq> 0" and "unat pfn < 2 ^ 20"
  shows "\<exists>a. Address_Lookup s va = Some (Returned a) \<and> unat a = unat pfn * 2 ^ 12 + unat va mod 2 ^ 12"
  using assms by (simp add: lookup_hit physical_address_nat)

theorem mmu_hit_address_witness:
  "\<exists>a. Address_Lookup \<lparr>TLB = (\<lambda>_. None)(0x12345 \<mapsto> (3, 1)), CR3 = 0, bytes = (\<lambda>_. None)\<rparr> 0x12345
     = Some (Returned a) \<and> unat a = 0x3345"
proof -
  let ?s = "\<lparr>TLB = (\<lambda>_. None)(0x12345 \<mapsto> (3, 1)), CR3 = 0, bytes = (\<lambda>_. None)\<rparr>"
  have "TLB ?s 0x12345 = Some (3, 1)" "(1 :: u8) mod 2 \<noteq> 0" "unat (3 :: u32) < 2 ^ 20" by simp_all
  from mmu_hit_address [OF this] show ?thesis by simp
qed

text \<open>The page walk splits a 24-bit address without loss into a directory index below 32, a table
  index below 128 and an offset below 4096, and the entry it reads lies inside the directory of 32
  entries and inside the table of 128 entries.\<close>

theorem mmu_address_split:
  "unat va mod 2 ^ 24 = unat (drop_bit PAGE_DIRECTORY_SHIFT (va AND PAGE_DIR_MASK)) * 2 ^ 19
      + unat (drop_bit OFFSET_SHIFT (va AND PAGE_TABLE_MASK)) * 2 ^ 12 + unat (va AND OFFSET_MASK)
   \<and> unat (PDE_Addr s va - CR3 s) = 8 * (unat va div 2 ^ 19 mod 2 ^ 5)
   \<and> unat (PTE_Addr pde va - push_bit OFFSET_SHIFT (page_frame_Next_PageTable pde)) = 12 * (unat va div 2 ^ 12 mod 2 ^ 7)"
proof -
  have "unat (PDE_Addr s va - CR3 s) = unat (drop_bit PAGE_DIRECTORY_SHIFT (va AND PAGE_DIR_MASK) * size_pde)"
    by (simp add: PDE_Addr_def)
  also have "\<dots> = unat (drop_bit PAGE_DIRECTORY_SHIFT (va AND PAGE_DIR_MASK)) * 8 mod 2 ^ 32"
    by (simp add: unat_word_ariths sizes_of_entries)
  also have "\<dots> = 8 * (unat va div 2 ^ 19 mod 2 ^ 5)"
    unfolding page_directory_nat by (subst mod_less) (simp_all add: less_le_trans [OF mult_strict_right_mono [OF mod_less_divisor]])
  finally have pde: "unat (PDE_Addr s va - CR3 s) = 8 * (unat va div 2 ^ 19 mod 2 ^ 5)" .
  have "unat (PTE_Addr pde va - push_bit OFFSET_SHIFT (page_frame_Next_PageTable pde))
      = unat (size_pte * drop_bit OFFSET_SHIFT (va AND PAGE_TABLE_MASK))"
    by (simp add: PTE_Addr_def)
  also have "\<dots> = 12 * unat (drop_bit OFFSET_SHIFT (va AND PAGE_TABLE_MASK)) mod 2 ^ 32"
    by (simp add: unat_word_ariths sizes_of_entries)
  also have "\<dots> = 12 * (unat va div 2 ^ 12 mod 2 ^ 7)"
    unfolding page_table_nat by (subst mod_less) (simp_all add: less_le_trans [OF mult_strict_left_mono [OF mod_less_divisor]])
  finally show ?thesis using pde address_fields by simp
qed

text \<open>\<open>main\<close> passes the page number instead of the address, and the page number is looked up as if
  it were an address: whatever the address, the page walk reads the first entry of the directory and
  the first entry of the table, and a hit returns an offset made of the page number.\<close>

theorem mmu_main_walks_first_entries:
  "PDE_Addr s (main_argument va) = CR3 s
   \<and> PTE_Addr pde (main_argument va) = push_bit OFFSET_SHIFT (page_frame_Next_PageTable pde)
   \<and> unat (main_argument va AND OFFSET_MASK) = unat va div 2 ^ 12 mod 2 ^ 12"
proof -
  have small: "unat (main_argument va) < 2 ^ 12" by (simp add: main_argument_nat)
  have "unat (drop_bit PAGE_DIRECTORY_SHIFT (main_argument va AND PAGE_DIR_MASK)) = 0"
    "unat (drop_bit OFFSET_SHIFT (main_argument va AND PAGE_TABLE_MASK)) = 0"
    unfolding page_directory_nat page_table_nat using small by simp_all
  then have "drop_bit PAGE_DIRECTORY_SHIFT (main_argument va AND PAGE_DIR_MASK) = 0"
    "drop_bit OFFSET_SHIFT (main_argument va AND PAGE_TABLE_MASK) = 0" by (simp_all only: unat_eq_0)
  moreover have "unat (main_argument va AND OFFSET_MASK) = unat va div 2 ^ 12 mod 2 ^ 12"
    unfolding offset_nat main_argument_nat by simp
  ultimately show ?thesis by (simp add: PDE_Addr_def PTE_Addr_def)
qed

subsection \<open>Page tables in memory\<close>

text \<open>Storing bytes, and the bytes of an entry of a page table; \<open>pad\<close> is what is in the padding.\<close>

fun write_bytes :: "memory \<Rightarrow> u32 \<Rightarrow> u8 list \<Rightarrow> memory" where
  "write_bytes m a [] = m"
| "write_bytes m a (b # bs) = (write_bytes m (a + 1) bs)(a \<mapsto> b)"

definition bytes_of_word :: "u32 \<Rightarrow> u8 list" where
  "bytes_of_word w = map (\<lambda>i. ucast (drop_bit (8 * i) w)) [0..<4]"

definition encode_pte :: "u8 list \<Rightarrow> page_table_entry \<Rightarrow> u8 list" where
  "encode_pte pad e = [if pte_valid e then 1 else 0, protection_bits e] @ take 2 pad
     @ bytes_of_word (Physical_page_frame_number e) @ present_bit e # take 3 (drop 2 pad)"

text \<open>The entry \<open>i\<close> of a table at \<open>base\<close>.\<close>

definition entry_address :: "u32 \<Rightarrow> nat \<Rightarrow> u32" where
  "entry_address base i = base + of_nat i * size_pte"

lemma read_bytes_other: "(\<And>i. i < n \<Longrightarrow> a' + of_nat i \<noteq> a) \<Longrightarrow> read_bytes (m(a := x)) a' n = read_bytes m a' n"
proof (induction n arbitrary: a')
  case (Suc n)
  have "a' \<noteq> a" using Suc.prems [of 0] by simp
  moreover have "read_bytes (m(a := x)) (a' + 1) n = read_bytes m (a' + 1) n"
  proof (rule Suc.IH)
    show "a' + 1 + of_nat i \<noteq> a" if "i < n" for i using Suc.prems [of "Suc i"] that by (simp add: ac_simps)
  qed
  ultimately show ?case by (simp only: read_bytes.simps fun_upd_other not_False_eq_True)
qed simp

lemma of_nat_small_eq: "i < 2 ^ 32 \<Longrightarrow> j < 2 ^ 32 \<Longrightarrow> (of_nat i :: u32) = of_nat j \<longleftrightarrow> i = j"
  by (simp add: word_of_nat_eq_iff take_bit_nat_eq_self)

lemma read_write: "length bs < 2 ^ 32 \<Longrightarrow> read_bytes (write_bytes m a bs) a (length bs) = Some bs"
proof (induction bs arbitrary: a)
  case (Cons b bs)
  have "read_bytes (write_bytes m a (b # bs)) (a + 1) (length bs) = read_bytes (write_bytes m (a + 1) bs) (a + 1) (length bs)"
    unfolding write_bytes.simps
  proof (rule read_bytes_other)
    fix i assume "i < length bs"
    then have "(of_nat (Suc i) :: u32) \<noteq> of_nat 0" using Cons.prems by (subst of_nat_small_eq) auto
    then show "a + 1 + of_nat i \<noteq> a" by (simp add: add.assoc)
  qed
  moreover have "read_bytes (write_bytes m (a + 1) bs) (a + 1) (length bs) = Some bs" using Cons by simp
  ultimately show ?case by (simp only: list.size(4) add_Suc_right add_0_right read_bytes.simps) (simp only: write_bytes.simps fun_upd_same, simp)
qed simp

lemma read_write_other:
  "(\<And>i j. i < n \<Longrightarrow> j < length bs \<Longrightarrow> a' + of_nat i \<noteq> a + of_nat j) \<Longrightarrow> read_bytes (write_bytes m a bs) a' n = read_bytes m a' n"
proof (induction bs arbitrary: a)
  case (Cons b bs)
  have "read_bytes (write_bytes m a (b # bs)) a' n = read_bytes (write_bytes m (a + 1) bs) a' n"
    unfolding write_bytes.simps using Cons.prems [of _ 0] by (intro read_bytes_other) auto
  also have "\<dots> = read_bytes m a' n"
  proof (rule Cons.IH)
    show "a' + of_nat i \<noteq> a + 1 + of_nat j" if "i < n" "j < length bs" for i j
      using Cons.prems [of i "Suc j"] that by (simp add: ac_simps)
  qed
  finally show ?case .
qed simp

lemma word_bytes: "word_of_bytes (bytes_of_word w) = w"
proof -
  define n where "n = unat w"
  have b: "ucast (ucast (drop_bit k w) :: u8) = (of_nat (n div 2 ^ k mod 256) :: u32)" for k
  proof -
    have "unat (ucast (ucast (drop_bit k w) :: u8) :: u32) = n div 2 ^ k mod 256"
      unfolding n_def
      by (simp only: unsigned_ucast_eq unsigned_take_bit_eq unat_drop_bit_eq drop_bit_eq_div [where 'a = nat] take_bit_eq_mod [where 'a = nat])
        (simp add: mod_mod_cancel)
    moreover have "of_nat (unat x) = x" for x :: u32 by simp
    ultimately show ?thesis by metis
  qed
  have eq: "n = n mod 256 + 256 * (n div 256 mod 256 + 256 * (n div 65536 mod 256 + 256 * (n div 16777216 mod 256)))"
  proof -
    have "n < 2 ^ 32" unfolding n_def using unsigned_less [of w] by simp
    then have "n div 16777216 < 256" by simp
    then have top: "n div 16777216 mod 256 = n div 16777216" by simp
    have "n div 65536 = n div 65536 mod 256 + 256 * (n div 16777216)" using mod_mult_div_eq [of "n div 65536" 256] by (simp add: div_mult2_eq [symmetric])
    moreover have "n div 256 = n div 256 mod 256 + 256 * (n div 65536)" using mod_mult_div_eq [of "n div 256" 256] by (simp add: div_mult2_eq [symmetric])
    ultimately show ?thesis using mod_mult_div_eq [of n 256] top by simp
  qed
  have "w = of_nat n" by (simp add: n_def)
  also have "\<dots> = of_nat (n mod 256 + 256 * (n div 256 mod 256 + 256 * (n div 65536 mod 256 + 256 * (n div 16777216 mod 256))))"
    using eq by (rule arg_cong)
  also have "\<dots> = of_nat (n mod 256) + 256 * (of_nat (n div 256 mod 256) + 256 * (of_nat (n div 65536 mod 256)
      + 256 * of_nat (n div 16777216 mod 256)))"
    by (simp only: of_nat_add of_nat_mult of_nat_numeral)
  also have "\<dots> = ucast (ucast (drop_bit 0 w) :: u8) + 256 * (ucast (ucast (drop_bit 8 w) :: u8) + 256 * (ucast (ucast (drop_bit 16 w) :: u8)
      + 256 * ucast (ucast (drop_bit 24 w) :: u8)))"
    unfolding b by simp
  also have "\<dots> = word_of_bytes (bytes_of_word w)"
    by (simp add: word_of_bytes_def bytes_of_word_def upt_rec)
  finally show ?thesis by (rule sym)
qed

lemma bytes_of_word_length [simp]: "length (bytes_of_word w) = 4"
  by (simp add: bytes_of_word_def)

lemma encode_pte_length: "length pad = 5 \<Longrightarrow> length (encode_pte pad e) = 12"
  by (simp add: encode_pte_def bytes_of_word_def)

lemma decode_encode_pte: "length pad = 5 \<Longrightarrow> decode_pte (encode_pte pad e) = e"
  by (simp add: decode_pte_def encode_pte_def word_bytes nth_append)

subsection \<open>Properties of the memory\<close>

text \<open>An entry that is stored in a page table of 128 entries, whatever its padding, is the one the page walk reads there,
  and the other entries of the table stay as they were.\<close>

theorem page_table_entry_roundtrip:
  fixes s :: mmu and e :: page_table_entry and base :: u32
  assumes "length pad = 5" and "i < 128"
  defines "s' \<equiv> s\<lparr>bytes := write_bytes (bytes s) (entry_address base i) (encode_pte pad e)\<rparr>"
  shows "pte_at s' (entry_address base i) = Some e
     \<and> (\<forall>j < 128. j \<noteq> i \<longrightarrow> pte_at s' (entry_address base j) = pte_at s (entry_address base j))"
proof -
  have eq: "bytes s' = write_bytes (bytes s) (entry_address base i) (encode_pte pad e)" by (simp add: s'_def)
  note len = encode_pte_length [OF assms(1), of e]
  have "pte_at s' (entry_address base i) = Some e"
    using read_write [of "encode_pte pad e" "bytes s" "entry_address base i"] len decode_encode_pte [OF assms(1), of e]
    by (simp add: pte_at_def Access_Memory_def page_table_layout s'_def)
  moreover have "pte_at s' (entry_address base j) = pte_at s (entry_address base j)" if j: "j < 128" "j \<noteq> i" for j
  proof -
    have "read_bytes (bytes s') (entry_address base j) 12 = read_bytes (bytes s) (entry_address base j) 12"
      unfolding eq
    proof (rule read_write_other)
      fix x y :: nat assume xy: "x < 12" "y < length (encode_pte pad e)"
      have "12 * j + x \<noteq> 12 * i + y" using xy len j(2) by presburger
      moreover have "12 * j + x < 2 ^ 32" "12 * i + y < 2 ^ 32" using xy len j(1) assms(2) by simp_all
      ultimately have "(of_nat (12 * j + x) :: u32) \<noteq> of_nat (12 * i + y)" by (subst of_nat_small_eq) auto
      then show "entry_address base j + of_nat x \<noteq> entry_address base i + of_nat y"
        by (simp add: entry_address_def sizes_of_entries mult.commute add.assoc)
    qed
    then show ?thesis by (simp add: pte_at_def Access_Memory_def page_table_layout)
  qed
  ultimately show ?thesis by blast
qed


theorem page_table_entry_roundtrip_witness:
  "pte_at \<lparr>TLB = (\<lambda>_. None), CR3 = 0, bytes = write_bytes (\<lambda>_. None) (entry_address 0x1000 2)
      (encode_pte [1, 2, 3, 4, 5] \<lparr>pte_valid = True, protection_bits = 2, Physical_page_frame_number = 0xABCDE, present_bit = 1\<rparr>)\<rparr>
      (entry_address 0x1000 2)
    = Some \<lparr>pte_valid = True, protection_bits = 2, Physical_page_frame_number = 0xABCDE, present_bit = 1\<rparr>"
  using page_table_entry_roundtrip [of "[1, 2, 3, 4, 5]" 2 "\<lparr>TLB = (\<lambda>_. None), CR3 = 0, bytes = (\<lambda>_. None)\<rparr>" "0x1000"]
  by simp

text \<open>\<open>main\<close> starts the page walk at the null pointer: \<open>CR3\<close> is 0 and the page number it passes has no directory part. No
  object has that address, so the read is undefined, wherever the variable of \<open>main\<close> lies.\<close>

theorem mmu_main_null_pointer:
  assumes "m 0 = None"
  shows "mmu_main m x = Some Bad_access"
proof -
  let ?s = "\<lparr>TLB = (\<lambda>_. None), CR3 = 0, bytes = m\<rparr>" and ?va = "main_argument (ucast x)"
  have "PDE_Addr ?s ?va = 0" using mmu_main_walks_first_entries [of ?s "ucast x"] by simp
  moreover have "read_bytes m 0 8 = None" using assms by (simp add: numeral_eq_Suc)
  ultimately have "page_walk ?s ?va = Some Bad_access"
    by (simp add: page_walk_def pde_at_def Access_Memory_def page_table_layout)
  then show ?thesis by (simp add: mmu_main_def lookup_fault)
qed

theorem mmu_main_null_pointer_witness: "mmu_main (\<lambda>a. if a = 0 then None else Some 1) 0x7FFE12345678 = Some Bad_access"
  by (rule mmu_main_null_pointer) simp

end
