(* ===== verification/Pool.thy ===== *)
theory Pool
  imports Layout
begin

text \<open>
  \<open>prac.cpp\<close>: the object pool on a free list that is threaded through its own chunks (the same class
  is in \<open>c++_features_experiment/mempool.cpp\<close>), and \<open>memmove\<close>.
\<close>

subsection \<open>The pool\<close>

text \<open>
  A chunk is a union: the link of the free list or an object. The chunks are numbered, a pointer is
  a number and the null pointer is \<open>None\<close>.
\<close>

datatype 'a chunk = Next "nat option" | Object 'a

record 'a pool =
  free_list :: "nat option"
  chunks :: "nat \<Rightarrow> 'a chunk"
  pool_size :: nat

text \<open>The loop of the constructor from \<open>i\<close> on, with \<open>k\<close> rounds left.\<close>

fun link_chunks :: "nat \<Rightarrow> nat \<Rightarrow> (nat \<Rightarrow> 'a chunk) \<Rightarrow> nat \<Rightarrow> 'a chunk" where
  "link_chunks i 0 h = h"
| "link_chunks i (Suc k) h = link_chunks (Suc i) k (h(i := Next (Some (Suc i))))"

text \<open>
  The constructor. With no chunk at all the loop bound \<open>n - 1\<close> wraps around and the first write is
  out of bounds; \<open>i\<close> is an \<open>int\<close>, so \<open>n\<close> is at most \<open>2 ^ 31\<close>. Both are undefined otherwise.
\<close>

definition pool_new :: "nat \<Rightarrow> 'a pool option" where
  "pool_new n =
     (if n = 0 \<or> 2 ^ 31 < n then None
      else Some \<lparr>free_list = Some 0,
                 chunks = (link_chunks 0 (n - 1) (\<lambda>_. Next None))(n - 1 := Next None), pool_size = n\<rparr>)"

datatype pool_result = Chunk nat | Pool_bad_alloc | Pool_ctor_throws

text \<open>
  \<open>allocate\<close>: unlink the first chunk and construct \<open>T()\<close> in it, which gives \<open>mk\<close> or throws;
  \<open>None\<close> when the link that is read is not there.
\<close>

definition allocate :: "'a option \<Rightarrow> 'a pool \<Rightarrow> (pool_result \<times> 'a pool) option" where
  "allocate mk p =
     (case free_list p of
        None \<Rightarrow> Some (Pool_bad_alloc, p)
      | Some c \<Rightarrow>
          (case chunks p c of
             Object v \<Rightarrow> None
           | Next nxt \<Rightarrow>
               (let p' = p\<lparr>free_list := nxt\<rparr> in
                case mk of
                  None \<Rightarrow> Some (Pool_ctor_throws, p')
                | Some v \<Rightarrow> Some (Chunk c, p'\<lparr>chunks := (chunks p')(c := Object v)\<rparr>))))"

text \<open>\<open>deallocate\<close>: destroy the object (undefined if there is none) and push its chunk.\<close>

definition deallocate :: "nat \<Rightarrow> 'a pool \<Rightarrow> 'a pool option" where
  "deallocate c p =
     (case chunks p c of
        Next nxt \<Rightarrow> None
      | Object v \<Rightarrow> Some (p\<lparr>chunks := (chunks p)(c := Next (free_list p)), free_list := Some c\<rparr>))"

text \<open>
  The destructor gives back the array. It calls no destructor of an object: the result are the chunks of the objects
  that are never destroyed.
\<close>

definition pool_destroy :: "'a pool \<Rightarrow> nat list" where
  "pool_destroy p = filter (\<lambda>c. case chunks p c of Object v \<Rightarrow> True | Next nxt \<Rightarrow> False) [0..<pool_size p]"

datatype 'a pool_event = Allocate "'a option" | Deallocate nat

fun pool_move :: "'a pool_event \<Rightarrow> 'a pool \<Rightarrow> 'a pool option" where
  "pool_move (Allocate mk) p = map_option snd (allocate mk p)"
| "pool_move (Deallocate c) p = (if c < pool_size p then deallocate c p else None)"

definition pool_init :: "nat \<Rightarrow> 'a pool \<Rightarrow> bool" where
  "pool_init n p \<longleftrightarrow> pool_new n = Some p"

subsection \<open>\<open>memmove\<close>\<close>

text \<open>The two loops, with \<open>k\<close> bytes left; the second one counts down from the ends.\<close>

fun copy_up :: "nat \<Rightarrow> nat \<Rightarrow> nat \<Rightarrow> (nat \<Rightarrow> u8) \<Rightarrow> nat \<Rightarrow> u8" where
  "copy_up dst ptr 0 m = m"
| "copy_up dst ptr (Suc k) m = copy_up (Suc dst) (Suc ptr) k (m(dst := m ptr))"

fun copy_down :: "nat \<Rightarrow> nat \<Rightarrow> nat \<Rightarrow> (nat \<Rightarrow> u8) \<Rightarrow> nat \<Rightarrow> u8" where
  "copy_down dst ptr 0 m = m"
| "copy_down dst ptr (Suc k) m = copy_down (dst - 1) (ptr - 1) k (m(dst - 1 := m (ptr - 1)))"

text \<open>Address 0 is the null pointer; the result is the returned pointer and the memory.\<close>

definition memmove :: "nat \<Rightarrow> nat \<Rightarrow> nat \<Rightarrow> (nat \<Rightarrow> u8) \<Rightarrow> nat \<times> (nat \<Rightarrow> u8)" where
  "memmove dest src count m =
     (if src = 0 \<or> dest = 0 then (0, m)
      else if dest < src then (dest, copy_up dest src count m)
      else if src < dest then (dest, copy_down (dest + count) (src + count) count m)
      else (dest, m))"

subsection \<open>The free list\<close>

text \<open>The chunks on the free list from \<open>p\<close> on.\<close>

fun chain :: "(nat \<Rightarrow> 'a chunk) \<Rightarrow> nat option \<Rightarrow> nat list \<Rightarrow> bool" where
  "chain h p [] \<longleftrightarrow> p = None"
| "chain h p (c # cs) \<longleftrightarrow> p = Some c \<and> (\<exists>nxt. h c = Next nxt \<and> chain h nxt cs)"

lemma chain_frame: "c \<notin> set cs \<Longrightarrow> chain (h(c := x)) p cs = chain h p cs"
  by (induction cs arbitrary: p) auto

definition in_use :: "'a pool \<Rightarrow> nat set" where
  "in_use p = {c. c < pool_size p \<and> (\<exists>v. chunks p c = Object v)}"

text \<open>
  The free list is a list \<open>cs\<close> of distinct chunks; the others are in use or, after a
  constructor has thrown, in \<open>lost\<close>.
\<close>

definition pool_rep :: "'a pool \<Rightarrow> nat list \<Rightarrow> nat set \<Rightarrow> bool" where
  "pool_rep p cs lost \<longleftrightarrow> chain (chunks p) (free_list p) cs \<and> distinct cs
     \<and> {..<pool_size p} = set cs \<union> in_use p \<union> lost \<and> set cs \<inter> lost = {} \<and> in_use p \<inter> lost = {}"

lemma chain_next: "chain h p cs \<Longrightarrow> c \<in> set cs \<Longrightarrow> \<exists>nxt. h c = Next nxt"
  by (induction cs arbitrary: p) auto

lemma pool_rep_disjoint: "pool_rep p cs lost \<Longrightarrow> c \<in> set cs \<Longrightarrow> c \<notin> in_use p"
  by (auto simp: pool_rep_def in_use_def dest: chain_next)

lemma link_chunks_eq: "link_chunks i k h = (\<lambda>c. if i \<le> c \<and> c < i + k then Next (Some (Suc c)) else h c)"
  by (induction k arbitrary: i h) (auto simp: fun_eq_iff)

lemma chain_upt: "i < n \<Longrightarrow> (\<And>c. i \<le> c \<Longrightarrow> c < n - 1 \<Longrightarrow> h c = Next (Some (Suc c))) \<Longrightarrow> h (n - 1) = Next None \<Longrightarrow>
    chain h (Some i) [i..<n]"
proof (induction "n - i" arbitrary: i)
  case (Suc k)
  show ?case
  proof (cases "Suc i = n")
    case True
    with Suc.prems show ?thesis by auto
  next
    case False
    with Suc have "chain h (Some (Suc i)) [Suc i..<n]" by (intro Suc.hyps(1)) auto
    with Suc.prems False show ?thesis by (simp add: upt_conv_Cons)
  qed
qed simp

lemma pool_new_rep:
  assumes "pool_new n = Some (p :: 'a pool)"
  shows "pool_rep p [0..<n] {} \<and> in_use p = {} \<and> pool_size p = n"
proof -
  from assms have n: "0 < n" and p: "p = \<lparr>free_list = Some 0,
      chunks = (link_chunks 0 (n - 1) (\<lambda>_. Next None))(n - 1 := Next None), pool_size = n\<rparr>"
    by (auto simp: pool_new_def split: if_splits)
  have "chain (chunks p) (Some 0) [0..<n]" using n by (intro chain_upt) (auto simp: p link_chunks_eq)
  moreover have "in_use p = {}" by (auto simp: in_use_def p link_chunks_eq split: if_splits)
  ultimately show ?thesis using p by (auto simp: pool_rep_def)
qed

text \<open>\<open>allocate\<close> and \<open>deallocate\<close> on the free list.\<close>

lemma allocate_empty:
  assumes "pool_rep p [] lost"
  shows "allocate mk p = Some (Pool_bad_alloc, p)" and "{..<pool_size p} = in_use p \<union> lost"
  using assms by (auto simp: pool_rep_def allocate_def)

lemma allocate_cons:
  assumes "pool_rep p (c # cs) lost"
  shows "case mk of
      Some v \<Rightarrow> (\<exists>p'. allocate mk p = Some (Chunk c, p') \<and> pool_rep p' cs lost \<and> pool_size p' = pool_size p
        \<and> in_use p' = insert c (in_use p) \<and> chunks p' = (chunks p)(c := Object v))
    | None \<Rightarrow> (\<exists>p'. allocate mk p = Some (Pool_ctor_throws, p') \<and> pool_rep p' cs (insert c lost)
        \<and> chunks p' = chunks p \<and> pool_size p' = pool_size p)"
proof -
  from assms obtain nxt where n: "free_list p = Some c" "chunks p c = Next nxt" "chain (chunks p) nxt cs"
    and c: "c \<notin> set cs" "distinct cs" "c < pool_size p"
    and parts: "{..<pool_size p} = insert c (set cs) \<union> in_use p \<union> lost" "insert c (set cs) \<inter> lost = {}" "in_use p \<inter> lost = {}"
    unfolding pool_rep_def by auto
  have "c \<notin> in_use p" using n(2) by (simp add: in_use_def)
  show ?thesis
  proof (cases mk)
    case None
    have "in_use (p\<lparr>free_list := nxt\<rparr>) = in_use p" by (simp add: in_use_def)
    then have "pool_rep (p\<lparr>free_list := nxt\<rparr>) cs (insert c lost)"
      using n c parts \<open>c \<notin> in_use p\<close> unfolding pool_rep_def by auto
    with None n show ?thesis by (simp add: allocate_def Let_def)
  next
    case (Some v)
    let ?p = "p\<lparr>free_list := nxt, chunks := (chunks p)(c := Object v)\<rparr>"
    have use: "in_use ?p = insert c (in_use p)" using c by (auto simp: in_use_def)
    then have "pool_rep ?p cs lost"
      using n c parts unfolding pool_rep_def by (auto simp: chain_frame)
    with Some n use show ?thesis by (simp add: allocate_def Let_def)
  qed
qed

lemma deallocate_rep:
  assumes "pool_rep p cs lost" and "c \<in> in_use p"
  shows "\<exists>p'. deallocate c p = Some p' \<and> pool_rep p' (c # cs) lost \<and> in_use p' = in_use p - {c} \<and> pool_size p' = pool_size p
     \<and> (\<forall>d. d \<noteq> c \<longrightarrow> chunks p' d = chunks p d)"
proof -
  from assms obtain v where v: "c < pool_size p" "chunks p c = Object v" by (auto simp: in_use_def)
  let ?p = "p\<lparr>chunks := (chunks p)(c := Next (free_list p)), free_list := Some c\<rparr>"
  have c: "c \<notin> set cs" using pool_rep_disjoint [OF assms(1)] assms(2) by blast
  have use: "in_use ?p = in_use p - {c}" by (auto simp: in_use_def)
  have "pool_rep ?p (c # cs) lost"
    using assms c v(1) unfolding pool_rep_def use by (auto simp: chain_frame)
  with v use show ?thesis by (simp add: deallocate_def)
qed

text \<open>A move keeps the free list intact.\<close>

definition pool_inv :: "nat \<Rightarrow> 'a pool \<Rightarrow> bool" where
  "pool_inv n p \<longleftrightarrow> pool_size p = n \<and> (\<exists>cs lost. pool_rep p cs lost)"

lemma pool_inv_move:
  assumes inv: "pool_inv n p" and "pool_move e p = Some p'"
  shows "pool_inv n p'"
proof -
  from inv obtain cs lost where rep: "pool_rep p cs lost" and n: "pool_size p = n" by (auto simp: pool_inv_def)
  show ?thesis
  proof (cases e)
    case (Deallocate c)
    with assms(2) have "c < pool_size p" "deallocate c p = Some p'" by (auto split: if_splits)
    then have "c \<in> in_use p" by (auto simp: deallocate_def in_use_def split: chunk.splits)
    from deallocate_rep [OF rep this] \<open>deallocate c p = Some p'\<close> n show ?thesis by (auto simp: pool_inv_def)
  next
    case (Allocate mk)
    show ?thesis
    proof (cases cs)
      case Nil
      with Allocate assms rep show ?thesis by (auto simp: allocate_empty)
    next
      case (Cons c ds)
      with allocate_cons [of p c ds lost mk] rep Allocate assms(2) n show ?thesis
        by (auto simp: pool_inv_def split: option.splits)
    qed
  qed
qed

lemma pool_inv_start: "pool_init n p \<Longrightarrow> pool_inv n p"
  using pool_new_rep by (auto simp: pool_init_def pool_inv_def)

interpretation pool: invariant_system "pool_init n" pool_move "pool_inv n" for n
  by unfold_locales (erule pool_inv_start, erule (1) pool_inv_move)

subsection \<open>The loops of \<open>memmove\<close>\<close>

lemma copy_up_eq:
  "dst \<le> ptr \<Longrightarrow> copy_up dst ptr k m = (\<lambda>a. if dst \<le> a \<and> a < dst + k then m (ptr + (a - dst)) else m a)"
proof (induction k arbitrary: dst ptr m)
  case (Suc k)
  show ?case
  proof
    fix a
    show "copy_up dst ptr (Suc k) m a = (if dst \<le> a \<and> a < dst + Suc k then m (ptr + (a - dst)) else m a)"
    proof (cases "Suc dst \<le> a")
      case True
      then obtain j where "a = Suc dst + j" by (auto simp: le_iff_add)
      with Suc.IH [of "Suc dst" "Suc ptr"] Suc.prems show ?thesis by simp
    next
      case False
      with Suc.IH [of "Suc dst" "Suc ptr"] Suc.prems show ?thesis by auto
    qed
  qed
qed (auto simp: fun_eq_iff)

lemma copy_down_eq:
  "ptr \<le> dst \<Longrightarrow> copy_down (dst + k) (ptr + k) k m = (\<lambda>a. if dst \<le> a \<and> a < dst + k then m (ptr + (a - dst)) else m a)"
proof (induction k arbitrary: m)
  case (Suc k)
  then show ?case by (auto simp: fun_eq_iff)
qed (auto simp: fun_eq_iff)

lemma pool_start: "0 < n \<Longrightarrow> n \<le> 2 ^ 31 \<Longrightarrow> pool_init n (the (pool_new n))"
  by (simp add: pool_init_def pool_new_def)

lemmas pool_eval = pool_new_def allocate_def deallocate_def Let_def link_chunks_eq

text \<open>The moves in which no constructor throws lose no chunk.\<close>

fun pool_ctor_fails :: "'a pool_event \<Rightarrow> bool" where
  "pool_ctor_fails (Allocate mk) = (mk = None)"
| "pool_ctor_fails (Deallocate c) = False"

definition pool_nothrow_move :: "'a pool_event \<Rightarrow> 'a pool \<Rightarrow> 'a pool option" where
  "pool_nothrow_move e p = (if pool_ctor_fails e then None else pool_move e p)"

definition pool_full_inv :: "nat \<Rightarrow> 'a pool \<Rightarrow> bool" where
  "pool_full_inv n p \<longleftrightarrow> pool_size p = n \<and> (\<exists>cs. pool_rep p cs {})"

lemma pool_full_inv_move:
  assumes inv: "pool_full_inv n p" and move: "pool_nothrow_move e p = Some p'"
  shows "pool_full_inv n p'"
proof -
  from inv obtain cs where rep: "pool_rep p cs {}" and n: "pool_size p = n" by (auto simp: pool_full_inv_def)
  from move have step: "pool_move e p = Some p'" and ok: "\<not> pool_ctor_fails e"
    by (auto simp: pool_nothrow_move_def split: if_splits)
  show ?thesis
  proof (cases e)
    case (Deallocate c)
    with step have d: "c < pool_size p" "deallocate c p = Some p'" by (auto split: if_splits)
    then have "c \<in> in_use p" by (auto simp: deallocate_def in_use_def split: chunk.splits)
    from deallocate_rep [OF rep this] d n show ?thesis by (auto simp: pool_full_inv_def)
  next
    case (Allocate mk)
    show ?thesis
    proof (cases cs)
      case Nil
      with Allocate step inv rep show ?thesis by (auto simp: allocate_empty)
    next
      case (Cons c ds)
      with allocate_cons [of p c ds "{}" mk] rep Allocate step ok n show ?thesis
        by (auto simp: pool_full_inv_def)
    qed
  qed
qed

lemma pool_full_inv_start: "pool_init n p \<Longrightarrow> pool_full_inv n p"
  using pool_new_rep by (auto simp: pool_init_def pool_full_inv_def)

interpretation pool_nothrow: invariant_system "pool_init n" pool_nothrow_move "pool_full_inv n" for n
  by unfold_locales (erule pool_full_inv_start, erule (1) pool_full_inv_move)

text \<open>What \<open>allocate\<close> returns in every case.\<close>

lemma allocate_outcome:
  assumes "reach (pool_init n) pool_move p"
  shows "\<exists>r p'. allocate mk p = Some (r, p') \<and>
     (case r of
        Chunk c \<Rightarrow> c < n \<and> c \<notin> in_use p \<and> in_use p' = insert c (in_use p)
          \<and> (\<exists>v. mk = Some v \<and> chunks p' = (chunks p)(c := Object v))
      | Pool_bad_alloc \<Rightarrow> p' = p \<and> free_list p = None
      | Pool_ctor_throws \<Rightarrow> mk = None \<and> in_use p' = in_use p)"
proof -
  from pool.reach_inv [OF assms] obtain cs lost where rep: "pool_rep p cs lost" and n: "pool_size p = n"
    by (auto simp: pool_inv_def)
  show ?thesis
  proof (cases cs)
    case Nil
    with rep allocate_empty(1) [of p lost mk] show ?thesis by (auto simp: pool_rep_def)
  next
    case (Cons c ds)
    then have c: "c < n" "c \<notin> in_use p" using rep n pool_rep_disjoint [OF rep, of c] by (auto simp: pool_rep_def)
    show ?thesis
    proof (cases mk)
      case None
      with allocate_cons [of p c ds lost mk] rep Cons show ?thesis by (auto simp: in_use_def)
    next
      case (Some v)
      with allocate_cons [of p c ds lost mk] rep Cons c show ?thesis by auto
    qed
  qed
qed

subsection \<open>Properties\<close>

text \<open>C22. The pool hands out every chunk once: whatever was allocated and deallocated before,
  \<open>allocate\<close> returns a chunk that is in range and not in use and changes no other object, or it throws
  \<open>bad_alloc\<close> and changes nothing; and when the constructor of the object throws, no chunk is in use
  that was not.\<close>

theorem pool_allocate:
  assumes "reach (pool_init n) pool_move p"
  shows "\<exists>r p'. allocate mk p = Some (r, p') \<and>
     (case r of
        Chunk c \<Rightarrow> c < n \<and> c \<notin> in_use p \<and> in_use p' = insert c (in_use p)
          \<and> (\<exists>v. mk = Some v \<and> chunks p' = (chunks p)(c := Object v))
      | Pool_bad_alloc \<Rightarrow> p' = p \<and> free_list p = None
      | Pool_ctor_throws \<Rightarrow> mk = None \<and> in_use p' = in_use p)"
  by (rule allocate_outcome [OF assms])

theorem pool_allocate_witness:
  "\<exists>p :: nat pool. reach (pool_init 3) pool_move p \<and> in_use p = {1}
     \<and> (\<exists>p'. allocate (Some 9) p = Some (Chunk 0, p') \<and> in_use p' = {0, 1})"
proof -
  have "\<exists>p :: nat pool. reach (pool_init 3) pool_move p
      \<and> (free_list p = Some 0 \<and> chunks p 0 = Next (Some 2) \<and> chunks p 1 = Object 8 \<and> chunks p 2 = Next None \<and> pool_size p = 3)"
    by (rule reach_witness [where es = "[Allocate (Some 7), Allocate (Some 8), Deallocate 0]"], rule pool_start, simp, simp,
        simp add: pool_eval)
  then obtain p :: "nat pool" where p: "reach (pool_init 3) pool_move p" "free_list p = Some 0"
    "chunks p 0 = Next (Some 2)" "chunks p 1 = Object 8" "chunks p 2 = Next None" "pool_size p = 3" by blast
  have use: "in_use p = {1}" using p(3-6) by (auto simp: in_use_def less_Suc_eq numeral_3_eq_3 numeral_2_eq_2)
  have "allocate (Some 9) p = Some (Chunk 0, p\<lparr>free_list := Some 2, chunks := (chunks p)(0 := Object 9)\<rparr>)"
    using p(2,3) by (simp add: allocate_def Let_def)
  with pool_allocate [OF p(1), of "Some 9"] use p(1) show ?thesis by (intro exI [of _ p]) auto
qed

text \<open>The pool has exactly \<open>n\<close> objects: as long as no constructor throws, \<open>allocate\<close> fails exactly
  when \<open>n\<close> objects are in use, and a chunk that is deallocated is the next one to be handed out.\<close>

theorem pool_capacity:
  assumes "reach (pool_init n) pool_nothrow_move p"
  shows "(allocate (Some v) p = Some (Pool_bad_alloc, p) \<longleftrightarrow> card (in_use p) = n) \<and> card (in_use p) \<le> n
     \<and> (c \<in> in_use p \<longrightarrow> (\<exists>p' q. deallocate c p = Some p' \<and> allocate (Some v) p' = Some (Chunk c, q)
          \<and> in_use q = in_use p))"
proof -
  from pool_nothrow.reach_inv [OF assms] obtain cs where rep: "pool_rep p cs {}" and n: "pool_size p = n"
    by (auto simp: pool_full_inv_def)
  have parts: "{..<n} = set cs \<union> in_use p" "set cs \<inter> in_use p = {}"
    using rep n pool_rep_disjoint [OF rep] by (auto simp: pool_rep_def)
  have fin: "finite (in_use p)" by (simp add: in_use_def)
  have "n = card (set cs) + card (in_use p)"
    using card_Un_disjoint [of "set cs" "in_use p"] fin parts card_lessThan [of n] by simp
  then have count: "card (in_use p) \<le> n" "card (in_use p) = n \<longleftrightarrow> cs = []" by auto
  have fails: "allocate (Some v) p = Some (Pool_bad_alloc, p) \<longleftrightarrow> cs = []"
  proof (cases cs)
    case Nil
    with rep show ?thesis by (simp add: allocate_empty)
  next
    case (Cons c ds)
    with allocate_cons [of p c ds "{}" "Some v"] rep show ?thesis by auto
  qed
  have "\<exists>p' q. deallocate c p = Some p' \<and> allocate (Some v) p' = Some (Chunk c, q) \<and> in_use q = in_use p"
    if "c \<in> in_use p"
  proof -
    from deallocate_rep [OF rep that] obtain p' where p': "deallocate c p = Some p'" "pool_rep p' (c # cs) {}"
      "in_use p' = in_use p - {c}" by blast
    with allocate_cons [OF p'(2), of "Some v"] that show ?thesis by auto
  qed
  with count fails show ?thesis by blast
qed

theorem pool_capacity_witness:
  "\<exists>p :: nat pool. reach (pool_init 2) pool_nothrow_move p \<and> card (in_use p) = 2
     \<and> allocate (Some 9) p = Some (Pool_bad_alloc, p)"
proof -
  have "\<exists>p :: nat pool. reach (pool_init 2) pool_nothrow_move p
      \<and> (chunks p 0 = Object 7 \<and> chunks p 1 = Object 8 \<and> pool_size p = 2)"
    by (rule reach_witness [where es = "[Allocate (Some 7), Allocate (Some 8)]"], rule pool_start, simp, simp,
        simp add: pool_eval pool_nothrow_move_def)
  then obtain p :: "nat pool" where p: "reach (pool_init 2) pool_nothrow_move p"
    "chunks p 0 = Object 7" "chunks p 1 = Object 8" "pool_size p = 2" by blast
  have "in_use p = {0, 1}" using p(2-4) by (auto simp: in_use_def less_Suc_eq numeral_2_eq_2)
  then have "card (in_use p) = 2" by simp
  with pool_capacity [OF p(1), of 9] p(1) show ?thesis by blast
qed

text \<open>C23. \<open>memmove\<close> is right for regions that overlap in either direction: the destination holds what
  the source held before the call, nothing else changes, and a null pointer copies nothing.\<close>

theorem memmove_correct:
  "memmove dest src count m =
     (if src = 0 \<or> dest = 0 then (0, m)
      else (dest, \<lambda>a. if dest \<le> a \<and> a < dest + count then m (src + (a - dest)) else m a))"
proof -
  consider "dest < src" | "src < dest" | "src = dest" by linarith
  then show ?thesis
  proof cases
    case 1
    then show ?thesis using copy_up_eq [of dest src] by (simp add: memmove_def)
  next
    case 2
    then show ?thesis using copy_down_eq [of src dest] by (simp add: memmove_def)
  next
    case 3
    then show ?thesis by (auto simp: memmove_def)
  qed
qed

subsection \<open>The objects in memory\<close>

text \<open>The bytes of the object in chunk \<open>c\<close> of the array at \<open>blocks\<close>.\<close>

definition pool_object_bytes :: "ctype \<Rightarrow> nat \<Rightarrow> nat \<Rightarrow> nat set" where
  "pool_object_bytes t blocks c = {chunk_address t blocks c ..< chunk_address t blocks c + size_of t}"

lemma pool_object_bytes_disjoint:
  assumes "wf_type t" and "align_of (chunk_layout t) dvd blocks" and "c \<noteq> d"
  shows "pool_object_bytes t blocks c \<inter> pool_object_bytes t blocks d = {}"
  using assms(3) chunk_holds_object [OF assms(1,2), of c d] chunk_holds_object [OF assms(1,2), of d c]
  by (auto simp: pool_object_bytes_def neq_iff)

text \<open>C39. What \<open>allocate\<close> returns is memory for an object: the address is aligned for its type, its bytes are inside the array
  of the pool, and they overlap no other object of the pool. When the destructor runs, the objects it does not destroy
  are those that have not been given back.\<close>

theorem pool_objects_in_memory:
  assumes "reach (pool_init n) pool_move p" and "allocate (Some v) p = Some (Chunk c, p')"
    and "wf_type t" and "align_of (chunk_layout t) dvd blocks"
  shows "align_of t dvd chunk_address t blocks c \<and> pool_object_bytes t blocks c \<subseteq> {blocks ..< blocks + n * size_of (chunk_layout t)}
     \<and> (\<forall>d \<in> in_use p. pool_object_bytes t blocks c \<inter> pool_object_bytes t blocks d = {}) \<and> set (pool_destroy p') = insert c (in_use p)"
proof -
  from allocate_outcome [OF assms(1), of "Some v"] assms(2) have c: "c < n" "c \<notin> in_use p" "in_use p' = insert c (in_use p)" by auto
  have "set (pool_destroy p') = in_use p'"
    by (simp add: pool_destroy_def in_use_def) (metis (no_types, lifting) atLeastLessThan_iff chunk.case(1) chunk.case(2) chunk.exhaust le0)
  moreover have "pool_object_bytes t blocks c \<subseteq> {blocks ..< blocks + n * size_of (chunk_layout t)}"
    using chunk_holds_object [OF assms(3,4) c(1)] by (auto simp: pool_object_bytes_def chunk_address_def)
  moreover have "pool_object_bytes t blocks c \<inter> pool_object_bytes t blocks d = {}" if "d \<in> in_use p" for d
    using that c(2) by (intro pool_object_bytes_disjoint [OF assms(3,4)]) auto
  ultimately show ?thesis using c(3) chunk_holds_object [OF assms(3,4) c(1)] by simp
qed

theorem pool_objects_in_memory_witness:
  "\<exists>p :: nat pool. reach (pool_init 3) pool_move p \<and> in_use p = {1} \<and> chunk_address word_type 64 0 = 64
     \<and> pool_object_bytes word_type 64 0 \<inter> pool_object_bytes word_type 64 1 = {}"
proof -
  have "\<exists>p :: nat pool. reach (pool_init 3) pool_move p
      \<and> (free_list p = Some 0 \<and> chunks p 0 = Next (Some 2) \<and> chunks p 1 = Object 8 \<and> chunks p 2 = Next None \<and> pool_size p = 3)"
    by (rule reach_witness [where es = "[Allocate (Some 7), Allocate (Some 8), Deallocate 0]"], rule pool_start, simp, simp,
        simp add: pool_eval)
  then obtain p :: "nat pool" where p: "reach (pool_init 3) pool_move p" "free_list p = Some 0"
    "chunks p 0 = Next (Some 2)" "chunks p 1 = Object 8" "chunks p 2 = Next None" "pool_size p = 3" by blast
  have use: "in_use p = {1}" using p(3-6) by (auto simp: in_use_def less_Suc_eq numeral_3_eq_3 numeral_2_eq_2)
  obtain p' where "allocate (Some 9) p = Some (Chunk 0, p')" using p(2,3) by (simp add: allocate_def Let_def)
  moreover have "align_of (chunk_layout word_type) dvd 64" by (simp add: chunk_layout_def union_layout member_items_def max_def)
  ultimately show ?thesis using pool_objects_in_memory [OF p(1), of 9 0 p' word_type 64] use p(1)
    by (intro exI [of _ p]) (simp add: chunk_address_def)
qed

end
