(* ===== verification/Small_String.thy ===== *)
theory Small_String
  imports Raw_Memory
begin

text \<open>
  \<open>dsa_from_scratch/data_structures/string.cpp\<close>: the string class with the small string
  optimisation. The characters are cells: \<open>Raw\<close> is an indeterminate byte. There is no destructor.
\<close>

subsection \<open>State\<close>

definition SSO_LEN :: nat where "SSO_LEN = 15"

text \<open>The union \<open>str\<close>, with the member that has been written last.\<close>

datatype buffer = Sbuf "char cell list" | Hbuf "nat option"

record str =
  str_buffer :: buffer
  str_len :: nat
  str_cap :: nat

definition is_sso :: "str \<Rightarrow> bool" where
  "is_sso s \<longleftrightarrow> str_cap s \<le> SSO_LEN"

text \<open>\<open>std::memcpy\<close> of \<open>n\<close> bytes into a buffer; undefined when it leaves one of the two.\<close>

definition memcpy :: "'c list \<Rightarrow> 'c list \<Rightarrow> nat \<Rightarrow> 'c list option" where
  "memcpy dst src n = (if n \<le> length src \<and> n \<le> length dst then Some (take n src @ drop n dst) else None)"

text \<open>An uninitialised \<open>sbuf_\<close>.\<close>

definition raw_sbuf :: "char cell list" where
  "raw_sbuf = replicate SSO_LEN Raw"

subsection \<open>Operations\<close>

definition string_new :: str where
  "string_new = \<lparr>str_buffer = Sbuf (replicate SSO_LEN (Live (CHR 0x00))), str_len = 0, str_cap = 0\<rparr>"

text \<open>The loop that counts up to the terminator; \<open>None\<close> when there is none in the array.\<close>

fun c_length :: "char list \<Rightarrow> nat option" where
  "c_length [] = None"
| "c_length (c # cs) = (if c = CHR 0x00 then Some 0 else map_option Suc (c_length cs))"

text \<open>A heap buffer of \<open>n\<close> characters that is filled from \<open>src\<close>.\<close>

definition heap_copy :: "char cell list \<Rightarrow> nat \<Rightarrow> char mem \<Rightarrow> fault + (str \<times> char mem)" where
  "heap_copy src n m =
     (case mem_new n m of
        None \<Rightarrow> Inl Bad_alloc
      | Some (b, m') \<Rightarrow>
          (case memcpy (replicate n Raw) src n of
             None \<Rightarrow> Inl Undefined
           | Some cs \<Rightarrow> Inr (\<lparr>str_buffer = Hbuf (Some b), str_len = n, str_cap = n\<rparr>, with_block m' b cs)))"

definition string_from :: "char list \<Rightarrow> char mem \<Rightarrow> fault + (str \<times> char mem)" where
  "string_from obj m =
     (case c_length obj of
        None \<Rightarrow> Inl Undefined
      | Some len \<Rightarrow>
          (if len \<le> SSO_LEN
           then (case memcpy raw_sbuf (map Live obj) len of
                   None \<Rightarrow> Inl Undefined
                 | Some b \<Rightarrow> Inr (\<lparr>str_buffer = Sbuf b, str_len = len, str_cap = SSO_LEN\<rparr>, m))
           else heap_copy (map Live obj) len m))"

definition string_copy :: "str \<Rightarrow> char mem \<Rightarrow> fault + (str \<times> char mem)" where
  "string_copy other m =
     (if is_sso other
      then (case str_buffer other of
              Hbuf p \<Rightarrow> Inl Undefined
            | Sbuf src \<Rightarrow>
                (case memcpy raw_sbuf src (str_len other) of
                   None \<Rightarrow> Inl Undefined
                 | Some b \<Rightarrow> Inr (\<lparr>str_buffer = Sbuf b, str_len = str_len other, str_cap = SSO_LEN\<rparr>, m)))
      else (case str_buffer other of
              Hbuf (Some p) \<Rightarrow>
                (case blocks m p of None \<Rightarrow> Inl Undefined | Some src \<Rightarrow> heap_copy src (str_len other) m)
            | _ \<Rightarrow> Inl Undefined))"

text \<open>
  The move constructor; the new string and what it leaves of the old one. It has no initialiser for
  \<open>len_\<close>, which it reads in the first branch: \<open>garbage\<close> is the value that happens to be there.
\<close>

definition string_move :: "nat \<Rightarrow> str \<Rightarrow> (str \<times> str) option" where
  "string_move garbage other =
     (if is_sso other
      then (case str_buffer other of
              Hbuf p \<Rightarrow> None
            | Sbuf src \<Rightarrow>
                (case memcpy raw_sbuf src garbage of
                   None \<Rightarrow> None
                 | Some b \<Rightarrow> Some (\<lparr>str_buffer = Sbuf b, str_len = str_len other, str_cap = SSO_LEN\<rparr>, other)))
      else (case str_buffer other of
              Sbuf b \<Rightarrow> None
            | Hbuf p \<Rightarrow>
                Some (\<lparr>str_buffer = Hbuf p, str_len = str_len other, str_cap = str_cap other\<rparr>,
                      other\<lparr>str_buffer := Hbuf None, str_cap := 0\<rparr>)))"

subsection \<open>The value of a string\<close>

text \<open>The string object \<open>s\<close> holds the characters \<open>cs\<close>.\<close>

definition string_rep :: "str \<Rightarrow> char mem \<Rightarrow> char list \<Rightarrow> bool" where
  "string_rep s m cs \<longleftrightarrow> str_len s = length cs \<and>
     (if is_sso s
      then length cs \<le> SSO_LEN \<and> (\<exists>b. str_buffer s = Sbuf b \<and> length b = SSO_LEN \<and> take (str_len s) b = map Live cs)
      else str_cap s = length cs \<and> (\<exists>p. str_buffer s = Hbuf (Some p) \<and> blocks m p = Some (map Live cs)))"

text \<open>Its characters, where they are determinate.\<close>

definition string_chars :: "str \<Rightarrow> char mem \<Rightarrow> char list option" where
  "string_chars s m =
     (let cells = (case str_buffer s of Sbuf b \<Rightarrow> Some b | Hbuf None \<Rightarrow> None | Hbuf (Some p) \<Rightarrow> blocks m p)
      in Option.bind cells (\<lambda>b. those (map live_value (take (str_len s) b))))"

lemma c_length_append: "CHR 0x00 \<notin> set cs \<Longrightarrow> c_length (cs @ CHR 0x00 # rest) = Some (length cs)"
  by (induction cs) auto

lemma memcpy_fresh: "n \<le> length src \<Longrightarrow> memcpy (replicate n Raw) src n = Some (take n src)"
  by (simp add: memcpy_def)

lemma those_live [simp]: "those (map live_value (map Live cs)) = Some cs"
  by (induction cs) auto

lemma string_rep_chars: "string_rep s m cs \<Longrightarrow> string_chars s m = Some cs"
  by (auto simp: string_rep_def string_chars_def simp flip: map_map split: if_splits)

lemma string_new_rep: "string_rep string_new m []"
  by (simp add: string_rep_def string_new_def is_sso_def SSO_LEN_def)

text \<open>A heap copy holds the characters in a block of its own.\<close>

lemma heap_copy_rep:
  assumes "SSO_LEN < length cs" and "heap_copy (map Live cs @ rest) (length cs) m = Inr (s, m')"
  shows "string_rep s m' cs" and "blocks m' = (blocks m)(fresh m \<mapsto> map Live cs)" and "str_buffer s = Hbuf (Some (fresh m))"
  using assms
  by (auto simp: heap_copy_def memcpy_fresh mem_new_def with_block_def string_rep_def is_sso_def split: if_splits)

lemma heap_copy_fails: "heap_copy (map Live cs @ rest) (length cs) m = Inl e \<longleftrightarrow> e = Bad_alloc \<and> room m < length cs"
  by (auto simp: heap_copy_def memcpy_fresh mem_new_def)

lemma sbuf_copy:
  assumes "n \<le> SSO_LEN" and "n \<le> length src"
  shows "memcpy raw_sbuf src n = Some (take n src @ replicate (SSO_LEN - n) Raw)"
  using assms by (simp add: memcpy_def raw_sbuf_def)

subsection \<open>Properties\<close>

text \<open>C28. Construction from a terminated character array gives a string of exactly the characters in
  front of the terminator, in the object for at most 15 of them and else in a block of its own, and it
  fails only for want of memory.\<close>

theorem string_from_roundtrip:
  assumes "CHR 0x00 \<notin> set cs"
  shows "case string_from (cs @ CHR 0x00 # rest) m of
      Inl e \<Rightarrow> e = Bad_alloc \<and> 15 < length cs \<and> room m < length cs
    | Inr (s, m') \<Rightarrow> string_chars s m' = Some cs \<and> string_rep s m' cs \<and> (is_sso s \<longleftrightarrow> length cs \<le> 15)
        \<and> (is_sso s \<longrightarrow> m' = m)"
proof (cases "length cs \<le> 15")
  case True
  have "memcpy raw_sbuf (map Live (cs @ CHR 0x00 # rest)) (length cs)
      = Some (map Live cs @ replicate (SSO_LEN - length cs) Raw)"
    using True by (subst sbuf_copy) (auto simp: SSO_LEN_def)
  moreover have "string_rep \<lparr>str_buffer = Sbuf (map Live cs @ replicate (SSO_LEN - length cs) Raw),
      str_len = length cs, str_cap = SSO_LEN\<rparr> m cs"
    using True by (simp add: string_rep_def is_sso_def SSO_LEN_def)
  ultimately show ?thesis using True c_length_append [OF assms] string_rep_chars
    by (simp add: string_from_def SSO_LEN_def is_sso_def)
next
  case False
  then have eq: "string_from (cs @ CHR 0x00 # rest) m = heap_copy (map Live cs @ map Live (CHR 0x00 # rest)) (length cs) m"
    using c_length_append [OF assms] by (simp add: string_from_def SSO_LEN_def)
  show ?thesis
  proof (cases "string_from (cs @ CHR 0x00 # rest) m")
    case (Inl e)
    with eq heap_copy_fails [of cs "map Live (CHR 0x00 # rest)" m e] have "e = Bad_alloc" "room m < length cs" by metis+
    with Inl False show ?thesis by simp
  next
    case (Inr r)
    obtain s m' where r: "r = (s, m')" by (cases r)
    with Inr False eq have rep: "string_rep s m' cs" "str_buffer s = Hbuf (Some (fresh m))"
      using heap_copy_rep [of cs "map Live (CHR 0x00 # rest)" m s m'] by (simp_all add: SSO_LEN_def)
    then have "\<not> is_sso s" by (auto simp: string_rep_def split: if_splits)
    with Inr r rep False string_rep_chars show ?thesis by simp
  qed
qed

theorem string_from_roundtrip_witness:
  "case string_from (''hello'' @ CHR 0x00 # ''x'') \<lparr>blocks = \<lambda>_. None, fresh = 0, room = 0\<rparr> of
      Inl e \<Rightarrow> False
    | Inr (s, m') \<Rightarrow> string_chars s m' = Some ''hello'' \<and> is_sso s"
  using string_from_roundtrip [where cs = "''hello''" and rest = "''x''" and m = "\<lparr>blocks = \<lambda>_. None, fresh = 0, room = 0\<rparr>"]
  by (auto split: sum.splits)

text \<open>A copy of a string has the same characters and shares no memory with it: it fails only for want
  of memory, and whatever is written to the buffer of the one afterwards, the other keeps its characters.\<close>

theorem string_copy_independent:
  assumes "string_rep other m cs" and "\<forall>p \<ge> fresh m. blocks m p = None"
  shows "case string_copy other m of
      Inl e \<Rightarrow> e = Bad_alloc \<and> \<not> is_sso other \<and> room m < length cs
    | Inr (s, m') \<Rightarrow> string_rep s m' cs \<and> string_rep other m' cs
        \<and> (\<forall>p q. str_buffer s = Hbuf (Some p) \<and> str_buffer other = Hbuf (Some q) \<longrightarrow> p \<noteq> q)"
proof (cases "is_sso other")
  case True
  with assms obtain b where b: "str_buffer other = Sbuf b" "length b = SSO_LEN" "take (length cs) b = map Live cs"
    "str_len other = length cs" "length cs \<le> SSO_LEN" by (auto simp: string_rep_def)
  with True assms(1) show ?thesis by (simp add: string_copy_def sbuf_copy string_rep_def is_sso_def)
next
  case False
  with assms obtain p where p: "str_buffer other = Hbuf (Some p)" "blocks m p = Some (map Live cs)" "str_len other = length cs"
    by (auto simp: string_rep_def)
  then have "p < fresh m" using assms(2) by (metis not_less option.distinct(1))
  have copy: "string_copy other m = heap_copy (map Live cs @ []) (length cs) m"
    using p False by (simp add: string_copy_def)
  show ?thesis
  proof (cases "heap_copy (map Live cs @ []) (length cs) m")
    case (Inl e)
    with False copy heap_copy_fails [of cs "[]" m e] show ?thesis by simp
  next
    case (Inr r)
    obtain s m' where r: "r = (s, m')" by (cases r)
    with Inr have h: "blocks m' = (blocks m)(fresh m \<mapsto> map Live cs)" "str_buffer s = Hbuf (Some (fresh m))"
      "str_len s = length cs" "str_cap s = length cs"
      by (auto simp: heap_copy_def memcpy_fresh mem_new_def with_block_def split: if_splits)
    show ?thesis
      using Inr r copy heap_copy_rep [of cs "[]" m s m'] p False \<open>p < fresh m\<close> assms(1)
      by (auto simp: string_rep_def is_sso_def)
  qed
qed

theorem string_copy_independent_witness:
  "\<exists>s m'. string_copy \<lparr>str_buffer = Hbuf (Some 0), str_len = 16, str_cap = 16\<rparr>
       \<lparr>blocks = [0 \<mapsto> map Live ''abcdefghijklmnop''], fresh = 1, room = 16\<rparr> = Inr (s, m')
     \<and> string_rep s m' ''abcdefghijklmnop''"
proof -
  let ?o = "\<lparr>str_buffer = Hbuf (Some 0), str_len = 16, str_cap = 16\<rparr>"
  let ?m = "\<lparr>blocks = [0 \<mapsto> map Live ''abcdefghijklmnop''], fresh = 1, room = 16\<rparr>"
  have "string_rep ?o ?m ''abcdefghijklmnop''" "\<forall>p \<ge> fresh ?m. blocks ?m p = None"
    by (simp_all add: string_rep_def is_sso_def SSO_LEN_def)
  from string_copy_independent [OF this] show ?thesis by (auto split: sum.splits)
qed

text \<open>Moving a string out of its heap buffer hands the buffer over, and leaves an object that must not be
  copied: its length is kept. Moving a short string is only right if the uninitialised \<open>len_\<close> of the
  new object happens to be a value from the length of the string to 15: a smaller one leaves characters
  indeterminate, a greater one overruns the buffers.\<close>

theorem string_move_cases:
  assumes "string_rep other m cs"
  shows "if is_sso other
     then (if 15 < garbage then string_move garbage other = None
           else \<exists>s. string_move garbage other = Some (s, other) \<and> (string_rep s m cs \<longleftrightarrow> length cs \<le> garbage))
     else \<exists>s other'. string_move garbage other = Some (s, other') \<and> string_rep s m cs
        \<and> string_copy other' m = Inl Undefined"
proof (cases "is_sso other")
  case False
  with assms obtain p where p: "str_buffer other = Hbuf (Some p)" by (auto simp: string_rep_def)
  let ?s = "\<lparr>str_buffer = Hbuf (Some p), str_len = str_len other, str_cap = str_cap other\<rparr>"
  let ?o = "other\<lparr>str_buffer := Hbuf None, str_cap := 0\<rparr>"
  have "string_move garbage other = Some (?s, ?o)" using p False by (simp add: string_move_def)
  moreover have "string_rep ?s m cs" using assms p False by (simp add: string_rep_def is_sso_def)
  moreover have "string_copy ?o m = Inl Undefined" by (simp add: string_copy_def is_sso_def)
  ultimately show ?thesis using False by simp
next
  case True
  with assms obtain b where b: "str_buffer other = Sbuf b" "length b = SSO_LEN" "take (length cs) b = map Live cs"
    "str_len other = length cs" "length cs \<le> SSO_LEN" by (auto simp: string_rep_def)
  have "take (length cs) (take garbage b @ replicate (SSO_LEN - garbage) Raw) = map Live cs \<longleftrightarrow> length cs \<le> garbage"
    if "garbage \<le> SSO_LEN"
  proof (cases "length cs \<le> garbage")
    case True
    with b that show ?thesis by (simp add: min_absorb1)
  next
    case less: False
    then have "(take (length cs) (take garbage b @ replicate (SSO_LEN - garbage) Raw)) ! garbage = Raw"
      using b that by (simp add: nth_append)
    moreover have "map Live cs ! garbage \<noteq> Raw" using less by simp
    ultimately show ?thesis using less by metis
  qed
  then have rep: "string_rep \<lparr>str_buffer = Sbuf (take garbage b @ replicate (SSO_LEN - garbage) Raw),
      str_len = length cs, str_cap = SSO_LEN\<rparr> m cs \<longleftrightarrow> length cs \<le> garbage" if "garbage \<le> SSO_LEN"
    using that b by (simp add: string_rep_def is_sso_def)
  show ?thesis
  proof (cases "garbage \<le> SSO_LEN")
    case le: True
    then have "memcpy raw_sbuf b garbage = Some (take garbage b @ replicate (SSO_LEN - garbage) Raw)"
      using b by (simp add: sbuf_copy)
    with True b rep [OF le] le show ?thesis by (simp add: string_move_def SSO_LEN_def)
  next
    case gt: False
    then have "memcpy raw_sbuf b garbage = None" using b by (simp add: memcpy_def raw_sbuf_def)
    with True b gt show ?thesis by (simp add: string_move_def SSO_LEN_def)
  qed
qed

theorem string_move_cases_witness:
  "\<exists>s. string_move 2 \<lparr>str_buffer = Sbuf (map Live ''hello'' @ replicate 10 Raw), str_len = 5, str_cap = 15\<rparr>
        = Some (s, \<lparr>str_buffer = Sbuf (map Live ''hello'' @ replicate 10 Raw), str_len = 5, str_cap = 15\<rparr>)
     \<and> \<not> string_rep s \<lparr>blocks = \<lambda>_. None, fresh = 0, room = 0\<rparr> ''hello''"
proof -
  let ?o = "\<lparr>str_buffer = Sbuf (map Live ''hello'' @ replicate 10 Raw), str_len = 5, str_cap = 15\<rparr>"
  let ?m = "\<lparr>blocks = \<lambda>_. None, fresh = 0, room = 0\<rparr>"
  have "string_rep ?o ?m ''hello''" by (simp add: string_rep_def is_sso_def SSO_LEN_def)
  from string_move_cases [OF this, of 2] show ?thesis by (simp add: is_sso_def SSO_LEN_def)
qed

end
