(* ===== verification/Search_Sort.thy ===== *)
theory Search_Sort
  imports DS_Prelude "HOL-Library.Multiset"
begin

text \<open>
  \<open>c++_features_experiment/branchless_binary_search.cpp\<close>, the search loop of \<open>main\<close>, and
  \<open>c++_features_experiment/template_metaprogramming.cpp\<close>, the bubble sort that is unrolled at compile
  time. An array is a list; reading or writing outside it is undefined, \<open>None\<close>.
\<close>

subsection \<open>Branchless binary search\<close>

definition read :: "'a list \<Rightarrow> nat \<Rightarrow> 'a option" where
  "read a i = (if i < length a then Some (a ! i) else None)"

text \<open>The loop, for the vector \<open>a\<close>, the value \<open>x\<close> and the variables \<open>i\<close> and \<open>len\<close>; it returns \<open>i\<close>.\<close>

function search_loop :: "int list \<Rightarrow> int \<Rightarrow> nat \<Rightarrow> nat \<Rightarrow> nat option" where
  "search_loop a x i len =
     (if 1 < len
      then (let mid = len div 2 in
            case read a (i + mid - 1) of
              None \<Rightarrow> None
            | Some y \<Rightarrow> search_loop a x (i + (if y \<le> x then 1 else 0) * mid) (len - mid))
      else Some i)"
  by pat_completeness auto
termination by (relation "measure (\<lambda>(a, x, i, len). len)") auto

declare search_loop.simps [simp del]

text \<open>What \<open>main\<close> prints.\<close>

definition branchless_search :: "int list \<Rightarrow> int \<Rightarrow> int option" where
  "branchless_search a x = Option.bind (search_loop a x 0 (length a)) (read a)"

subsection \<open>Bubble sort\<close>

definition swap_if_greater :: "nat \<Rightarrow> int list \<Rightarrow> int list" where
  "swap_if_greater j data =
     (if data ! j > data ! (j + 1)
      then (let temp = data ! j in (data[j := data ! (j + 1)])[j + 1 := temp])
      else data)"

text \<open>
  The instances \<open>inbubsort<i, j>\<close>. The chain of instances from \<open>i = 0\<close> and a positive \<open>j\<close> never
  reaches the specialisation for \<open>0, 0\<close>; there is no such program.
\<close>

function inbubsort :: "nat \<Rightarrow> nat \<Rightarrow> int list \<Rightarrow> int list option" where
  "inbubsort i j data =
     (if i = 0 then (if j = 0 then Some data else None)
      else if j < i
      then (if j + 1 < length data then inbubsort i (j + 1) (swap_if_greater j data) else None)
      else inbubsort (i - 1) 0 data)"
  by pat_completeness auto
termination by (relation "measures [\<lambda>(i, j, data). i, \<lambda>(i, j, data). i - j]") auto

declare inbubsort.simps [simp del]

subsection \<open>The search\<close>

text \<open>
  The invariant of the loop: everything before \<open>i\<close> is at most \<open>x\<close>, and the window is followed by the end
  of the array or ends with an element above \<open>x\<close>.
\<close>

definition search_window :: "int list \<Rightarrow> int \<Rightarrow> nat \<Rightarrow> nat \<Rightarrow> bool" where
  "search_window a x i len \<longleftrightarrow> 0 < len \<and> i + len \<le> length a \<and> (\<forall>j<i. a ! j \<le> x)
     \<and> (i + len = length a \<or> x < a ! (i + len - 1))"

lemma search_window_step:
  assumes "sorted a" and win: "search_window a x i len" and len: "1 < len"
  shows "search_window a x (i + (if a ! (i + len div 2 - 1) \<le> x then 1 else 0) * (len div 2)) (len - len div 2)"
proof -
  let ?mid = "len div 2"
  have mid: "0 < ?mid" "2 * ?mid \<le> len" using len by auto
  have a: "i + len \<le> length a" "\<And>j. j < i \<Longrightarrow> a ! j \<le> x" using win by (auto simp: search_window_def)
  show ?thesis
  proof (cases "a ! (i + ?mid - 1) \<le> x")
    case True
    have "a ! j \<le> x" if "j < i + ?mid" for j
    proof -
      have "j \<le> i + ?mid - 1" "i + ?mid - 1 < length a" using that a(1) mid len by linarith+
      from sorted_nth_mono [OF assms(1) this] True show ?thesis by linarith
    qed
    with True win mid show ?thesis by (auto simp: search_window_def)
  next
    case False
    have "a ! (i + ?mid - 1) \<le> a ! (i + (len - ?mid) - 1)"
      using mid a(1) by (intro sorted_nth_mono [OF assms(1)]) auto
    moreover have "0 < len - ?mid" "i + (len - ?mid) \<le> length a" using len a(1) by linarith+
    ultimately show ?thesis using False a(2) by (simp add: search_window_def)
  qed
qed

lemma search_loop_result:
  "sorted a \<Longrightarrow> search_window a x i len \<Longrightarrow> \<exists>k. search_loop a x i len = Some k \<and> search_window a x k 1"
proof (induction a x i len rule: search_loop.induct)
  case (1 a x i len)
  show ?case
  proof (cases "1 < len")
    case True
    then have "read a (i + len div 2 - 1) = Some (a ! (i + len div 2 - 1))"
      using 1(3) by (auto simp: read_def search_window_def)
    with True 1(1) [OF True refl this 1(2) search_window_step [OF 1(2,3) True]] show ?thesis
      by (subst search_loop.simps) (simp add: Let_def)
  next
    case False
    with 1(3) have "len = 1" by (simp add: search_window_def)
    with 1(3) show ?thesis by (subst search_loop.simps) simp
  qed
qed

subsection \<open>The sort\<close>

text \<open>
  The invariant of the passes: of the first \<open>j + 1\<close> elements the last is the greatest, and whatever
  stands behind position \<open>i\<close> is in its place.
\<close>

definition bubble_inv :: "nat \<Rightarrow> nat \<Rightarrow> int list \<Rightarrow> bool" where
  "bubble_inv i j data \<longleftrightarrow> j \<le> i \<and> i < length data \<and> (\<forall>k\<le>j. data ! k \<le> data ! j)
     \<and> (\<forall>k l. k \<le> l \<longrightarrow> i < l \<longrightarrow> l < length data \<longrightarrow> data ! k \<le> data ! l)"

lemma length_swap [simp]: "length (swap_if_greater j data) = length data"
  by (simp add: swap_if_greater_def Let_def)

lemma mset_swap: "j + 1 < length data \<Longrightarrow> mset (swap_if_greater j data) = mset data"
  by (simp add: swap_if_greater_def Let_def mset_swap)

lemma nth_swap:
  "j + 1 < length data \<Longrightarrow> swap_if_greater j data ! k =
     (if k = j then min (data ! j) (data ! (j + 1)) else if k = j + 1 then max (data ! j) (data ! (j + 1)) else data ! k)"
  by (auto simp: swap_if_greater_def Let_def nth_list_update)

lemma bubble_inv_swap:
  assumes inv: "bubble_inv i j data" and "j < i"
  shows "bubble_inv i (j + 1) (swap_if_greater j data)"
proof -
  from assms have len: "i < length data" "j + 1 < length data" and top: "\<And>k. k \<le> j \<Longrightarrow> data ! k \<le> data ! j"
    and rest: "\<And>k l. k \<le> l \<Longrightarrow> i < l \<Longrightarrow> l < length data \<Longrightarrow> data ! k \<le> data ! l"
    by (auto simp: bubble_inv_def)
  have "swap_if_greater j data ! k \<le> swap_if_greater j data ! (j + 1)" if "k \<le> j + 1" for k
    using top [of k] that by (auto simp: nth_swap [OF len(2)])
  moreover have "swap_if_greater j data ! k \<le> swap_if_greater j data ! l" if "k \<le> l" "i < l" "l < length data" for k l
    using rest [OF that] rest [of j l] rest [of "j + 1" l] that assms(2) by (auto simp: nth_swap [OF len(2)])
  ultimately show ?thesis using assms(2) len by (simp add: bubble_inv_def)
qed

lemma bubble_inv_next: "bubble_inv i i data \<Longrightarrow> 0 < i \<Longrightarrow> bubble_inv (i - 1) 0 data"
  unfolding bubble_inv_def by (intro conjI allI impI) (auto, metis Suc_lessI Suc_pred leD le_less_linear linorder_neqE_nat)

lemma inbubsort_sorts:
  "bubble_inv i j data \<Longrightarrow> \<exists>ys. inbubsort i j data = Some ys \<and> sorted ys \<and> mset ys = mset data"
proof (induction i j data rule: inbubsort.induct)
  case (1 i j data)
  show ?case
  proof (cases "i = 0")
    case True
    have "data ! k \<le> data ! l" if "k \<le> l" "l < length data" for k l
    proof (cases "l = 0")
      case False
      with True that 1(3) show ?thesis by (simp add: bubble_inv_def)
    qed (use that in simp)
    then have "sorted data" by (simp add: sorted_iff_nth_mono)
    with True 1(3) show ?thesis by (subst inbubsort.simps) (simp add: bubble_inv_def)
  next
    case False
    show ?thesis
    proof (cases "j < i")
      case True
      then have len: "j + 1 < length data" using 1(3) by (simp add: bubble_inv_def)
      from 1(1) [OF False True this bubble_inv_swap [OF 1(3) True]] len True False show ?thesis
        by (subst inbubsort.simps) (simp add: mset_swap)
    next
      case ge: False
      then have "j = i" using 1(3) by (simp add: bubble_inv_def)
      with 1(2) [OF False ge bubble_inv_next] 1(3) False show ?thesis by (subst inbubsort.simps) simp
    qed
  qed
qed

text \<open>With as many positions as elements the last comparison of the first pass is out of bounds.\<close>

lemma inbubsort_overrun:
  "j < length data \<Longrightarrow> inbubsort (length data) j data = None"
proof (induction "length data - j" arbitrary: j data)
  case (Suc k)
  show ?case
  proof (cases "Suc j < length data")
    case True
    with Suc.hyps(1) [of "swap_if_greater j data" "Suc j"] Suc.hyps(2) show ?thesis by (subst inbubsort.simps) auto
  next
    case False
    with Suc.prems show ?thesis by (subst inbubsort.simps) auto
  qed
qed simp

subsection \<open>Properties\<close>

text \<open>The branchless search reads only elements of the vector and finds the first element greater
  than \<open>x\<close> of a sorted vector that has one; otherwise it prints the last element.\<close>

theorem branchless_search_first_greater:
  assumes "sorted a" and "a \<noteq> []"
  shows "\<exists>i < length a. branchless_search a x = Some (a ! i) \<and> (\<forall>j<i. a ! j \<le> x)
     \<and> (if \<exists>y \<in> set a. x < y then x < a ! i else i = length a - 1)"
proof -
  from assms(2) have "search_window a x 0 (length a)" by (simp add: search_window_def)
  from search_loop_result [OF assms(1) this] obtain i where i: "search_loop a x 0 (length a) = Some i" "search_window a x i 1"
    by blast
  then have lt: "i < length a" by (simp add: search_window_def)
  have "x < a ! i" if y: "y \<in> set a" "x < y" for y
  proof -
    from y(1) obtain j where j: "j < length a" "a ! j = y" by (auto simp: in_set_conv_nth)
    with i(2) y(2) have "i \<le> j" by (force simp: search_window_def not_less [symmetric])
    with i(2) j y(2) show ?thesis by (cases "i = j") (auto simp: search_window_def)
  qed
  moreover have "i = length a - 1 \<or> x < a ! i" using i(2) by (auto simp: search_window_def)
  moreover have "branchless_search a x = Some (a ! i)" using i lt by (simp add: branchless_search_def read_def)
  ultimately show ?thesis using lt i(2) by (intro exI [of _ i]) (auto simp: search_window_def)
qed

theorem branchless_search_first_greater_witness:
  "branchless_search [1, 3, 3, 8, 9] 3 = Some 8"
proof -
  have "sorted [1, 3, 3, 8, 9 :: int]" "[1, 3, 3, 8, 9 :: int] \<noteq> []" by simp_all
  from branchless_search_first_greater [OF this, of 3] obtain i where
    "i < length [1, 3, 3, 8, 9 :: int]" "branchless_search [1, 3, 3, 8, 9] 3 = Some ([1, 3, 3, 8, 9] ! i)"
    "\<forall>j<i. [1, 3, 3, 8, 9] ! j \<le> (3 :: int)" "3 < [1, 3, 3, 8, 9 :: int] ! i" by auto
  moreover from this have "i = 3"
    by (auto simp: less_Suc_eq eval_nat_numeral)
  ultimately show ?thesis by simp
qed

text \<open>C29. The compile-time bubble sort \<open>inbubsort<n - 1, 0>\<close> sorts \<open>n\<close> elements in place, without an access
  outside the array; \<open>inbubsort<n, 0>\<close>, which \<open>main\<close> calls for five elements, accesses the element
  behind the last one.\<close>

theorem bubble_sort_correct:
  assumes "data \<noteq> []"
  shows "(\<exists>ys. inbubsort (length data - 1) 0 data = Some ys \<and> sorted ys \<and> mset ys = mset data)
     \<and> inbubsort (length data) 0 data = None"
proof -
  from assms have "bubble_inv (length data - 1) 0 data" by (auto simp: bubble_inv_def)
  from inbubsort_sorts [OF this] inbubsort_overrun [of 0 data] assms show ?thesis by simp
qed

theorem bubble_sort_correct_witness:
  "(\<exists>ys. inbubsort 4 0 [4, 5, 1, 3, 2] = Some ys \<and> sorted ys \<and> mset ys = {#4, 5, 1, 3, 2#})
     \<and> inbubsort 5 0 [4, 5, 1, 3, 2] = None"
  using bubble_sort_correct [of "[4, 5, 1, 3, 2]"] by (simp add: eval_nat_numeral)

end
