(* ===== verification/Unique_Ptr.thy ===== *)
theory Unique_Ptr
  imports DS_Prelude
begin

text \<open>
  \<open>dsa_from_scratch/data_structures/unique_ptr.cpp\<close>: \<open>compressed_obj\<close> and \<open>unique_ptr\<close>. The objects of a
  program are variables; \<open>'d\<close> is the type of the deleter, \<open>unit\<close> for the empty classes that
  \<open>compressed_obj\<close> inherits from.

  \<open>unique_ptr::reset\<close> calls \<open>call_deleter(old)\<close>, and neither \<open>unique_ptr\<close> nor its namespace declares that
  name, so the class does not compile. The operations have the called function as an argument, and the theorems
  put in its place the two functions of this name that the file has: the members of \<open>compressed_obj\<close>, for stored
  and for empty deleters, applied to \<open>obj_\<close>.
\<close>

subsection \<open>Memory\<close>

text \<open>The objects that \<open>new\<close> has given and \<open>delete\<close> has not yet taken; \<open>bad\<close> after a second \<open>delete\<close>.\<close>

record pmem =
  alive :: "nat set"
  bad :: bool

definition default_delete :: "nat option \<Rightarrow> pmem \<Rightarrow> pmem" where
  "default_delete p m =
     (case p of
        None \<Rightarrow> m
      | Some a \<Rightarrow> if a \<in> alive m then m\<lparr>alive := alive m - {a}\<rparr> else m\<lparr>bad := True\<rparr>)"

subsection \<open>\<open>compressed_obj\<close>\<close>

record 'd compressed_obj =
  the_ptr :: "nat option"
  custom_deleter :: 'd

text \<open>The move constructor gives the new object and what is left of the other.\<close>

definition compressed_move :: "'d compressed_obj \<Rightarrow> 'd compressed_obj \<times> 'd compressed_obj" where
  "compressed_move other =
     (\<lparr>the_ptr = the_ptr other, custom_deleter = custom_deleter other\<rparr>, other\<lparr>the_ptr := None\<rparr>)"

text \<open>The assignment of two different objects.\<close>

definition compressed_assign :: "'d compressed_obj \<Rightarrow> 'd compressed_obj \<Rightarrow> 'd compressed_obj \<times> 'd compressed_obj" where
  "compressed_assign this other =
     (let this1 = this\<lparr>the_ptr := the_ptr other\<rparr>; other1 = other\<lparr>the_ptr := None\<rparr>
      in (this1\<lparr>custom_deleter := custom_deleter other1\<rparr>, other1))"

text \<open>
  The primary template, for the empty deleters: the base class is a new default-constructed object, and the
  assignment leaves it alone. There is one value of an empty class, so they are the two functions above.
\<close>

definition empty_compressed_move :: "unit compressed_obj \<Rightarrow> unit compressed_obj \<times> unit compressed_obj" where
  "empty_compressed_move other = (\<lparr>the_ptr = the_ptr other, custom_deleter = ()\<rparr>, other\<lparr>the_ptr := None\<rparr>)"

definition empty_compressed_assign ::
  "unit compressed_obj \<Rightarrow> unit compressed_obj \<Rightarrow> unit compressed_obj \<times> unit compressed_obj" where
  "empty_compressed_assign this other = (this\<lparr>the_ptr := the_ptr other\<rparr>, other\<lparr>the_ptr := None\<rparr>)"

lemma empty_compressed: "empty_compressed_move = compressed_move" "empty_compressed_assign = compressed_assign"
  by (simp_all add: fun_eq_iff empty_compressed_move_def compressed_move_def empty_compressed_assign_def
      compressed_assign_def Let_def)

text \<open>\<open>my_delete\<close> of both.\<close>

definition my_delete :: "('d \<Rightarrow> nat option \<Rightarrow> pmem \<Rightarrow> pmem) \<Rightarrow> 'd compressed_obj \<Rightarrow> pmem \<Rightarrow> pmem" where
  "my_delete invoke ob m = invoke (custom_deleter ob) (the_ptr ob) m"

text \<open>
  The two members \<open>call_deleter\<close>, with the operator of the deleter as \<open>invoke\<close>: the one of the empty
  deleters ignores its argument.
\<close>

definition empty_call_deleter ::
  "('d \<Rightarrow> nat option \<Rightarrow> pmem \<Rightarrow> pmem) \<Rightarrow> 'd compressed_obj \<Rightarrow> nat option \<Rightarrow> pmem \<Rightarrow> pmem" where
  "empty_call_deleter invoke ob p m = invoke (custom_deleter ob) (the_ptr ob) m"

definition stored_call_deleter ::
  "('d \<Rightarrow> nat option \<Rightarrow> pmem \<Rightarrow> pmem) \<Rightarrow> 'd compressed_obj \<Rightarrow> nat option \<Rightarrow> pmem \<Rightarrow> pmem" where
  "stored_call_deleter invoke ob p m = invoke (custom_deleter ob) p m"

subsection \<open>\<open>unique_ptr\<close>\<close>

text \<open>The variables of the program, and the raw pointers that the rest of the program owns.\<close>

record 'd up =
  pm :: pmem
  vars :: "nat \<Rightarrow> 'd compressed_obj option"
  raw :: "nat set"

definition set_var :: "nat \<Rightarrow> 'd compressed_obj \<Rightarrow> 'd up \<Rightarrow> 'd up" where
  "set_var x ob s = s\<lparr>vars := (vars s)(x \<mapsto> ob)\<rparr>"

type_synonym 'd deleter_call = "'d compressed_obj \<Rightarrow> nat option \<Rightarrow> pmem \<Rightarrow> pmem"

text \<open>\<open>reset\<close> on the object of a variable; the deleter is called after the pointer has been replaced.\<close>

definition up_reset :: "'d deleter_call \<Rightarrow> nat \<Rightarrow> nat option \<Rightarrow> 'd up \<Rightarrow> 'd up option" where
  "up_reset call x p s =
     (case vars s x of
        None \<Rightarrow> None
      | Some ob \<Rightarrow>
          (let old = the_ptr ob in
           if old = p then Some s
           else let ob' = ob\<lparr>the_ptr := p\<rparr>; s' = set_var x ob' s in
                Some (case old of None \<Rightarrow> s' | Some a \<Rightarrow> s'\<lparr>pm := call ob' old (pm s')\<rparr>)))"

definition up_new :: "nat \<Rightarrow> nat option \<Rightarrow> 'd \<Rightarrow> 'd up \<Rightarrow> 'd up option" where
  "up_new x p d s = (if vars s x = None then Some (set_var x \<lparr>the_ptr = p, custom_deleter = d\<rparr> s) else None)"

definition up_move_ctor :: "nat \<Rightarrow> nat \<Rightarrow> 'd up \<Rightarrow> 'd up option" where
  "up_move_ctor x y s =
     (case (vars s x, vars s y) of
        (None, Some other) \<Rightarrow>
          (let (ob, other') = compressed_move other in Some (set_var y other' (set_var x ob s)))
      | _ \<Rightarrow> None)"

definition up_move_assign :: "'d deleter_call \<Rightarrow> nat \<Rightarrow> nat \<Rightarrow> 'd up \<Rightarrow> 'd up option" where
  "up_move_assign call x y s =
     (case (vars s x, vars s y) of
        (Some _, Some _) \<Rightarrow>
          (if x = y then Some s
           else case up_reset call x None s of
                  None \<Rightarrow> None
                | Some s1 \<Rightarrow>
                    (let (ob, other) = compressed_assign (the (vars s1 x)) (the (vars s1 y))
                     in Some (set_var y other (set_var x ob s1))))
      | _ \<Rightarrow> None)"

definition up_get :: "nat \<Rightarrow> 'd up \<Rightarrow> nat option option" where
  "up_get x s = map_option the_ptr (vars s x)"

definition up_release :: "nat \<Rightarrow> 'd up \<Rightarrow> (nat option \<times> 'd up) option" where
  "up_release x s =
     (case vars s x of
        None \<Rightarrow> None
      | Some ob \<Rightarrow> Some (the_ptr ob, set_var x (ob\<lparr>the_ptr := None\<rparr>) s))"

definition up_destroy :: "'d deleter_call \<Rightarrow> nat \<Rightarrow> 'd up \<Rightarrow> 'd up option" where
  "up_destroy call x s = map_option (\<lambda>s'. s'\<lparr>vars := (vars s')(x := None)\<rparr>) (up_reset call x None s)"

text \<open>\<open>*x\<close> and \<open>x->\<close>: the object referred to; \<open>None\<close> is a null or a dangling pointer.\<close>

definition up_deref :: "nat \<Rightarrow> 'd up \<Rightarrow> nat option" where
  "up_deref x s = Option.bind (vars s x) (\<lambda>ob. Option.bind (the_ptr ob) (\<lambda>a. if a \<in> alive (pm s) then Some a else None))"

subsection \<open>A program with unique pointers\<close>

text \<open>
  The steps of a program: it allocates an object and has a raw pointer to it, deletes through a raw
  pointer it owns, hands a raw pointer over to a \<open>unique_ptr\<close>, gets one back from \<open>release\<close>, moves and
  destroys the \<open>unique_ptr\<close>s.
\<close>

datatype 'd up_event =
  UP_alloc nat | UP_delete nat | UP_construct nat "nat option" 'd | UP_move_ctor nat nat | UP_move_assign nat nat
| UP_release nat | UP_reset nat "nat option" | UP_destroy nat

definition hand_over :: "nat option \<Rightarrow> 'd up \<Rightarrow> 'd up option" where
  "hand_over p s = (if set_option p \<subseteq> raw s then Some (s\<lparr>raw := raw s - set_option p\<rparr>) else None)"

fun up_move :: "'d deleter_call \<Rightarrow> 'd up_event \<Rightarrow> 'd up \<Rightarrow> 'd up option" where
  "up_move call (UP_alloc a) s =
     (if a \<in> alive (pm s) then None
      else Some (s\<lparr>pm := (pm s)\<lparr>alive := insert a (alive (pm s))\<rparr>, raw := insert a (raw s)\<rparr>))"
| "up_move call (UP_delete a) s =
     (if a \<in> raw s then Some (s\<lparr>pm := default_delete (Some a) (pm s), raw := raw s - {a}\<rparr>) else None)"
| "up_move call (UP_construct x p d) s = Option.bind (hand_over p s) (up_new x p d)"
| "up_move call (UP_move_ctor x y) s = up_move_ctor x y s"
| "up_move call (UP_move_assign x y) s = up_move_assign call x y s"
| "up_move call (UP_release x) s = map_option (\<lambda>(p, s'). s'\<lparr>raw := raw s' \<union> set_option p\<rparr>) (up_release x s)"
| "up_move call (UP_reset x p) s = Option.bind (hand_over p s) (up_reset call x p)"
| "up_move call (UP_destroy x) s = up_destroy call x s"

text \<open>The end of \<open>main\<close>: \<open>new int\<close> gives the object \<open>a\<close>, \<open>p\<close> is the variable \<open>x\<close>; the output reads \<open>*p\<close>.\<close>

definition up_main :: "unit deleter_call \<Rightarrow> nat \<Rightarrow> nat \<Rightarrow> unit up \<Rightarrow> unit up option" where
  "up_main call a x s =
     (case run (up_move call) [UP_alloc a, UP_construct x (Some a) ()] s of
        None \<Rightarrow> None
      | Some s1 \<Rightarrow> (case up_deref x s1 of None \<Rightarrow> None | Some obj \<Rightarrow> up_destroy call x s1))"

definition up_init :: "'d up \<Rightarrow> bool" where
  "up_init s \<longleftrightarrow> s = \<lparr>pm = \<lparr>alive = {}, bad = False\<rparr>, vars = (\<lambda>_. None), raw = {}\<rparr>"

subsection \<open>Ownership\<close>

definition owner :: "'d up \<Rightarrow> nat \<Rightarrow> nat option" where
  "owner s x = Option.bind (vars s x) the_ptr"

text \<open>Every object that is alive has exactly one owner: a \<open>unique_ptr\<close> or the rest of the program.\<close>

definition own_ok :: "(nat \<Rightarrow> nat option) \<Rightarrow> nat set \<Rightarrow> nat set \<Rightarrow> bool" where
  "own_ok f R A \<longleftrightarrow> A = R \<union> ran f \<and> R \<inter> ran f = {} \<and> (\<forall>x y. f x = f y \<longrightarrow> f x \<noteq> None \<longrightarrow> x = y)"

lemma ran_set: "f x = None \<Longrightarrow> ran (f(x := p)) = ran f \<union> set_option p"
proof (cases p)
  case None
  assume "f x = None"
  with None have "f(x := p) = f" by (simp add: fun_upd_idem)
  with None show ?thesis by simp
qed simp

lemma ran_drop: "\<forall>x y. f x = f y \<longrightarrow> f x \<noteq> None \<longrightarrow> x = y \<Longrightarrow> ran (f(x := None)) = ran f - set_option (f x)"
  by (auto simp: ran_def split: if_splits)

lemma own_ok_set: "own_ok f R A \<Longrightarrow> f x = None \<Longrightarrow> set_option p \<subseteq> R \<Longrightarrow> own_ok (f(x := p)) (R - set_option p) A"
proof (cases p)
  case (Some a)
  assume ok: "own_ok f R A" and x: "f x = None" and "set_option p \<subseteq> R"
  then have "a \<notin> ran f" using Some by (auto simp: own_ok_def)
  then have no: "f y \<noteq> Some a" for y by (auto simp: ran_def)
  then have no': "Some a \<noteq> f y" for y by metis
  from ok have inj: "\<forall>x y. f x = f y \<longrightarrow> f x \<noteq> None \<longrightarrow> x = y" by (simp add: own_ok_def)
  have "\<forall>y z. (f(x := p)) y = (f(x := p)) z \<longrightarrow> (f(x := p)) y \<noteq> None \<longrightarrow> y = z"
    using inj no no' Some by (simp add: fun_upd_def)
  with ok x Some \<open>set_option p \<subseteq> R\<close> show ?thesis unfolding own_ok_def by (auto simp: ran_set simp del: fun_upd_apply)
qed (simp add: fun_upd_idem)

lemma own_ok_drop: "own_ok f R A \<Longrightarrow> own_ok (f(x := None)) (R \<union> set_option (f x)) A"
  unfolding own_ok_def by (simp add: ran_drop) (auto simp: ran_def)

lemma own_ok_alloc: "own_ok f R A \<Longrightarrow> a \<notin> A \<Longrightarrow> own_ok f (insert a R) (insert a A)"
  unfolding own_ok_def by auto

lemma own_ok_delete: "own_ok f R A \<Longrightarrow> a \<in> R \<Longrightarrow> own_ok f (R - {a}) (A - {a})"
  unfolding own_ok_def by auto

lemma own_ok_move:
  assumes "own_ok f R A" and "f x = None"
  shows "own_ok (f(x := f y, y := None)) R A"
proof (cases "x = y \<or> f y = None")
  case True
  with assms(2) have "f(x := f y, y := None) = f" by (auto simp: fun_eq_iff)
  with assms(1) show ?thesis by simp
next
  case False
  then obtain a where a: "f y = Some a" "x \<noteq> y" by auto
  from own_ok_drop [OF assms(1), of y] a have "own_ok (f(y := None)) (insert a R) A" by simp
  from own_ok_set [OF this, of x "Some a"] a assms(2) have "own_ok (f(y := None, x := Some a)) (R - {a}) A" by simp
  moreover have "a \<notin> R" using assms(1) a by (auto simp: own_ok_def ran_def)
  ultimately show ?thesis using a by (simp add: fun_upd_twist)
qed

definition up_inv :: "'d up \<Rightarrow> bool" where
  "up_inv s \<longleftrightarrow> \<not> bad (pm s) \<and> own_ok (owner s) (raw s) (alive (pm s))"

lemma owner_set_var: "owner (set_var x ob s) = (owner s)(x := the_ptr ob)"
  by (auto simp: owner_def set_var_def)

lemma up_reset_owner:
  assumes "up_reset call x p s = Some s'" and "\<And>ob a m. call ob (Some a) m = default_delete (Some a) m"
  shows "owner s' = (owner s)(x := p)" and "raw s' = raw s"
    and "pm s' = (if owner s x = p then pm s else default_delete (owner s x) (pm s))"
    and "\<exists>ob'. vars s' = (vars s)(x \<mapsto> ob')"
  using assms by (auto simp: up_reset_def owner_def set_var_def Let_def fun_eq_iff default_delete_def fun_upd_idem
      split: option.splits if_splits)

text \<open>What \<open>unique_ptr\<close> needs of the function that \<open>reset\<close> calls: that it deletes the object of its argument.\<close>

locale deleter_contract =
  fixes call :: "'d deleter_call"
  assumes call_deletes: "call ob (Some a) m = default_delete (Some a) m"
begin

lemma reset_owner:
  assumes "up_reset call x p s = Some s'"
  shows "owner s' = (owner s)(x := p)" and "raw s' = raw s"
    and "pm s' = (if owner s x = p then pm s else default_delete (owner s x) (pm s))"
    and "\<exists>ob'. vars s' = (vars s)(x \<mapsto> ob')"
  using up_reset_owner [OF assms call_deletes] by auto

text \<open>A reset to a raw pointer that has been handed over.\<close>

lemma reset_inv:
  assumes bad: "\<not> bad (pm s)" and ok: "own_ok (owner s) (raw s \<union> set_option p) (alive (pm s))" and p: "set_option p \<inter> raw s = {}"
    and step: "up_reset call x p s = Some s'"
  shows "up_inv s'"
proof (cases "owner s x")
  case None
  have "own_ok ((owner s)(x := p)) (raw s \<union> set_option p - set_option p) (alive (pm s))"
    by (rule own_ok_set [OF ok None]) simp
  moreover have "raw s \<union> set_option p - set_option p = raw s" using p by blast
  ultimately show ?thesis using reset_owner [OF step] None bad by (auto simp: up_inv_def default_delete_def)
next
  case (Some a)
  from ok Some have a: "a \<in> alive (pm s)" "a \<notin> raw s \<union> set_option p" unfolding own_ok_def by (auto simp: ran_def)
  then have "owner s x \<noteq> p" using Some by (cases p) auto
  moreover have "own_ok ((owner s)(x := None)) (raw s \<union> set_option p \<union> {a}) (alive (pm s))"
    using own_ok_drop [OF ok, of x] Some by simp
  then have "own_ok ((owner s)(x := None)) (raw s \<union> set_option p \<union> {a} - {a}) (alive (pm s) - {a})"
    by (rule own_ok_delete) simp
  then have "own_ok ((owner s)(x := None)) (raw s \<union> set_option p) (alive (pm s) - {a})" using a(2) by simp
  then have "own_ok ((owner s)(x := None, x := p)) (raw s \<union> set_option p - set_option p) (alive (pm s) - {a})"
    by (rule own_ok_set) auto
  moreover have "raw s \<union> set_option p - set_option p = raw s" using p by blast
  ultimately show ?thesis using reset_owner [OF step] Some a(1) bad by (simp add: up_inv_def default_delete_def)
qed

lemma hand_over_inv:
  assumes "up_inv s" and "hand_over p s = Some s'"
  shows "\<not> bad (pm s')" and "own_ok (owner s') (raw s' \<union> set_option p) (alive (pm s'))" and "set_option p \<inter> raw s' = {}"
proof -
  from assms(2) have s': "s' = s\<lparr>raw := raw s - set_option p\<rparr>" "set_option p \<subseteq> raw s"
    by (auto simp: hand_over_def split: if_splits)
  then have "raw s - set_option p \<union> set_option p = raw s" by blast
  moreover have "owner s' = owner s" using s' by (simp add: owner_def fun_eq_iff)
  ultimately show "\<not> bad (pm s')" "own_ok (owner s') (raw s' \<union> set_option p) (alive (pm s'))" "set_option p \<inter> raw s' = {}"
    using assms(1) s' by (auto simp: up_inv_def)
qed

lemma up_inv_move:
  assumes inv: "up_inv s" and step: "up_move call e s = Some s'"
  shows "up_inv s'"
proof (cases e)
  case (UP_alloc a)
  with step have s': "a \<notin> alive (pm s)" "s' = s\<lparr>pm := (pm s)\<lparr>alive := insert a (alive (pm s))\<rparr>, raw := insert a (raw s)\<rparr>"
    by (auto split: if_splits)
  then have "owner s' = owner s" by (simp add: owner_def fun_eq_iff)
  with inv s' own_ok_alloc [of "owner s"] show ?thesis by (auto simp: up_inv_def)
next
  case (UP_delete a)
  with step have s': "a \<in> raw s" "s' = s\<lparr>pm := default_delete (Some a) (pm s), raw := raw s - {a}\<rparr>"
    by (auto split: if_splits)
  moreover have "a \<in> alive (pm s)" using inv s'(1) by (auto simp: up_inv_def own_ok_def)
  moreover have "owner s' = owner s" using s' by (simp add: owner_def fun_eq_iff)
  ultimately show ?thesis using inv own_ok_delete [of "owner s"] by (auto simp: up_inv_def default_delete_def)
next
  case (UP_construct x p d)
  with step obtain s1 where s1: "hand_over p s = Some s1" "up_new x p d s1 = Some s'" by (auto simp: bind_eq_Some_conv)
  note h = hand_over_inv [OF inv s1(1)]
  from s1(2) have s': "vars s1 x = None" "s' = set_var x \<lparr>the_ptr = p, custom_deleter = d\<rparr> s1"
    by (auto simp: up_new_def split: if_splits)
  then have "own_ok ((owner s1)(x := p)) (raw s1 \<union> set_option p - set_option p) (alive (pm s1))"
    using h(2) by (intro own_ok_set) (auto simp: owner_def)
  moreover have "raw s1 \<union> set_option p - set_option p = raw s1" using h(3) by blast
  moreover have "owner s' = (owner s1)(x := p)" unfolding s'(2) owner_set_var by simp
  ultimately show ?thesis using h(1) s'(2) by (simp add: up_inv_def set_var_def)
next
  case (UP_move_ctor x y)
  with step obtain other where o: "vars s x = None" "vars s y = Some other"
    and s': "s' = set_var y (other\<lparr>the_ptr := None\<rparr>) (set_var x \<lparr>the_ptr = the_ptr other, custom_deleter = custom_deleter other\<rparr> s)"
    by (auto simp: up_move_ctor_def compressed_move_def split: option.splits)
  then have "owner s' = (owner s)(x := owner s y, y := None)" by (simp add: owner_set_var) (simp add: owner_def fun_eq_iff)
  moreover have "own_ok ((owner s)(x := owner s y, y := None)) (raw s) (alive (pm s))"
    using inv o(1) by (intro own_ok_move) (auto simp: up_inv_def owner_def)
  ultimately show ?thesis using inv s' by (simp add: up_inv_def set_var_def)
next
  case (UP_move_assign x y)
  show ?thesis
  proof (cases "x = y")
    case True
    with UP_move_assign step inv show ?thesis by (auto simp: up_move_assign_def split: option.splits)
  next
    case False
    with UP_move_assign step obtain s1 where s1: "up_reset call x None s = Some s1" and
      s': "s' = set_var y ((the (vars s1 y))\<lparr>the_ptr := None\<rparr>) (set_var x ((the (vars s1 x))\<lparr>the_ptr := the_ptr (the (vars s1 y)),
        custom_deleter := custom_deleter (the (vars s1 y))\<rparr>) s1)" and y: "vars s y \<noteq> None"
      by (auto simp: up_move_assign_def compressed_assign_def Let_def split: option.splits)
    have inv1: "up_inv s1" by (rule reset_inv [OF _ _ _ s1]) (use inv in \<open>auto simp: up_inv_def\<close>)
    have "owner s1 x = None" using reset_owner(1) [OF s1] by simp
    moreover obtain other where "vars s1 y = Some other" using reset_owner(4) [OF s1] y False by auto
    then have "owner s' = (owner s1)(x := owner s1 y, y := None)"
      unfolding s' by (simp add: owner_set_var) (simp add: owner_def)
    moreover have "own_ok ((owner s1)(x := owner s1 y, y := None)) (raw s1) (alive (pm s1))"
      using inv1 \<open>owner s1 x = None\<close> by (intro own_ok_move) (auto simp: up_inv_def)
    ultimately show ?thesis using inv1 by (simp add: up_inv_def s' set_var_def)
  qed
next
  case (UP_release x)
  with step obtain ob where ob: "vars s x = Some ob"
    and s': "s' = (set_var x (ob\<lparr>the_ptr := None\<rparr>) s)\<lparr>raw := raw s \<union> set_option (the_ptr ob)\<rparr>"
    by (auto simp: up_release_def set_var_def split: option.splits)
  have "owner s' = (owner s)(x := None)" by (simp add: s' owner_def set_var_def fun_eq_iff)
  moreover have "own_ok ((owner s)(x := None)) (raw s \<union> set_option (owner s x)) (alive (pm s))"
    using inv by (intro own_ok_drop) (simp add: up_inv_def)
  ultimately show ?thesis using inv s' ob by (simp add: up_inv_def set_var_def owner_def)
next
  case (UP_reset x p)
  with step obtain s1 where s1: "hand_over p s = Some s1" "up_reset call x p s1 = Some s'" by (auto simp: bind_eq_Some_conv)
  show ?thesis by (rule reset_inv [OF hand_over_inv [OF inv s1(1)] s1(2)])
next
  case (UP_destroy x)
  with step obtain s1 where s1: "up_reset call x None s = Some s1" "s' = s1\<lparr>vars := (vars s1)(x := None)\<rparr>"
    by (auto simp: up_destroy_def)
  have "up_inv s1" by (rule reset_inv [OF _ _ _ s1(1)]) (use inv in \<open>auto simp: up_inv_def\<close>)
  moreover have "owner s' = owner s1" using reset_owner(1) [OF s1(1)] s1(2) by (auto simp: owner_def fun_eq_iff)
  ultimately show ?thesis using s1(2) by (simp add: up_inv_def)
qed

lemma up_invariant: "invariant_system up_init (up_move call) up_inv"
proof
  show "up_inv s" if "up_init s" for s using that by (auto simp: up_init_def up_inv_def own_ok_def owner_def ran_def)
qed (rule up_inv_move)

end

text \<open>The member \<open>call_deleter\<close> for stored deleters fulfils the contract if the deleter deletes, as \<open>func\<close> of the file does.\<close>

interpretation stored: deleter_contract "stored_call_deleter (\<lambda>d. default_delete)"
  by unfold_locales (simp add: stored_call_deleter_def)

subsection \<open>Properties\<close>

text \<open>Ownership is exclusive for stored deleters that delete, with the member \<open>call_deleter\<close> of \<open>obj_\<close> in place of the
  undeclared name: in every program nothing is deleted twice, the objects that are alive are exactly those a \<open>unique_ptr\<close>
  holds and those the program has a raw pointer to, and no two \<open>unique_ptr\<close>s hold the same object. So no object is lost,
  whatever the order of the operations, and \<open>*x\<close> never reads a dangling pointer.\<close>

theorem stored_deleter_exclusive:
  assumes "reach up_init (up_move (stored_call_deleter (\<lambda>d. default_delete))) s"
  shows "\<not> bad (pm s) \<and> alive (pm s) = raw s \<union> ran (owner s) \<and> raw s \<inter> ran (owner s) = {}
     \<and> inj_on (owner s) (dom (owner s)) \<and> up_deref y s = owner s y"
proof -
  have inv: "up_inv s" by (rule invariant_system.reach_inv [OF stored.up_invariant assms])
  then have "b \<in> alive (pm s)" if "owner s y = Some b" for b using that by (auto simp: up_inv_def own_ok_def ran_def)
  then have "up_deref y s = owner s y"
    by (cases "vars s y"; cases "the_ptr (the (vars s y))") (auto simp: up_deref_def owner_def)
  with inv show ?thesis by (auto simp: up_inv_def own_ok_def inj_on_def)
qed

text \<open>The deleters are function pointers, here all the number 1.\<close>

theorem stored_deleter_exclusive_witness:
  "\<exists>s :: nat up. reach up_init (up_move (stored_call_deleter (\<lambda>d. default_delete))) s \<and> owner s = (\<lambda>_. None)(1 := Some 8)
     \<and> alive (pm s) = {7, 8} \<and> up_deref 1 s = Some 8"
proof -
  let ?call = "stored_call_deleter (\<lambda>d :: nat. default_delete)"
  have "\<exists>s :: nat up. reach up_init (up_move ?call) s \<and> (owner s = (\<lambda>_. None)(1 := Some 8) \<and> raw s = {7})"
    by (rule reach_witness [where s = "\<lparr>pm = \<lparr>alive = {}, bad = False\<rparr>, vars = (\<lambda>_. None), raw = {}\<rparr>" and
          es = "[UP_alloc 6, UP_alloc 7, UP_construct 0 (Some 6) 1, UP_construct 1 (Some 7) 1, UP_release 1, UP_move_assign 1 0,
            UP_alloc 8, UP_reset 1 (Some 8), UP_destroy 0]"], simp add: up_init_def,
        auto simp: hand_over_def up_new_def set_var_def up_release_def up_move_assign_def up_reset_def Let_def
          compressed_assign_def up_destroy_def stored_call_deleter_def default_delete_def owner_def fun_eq_iff)
  then obtain s :: "nat up" where s: "reach up_init (up_move ?call) s" "owner s = (\<lambda>_. None)(1 := Some 8)" "raw s = {7}" by blast
  from stored_deleter_exclusive [OF s(1)] s show ?thesis by (intro exI [of _ s]) (auto simp: ran_def)
qed

text \<open>The default deleter is an empty class. With the member \<open>call_deleter\<close> of the empty deleters, which passes \<open>ptr_\<close> on instead
  of its argument, \<open>reset(p)\<close> deletes the new object \<open>p\<close> and not the old one, and \<open>reset()\<close> and the
  destructor delete nothing.\<close>

theorem empty_deleter_resets_wrong:
  assumes "vars s x = Some ob" and "the_ptr ob = Some a" and "a \<in> alive (pm s)" and "b \<in> alive (pm s)" and "a \<noteq> b"
  shows "map_option (\<lambda>s'. (alive (pm s'), owner s' x)) (up_reset (empty_call_deleter (\<lambda>d. default_delete)) x (Some b) s)
       = Some (alive (pm s) - {b}, Some b)
     \<and> map_option (\<lambda>s'. alive (pm s')) (up_destroy (empty_call_deleter (\<lambda>d. default_delete)) x s) = Some (alive (pm s))"
  using assms by (simp_all add: up_reset_def up_destroy_def Let_def set_var_def empty_call_deleter_def default_delete_def owner_def)

theorem empty_deleter_resets_wrong_witness:
  "map_option (\<lambda>s'. (alive (pm s'), owner s' 0)) (up_reset (empty_call_deleter (\<lambda>d. default_delete)) 0 (Some 8)
     \<lparr>pm = \<lparr>alive = {7, 8}, bad = False\<rparr>, vars = (\<lambda>_. None)(0 \<mapsto> \<lparr>the_ptr = Some 7, custom_deleter = ()\<rparr>), raw = {8}\<rparr>)
     = Some ({7}, Some 8)"
  by (subst conjunct1 [OF empty_deleter_resets_wrong [of _ 0 "\<lparr>the_ptr = Some 7, custom_deleter = ()\<rparr>" 7]]) auto

subsection \<open>The whole of \<open>main\<close>\<close>

text \<open>
  The first part works with \<open>std::unique_ptr\<close>, whose operations are those above with a \<open>reset\<close> that deletes the old object:
  \<open>make_unique\<close> gives the object \<open>obj\<close> to \<open>a\<close>; \<open>*a\<close> and the raw pointer are read; \<open>t\<close> is moved from \<open>a\<close>, read and reset.
  The second part is the one with \<open>prat::unique_ptr\<close>; then \<open>t\<close> and \<open>a\<close> are destroyed.
\<close>

definition std_call :: "unit deleter_call" where
  "std_call ob p m = default_delete p m"

definition std_part :: "nat \<Rightarrow> nat \<Rightarrow> nat \<Rightarrow> unit up \<Rightarrow> unit up option" where
  "std_part obj a t s =
     (case run (up_move std_call) [UP_alloc obj, UP_construct a (Some obj) ()] s of
        None \<Rightarrow> None
      | Some s1 \<Rightarrow>
          (case (up_deref a s1, up_get a s1) of
             (Some v, Some (Some ptr)) \<Rightarrow>
               (if ptr \<notin> alive (pm s1) then None
                else case up_move_ctor t a s1 of
                       None \<Rightarrow> None
                     | Some s2 \<Rightarrow> (case up_deref t s2 of None \<Rightarrow> None | Some v \<Rightarrow> up_reset std_call t None s2))
           | _ \<Rightarrow> None))"

definition unique_main :: "unit deleter_call \<Rightarrow> nat \<Rightarrow> nat \<Rightarrow> nat \<Rightarrow> nat \<Rightarrow> nat \<Rightarrow> unit up \<Rightarrow> unit up option" where
  "unique_main call obj1 obj2 a t p s =
     Option.bind (std_part obj1 a t s) (\<lambda>s1. Option.bind (up_main call obj2 p s1) (\<lambda>s2. run (up_move std_call) [UP_destroy t, UP_destroy a] s2))"

lemma std_part_result:
  assumes "obj \<notin> alive (pm s)" and "obj \<notin> raw s" and "vars s a = None" and "vars s t = None" and "a \<noteq> t"
  shows "std_part obj a t s = Some (s\<lparr>vars := (vars s)(a \<mapsto> \<lparr>the_ptr = None, custom_deleter = ()\<rparr>, t \<mapsto> \<lparr>the_ptr = None, custom_deleter = ()\<rparr>)\<rparr>)"
  using assms by (simp add: std_part_def hand_over_def up_new_def set_var_def up_deref_def up_get_def up_move_ctor_def compressed_move_def
      up_reset_def Let_def std_call_def stored_call_deleter_def default_delete_def fun_upd_twist)

text \<open>\<open>main\<close>, with the member of \<open>obj_\<close> that the default deleter has: every read is of a live object and the object of the
  first part is deleted once, but the \<open>int\<close> of the last lines is never deleted.\<close>

theorem unique_main_leaks:
  assumes "{obj1, obj2} \<inter> (alive (pm s) \<union> raw s) = {}" and "vars s a = None" and "vars s t = None" and "vars s p = None"
    and "distinct [a, t, p]"
  shows "unique_main (empty_call_deleter (\<lambda>d. default_delete)) obj1 obj2 a t p s
    = Some (s\<lparr>pm := (pm s)\<lparr>alive := insert obj2 (alive (pm s))\<rparr>\<rparr>)"
proof -
  let ?e = "\<lparr>the_ptr = None, custom_deleter = ()\<rparr> :: unit compressed_obj" and ?m = "(pm s)\<lparr>alive := insert obj2 (alive (pm s))\<rparr>"
  let ?s = "s\<lparr>vars := (vars s)(a \<mapsto> ?e, t \<mapsto> ?e)\<rparr>"
  have "std_part obj1 a t s = Some ?s" using assms by (intro std_part_result) auto
  moreover have "up_main (empty_call_deleter (\<lambda>d. default_delete)) obj2 p ?s = Some (?s\<lparr>pm := ?m\<rparr>)"
    using assms(1,4,5) by (simp add: up_main_def hand_over_def up_new_def set_var_def up_deref_def up_destroy_def up_reset_def Let_def
        empty_call_deleter_def default_delete_def fun_upd_idem)
  moreover have "run (up_move std_call) [UP_destroy t, UP_destroy a] (?s\<lparr>pm := ?m\<rparr>) = Some (s\<lparr>pm := ?m\<rparr>)"
    using assms(2,3,5) by (simp add: up_destroy_def up_reset_def Let_def fun_upd_idem fun_upd_twist)
  ultimately show ?thesis by (simp add: unique_main_def)
qed

theorem unique_main_leaks_witness:
  "map_option (\<lambda>s'. alive (pm s')) (unique_main (empty_call_deleter (\<lambda>d. default_delete)) 5 6 0 1 2
     \<lparr>pm = \<lparr>alive = {}, bad = False\<rparr>, vars = (\<lambda>_. None), raw = {}\<rparr>) = Some {6}"
  by (subst unique_main_leaks) simp_all

end
