(* ===== verification/Arena.thy ===== *)
theory Arena
  imports DS_Prelude
begin

text \<open>
  \<open>c++_features_experiment/arena_allocator.cpp\<close>: \<open>mempool\<close>, which hands out aligned parts of one block
  and never takes one back. Addresses are natural numbers; the arithmetic of \<open>std::align\<close> on a block
  that exists does not overflow.
\<close>

subsection \<open>State\<close>

text \<open>
  The three fields; \<open>given\<close> are the parts handed out so far with their sizes, \<open>objects\<close> the addresses of
  the objects that are alive: what the code does to them is construction and destruction.
\<close>

record arena =
  pool :: nat
  left :: nat
  arena_base :: nat
  given :: "(nat \<times> nat) list"
  objects :: "nat set"

text \<open>The block of \<open>operator new\<close> with alignment 64.\<close>

definition arena_new :: "nat \<Rightarrow> nat \<Rightarrow> arena option" where
  "arena_new max_bytes p =
     (if 64 dvd p then Some \<lparr>pool = p, left = max_bytes, arena_base = p, given = [], objects = {}\<rparr> else None)"

definition get_alignment :: "nat \<Rightarrow> nat" where
  "get_alignment al = max 64 al"

text \<open>\<open>std::align\<close> of the standard: the aligned pointer and the space that is left from there.\<close>

definition std_align :: "nat \<Rightarrow> nat \<Rightarrow> nat \<Rightarrow> nat \<Rightarrow> (nat \<times> nat) option" where
  "std_align alignment bytes ptr space =
     (let padding = (alignment - ptr mod alignment) mod alignment in
      if padding + bytes \<le> space then Some (ptr + padding, space - padding) else None)"

datatype arena_result = Arena_bad_alloc | Arena_ctor_throws | Arena_ptr nat

text \<open>
  \<open>malloc<req_type>(args...)\<close> for a type of alignment \<open>al\<close> and size \<open>sz\<close>; \<open>constructs\<close> is false if the
  constructor throws. \<open>left_\<close> is changed by \<open>std::align\<close>, before the object is constructed, \<open>pool_\<close> after.
\<close>

definition malloc :: "nat \<Rightarrow> nat \<Rightarrow> bool \<Rightarrow> arena \<Rightarrow> arena_result \<times> arena" where
  "malloc al sz constructs s =
     (case std_align (get_alignment al) sz (pool s) (left s) of
        None \<Rightarrow> (Arena_bad_alloc, s)
      | Some (ptr, left1) \<Rightarrow>
          (let s1 = s\<lparr>left := left1\<rparr> in
           if \<not> constructs then (Arena_ctor_throws, s1)
           else (Arena_ptr ptr,
                 s1\<lparr>objects := insert ptr (objects s1), pool := ptr + sz, left := left s1 - sz, given := given s1 @ [(ptr, sz)]\<rparr>)))"

text \<open>The overload without arguments has the same text, with another initialiser.\<close>

definition malloc_default :: "nat \<Rightarrow> nat \<Rightarrow> bool \<Rightarrow> arena \<Rightarrow> arena_result \<times> arena" where
  "malloc_default = malloc"

text \<open>\<open>free\<close> only runs the destructor; it is undefined if there is no object.\<close>

definition arena_free :: "nat \<Rightarrow> arena \<Rightarrow> arena option" where
  "arena_free p s = (if p \<in> objects s then Some (s\<lparr>objects := objects s - {p}\<rparr>) else None)"

datatype arena_event = Malloc nat nat bool | Malloc_default nat nat bool | Free_object nat

text \<open>The alignment of a type is a power of two, its size is positive.\<close>

fun arena_move :: "arena_event \<Rightarrow> arena \<Rightarrow> arena option" where
  "arena_move (Malloc k sz constructs) s = (if 0 < sz then Some (snd (malloc (2 ^ k) sz constructs s)) else None)"
| "arena_move (Malloc_default k sz constructs) s =
     (if 0 < sz then Some (snd (malloc_default (2 ^ k) sz constructs s)) else None)"
| "arena_move (Free_object p) s = arena_free p s"

definition arena_init :: "nat \<Rightarrow> nat \<Rightarrow> arena \<Rightarrow> bool" where
  "arena_init max_bytes p s \<longleftrightarrow> arena_new max_bytes p = Some s"

subsection \<open>The invariant\<close>

lemma std_align_Some:
  assumes "std_align A bytes ptr space = Some (q, rest)" and "0 < A"
  shows "A dvd q" and "ptr \<le> q" and "q + rest = ptr + space" and "bytes \<le> rest" and "q < ptr + A"
proof -
  let ?p = "(A - ptr mod A) mod A"
  from assms(1) have q: "q = ptr + ?p" "?p + bytes \<le> space" "rest = space - ?p"
    by (auto simp: std_align_def Let_def split: if_splits)
  have "(ptr + ?p) mod A = (ptr mod A + (A - ptr mod A)) mod A" by (simp only: mod_add_left_eq mod_add_right_eq)
  also have "\<dots> = 0" using mod_less_divisor [OF assms(2), of ptr] by simp
  finally show "A dvd q" unfolding q(1) dvd_eq_mod_eq_0 .
  have "?p < A" using assms(2) by simp
  then show "ptr \<le> q" "q + rest = ptr + space" "bytes \<le> rest" "q < ptr + A" using q by linarith+
qed

lemma alignment_64: "64 dvd get_alignment (2 ^ k)"
proof (cases "6 \<le> k")
  case True
  then have "(2::nat) ^ 6 dvd 2 ^ k" by (rule le_imp_power_dvd)
  then show ?thesis by (simp add: get_alignment_def max_def)
next
  case False
  then have "(2::nat) ^ k \<le> 2 ^ 6" by (intro power_increasing) auto
  then show ?thesis by (simp add: get_alignment_def max_def)
qed

text \<open>Parts in the order they were handed out.\<close>

definition arena_ok :: "nat \<Rightarrow> arena \<Rightarrow> bool" where
  "arena_ok max_bytes s \<longleftrightarrow> 64 dvd arena_base s \<and> arena_base s \<le> pool s \<and> pool s + left s \<le> arena_base s + max_bytes
     \<and> (\<forall>(p, n) \<in> set (given s). 64 dvd p \<and> arena_base s \<le> p \<and> p + n \<le> pool s)
     \<and> sorted_wrt (\<lambda>(p, n) (q, m). p + n \<le> q) (given s) \<and> objects s \<subseteq> fst ` set (given s)
     \<and> 64 * length (given s) \<le> pool s - arena_base s + 63"

lemma malloc_ok:
  assumes ok: "arena_ok max_bytes s" and "0 < sz" and res: "malloc (2 ^ k) sz constructs s = (r, s')"
  shows "arena_ok max_bytes s'"
proof (cases "std_align (get_alignment (2 ^ k)) sz (pool s) (left s)")
  case None
  with res ok show ?thesis by (simp add: malloc_def)
next
  case (Some z)
  obtain p l where z: "z = (p, l)" by (cases z)
  have "0 < get_alignment (2 ^ k)" by (simp add: get_alignment_def)
  note a = std_align_Some [OF Some [unfolded z] this]
  have p: "64 dvd p" using alignment_64 a(1) by (rule dvd_trans)
  show ?thesis
  proof (cases constructs)
    case False
    with res Some z have "s' = s\<lparr>left := l\<rparr>" by (simp add: malloc_def)
    with ok a show ?thesis by (auto simp: arena_ok_def)
  next
    case True
    with res Some z have s': "s' = s\<lparr>objects := insert p (objects s), pool := p + sz, left := l - sz, given := given s @ [(p, sz)]\<rparr>"
      by (simp add: malloc_def)
    from ok have base: "64 dvd arena_base s" "arena_base s \<le> pool s"
      and len: "64 * length (given s) \<le> pool s - arena_base s + 63" by (auto simp: arena_ok_def)
    obtain i j where ij: "p = 64 * i" "arena_base s = 64 * j" using p base(1) by (auto elim!: dvdE)
    have "length (given s) \<le> i - j" using len a(2) base(2) unfolding ij by linarith
    then have "64 * length (given s @ [(p, sz)]) \<le> p + sz - arena_base s + 63"
      using assms(2) a(2) base(2) unfolding ij by (simp add: algebra_simps)
    moreover have "sorted_wrt (\<lambda>(p, n) (q, m). p + n \<le> q) (given s @ [(p, sz)])"
      using ok a(2) by (fastforce simp: arena_ok_def sorted_wrt_append)
    moreover have "\<forall>(q, n) \<in> set (given s @ [(p, sz)]). 64 dvd q \<and> arena_base s \<le> q \<and> q + n \<le> p + sz"
      using ok a(2) p by (fastforce simp: arena_ok_def)
    moreover have "p + sz + (l - sz) \<le> arena_base s + max_bytes" using ok a(3,4) by (auto simp: arena_ok_def)
    ultimately show ?thesis using ok a(2) unfolding s' by (auto simp: arena_ok_def)
  qed
qed

lemma arena_move_ok: "arena_ok max_bytes s \<Longrightarrow> arena_move e s = Some s' \<Longrightarrow> arena_ok max_bytes s'"
proof (cases e)
  case (Malloc k sz constructs)
  then show "arena_ok max_bytes s \<Longrightarrow> arena_move e s = Some s' \<Longrightarrow> arena_ok max_bytes s'"
    using malloc_ok by (cases "malloc (2 ^ k) sz constructs s") (auto split: if_splits)
next
  case (Malloc_default k sz constructs)
  then show "arena_ok max_bytes s \<Longrightarrow> arena_move e s = Some s' \<Longrightarrow> arena_ok max_bytes s'"
    using malloc_ok by (cases "malloc (2 ^ k) sz constructs s") (auto simp: malloc_default_def split: if_splits)
next
  case (Free_object p)
  then show "arena_ok max_bytes s \<Longrightarrow> arena_move e s = Some s' \<Longrightarrow> arena_ok max_bytes s'"
    by (auto simp: arena_free_def arena_ok_def split: if_splits)
qed

interpretation mempool: invariant_system "arena_init max_bytes p" arena_move "arena_ok max_bytes" for max_bytes p
proof
  show "arena_ok max_bytes s" if "arena_init max_bytes p s" for s
    using that by (auto simp: arena_init_def arena_new_def arena_ok_def split: if_splits)
qed (rule arena_move_ok)

subsection \<open>Properties\<close>

text \<open>C34. The parts \<open>mempool\<close> hands out lie in its block, one behind the other without overlap and aligned
  to 64, every object is in one of them, and there are at most \<open>(max_bytes + 63) / 64\<close> of them: \<open>free\<close>
  never makes room, however the calls are ordered and whichever constructors throw.\<close>

theorem arena_parts_disjoint:
  assumes "reach (arena_init max_bytes p) arena_move s"
  shows "sorted_wrt (\<lambda>(q, m) (q', m'). q + m \<le> q') (given s)
     \<and> (\<forall>(q, m) \<in> set (given s). 64 dvd q \<and> arena_base s \<le> q \<and> q + m \<le> arena_base s + max_bytes)
     \<and> objects s \<subseteq> fst ` set (given s) \<and> 64 * length (given s) \<le> max_bytes + 63"
  using mempool.reach_inv [OF assms] unfolding arena_ok_def by fastforce

theorem arena_parts_disjoint_witness:
  "\<exists>s. reach (arena_init 200 128) arena_move s \<and> given s = [(128, 4), (192, 72)] \<and> objects s = {192}
     \<and> 64 * length (given s) \<le> 200 + 63"
proof -
  have "\<exists>s. reach (arena_init 200 128) arena_move s \<and> (given s = [(128, 4), (192, 72)] \<and> objects s = {192})"
    by (rule reach_witness [where s = "\<lparr>pool = 128, left = 200, arena_base = 128, given = [], objects = {}\<rparr>" and
          es = "[Malloc 2 4 True, Malloc_default 3 72 True, Free_object 128, Malloc 0 9 True]"],
        simp add: arena_init_def arena_new_def,
        auto simp: malloc_def malloc_default_def std_align_def get_alignment_def Let_def arena_free_def)
  then obtain s where s: "reach (arena_init 200 128) arena_move s" "given s = [(128, 4), (192, 72)]" "objects s = {192}" by blast
  from arena_parts_disjoint [OF s(1)] s show ?thesis by blast
qed

text \<open>What \<open>malloc\<close> does on every branch: it throws \<open>bad_alloc\<close> and changes nothing exactly if the next
  aligned part does not fit into what is left; it returns the next address with the alignment of the type
  and at least 64; and if the constructor throws, \<open>pool_\<close> stays but \<open>left_\<close> has lost the padding.\<close>

theorem arena_malloc_cases:
  "\<exists>pad. pad < get_alignment (2 ^ k) \<and> get_alignment (2 ^ k) dvd pool s + pad \<and>
     malloc (2 ^ k) sz constructs s =
       (if left s < pad + sz then (Arena_bad_alloc, s)
        else if \<not> constructs then (Arena_ctor_throws, s\<lparr>left := left s - pad\<rparr>)
        else (Arena_ptr (pool s + pad),
              s\<lparr>objects := insert (pool s + pad) (objects s), pool := pool s + pad + sz, left := left s - pad - sz,
                given := given s @ [(pool s + pad, sz)]\<rparr>))"
proof -
  let ?A = "get_alignment (2 ^ k)"
  let ?p = "(?A - pool s mod ?A) mod ?A"
  have A: "0 < ?A" by (simp add: get_alignment_def)
  have "std_align ?A 0 (pool s) ?p = Some (pool s + ?p, 0)" by (simp add: std_align_def)
  from std_align_Some(1) [OF this A] have "?A dvd pool s + ?p" .
  moreover have "?p < ?A" using A by simp
  ultimately show ?thesis
    by (intro exI [of _ ?p]) (auto simp: malloc_def std_align_def Let_def)
qed

text \<open>Constructors that throw use up the pool: after one object of one byte in a pool of 200 bytes and
  three constructions that throw, one more byte is refused, although 199 bytes are unused.\<close>

theorem arena_throwing_constructors:
  "\<exists>s. reach (arena_init 200 128) arena_move s \<and> given s = [(128, 1)] \<and> fst (malloc 1 1 True s) = Arena_bad_alloc"
  by (rule reach_witness [where s = "\<lparr>pool = 128, left = 200, arena_base = 128, given = [], objects = {}\<rparr>" and
        es = "[Malloc 0 1 True, Malloc 0 1 False, Malloc 0 1 False, Malloc 0 1 False]"],
      simp add: arena_init_def arena_new_def,
      simp add: malloc_def malloc_default_def std_align_def get_alignment_def Let_def)

end
