(* ===== verification/Experiments.thy ===== *)
theory Experiments
  imports DS_Prelude
begin

text \<open>
  Small files: \<open>find\<close> of \<open>dsa_from_scratch/stl_algorithms/single_pass.cpp\<close> with the tags of
  \<open>iterators.hpp\<close>, the guard of \<open>c++_features_experiment/jthread_impl.cpp\<close>, and
  \<open>c++_features_experiment/big_endian_check.cpp\<close>.
\<close>

subsection \<open>\<open>find\<close>\<close>

text \<open>The iterators are positions in a sequence; reading at its end or behind it is undefined, \<open>None\<close>.\<close>

function find_impl :: "'v list \<Rightarrow> nat \<Rightarrow> nat \<Rightarrow> 'v \<Rightarrow> nat option" where
  "find_impl xs b e v =
     (if b \<noteq> e
      then (if b < length xs then (if v = xs ! b then Some b else find_impl xs (b + 1) e v) else None)
      else Some e)"
  by pat_completeness auto
termination by (relation "measure (\<lambda>(xs, b, e, v). length xs - b)") auto

declare find_impl.simps [simp del]

definition find_value :: "'v list \<Rightarrow> nat \<Rightarrow> nat \<Rightarrow> 'v \<Rightarrow> nat option" where
  "find_value xs b e v = find_impl xs b e v"

text \<open>The tags and the class each is derived from; a function for a tag accepts every tag derived from it.\<close>

datatype iterator_tag =
  input_iterator_tag | output_iterator_tag | forward_iterator_tag | bidirectional_iterator_tag | random_access_iterator_tag

fun base_tag :: "iterator_tag \<Rightarrow> iterator_tag option" where
  "base_tag input_iterator_tag = None"
| "base_tag output_iterator_tag = Some input_iterator_tag"
| "base_tag forward_iterator_tag = Some output_iterator_tag"
| "base_tag bidirectional_iterator_tag = Some forward_iterator_tag"
| "base_tag random_access_iterator_tag = Some bidirectional_iterator_tag"

inductive binds_to :: "iterator_tag \<Rightarrow> iterator_tag \<Rightarrow> bool" where
  binds_refl: "binds_to t t"
| binds_step: "base_tag t = Some u \<Longrightarrow> binds_to u v \<Longrightarrow> binds_to t v"

text \<open>Every tag of the file binds to the input tag, the output tag too.\<close>

lemma every_tag_is_input: "binds_to t input_iterator_tag"
proof -
  have "binds_to output_iterator_tag input_iterator_tag" by (rule binds_step [OF _ binds_refl]) simp
  then have "binds_to forward_iterator_tag input_iterator_tag" by (rule binds_step [rotated]) simp
  then have "binds_to bidirectional_iterator_tag input_iterator_tag" by (rule binds_step [rotated]) simp
  then have "binds_to random_access_iterator_tag input_iterator_tag" by (rule binds_step [rotated]) simp
  with \<open>binds_to output_iterator_tag input_iterator_tag\<close> \<open>binds_to forward_iterator_tag input_iterator_tag\<close>
    \<open>binds_to bidirectional_iterator_tag input_iterator_tag\<close> binds_refl show ?thesis by (cases t) auto
qed

subsection \<open>\<open>jthreads\<close>\<close>

text \<open>
  A \<open>std::thread\<close> owns a running thread or none; destroying one that owns a thread ends the program. The
  state of the guard's thread is the thread it owns, \<open>running\<close> are the threads that have not finished.
\<close>

record jworld =
  guarded_thread :: "tid option"
  running :: "tid set"
  terminated :: bool

definition joinable :: "jworld \<Rightarrow> bool" where
  "joinable s \<longleftrightarrow> guarded_thread s \<noteq> None"

text \<open>The constructor; \<open>None\<close> when it throws, and then the member is destroyed.\<close>

definition destroy_thread :: "jworld \<Rightarrow> jworld" where
  "destroy_thread s = (if joinable s then s\<lparr>terminated := True\<rparr> else s)"

definition jthreads_new :: "tid option \<Rightarrow> jworld \<Rightarrow> bool \<times> jworld" where
  "jthreads_new t s =
     (let s1 = s\<lparr>guarded_thread := t\<rparr> in if \<not> joinable s1 then (False, destroy_thread s1) else (True, s1))"

text \<open>\<open>join\<close> returns when the thread has finished.\<close>

definition join_thread :: "jworld \<Rightarrow> jworld option" where
  "join_thread s =
     (case guarded_thread s of
        None \<Rightarrow> None
      | Some t \<Rightarrow> if t \<in> running s then None else Some (s\<lparr>guarded_thread := None\<rparr>))"

definition jthreads_destroy :: "jworld \<Rightarrow> jworld option" where
  "jthreads_destroy s = map_option destroy_thread (if joinable s then join_thread s else Some s)"

subsection \<open>\<open>big_endian\<close>\<close>

text \<open>The bytes of a 32-bit integer in memory, in the two orders a machine can have.\<close>

datatype byte_order = Little | Big

definition object_bytes :: "byte_order \<Rightarrow> u32 \<Rightarrow> u8 list" where
  "object_bytes ord w =
     (let bs = map (\<lambda>i. ucast (drop_bit (8 * i) w)) [0, 1, 2, 3] in case ord of Little \<Rightarrow> bs | Big \<Rightarrow> rev bs)"

definition big_endian :: "byte_order \<Rightarrow> bool" where
  "big_endian ord \<longleftrightarrow> object_bytes ord 0x01020304 ! 0 = 1"

subsection \<open>Properties\<close>

text \<open>C35. \<open>find\<close> is the search of the first equal element: on the range from \<open>b\<close> to \<open>e\<close> it reads only
  elements of the range and gives the position of the first one that is equal to the value, or \<open>e\<close>.\<close>

theorem find_first_equal:
  assumes "b \<le> e" and "e \<le> length xs"
  shows "find_value xs b e v = Some (b + length (takeWhile (\<lambda>x. x \<noteq> v) (take (e - b) (drop b xs))))"
proof -
  from assms have "find_impl xs b e v = Some (b + length (takeWhile (\<lambda>x. x \<noteq> v) (take (e - b) (drop b xs))))"
  proof (induction xs b e v rule: find_impl.induct)
    case (1 xs b e v)
    show ?case
    proof (cases "b = e")
      case True
      then show ?thesis by (subst find_impl.simps) simp
    next
      case False
      with 1(2,3) have less: "b < length xs" "b < e" by auto
      then have split: "take (e - b) (drop b xs) = xs ! b # take (e - (b + 1)) (drop (b + 1) xs)"
        by (simp add: Cons_nth_drop_Suc [symmetric] take_Cons')
      show ?thesis
      proof (cases "v = xs ! b")
        case True
        with False less show ?thesis unfolding split by (subst find_impl.simps) simp
      next
        case neq: False
        from 1(1) [OF False less(1) neq] 1(3) less(2) neq show ?thesis
          unfolding split by (subst find_impl.simps) (use False less(1) in simp)
      qed
    qed
  qed
  then show ?thesis by (simp add: find_value_def)
qed

theorem find_first_equal_witness: "find_value [3, 8, 8, 5 :: int] 0 4 8 = Some 1"
  by (simp add: find_first_equal)

text \<open>The guard never ends the program, and its destructor returns only when the thread has finished.\<close>

theorem jthreads_joins:
  assumes "\<not> terminated s"
  shows "(\<forall>t s'. jthreads_new t s = (False, s') \<longrightarrow> \<not> terminated s')
     \<and> (\<forall>s'. jthreads_destroy s = Some s' \<longrightarrow> \<not> terminated s' \<and> guarded_thread s' = None
          \<and> (\<forall>t. guarded_thread s = Some t \<longrightarrow> t \<notin> running s))"
  using assms by (auto simp: jthreads_new_def jthreads_destroy_def destroy_thread_def join_thread_def joinable_def Let_def
      split: if_splits option.splits)

text \<open>The test is right on both kinds of machine.\<close>

theorem big_endian_correct: "big_endian ord \<longleftrightarrow> ord = Big"
proof -
  have "drop_bit 24 (0x01020304 :: u32) = 1" by (simp add: drop_bit_eq_div) 
  then show ?thesis by (cases ord) (simp_all add: big_endian_def object_bytes_def)
qed

end
