(* ===== verification/Small_Programs.thy ===== *)
theory Small_Programs
  imports Experiments Arena Search_Sort
begin

text \<open>
  Functions \<open>main\<close> that use what the other theories model: of \<open>dsa_from_scratch/stl_algorithms/single_pass.cpp\<close>,
  \<open>c++_features_experiment/template_metaprogramming.cpp\<close>, \<open>c++_features_experiment/arena_allocator.cpp\<close> and
  \<open>c++_features_experiment/jthread_impl.cpp\<close>, and the one of \<open>tmp.cpp\<close> with its classes. \<open>None\<close> is undefined behaviour.
\<close>

subsection \<open>Sequential programs\<close>

text \<open>\<open>single_pass.cpp\<close>: the number printed.\<close>

definition find_main :: "nat option" where
  "find_main = map_option (\<lambda>i. i - 0) (find_value (map int [0..<10]) 0 10 8)"

text \<open>\<open>template_metaprogramming.cpp\<close>: the array after the sort.\<close>

definition template_main :: "int list option" where
  "template_main = inbubsort 5 0 [4, 5, 1, 3, 2]"

text \<open>
  \<open>arena_allocator.cpp\<close>: \<open>read_x\<close> reads the member of the \<open>mytype\<close> at \<open>p\<close>, whose value is \<open>x\<close>. The result is
  what the program prints for the two reads; it throws, \<open>Some []\<close>, if the pool has no room.
\<close>

definition read_x :: "nat \<Rightarrow> int \<Rightarrow> arena \<Rightarrow> int option" where
  "read_x p x s = (if p \<in> objects s then Some x else None)"

definition arena_main :: "nat \<Rightarrow> int list option" where
  "arena_main p =
     (case arena_new 10000 p of
        None \<Rightarrow> None
      | Some s \<Rightarrow>
          (case malloc 4 4 True s of
             (Arena_ptr q, s1) \<Rightarrow>
               (case read_x q 2 s1 of
                  None \<Rightarrow> None
                | Some y \<Rightarrow>
                    (case arena_free q s1 of
                       None \<Rightarrow> None
                     | Some s2 \<Rightarrow> (case read_x q 1 s2 of None \<Rightarrow> None | Some z \<Rightarrow> Some [y, z])))
           | (e, s1) \<Rightarrow> Some []))"

subsection \<open>\<open>tmp.cpp\<close>\<close>

text \<open>The classes, and an object with its dynamic type; a call of \<open>f\<close> selects by it.\<close>

datatype tmp_class = Class_base | Class_derived | Class_other

fun derives_from :: "tmp_class \<Rightarrow> tmp_class \<Rightarrow> bool" where
  "derives_from c Class_base = True"
| "derives_from c d = (c = d)"

fun call_f :: "tmp_class \<Rightarrow> string" where
  "call_f Class_base = ''Base''"
| "call_f Class_derived = ''Derived''"
| "call_f Class_other = ''other''"

text \<open>A \<open>static_cast\<close> of a reference: it is undefined if the object is not of the class.\<close>

definition cast_ref :: "tmp_class \<Rightarrow> tmp_class \<Rightarrow> tmp_class option" where
  "cast_ref target object = (if derives_from object target then Some object else None)"

text \<open>The array of an \<open>obj\<close>: moving it copies the elements.\<close>

fun fill_array :: "nat \<Rightarrow> nat \<Rightarrow> int list \<Rightarrow> int list" where
  "fill_array i 0 xs = xs"
| "fill_array i (Suc k) xs = fill_array (Suc i) k (xs[i := int i])"

definition move_obj :: "int list \<times> int list \<Rightarrow> int list \<times> int list" where
  "move_obj = (\<lambda>(t, x). (x, x))"

text \<open>What is printed before the second cast, and \<open>t\<close>; then the cast and the call through it.\<close>

definition tmp_main_begin :: "int list \<Rightarrow> int list \<Rightarrow> int list \<times> string list \<times> int list" where
  "tmp_main_begin t0 x0 =
     (case move_obj (t0, fill_array 0 10 x0) of
        (t, x) \<Rightarrow> (x, (case cast_ref Class_base Class_derived of None \<Rightarrow> [] | Some a \<Rightarrow> [call_f a, call_f Class_derived]), t))"

definition tmp_main_cast :: "string option" where
  "tmp_main_cast = Option.bind (cast_ref Class_base Class_derived) (\<lambda>a. map_option call_f (cast_ref Class_other a))"

subsection \<open>\<open>jthread_impl.cpp\<close>\<close>

text \<open>\<open>main\<close> and the thread that runs \<open>print\<close>, which is number 1.\<close>

datatype jt_line = Line_hello | Line_concurrency

datatype jt_pc = JT_construct | JT_print | JT_destroy | JT_return

record jt =
  jt_world :: jworld
  jt_main :: jt_pc
  jt_out :: "jt_line list"

definition jt_init :: "jt \<Rightarrow> bool" where
  "jt_init s \<longleftrightarrow> s = \<lparr>jt_world = \<lparr>guarded_thread = None, running = {}, terminated = False\<rparr>, jt_main = JT_construct, jt_out = []\<rparr>"

datatype jt_event = JT_main | JT_thread

text \<open>The guard takes a thread that runs, so its constructor does not throw.\<close>

fun jt_move :: "jt_event \<Rightarrow> jt \<Rightarrow> jt option" where
  "jt_move JT_main s =
     (case jt_main s of
        JT_construct \<Rightarrow>
          (case jthreads_new (Some 1) ((jt_world s)\<lparr>running := insert 1 (running (jt_world s))\<rparr>) of
             (ok, w) \<Rightarrow> Some (s\<lparr>jt_world := w, jt_main := if ok then JT_print else JT_return\<rparr>))
      | JT_print \<Rightarrow> Some (s\<lparr>jt_out := jt_out s @ [Line_concurrency], jt_main := JT_destroy\<rparr>)
      | JT_destroy \<Rightarrow> map_option (\<lambda>w. s\<lparr>jt_world := w, jt_main := JT_return\<rparr>) (jthreads_destroy (jt_world s))
      | JT_return \<Rightarrow> None)"
| "jt_move JT_thread s =
     (if 1 \<in> running (jt_world s)
      then Some (s\<lparr>jt_world := (jt_world s)\<lparr>running := running (jt_world s) - {1}\<rparr>, jt_out := jt_out s @ [Line_hello]\<rparr>)
      else None)"

subsection \<open>What they do\<close>

theorem find_main_prints: "find_main = Some 8"
  by (simp add: find_main_def find_first_equal eval_nat_numeral upt_rec)

theorem template_main_undefined: "template_main = None"
  using inbubsort_overrun [of 0 "[4, 5, 1, 3, 2]"] by (simp add: template_main_def eval_nat_numeral)

text \<open>The second read of \<open>arena_main\<close> is of an object whose lifetime has ended.\<close>

theorem arena_main_undefined: "arena_main p = None"
  by (auto simp: arena_main_def arena_new_def malloc_def std_align_def get_alignment_def read_x_def arena_free_def Let_def
      split: if_splits)

lemma fill_array_eq: "i + k \<le> length xs \<Longrightarrow> fill_array i k xs = take i xs @ map int [i..<i + k] @ drop (i + k) xs"
proof (induction k arbitrary: i xs)
  case (Suc k)
  then have "fill_array i (Suc k) xs = take (Suc i) (xs[i := int i]) @ map int [Suc i..<Suc i + k] @ drop (Suc i + k) (xs[i := int i])"
    by simp
  also have "take (Suc i) (xs[i := int i]) = take i xs @ [int i]" using Suc.prems by (simp add: take_Suc_conv_app_nth)
  also have "[i..<i + Suc k] = i # [Suc i..<Suc i + k]" by (simp add: upt_rec)
  ultimately show ?case using Suc.prems by simp
qed simp

text \<open>
  The moved-from array still holds its elements, \<open>t\<close> has a copy of its own, both calls select the function of
  \<open>derived\<close>, and the second cast is undefined.
\<close>

theorem tmp_main_result:
  assumes "length x0 = 10"
  shows "tmp_main_begin t0 x0 = (map int [0..<10], [''Derived'', ''Derived''], map int [0..<10]) \<and> tmp_main_cast = None"
  using fill_array_eq [of 0 10 x0] assms by (simp add: tmp_main_begin_def move_obj_def cast_ref_def tmp_main_cast_def)

theorem tmp_main_result_witness: "fst (tmp_main_begin (replicate 10 7) (replicate 10 7)) = [0, 1, 2, 3, 4, 5, 6, 7, 8, 9]"
  using tmp_main_result [of "replicate 10 7" "replicate 10 7"] by (simp add: upt_rec)

definition jt_inv :: "jt \<Rightarrow> bool" where
  "jt_inv s \<longleftrightarrow> \<not> terminated (jt_world s) \<and>
     (case jt_main s of
        JT_construct \<Rightarrow> guarded_thread (jt_world s) = None \<and> running (jt_world s) = {} \<and> jt_out s = []
      | JT_print \<Rightarrow> guarded_thread (jt_world s) = Some 1
          \<and> (running (jt_world s) = {1} \<and> jt_out s = [] \<or> running (jt_world s) = {} \<and> jt_out s = [Line_hello])
      | JT_destroy \<Rightarrow> guarded_thread (jt_world s) = Some 1
          \<and> (running (jt_world s) = {1} \<and> jt_out s = [Line_concurrency] \<or> running (jt_world s) = {}
             \<and> (jt_out s = [Line_hello, Line_concurrency] \<or> jt_out s = [Line_concurrency, Line_hello]))
      | JT_return \<Rightarrow> guarded_thread (jt_world s) = None \<and> running (jt_world s) = {}
          \<and> (jt_out s = [Line_hello, Line_concurrency] \<or> jt_out s = [Line_concurrency, Line_hello]))"

lemma jt_inv_move:
  assumes inv: "jt_inv s" and move: "jt_move e s = Some s'"
  shows "jt_inv s'"
proof (cases e)
  case JT_main
  show ?thesis
  proof (cases "jt_main s")
    case JT_construct
    with inv move \<open>e = JT_main\<close> show ?thesis by (auto simp: jt_inv_def jthreads_new_def joinable_def Let_def)
  next
    case JT_print
    with move \<open>e = JT_main\<close> have "s' = s\<lparr>jt_out := jt_out s @ [Line_concurrency], jt_main := JT_destroy\<rparr>" by simp
    with inv JT_print show ?thesis unfolding jt_inv_def by force
  next
    case JT_destroy
    let ?w = "jt_world s"
    from inv JT_destroy have w: "guarded_thread ?w = Some 1" "\<not> terminated ?w"
      and or: "running ?w = {1} \<and> jt_out s = [Line_concurrency] \<or> running ?w = {}
        \<and> (jt_out s = [Line_hello, Line_concurrency] \<or> jt_out s = [Line_concurrency, Line_hello])"
      unfolding jt_inv_def by simp_all
    from move JT_destroy w \<open>e = JT_main\<close> have "1 \<notin> running ?w"
      and s': "s' = s\<lparr>jt_world := ?w\<lparr>guarded_thread := None\<rparr>, jt_main := JT_return\<rparr>"
      by (simp_all add: jthreads_destroy_def joinable_def join_thread_def destroy_thread_def split: if_splits)
    with or have "running ?w = {}" "jt_out s = [Line_hello, Line_concurrency] \<or> jt_out s = [Line_concurrency, Line_hello]" by blast+
    with w show ?thesis unfolding jt_inv_def s' by simp
  qed (use move \<open>e = JT_main\<close> in simp)
next
  case JT_thread
  with move have "1 \<in> running (jt_world s)" and s': "s' = s\<lparr>jt_world := (jt_world s)\<lparr>running := running (jt_world s) - {1}\<rparr>,
    jt_out := jt_out s @ [Line_hello]\<rparr>" by (auto split: if_splits)
  show ?thesis
  proof (cases "jt_main s")
    case JT_construct
    with inv \<open>1 \<in> running (jt_world s)\<close> show ?thesis by (simp add: jt_inv_def)
  next
    case JT_print
    with inv have w: "guarded_thread (jt_world s) = Some 1" "\<not> terminated (jt_world s)"
      and or: "running (jt_world s) = {1} \<and> jt_out s = [] \<or> running (jt_world s) = {} \<and> jt_out s = [Line_hello]"
      unfolding jt_inv_def by simp_all
    from or \<open>1 \<in> running (jt_world s)\<close> have "running (jt_world s) - {1} = {}" "jt_out s = []" by blast+
    with w JT_print show ?thesis unfolding jt_inv_def s' by simp
  next
    case JT_destroy
    with inv have w: "guarded_thread (jt_world s) = Some 1" "\<not> terminated (jt_world s)"
      and or: "running (jt_world s) = {1} \<and> jt_out s = [Line_concurrency] \<or> running (jt_world s) = {}"
      unfolding jt_inv_def by auto
    from or \<open>1 \<in> running (jt_world s)\<close> have "running (jt_world s) - {1} = {}" "jt_out s = [Line_concurrency]" by blast+
    with w JT_destroy show ?thesis unfolding jt_inv_def s' by simp
  next
    case JT_return
    with inv \<open>1 \<in> running (jt_world s)\<close> show ?thesis by (simp add: jt_inv_def)
  qed
qed

interpretation jthread_demo: invariant_system jt_init jt_move jt_inv
  by unfold_locales (simp add: jt_init_def jt_inv_def, rule jt_inv_move)

text \<open>
  The program of \<open>jthread_impl.cpp\<close> is stuck only at its end, and then both threads have printed and the guard
  has joined; \<open>main\<close> does not return before the thread has ended.
\<close>

theorem jthread_main_joins:
  assumes "reach jt_init jt_move s" and "\<And>e. jt_move e s = None"
  shows "jt_main s = JT_return \<and> running (jt_world s) = {} \<and> \<not> terminated (jt_world s)
     \<and> (jt_out s = [Line_hello, Line_concurrency] \<or> jt_out s = [Line_concurrency, Line_hello])"
proof -
  have inv: "jt_inv s" by (rule jthread_demo.reach_inv [OF assms(1)])
  from assms(2) [of JT_thread] have "1 \<notin> running (jt_world s)" by (simp split: if_splits)
  moreover have "jt_main s = JT_return"
  proof (cases "jt_main s")
    case JT_destroy
    with inv have "guarded_thread (jt_world s) = Some 1" unfolding jt_inv_def by simp
    with JT_destroy calculation assms(2) [of JT_main] show ?thesis
      by (simp add: jthreads_destroy_def joinable_def join_thread_def)
  qed (use assms(2) [of JT_main] in \<open>simp_all split: prod.splits\<close>)
  ultimately show ?thesis using inv by (simp add: jt_inv_def)
qed

end
