(* ===== verification/Type_Functions.thy ===== *)
theory Type_Functions
  imports Experiments
begin

text \<open>
  What the templates compute at compile time, as functions on types: the reference casts of
  \<open>c++_features_experiment/move_impl.cpp\<close>, the test for equal types, the concept of
  \<open>dsa_from_scratch/stl_algorithms/iterator_support.cpp\<close>, \<open>safe_cast\<close> of
  \<open>c++_features_experiment/template_metaprogramming.cpp\<close>, the variable template of \<open>prac.cpp\<close>, and the
  overloads of \<open>c++_features_experiment/reference_holders.cpp\<close>.
\<close>

subsection \<open>Reference types\<close>

text \<open>A type is a type without reference and the reference to it, if any.\<close>

datatype ref_kind = No_ref | Lvalue_ref | Rvalue_ref

type_synonym 'b cpp_type = "'b \<times> ref_kind"

text \<open>The primary template and the two specialisations.\<close>

fun remove_reference :: "'b cpp_type \<Rightarrow> 'b cpp_type" where
  "remove_reference (b, No_ref) = (b, No_ref)"
| "remove_reference (b, Lvalue_ref) = (b, No_ref)"
| "remove_reference (b, Rvalue_ref) = (b, No_ref)"

text \<open>\<open>T&&\<close>: the references collapse.\<close>

fun rvalue_ref_to :: "'b cpp_type \<Rightarrow> 'b cpp_type" where
  "rvalue_ref_to (b, Lvalue_ref) = (b, Lvalue_ref)"
| "rvalue_ref_to (b, r) = (b, Rvalue_ref)"

datatype category = Lvalue | Xvalue | Prvalue

text \<open>The category of a call by the type it returns, and the type that \<open>T&&\<close> deduces for an argument.\<close>

fun call_category :: "'b cpp_type \<Rightarrow> category" where
  "call_category (b, Lvalue_ref) = Lvalue"
| "call_category (b, Rvalue_ref) = Xvalue"
| "call_category (b, No_ref) = Prvalue"

definition deduced :: "'b \<Rightarrow> category \<Rightarrow> 'b cpp_type" where
  "deduced b c = (b, if c = Lvalue then Lvalue_ref else No_ref)"

text \<open>The types the two casts return, for the template argument \<open>T\<close>.\<close>

definition my_mov :: "'b cpp_type \<Rightarrow> 'b cpp_type" where
  "my_mov T = rvalue_ref_to (remove_reference T)"

definition my_forward :: "'b cpp_type \<Rightarrow> 'b cpp_type" where
  "my_forward T = rvalue_ref_to T"

text \<open>
  \<open>my_mov\<close> gives an rvalue of the type without its reference for every argument; \<open>my_forward<T>\<close>, called
  with the \<open>T\<close> deduced for an argument, gives an lvalue back for an lvalue and an rvalue for an rvalue.
\<close>

theorem my_mov_rvalue: "my_mov (deduced b c) = (b, Rvalue_ref) \<and> call_category (my_mov (deduced b c)) = Xvalue"
  by (simp add: my_mov_def deduced_def)

theorem my_forward_keeps: "call_category (my_forward (deduced b c)) = (if c = Lvalue then Lvalue else Xvalue)"
  by (simp add: my_forward_def deduced_def)

subsection \<open>Equal types and the concept\<close>

definition is_same :: "'b cpp_type \<Rightarrow> 'b cpp_type \<Rightarrow> bool" where
  "is_same T U \<longleftrightarrow> T = U"

text \<open>
  The concept, for the category tag of an iterator type. It compares the tag for equality, so it refuses
  the stronger random access iterators, the ones of the vector in \<open>main\<close> among them.
\<close>

definition is_bidirectional_iterator :: "iterator_tag \<Rightarrow> bool" where
  "is_bidirectional_iterator tag \<longleftrightarrow> is_same (tag, No_ref) (bidirectional_iterator_tag, No_ref)"

theorem concept_refuses_random_access:
  "binds_to random_access_iterator_tag bidirectional_iterator_tag \<and> \<not> is_bidirectional_iterator random_access_iterator_tag"
  by (auto simp: is_bidirectional_iterator_def is_same_def intro: binds_step binds_refl)

text \<open>
  A call of \<open>algo\<close> with iterators of a category: what the chosen function prints, \<open>None\<close> if none can be called. Only
  the first of the two functions is a candidate; the second names a class where a concept is needed. \<open>main\<close> calls it with
  the iterators of a vector.
\<close>

definition algo :: "iterator_tag \<Rightarrow> string option" where
  "algo tag = (if is_bidirectional_iterator tag then Some ''bind to bidirectional'' else None)"

definition algo_main :: "string option" where
  "algo_main = algo random_access_iterator_tag"

theorem algo_main_not_callable: "algo tag \<noteq> None \<longleftrightarrow> tag = bidirectional_iterator_tag" "algo_main = None"
  by (simp_all add: algo_main_def algo_def is_bidirectional_iterator_def is_same_def)

subsection \<open>\<open>safe_cast\<close>\<close>

text \<open>\<open>None\<close> is a program that does not compile: the array \<open>hello\<close> of the negative size.\<close>

definition safe_cast :: "nat \<Rightarrow> nat \<Rightarrow> 'v \<Rightarrow> 'v option" where
  "safe_cast size_to size_from v = (if (if size_to \<le> size_from then 1 else - 1 :: int) < 0 then None else Some v)"

lemma safe_cast_compiles: "safe_cast m n v \<noteq> None \<longleftrightarrow> m \<le> n"
  by (simp add: safe_cast_def)

subsection \<open>The variable template\<close>

text \<open>
  \<open>v<N>\<close> with its specialisation for 1. \<open>None\<close> is a program that is ill-formed: a constant expression in
  which an \<open>int\<close> overflows, or, below 1, an instantiation that never reaches the specialisation.
\<close>

function variable_template :: "int \<Rightarrow> int option" where
  "variable_template N =
     (if N = 1 then Some 1
      else if N < 1 then None
      else Option.bind (variable_template (N - 1)) (\<lambda>k. if N * k < 2 ^ 31 then Some (N * k) else None))"
  by pat_completeness auto
termination by (relation "measure nat") auto

declare variable_template.simps [simp del]

text \<open>It is the factorial, up to 12; beyond, the result does not fit into an \<open>int\<close>.\<close>

theorem variable_template_factorial:
  "variable_template (int n) = (if 1 \<le> n \<and> n \<le> 12 then Some (fact n) else None)"
proof (induction n)
  case 0
  show ?case by (subst variable_template.simps) simp
next
  case (Suc n)
  have step: "variable_template (int (Suc n)) = (if n = 0 then Some 1 else
      Option.bind (variable_template (int n)) (\<lambda>k. if int (Suc n) * k < 2 ^ 31 then Some (int (Suc n) * k) else None))"
    by (subst variable_template.simps) simp
  consider "n = 0" | "1 \<le> n" "n \<le> 11" | "n = 12" | "12 < n" by linarith
  then show ?case
  proof cases
    case 1
    then show ?thesis unfolding step by simp
  next
    case 2
    have "(fact (Suc n) :: int) \<le> fact 12" using 2 by (intro fact_mono) simp
    also have "(fact 12 :: int) < 2 ^ 31" by (simp add: fact_numeral)
    finally have "int (Suc n) * fact n < 2 ^ 31" by simp
    with 2 show ?thesis unfolding step Suc.IH by simp
  next
    case 3
    then have "variable_template (int n) = Some (fact 12)" using Suc.IH by simp
    then show ?thesis unfolding step using 3 by (simp add: fact_numeral)
  next
    case 4
    then show ?thesis unfolding step Suc.IH by simp
  qed
qed

subsection \<open>\<open>reference_wrapper\<close>\<close>

text \<open>
  A wrapper holds the address of an object; \<open>reference_wrapper<const T>\<close> lets nobody assign through it. \<open>None\<close>
  is a program that does not compile: an assignment to a const object, or a call of a deleted overload. An
  lvalue selects the overload with \<open>T &\<close>, an rvalue the one with \<open>const T &&\<close>.
\<close>

record reference_wrapper =
  rw_ptr :: nat
  rw_const :: bool

definition reference_wrapper_new :: "bool \<Rightarrow> nat \<Rightarrow> reference_wrapper" where
  "reference_wrapper_new const_object t = \<lparr>rw_ptr = t, rw_const = const_object\<rparr>"

definition ref_of :: "bool \<Rightarrow> category \<Rightarrow> nat \<Rightarrow> reference_wrapper option" where
  "ref_of const_object c t = (if c = Lvalue then Some (reference_wrapper_new const_object t) else None)"

definition cref_of :: "category \<Rightarrow> nat \<Rightarrow> reference_wrapper option" where
  "cref_of c t = (if c = Lvalue then Some (reference_wrapper_new True t) else None)"

text \<open>\<open>get()\<close> and the conversion give \<open>*ptr\<close>, here as the value read and as an assignment to it.\<close>

definition rw_get :: "(nat \<Rightarrow> 'v) \<Rightarrow> reference_wrapper \<Rightarrow> 'v" where
  "rw_get h w = h (rw_ptr w)"

definition rw_assign :: "reference_wrapper \<Rightarrow> 'v \<Rightarrow> (nat \<Rightarrow> 'v) \<Rightarrow> (nat \<Rightarrow> 'v) option" where
  "rw_assign w v h = (if rw_const w then None else Some (h(rw_ptr w := v)))"

text \<open>
  A wrapper refers to the object it was made for: it sees what is assigned to the object later, and an
  assignment through a wrapper of \<open>ref\<close> is one to the object; \<open>cref\<close> only reads, and neither takes an rvalue.
\<close>

theorem reference_wrapper_refers:
  "(case ref_of False c t of
      None \<Rightarrow> c \<noteq> Lvalue
    | Some w \<Rightarrow> c = Lvalue \<and> rw_get (h(t := v)) w = v \<and> rw_assign w v h = Some (h(t := v)))
   \<and> (case cref_of c t of
      None \<Rightarrow> c \<noteq> Lvalue
    | Some w \<Rightarrow> c = Lvalue \<and> rw_get (h(t := v)) w = v \<and> rw_assign w v h = None)"
  by (simp add: ref_of_def cref_of_def reference_wrapper_new_def rw_get_def rw_assign_def)

end
