(* ===== verification/Spec2Isabelle.thy ===== *)
theory Spec2Isabelle
  imports Peterson Locks_Weak Spsc_Weak Mpmc_Weak Mpmc_Lock_Demo Mpmc_Progress Reader_Writer Stack_Progress Reclaim_Progress Hazard_Progress Stack_Hazard_Leaks
    Threadsafe_Queue_Demo Threadpool Vector_Main Mmu Pool Small_String Search_Sort Unique_Ptr Arena Small_Programs Type_Functions
begin

text \<open>
  A verification library for the C++ repository \<open>modern-cpp-ds\<close>: concurrent queues, stacks and locks,
  containers written from scratch on raw memory, and single-file experiments. The files of the
  repository do not include one another (except \<open>vector.cpp\<close> and \<open>unique_ptr.cpp\<close>, which include
  \<open>trace.h\<close> for their demonstrations); what they share is the way they work, and the library is built on
  the contracts that follow from it.

  How a program is modelled. A component with threads is a state (a record with the fields of the class,
  and the program point and live local variables of every thread) and a move function: an event names
  the thread that makes its next step and how a choice the code leaves open is resolved (which sleeper
  \<open>notify_one\<close> wakes, whether a weak exchange fails spuriously, which address the allocator returns and
  whether it throws). A step is one access of a shared variable, or, where the code holds a mutex, what it
  does until it releases it. \<open>reach init move\<close> are the states that some interleaving leads to. The
  functions of a sequential component return their result and the new state; \<open>None\<close>, \<open>Undefined\<close> or the
  field \<open>fault\<close> stand for undefined behaviour of C++, the constructors of the result types for exceptions.
  Machine integers are words where they can wrap around (the tickets, the counters of the queues, the
  addresses of the memory management unit), and natural numbers where they are bounded by memory.

  The contracts, in \<open>DS_Prelude\<close>, \<open>Fifo_Spec\<close>, \<open>Treiber\<close>, \<open>Lock_Free\<close> and \<open>Weak_Memory\<close>, are locales: \<open>invariant_system\<close>
  (an inductive invariant), \<open>ranked_system\<close> (a bound on the length of every run), \<open>simulation\<close> (a refinement
  of an abstract system), \<open>lock_system\<close> (mutual exclusion), \<open>fifo_queue\<close> (a refinement of the bounded queue of
  \<open>Fifo_Spec\<close>), \<open>linearizable_stack\<close> (a legal history of a sequential stack, extended by one operation at a
  time), \<open>lock_free_system\<close> (progress of some thread, with a bound: a potential that only a successful exchange, a call or a
  spurious failure can raise) and \<open>race_free_system\<close> (no data race on a memory with acquire and release); \<open>deleter_contract\<close> in
  \<open>Unique_Ptr\<close> is what a \<open>unique_ptr\<close> needs of the function it calls. Each is interpreted on the models of the
  components that fulfil it.

  Two views of the atomics. \<open>Peterson\<close>, \<open>Locks\<close>, \<open>Spsc\<close>, \<open>Mpmc_Lockfree\<close> and the stacks interleave the accesses on
  one memory, which is what the default, sequentially consistent accesses mean. Three files use weaker orders:
  \<open>spsc_lockfree.cpp\<close>, \<open>mpmc_lockfree.cpp\<close> and \<open>prat::mutex\<close> of \<open>mutex.cpp\<close>. For them \<open>Weak_Memory\<close> has atomics with
  histories, views of the threads and a race detector for plain objects, and \<open>Spsc_Weak\<close>, \<open>Mpmc_Weak\<close> and
  \<open>Locks_Weak\<close> state each operation again on it, with the orders of the code. Their invariants are those of the
  interleaved models for the latest values, and what each view knows besides.

  \<^item> \<open>Peterson\<close>: \<open>peterson.cpp\<close>. \<open>enter\<close> and \<open>exit_region\<close> are the steps of \<open>enter\<close> and \<open>exit\<close>; exclusion,
    progress and bounded waiting hold; the tweaked \<open>enter_region\<close> is shown not to be exclusive.
  \<^item> \<open>Locks\<close>: \<open>concurrent_structures/mutex.cpp\<close>. \<open>prat::mutex\<close> (\<open>pm_\<close>), \<open>fairlock::mutex\<close> (\<open>fl_\<close>) and
    \<open>optimised_spinlock::mutex\<close> (\<open>os_\<close>): exclusion for all, no lost wake-up for the first, fairness of the
    second across the wrap-around of its 32-bit tickets (fewer than \<open>2 ^ 32\<close> threads); the third has no
    \<open>unlock\<close>; \<open>futex_wait\<close> is a call of a kernel that is a parameter. \<open>Locks_Weak\<close>: what \<open>prat::mutex\<close> protects has no data race.
  \<^item> \<open>Spsc\<close>: \<open>concurrent_structures/spsc_lockfree.cpp\<close>. \<open>push\<close>, \<open>pop\<close> and the destructor loop; FIFO with
    1024 places, no undefined behaviour, the destructor ends. \<open>spsc_bound\<close> limits the runs to those whose
    counter of the pushes stays below \<open>2 ^ 63\<close>; \<open>spsc_pop_at_wrap_around\<close> shows what fails beyond.
    \<open>Spsc_Weak\<close>: the same with relaxed, acquiring and releasing accesses.
  \<^item> \<open>Mpmc_Lockfree\<close>: \<open>concurrent_structures/mpmc_lockfree.cpp\<close>. The constructor, \<open>enqueue\<close> and \<open>dequeue\<close> for
    any number of threads; FIFO, no data race on the cells, the reasons for a refusal. \<open>mq_bound\<close> keeps the
    positions below \<open>2 ^ 63\<close>, so that the signed differences are exact. \<open>Mpmc_Weak\<close>: the same with relaxed,
    acquiring and releasing accesses and compare-exchanges that may fail on an old value. \<open>Mpmc_Progress\<close>: the operations are
    lock-free.
  \<^item> \<open>Mpmc_Lock\<close>: \<open>concurrent_structures/mpmc_lock.cpp\<close>. \<open>produce\<close>, \<open>consume\<close> and the two non-blocking
    operations on a mutex and two condition variables; FIFO across the wrap-around of the counters, no
    consumer left behind, a producer that is left behind. \<open>Mpmc_Lock_Demo\<close> is the program of the file (\<open>add\<close>, \<open>rem\<close>,
    \<open>main\<close>) as a client of the queue: it ends, and prints the numbers in order.
  \<^item> \<open>Reader_Writer\<close>: \<open>concurrent_structures/reader_writer.cpp\<close>. Exclusion, the count, and the unlock of a
    mutex by a thread that does not own it.
  \<^item> \<open>Treiber\<close>, \<open>Stack_Leaky\<close>, \<open>Stack_Reclaim\<close>, \<open>Stack_Hazard\<close>: \<open>concurrent_structures/stack_lockfree.cpp\<close>.
    \<open>Treiber\<close> has the nodes, the loop of \<open>push\<close>, the loop of \<open>pop\<close> and the lists in the heap that the four
    namespaces share; \<open>Stack_Leaky\<close> is \<open>exception\<close> and \<open>mem_leak\<close>, \<open>Stack_Reclaim\<close> is \<open>low_contention\<close>
    with \<open>threads_in_pop\<close> and \<open>to_be_deleted\<close>, \<open>Stack_Hazard\<close> is \<open>hazard_ptr\<close> with the table of 100 hazard
    pointers, the slot by slot scans, the list of nodes to reclaim and the thread-local owners. Each stack
    is linearizable, and the last two never use a node after they have freed it, although the allocator
    may reuse addresses; the exceptions are shown: the data race of \<open>low_contention\<close> on \<open>next\<close>, and the
    use after free of \<open>hazard_ptr\<close> when threads end. Who owns a node is a role the invariants quantify over;
    no operation computes with it. \<open>Stack_Hazard_Leaks\<close>: \<open>hazard_ptr\<close> loses no node, unless the allocation of a record fails.
    \<open>Stack_Progress\<close>, \<open>Reclaim_Progress\<close>, \<open>Hazard_Progress\<close>: each stack is lock-free, with the bound written out (the last two for
    a bounded number \<open>m\<close> of nodes, \<open>rc_few\<close> and \<open>hz_few\<close>, because their operations walk along lists of nodes); \<open>push\<close> is not wait-free.
  \<^item> \<open>Threadsafe_Queue\<close>: \<open>c++_features_experiment/threadsafe_queue.cpp\<close>. FIFO, no popping thread left behind,
    \<open>empty\<close> is inverted. \<open>Threadsafe_Queue_Demo\<close> is the program of the file with its ten threads: it ends, and what
    the threads print as popped is what they print as added.
  \<^item> \<open>Threadpool\<close>: \<open>c++_features_experiment/threadpools.cpp\<close>. Every accepted job is run once, no job is left
    behind, the destructor returns. A pool without workers accepts jobs and drops them.
  \<^item> \<open>Raw_Memory\<close>, \<open>Vector\<close>, \<open>Small_String\<close>: \<open>vector.cpp\<close> and \<open>string.cpp\<close> of
    \<open>dsa_from_scratch/data_structures\<close>. \<open>Raw_Memory\<close> has blocks of cells that hold an object or are raw, with
    \<open>operator new\<close>, placement new and destructor calls, and a budget \<open>room\<close> that decides when an allocation
    throws; \<open>Vector\<close> and \<open>Small_String\<close> work on it. The lemmas describe every operation by the list of the
    elements, with exceptions and leaks; the amortised cost of \<open>push_back\<close> is bounded. \<open>Vector_Demo\<close> has the iterators,
    the range-based \<open>for\<close> and the second part of \<open>main\<close>; \<open>Vector_Main\<close> the whole of it, with the \<open>std::vector\<close> that copies and
    moves objects of \<open>trace.h\<close> (the capacities it chooses are a parameter).
  \<^item> \<open>Unique_Ptr\<close>: \<open>unique_ptr.cpp\<close> of the same directory. \<open>reset\<close> calls a name that is not
    declared; with the member of this name for stored deleters every live object has exactly one owner in every program
    of constructions, moves, resets, releases and destructions, with the one for empty deleters \<open>reset\<close> deletes the
    wrong object, and \<open>main\<close> leaks.
  \<^item> \<open>Layout\<close>: sizes, alignments and offsets of the types of the programs, by the rules of the common ABI. The counters of the
    lock-free queues on cache lines of their own, the empty deleter of \<open>unique_ptr\<close> at no cost, the chunks of the pool, the
    entries of the page tables, and what \<open>main\<close> of \<open>string.cpp\<close> prints.
  \<^item> \<open>Trace_Object\<close>: \<open>trace.h\<close>. The assignments of two different objects never return.
  \<^item> \<open>Arena\<close>: \<open>c++_features_experiment/arena_allocator.cpp\<close>. The parts handed out are aligned, disjoint and
    inside the block; constructors that throw use it up.
  \<^item> \<open>Pool\<close>: \<open>prac.cpp\<close> (and the same class in \<open>mempool.cpp\<close>). The free list threaded through the chunks, the
    memory of the objects in them, and \<open>memmove\<close> for overlapping regions.
  \<^item> \<open>Mmu\<close>: \<open>memory_management_unit.cpp\<close>. The translation of an address, with the page tables in a memory of bytes; the
    recursion of \<open>Address_Lookup\<close> is a \<open>partial_function\<close>, so that not returning is the value \<open>None\<close>. A read where there is no
    object is \<open>Bad_access\<close>, and \<open>main\<close> ends with one.
  \<^item> \<open>Search_Sort\<close>, \<open>Experiments\<close>, \<open>Small_Programs\<close>: the branchless search, the compile-time bubble sort, \<open>find\<close> with
    the iterator tags, the guard of a thread, the test of the byte order, and the functions \<open>main\<close> that use them,
    with the one of \<open>tmp.cpp\<close>.
  \<^item> \<open>Type_Functions\<close>: what templates compute at compile time, as functions on types: \<open>move_impl.cpp\<close>, the concept of
    \<open>iterator_support.cpp\<close>, \<open>safe_cast\<close>, the variable template of \<open>prac.cpp\<close>; and \<open>reference_holders.cpp\<close>.

  Bounds and fuel. No definition uses fuel: the loops of sequential code are recursive functions with a
  termination proof, or \<open>partial_function\<close> where the code may not return; the loops of concurrent code are
  steps of a thread, so a loop that spins is a run. The theorems on termination say so: a bound on the steps
  (\<open>threadpool_shutdown_ends\<close>, \<open>reclaim_alone_frees\<close>, the lock-free structures, the two demonstrations) or the exact result.

  Not modelled. \<open>Weak_Memory\<close> has no load buffering (a value is read only after it was stored) and puts every store at
  the end of the modification order; its text says why this is enough for the three models. The weak models have
  no destructors, and no notification: those are in the interleaved models. One stack of \<open>hazard_ptr\<close> is modelled,
  not several of different types that share the list of nodes to reclaim. The bounds of \<open>lock_free_system\<close> are for the
  interleaved models. The elements of the lock-free queues and of the locked MPMC queue are copied and moved without exceptions, and
  \<open>submit_job\<close> and the constructor of the pool of \<open>prac.cpp\<close> do not run out of memory; \<open>operator==\<close> of the elements of
  \<open>find\<close> is equality, and the arena is not copied. A data race on a plain object and the unlock of a mutex that another
  thread owns are not a fault of the interleaved models: theorems of their own show where they occur
  (\<open>reclaim_next_data_race\<close>, \<open>reader_unlocks_foreign_mutex\<close>). Left out are destructors that only give back an array, input and output except for what the
  modelled programs print, and in \<open>prac.cpp\<close> the template \<open>alloc\<close>, which nothing instantiates, and \<open>func\<close>. Of the two
  functions \<open>algo\<close> of \<open>iterator_support.cpp\<close> the second does not compile; the model has the first. \<open>extra_notes.cpp\<close> is a
  comment, and the \<open>tmp.cpp\<close> of \<open>stl_algorithms\<close> is a program that is meant not to compile.

  What could follow: the progress of the lock-free operations on the weak memory (a value that was stored is read at
  some time), and several stacks that share the records of \<open>hazard_ptr\<close>.
\<close>

end
